(* ===== verification/Prelude.thy ===== *)
theory Prelude
  imports Main "HOL-Library.Word"
begin

text \<open>
  What the component theories share: the machine integers of the kernel (C++ \<open>uintN_t\<close>) as
  words, failures as values of a sum type with a bind, page arithmetic on 64-bit addresses, and
  the named collections of rewrite rules that the component proofs use.
\<close>

unbundle bit_operations_syntax

section \<open>Machine integers and failures\<close>

type_synonym u8 = "8 word"
type_synonym u16 = "16 word"
type_synonym u32 = "32 word"
type_synonym u64 = "64 word"

text \<open>
  The ways an operation of the kernel can fail to return: a call of the \<open>PANIC\<close> macro with its
  message, the dereference of a null pointer, an access to an address nothing is mapped at, an
  access outside an array, and an unbounded spin on a lock that is never released.
\<close>

datatype error =
    Panic string
  | Null_Deref
  | Page_Fault
  | Out_Of_Bounds
  | Spins_Forever

type_synonym 'a result = "error + 'a"

fun rbind :: "'a result \<Rightarrow> ('a \<Rightarrow> 'b result) \<Rightarrow> 'b result" where
  "rbind (Inl e) f = Inl e"
| "rbind (Inr x) f = f x"

definition require :: "bool \<Rightarrow> error \<Rightarrow> unit result" where
  "require b e = (if b then Inr () else Inl e)"

lemma rbind_cong [fundef_cong]:
  "m = m' \<Longrightarrow> (\<And>x. m' = Inr x \<Longrightarrow> f x = f' x) \<Longrightarrow> rbind m f = rbind m' f'"
  by (cases m') auto

lemma rbind_Inr_iff [simp]: "rbind m f = Inr y \<longleftrightarrow> (\<exists>x. m = Inr x \<and> f x = Inr y)"
  by (cases m) auto

lemma rbind_Inl_iff:
  "rbind m f = Inl e \<longleftrightarrow> m = Inl e \<or> (\<exists>x. m = Inr x \<and> f x = Inl e)"
  by (cases m) auto

lemma rbind_assoc: "rbind (rbind m f) g = rbind m (\<lambda>x. rbind (f x) g)"
  by (cases m) auto

lemma rbind_return [simp]: "rbind m Inr = m"
  by (cases m) auto

lemma require_Inr [simp]: "require b e = Inr u \<longleftrightarrow> b"
  by (simp add: require_def)

lemma require_Inl [simp]: "require b e = Inl e' \<longleftrightarrow> \<not> b \<and> e' = e"
  by (auto simp: require_def)

lemma require_True [simp]: "require True e = Inr ()"
  by (simp add: require_def)

lemma require_False [simp]: "require False e = Inl e"
  by (simp add: require_def)

lemma unat_u64_less: "unat (x :: u64) < 2 ^ 64"
proof -
  have "unat x < 2 ^ LENGTH(64)" by (rule unsigned_less)
  then show ?thesis by simp
qed

lemma unat_u8_less: "unat (x :: u8) < 256"
proof -
  have "unat x < 2 ^ LENGTH(8)" by (rule unsigned_less)
  then show ?thesis by simp
qed

lemma unat_of_nat_u64: "m < 2 ^ 64 \<Longrightarrow> unat (of_nat m :: u64) = m"
  by (simp add: unsigned_of_nat take_bit_nat_eq_self)

lemma unat_of_nat_len: "m < 2 ^ LENGTH('a) \<Longrightarrow> unat (of_nat m :: 'a::len word) = m"
  by (simp add: unsigned_of_nat take_bit_nat_eq_self)

lemma unat_less_len: "unat (x :: 'a::len word) < 2 ^ LENGTH('a)"
  by (rule unsigned_less)

lemma of_nat_u64_inject: "m < 2 ^ 64 \<Longrightarrow> n < 2 ^ 64 \<Longrightarrow> (of_nat m :: u64) = of_nat n \<longleftrightarrow> m = n"
  by (metis unat_of_nat_u64)

section \<open>Collections of facts\<close>

named_theorems field_simps_hw \<open>reading a bit field back after a write\<close>
named_theorems page_simps \<open>page alignment in terms of the numeric value of an address\<close>

section \<open>Page arithmetic\<close>

text \<open>\<open>x &= ~4095ull\<close>, and \<open>x += 4095; x &= ~4095ull\<close>.\<close>

definition page_floor :: "u64 \<Rightarrow> u64" where
  "page_floor x = x AND NOT 4095"

definition page_ceil :: "u64 \<Rightarrow> u64" where
  "page_ceil x = (x + 4095) AND NOT 4095"

lemma page_floor_push_drop: "page_floor x = push_bit 12 (drop_bit 12 x)"
proof -
  have m: "(4095 :: u64) = mask 12" by (simp add: mask_eq_exp_minus_1)
  show ?thesis
    unfolding page_floor_def m by (rule bit_word_eqI) (auto simp: bit_simps)
qed

lemma unat_page_floor [page_simps]: "unat (page_floor x) = 4096 * (unat x div 4096)"
proof -
  have "unat (drop_bit 12 x) = unat x div 4096"
    by (simp add: drop_bit_eq_div unat_div_distrib)
  moreover have "unat x div 4096 * 4096 < 2 ^ 64"
    using unat_u64_less [of x]
    by (intro le_less_trans [OF div_times_less_eq_dividend]) simp
  ultimately show ?thesis
    by (simp add: page_floor_push_drop push_bit_eq_mult unat_word_ariths mult.commute)
qed

lemma page_ceil_floor: "page_ceil x = page_floor (x + 4095)"
  by (simp add: page_ceil_def page_floor_def)

lemma page_floor_le: "page_floor x \<le> x"
  by (simp add: word_le_nat_alt unat_page_floor)

lemma unat_page_ceil [page_simps]:
  assumes "unat x + 4095 < 2 ^ 64"
  shows "unat (page_ceil x) = 4096 * ((unat x + 4095) div 4096)"
  using assms by (simp add: page_ceil_floor unat_page_floor unat_word_ariths)

end
