(* ===== verification/Aligner.thy ===== *)
theory Aligner
  imports Prelude
begin

text \<open>
  The compile-time arithmetic of \<open>utils::aligner\<close> (\<open>kernel/utils/aligner.h\<close>), which rounds the
  size of an object up to a power of two so that an array of such objects never crosses a page.
\<close>

definition aligner_is_power_of_two :: "u64 \<Rightarrow> bool" where
  "aligner_is_power_of_two number \<longleftrightarrow> number AND (number - 1) = 0"

function empty_leading_bits :: "u64 \<Rightarrow> u64 \<Rightarrow> u64" where
  "empty_leading_bits number count =
     (if number = 0 then 64 - count else empty_leading_bits (drop_bit 1 number) (count + 1))"
  by pat_completeness auto
termination
proof (relation "measure (\<lambda>(number, count). unat number)")
  fix number count :: u64
  assume "number \<noteq> 0"
  then have "unat number > 0" by (simp add: unat_gt_0)
  then show "((drop_bit 1 number, count + 1), (number, count))
      \<in> measure (\<lambda>(number, count). unat number)"
    by (simp add: drop_bit_eq_div unat_div_distrib)
qed simp

declare empty_leading_bits.simps [simp del]

definition next_power :: "u64 \<Rightarrow> u64" where
  "next_power number = push_bit (unat (64 - empty_leading_bits number 0)) 1"

definition up_to_power :: "u64 \<Rightarrow> u64" where
  "up_to_power number = (if aligner_is_power_of_two number then number else next_power number)"

text \<open>The number of significant bits, as a characterisation of the recursion.\<close>

lemma empty_leading_bits_width:
  assumes "2 ^ k \<le> unat n" "unat n < 2 ^ Suc k"
  shows "empty_leading_bits n c = 64 - (c + of_nat (Suc k))"
  using assms
proof (induction k arbitrary: n c)
  case 0
  then have "unat n = 1" by simp
  then have "n = 1" by (metis unat_1 word_unat_eq_iff)
  then show ?case
    by (simp add: empty_leading_bits.simps [of 1] empty_leading_bits.simps [of 0] drop_bit_eq_div)
next
  case (Suc k)
  have nz: "n \<noteq> 0" using Suc.prems by auto
  have "unat (drop_bit 1 n) = unat n div 2"
    by (simp add: drop_bit_eq_div unat_div_distrib)
  then have "2 ^ k \<le> unat (drop_bit 1 n)" "unat (drop_bit 1 n) < 2 ^ Suc k"
    using Suc.prems by auto
  then have "empty_leading_bits (drop_bit 1 n) (c + 1) = 64 - (c + 1 + of_nat (Suc k))"
    by (rule Suc.IH)
  then show ?case
    using nz by (subst empty_leading_bits.simps) (simp add: algebra_simps)
qed

lemma top_bit_position:
  assumes "0 < (m::nat)"
  obtains k where "2 ^ k \<le> m" "m < 2 ^ Suc k"
  using ex_power_ivl1 [of 2 m] assms by auto

lemma next_power_value:
  assumes "2 ^ k \<le> unat n" "unat n < 2 ^ Suc k" "k < 63"
  shows "unat (next_power n) = 2 ^ Suc k"
proof -
  have "64 - empty_leading_bits n 0 = of_nat (Suc k)"
    using empty_leading_bits_width [OF assms(1,2), of 0] by simp
  moreover have "unat (of_nat (Suc k) :: u64) = Suc k"
    using assms(3) by (intro unat_of_nat_u64) (simp add: less_trans [of "Suc k" 64])
  ultimately have "next_power n = push_bit (Suc k) 1"
    by (simp only: next_power_def)
  then have "next_power n = 2 ^ Suc k"
    by (simp add: push_bit_eq_mult)
  moreover have "unat (2 ^ Suc k :: u64) = 2 ^ Suc k"
  proof -
    have "(2::nat) ^ Suc k < 2 ^ 64" using assms(3) by (intro power_strict_increasing) auto
    from unat_of_nat_u64 [OF this] show ?thesis by simp
  qed
  ultimately show ?thesis by simp
qed

text \<open>A number that is not the power of two below it shares that bit with its predecessor.\<close>

lemma power_test_sound:
  assumes "2 ^ k \<le> unat n" "unat n < 2 ^ Suc k" "aligner_is_power_of_two n"
  shows "unat n = 2 ^ k"
proof (rule ccontr)
  assume "unat n \<noteq> 2 ^ k"
  with assms(1) have big: "2 ^ k \<le> unat n - 1" by simp
  have div1: "m div 2 ^ k = 1" if "2 ^ k \<le> m" "m < 2 ^ Suc k" for m :: nat
    using that by (intro div_nat_eqI) auto
  have pred: "unat (n - 1) = unat n - 1"
    using assms(1) big by (intro unat_minus_one) auto
  have "bit n k"
  proof -
    have "bit (unat n) k" using div1 [OF assms(1,2)] by (simp add: bit_iff_odd)
    then show ?thesis by (simp add: bit_unsigned_iff)
  qed
  moreover have "bit (n - 1) k"
  proof -
    have "unat (n - 1) div 2 ^ k = 1" using big assms(2) pred by (intro div1) auto
    then have "bit (unat (n - 1)) k" by (simp add: bit_iff_odd)
    then show ?thesis by (simp add: bit_unsigned_iff)
  qed
  ultimately have "bit (n AND (n - 1)) k" by (simp add: bit_and_iff)
  with assms(3) show False by (simp add: aligner_is_power_of_two_def)
qed

lemma power_test_complete:
  assumes "unat n = 2 ^ k"
  shows "aligner_is_power_of_two n"
proof -
  have "n = of_nat (unat n)" by simp
  with assms have "n = 2 ^ k" by simp
  moreover have "(2 ^ k :: u64) AND mask k = 0"
    by (rule bit_word_eqI) (simp add: bit_simps)
  ultimately show ?thesis by (simp add: aligner_is_power_of_two_def mask_eq_exp_minus_1)
qed

lemma up_to_power_cases:
  assumes "0 < unat n" "unat n \<le> 2 ^ 63"
  obtains k where "unat (up_to_power n) = 2 ^ k" "unat n \<le> 2 ^ k" "2 ^ k < 2 * unat n"
proof -
  obtain k where k: "2 ^ k \<le> unat n" "unat n < 2 ^ Suc k"
    using assms(1) by (rule top_bit_position)
  show ?thesis
  proof (cases "aligner_is_power_of_two n")
    case True
    then have "unat n = 2 ^ k" using power_test_sound k by blast
    with True that [of k] show ?thesis by (simp add: up_to_power_def)
  next
    case False
    then have ne: "unat n \<noteq> 2 ^ j" for j using power_test_complete by blast
    from ne [of 63]
    have "unat n < 2 ^ 63" using assms(2) by simp
    with k(1) have "(2::nat) ^ k < 2 ^ 63" by linarith
    then have "k < 63" by (rule power_less_imp_less_exp [rotated]) simp
    with k have "unat (next_power n) = 2 ^ Suc k" by (intro next_power_value)
    with False k ne [of k] that [of "Suc k"] show ?thesis by (simp add: up_to_power_def)
  qed
qed

text \<open>
  The alignment of \<open>utils::aligner\<close> is a power of two, at least the size of the object and
  less than twice it, for every size up to \<open>2^63\<close>.
\<close>

theorem up_to_power_least:
  assumes "0 < n" "n \<le> 2 ^ 63"
  shows "\<exists>k. unat (up_to_power n) = 2 ^ k \<and> unat n \<le> 2 ^ k \<and> 2 ^ k < 2 * unat n"
proof -
  have "0 < unat n" "unat n \<le> 2 ^ 63"
    using assms by (simp_all add: unat_gt_0 word_le_nat_alt)
  then show ?thesis by (rule up_to_power_cases) blast
qed

theorem up_to_power_least_witness:
  "\<exists>k. unat (up_to_power 40) = 2 ^ k \<and> unat (40 :: u64) \<le> 2 ^ k \<and> 2 ^ k < 2 * unat (40 :: u64)"
  by (rule up_to_power_least) simp_all

end
