(* ===== verification/Allocator.thy ===== *)
theory Allocator
  imports Aligner
begin

text \<open>
  Objects of class \<open>utils::chained\<close> and the slab allocator \<open>utils::allocator\<close>
  (\<open>kernel/utils/allocator.h\<close>, with \<open>allocate_chained\<close> of \<open>kernel/inc.h\<close>), at the level of
  pointers: a store maps the address of every mapped object to its links and its payload, a null
  pointer is \<open>None\<close>, and reading through a null pointer or at an unmapped address is an error.
  The containers of \<open>utils\<close> reach the allocator through the interface \<open>node_supply\<close>.
\<close>

section \<open>Objects in memory\<close>

record 'v node =
  n_next :: "nat option"
  n_prev :: "nat option"
  n_val :: 'v

type_synonym 'v store = "nat \<Rightarrow> 'v node option"

definition deref :: "'v store \<Rightarrow> nat option \<Rightarrow> 'v node result" where
  "deref st p = (case p of None \<Rightarrow> Inl Null_Deref
     | Some a \<Rightarrow> (case st a of None \<Rightarrow> Inl Page_Fault | Some n \<Rightarrow> Inr n))"

definition set_next :: "'v store \<Rightarrow> nat option \<Rightarrow> nat option \<Rightarrow> 'v store result" where
  "set_next st p q = rbind (deref st p) (\<lambda>n. Inr (st(the p \<mapsto> n\<lparr>n_next := q\<rparr>)))"

definition set_prev :: "'v store \<Rightarrow> nat option \<Rightarrow> nat option \<Rightarrow> 'v store result" where
  "set_prev st p q = rbind (deref st p) (\<lambda>n. Inr (st(the p \<mapsto> n\<lparr>n_prev := q\<rparr>)))"

lemma deref_None [simp]: "deref st None = Inl Null_Deref"
  by (simp add: deref_def)

lemma deref_Some [simp]: "st a = Some n \<Longrightarrow> deref st (Some a) = Inr n"
  by (simp add: deref_def)

lemma deref_Inr: "deref st p = Inr n \<longleftrightarrow> (\<exists>a. p = Some a \<and> st a = Some n)"
  by (auto simp: deref_def split: option.splits)

lemma set_next_Some [simp]: "st a = Some n \<Longrightarrow> set_next st (Some a) q = Inr (st(a \<mapsto> n\<lparr>n_next := q\<rparr>))"
  by (simp add: set_next_def)

lemma set_prev_Some [simp]: "st a = Some n \<Longrightarrow> set_prev st (Some a) q = Inr (st(a \<mapsto> n\<lparr>n_prev := q\<rparr>))"
  by (simp add: set_prev_def)

lemma set_next_None [simp]: "set_next st None q = Inl Null_Deref"
  by (simp add: set_next_def)

lemma set_prev_None [simp]: "set_prev st None q = Inl Null_Deref"
  by (simp add: set_prev_def)

text \<open>Following the \<open>next\<close> links from \<open>p\<close> visits the objects \<open>as\<close> and arrives at \<open>q\<close>.\<close>

fun chain :: "'v store \<Rightarrow> nat option \<Rightarrow> nat list \<Rightarrow> nat option \<Rightarrow> bool" where
  "chain st p [] q \<longleftrightarrow> p = q"
| "chain st p (a # as) q \<longleftrightarrow> p = Some a \<and> (\<exists>n. st a = Some n \<and> chain st (n_next n) as q)"

lemma chain_append [simp]:
  "chain st p (as @ bs) q \<longleftrightarrow> (\<exists>r. chain st p as r \<and> chain st r bs q)"
  by (induction as arbitrary: p) auto

lemma chain_frame: "(\<And>a. a \<in> set as \<Longrightarrow> st' a = st a) \<Longrightarrow> chain st' p as q = chain st p as q"
  by (induction as arbitrary: p) auto

lemma chain_mapped: "chain st p as q \<Longrightarrow> a \<in> set as \<Longrightarrow> st a \<noteq> None"
  by (induction as arbitrary: p) auto

section \<open>The allocator\<close>

record allocator =
  al_free_count :: u64
  al_free :: "nat option"

definition empty_allocator :: allocator where
  "empty_allocator = \<lparr>al_free_count = 0, al_free = None\<rparr>"

text \<open>
  \<open>allocate_chained<T>\<close> for objects smaller than a page: one page at \<open>base\<close>, cut into
  \<open>4096 / asz\<close> objects (\<open>asz\<close> the aligned size, \<open>sz\<close> the size of \<open>T\<close>). The last object of the
  array is recognised by the index \<open>4096 / sz - 1\<close>.
\<close>

definition chained_page :: "'v \<Rightarrow> nat \<Rightarrow> nat \<Rightarrow> nat \<Rightarrow> 'v store \<Rightarrow> 'v store" where
  "chained_page dflt sz asz base st =
     st ++ map_of (map (\<lambda>i. (base + i * asz,
        \<lparr>n_next = (if i \<noteq> 4096 div sz - 1 then Some (base + (i + 1) * asz) else None),
         n_prev = (if i \<noteq> 0 then Some (base + (i - 1) * asz) else None),
         n_val = dflt\<rparr>)) [0..<4096 div asz])"

definition alloc_node :: "'v \<Rightarrow> nat \<Rightarrow> nat \<Rightarrow> nat \<Rightarrow> 'v store \<Rightarrow> allocator \<Rightarrow>
    (nat \<times> 'v store \<times> allocator) result" where
  "alloc_node dflt sz asz base st al =
     (let (st, al) =
        (if al_free_count al = 0
         then (chained_page dflt sz asz base st,
               al\<lparr>al_free := Some base,
                  al_free_count := (if 4096 > sz then of_nat (4096 div sz) else 1)\<rparr>)
         else (st, al))
      in rbind (deref st (al_free al)) (\<lambda>n.
         Inr (the (al_free al), st, al\<lparr>al_free := n_next n\<rparr>)))"

definition free_node :: "nat \<Rightarrow> 'v store \<Rightarrow> allocator \<Rightarrow> ('v store \<times> allocator) result" where
  "free_node ptr st al =
     (let al = al\<lparr>al_free_count := al_free_count al + 1\<rparr>
      in if al_free_count al \<noteq> 0
         then rbind (deref st (al_free al)) (\<lambda>f.
              rbind (set_next st (Some ptr) (n_next f)) (\<lambda>st.
              rbind (set_prev st (Some ptr) (al_free al)) (\<lambda>st.
              rbind (deref st (al_free al)) (\<lambda>f.
              rbind (if n_next f \<noteq> None then set_prev st (n_next f) (Some ptr) else Inr st) (\<lambda>st.
              rbind (set_next st (al_free al) (Some ptr)) (\<lambda>st. Inr (st, al)))))))
         else Inr (st, al\<lparr>al_free := Some ptr\<rparr>))"

text \<open>\<open>allocate_id<T>()\<close>: the next value of a counter that starts at one.\<close>

definition allocate_id :: "u64 \<Rightarrow> u64 \<times> u64" where
  "allocate_id counter = (counter, counter + 1)"

section \<open>The interface the containers rely on\<close>

text \<open>
  \<open>avail st s fs\<close> says that the next allocations return the addresses \<open>fs\<close> in this order.
  An allocation takes the first of them and leaves every object outside \<open>fs\<close> alone; writing to
  objects that are not in \<open>fs\<close> does not disturb the allocator; a freed object is the second
  one to be handed out again.
\<close>

locale node_supply =
  fixes alloc :: "'v store \<Rightarrow> 's \<Rightarrow> (nat \<times> 'v store \<times> 's) result"
    and free :: "nat \<Rightarrow> 'v store \<Rightarrow> 's \<Rightarrow> ('v store \<times> 's) result"
    and avail :: "'v store \<Rightarrow> 's \<Rightarrow> nat list \<Rightarrow> bool"
    and free_ok :: "'s \<Rightarrow> bool"
  assumes avail_distinct: "avail st s fs \<Longrightarrow> distinct fs"
    and alloc_law: "avail st s (f # fs) \<Longrightarrow>
      \<exists>st' s'. alloc st s = Inr (f, st', s') \<and> avail st' s' fs \<and> st' f \<noteq> None \<and>
        (\<forall>x. x \<notin> set (f # fs) \<longrightarrow> st' x = st x)"
    and avail_frame: "avail st s fs \<Longrightarrow> (\<forall>x\<in>set fs. st' x = st x) \<Longrightarrow> avail st' s fs"
    and free_law: "avail st s (f # g # fs) \<Longrightarrow> free_ok s \<Longrightarrow> p \<notin> set (f # g # fs) \<Longrightarrow> st p \<noteq> None \<Longrightarrow>
      \<exists>st' s'. free p st s = Inr (st', s') \<and> avail st' s' (f # p # g # fs) \<and>
        (\<forall>x. x \<notin> set (f # p # g # fs) \<longrightarrow> st' x = st x)"

section \<open>The slab allocator provides it\<close>

definition page_nodes :: "nat \<Rightarrow> nat \<Rightarrow> nat list" where
  "page_nodes asz base = map (\<lambda>i. base + i * asz) [0..<4096 div asz]"

definition free_list :: "nat \<Rightarrow> nat \<Rightarrow> nat \<Rightarrow> 'v store \<Rightarrow> allocator \<Rightarrow> nat list \<Rightarrow> bool" where
  "free_list sz asz base st al fs \<longleftrightarrow> 0 < sz \<and> sz \<le> asz \<and> asz \<le> 4096 \<and>
     (if al_free_count al = 0 then fs = page_nodes asz base
      else distinct fs \<and> (\<exists>q. chain st (al_free al) fs q))"

definition may_free :: "allocator \<Rightarrow> bool" where
  "may_free al \<longleftrightarrow> al_free_count al \<noteq> 0 \<and> al_free_count al + 1 \<noteq> 0"

lemma distinct_page_nodes: "0 < asz \<Longrightarrow> distinct (page_nodes asz base)"
  by (auto simp: page_nodes_def distinct_map inj_on_def)

lemma chained_page_outside:
  "x \<notin> set (page_nodes asz base) \<Longrightarrow> chained_page dflt sz asz base st x = st x"
  by (auto simp: chained_page_def page_nodes_def map_add_def map_of_eq_None_iff image_iff
      split: option.splits dest!: map_of_SomeD)

lemma chained_page_at:
  assumes "0 < asz" "i < 4096 div asz"
  shows "chained_page dflt sz asz base st (base + i * asz) =
    Some \<lparr>n_next = (if i \<noteq> 4096 div sz - 1 then Some (base + (i + 1) * asz) else None),
          n_prev = (if i \<noteq> 0 then Some (base + (i - 1) * asz) else None), n_val = dflt\<rparr>"
proof -
  have inj: "inj_on (\<lambda>i. base + i * asz) (set [0..<4096 div asz])"
    using assms(1) by (auto simp: inj_on_def)
  have "map_of (map (\<lambda>i. (base + i * asz, g i)) [0..<4096 div asz]) (base + i * asz) = Some (g i)"
    for g :: "nat \<Rightarrow> 'a node"
    using assms inj by (intro map_of_is_SomeI) (auto simp: comp_def distinct_map)
  then show ?thesis by (simp add: chained_page_def map_add_def)
qed

text \<open>Where the links of a fresh page end: the index test misses the last object of the array
  when rounding the size up left fewer objects in the page.\<close>

definition page_end :: "nat \<Rightarrow> nat \<Rightarrow> nat \<Rightarrow> nat option" where
  "page_end sz asz base =
     (if 4096 div asz = 4096 div sz then None else Some (base + 4096 div asz * asz))"

lemma chained_page_chain:
  assumes "0 < sz" "sz \<le> asz" "k \<le> 4096 div asz" "0 < k"
  shows "chain (chained_page dflt sz asz base st) (Some (base + (4096 div asz - k) * asz))
    (map (\<lambda>i. base + i * asz) [4096 div asz - k..<4096 div asz]) (page_end sz asz base)"
  using assms(3,4)
proof (induction k)
  case (Suc k)
  let ?N = "4096 div asz" and ?st = "chained_page dflt sz asz base st"
  have le: "?N \<le> 4096 div sz" using assms by (intro div_le_mono2) auto
  let ?i = "?N - Suc k"
  have i: "?i < ?N" using Suc.prems by linarith
  have st: "?st (base + ?i * asz) =
    Some \<lparr>n_next = (if ?i \<noteq> 4096 div sz - 1 then Some (base + (?i + 1) * asz) else None),
          n_prev = (if ?i \<noteq> 0 then Some (base + (?i - 1) * asz) else None), n_val = dflt\<rparr>"
    by (rule chained_page_at) (use assms i in auto)
  have split: "[?i..<?N] = ?i # [?N - k..<?N]"
    using i Suc.prems by (subst upt_conv_Cons) (auto simp: Suc_diff_Suc)
  show ?case
  proof (cases "k = 0")
    case True
    have "?i + 1 = ?N" "?i = 4096 div sz - 1 \<longleftrightarrow> ?N = 4096 div sz" using True i le by auto
    with True st show ?thesis unfolding split by (auto simp: page_end_def)
  next
    case False
    with le Suc.prems have "?i \<noteq> 4096 div sz - 1" "?i + 1 = ?N - k" by auto
    with st Suc False show ?thesis unfolding split by simp
  qed
qed simp

lemma alloc_node_law:
  assumes "free_list sz asz base st al (f # fs)"
  shows "\<exists>st' al'. alloc_node dflt sz asz base st al = Inr (f, st', al') \<and>
    free_list sz asz base st' al' fs \<and> st' f \<noteq> None \<and>
    (\<forall>x. x \<notin> set (f # fs) \<longrightarrow> st' x = st x)"
proof (cases "al_free_count al = 0")
  case False
  with assms obtain q n where n: "al_free al = Some f" "st f = Some n" "chain st (n_next n) fs q"
    by (auto simp: free_list_def)
  with False have "alloc_node dflt sz asz base st al = Inr (f, st, al\<lparr>al_free := n_next n\<rparr>)"
    by (simp add: alloc_node_def)
  moreover have "free_list sz asz base st (al\<lparr>al_free := n_next n\<rparr>) fs"
    using assms False n by (auto simp: free_list_def)
  ultimately show ?thesis using n(2) by blast
next
  case True
  let ?st = "chained_page dflt sz asz base st"
  let ?cnt = "if 4096 > sz then of_nat (4096 div sz) else 1 :: u64"
  from assms True have sz: "0 < sz" "sz \<le> asz" "asz \<le> 4096" and eq: "page_nodes asz base = f # fs"
    by (auto simp: free_list_def)
  have N: "0 < 4096 div asz" using sz by (simp add: div_greater_zero_iff)
  have "page_nodes asz base = map (\<lambda>i. base + i * asz) [0..<4096 div asz]"
    by (simp add: page_nodes_def)
  moreover from this eq N have f: "f = base" by (simp add: upt_conv_Cons)
  ultimately have "chain ?st (Some f) (f # fs) (page_end sz asz base)"
    using chained_page_chain [OF sz(1,2) order_refl N, of dflt base st] eq by auto
  then obtain n where n: "?st f = Some n" "chain ?st (n_next n) fs (page_end sz asz base)"
    by auto
  have "4096 div sz < 2 ^ 64" "4096 div sz \<noteq> 0 \<or> \<not> 4096 > sz"
    using sz by (auto simp: div_greater_zero_iff intro: le_less_trans [OF div_le_dividend])
  then have "?cnt \<noteq> 0"
    using of_nat_u64_inject [of "4096 div sz" 0] by auto
  moreover have "distinct fs" using distinct_page_nodes [of asz base] sz eq by auto
  ultimately have "free_list sz asz base ?st (al\<lparr>al_free := n_next n, al_free_count := ?cnt\<rparr>) fs"
    using sz n(2) by (auto simp: free_list_def)
  moreover have "alloc_node dflt sz asz base st al =
      Inr (f, ?st, al\<lparr>al_free := n_next n, al_free_count := ?cnt\<rparr>)"
    using True n(1) f by (simp add: alloc_node_def)
  moreover have "\<forall>x. x \<notin> set (f # fs) \<longrightarrow> ?st x = st x"
    using chained_page_outside eq by metis
  ultimately show ?thesis using n(1) by auto
qed

lemma free_node_law:
  assumes "free_list sz asz base st al (f # g # fs)" "may_free al" "p \<notin> set (f # g # fs)"
    and "st p \<noteq> None"
  shows "\<exists>st' al'. free_node p st al = Inr (st', al') \<and>
    free_list sz asz base st' al' (f # p # g # fs) \<and>
    (\<forall>x. x \<notin> set (f # p # g # fs) \<longrightarrow> st' x = st x)"
proof -
  from assms(1,2) have sz: "0 < sz" "sz \<le> asz" "asz \<le> 4096" and d: "distinct (f # g # fs)"
    and nz: "al_free_count al \<noteq> 0" "al_free_count al + 1 \<noteq> 0"
    by (auto simp: free_list_def may_free_def)
  from assms(1) nz obtain q n ng where fr: "al_free al = Some f" "st f = Some n"
    "n_next n = Some g" "st g = Some ng" "chain st (n_next ng) fs q"
    by (auto simp: free_list_def)
  from assms(4) obtain m where m: "st p = Some m" by auto
  have ne: "p \<noteq> f" "p \<noteq> g" "p \<notin> set fs" "f \<noteq> g" "f \<notin> set fs" "g \<notin> set fs"
    using assms(3) d by auto
  define st' where "st' = st(p \<mapsto> m\<lparr>n_next := Some g, n_prev := Some f\<rparr>,
    g \<mapsto> ng\<lparr>n_prev := Some p\<rparr>, f \<mapsto> n\<lparr>n_next := Some p\<rparr>)"
  let ?al = "al\<lparr>al_free_count := al_free_count al + 1\<rparr>"
  have "free_node p st al = Inr (st', ?al)"
    using fr m ne nz by (simp add: free_node_def Let_def st'_def)
  moreover have "chain st' (n_next ng) fs q"
    using fr(5) ne by (subst chain_frame [of _ _ st]) (auto simp: st'_def)
  then have "free_list sz asz base st' ?al (f # p # g # fs)"
    using sz nz d ne fr by (auto simp: free_list_def st'_def)
  moreover have "\<forall>x. x \<notin> set (f # p # g # fs) \<longrightarrow> st' x = st x"
    by (simp add: st'_def)
  ultimately show ?thesis by blast
qed

interpretation slab: node_supply "alloc_node dflt sz asz base" free_node "free_list sz asz base" may_free
  for dflt sz asz base
proof
  fix st :: "'v store" and al fs
  assume "free_list sz asz base st al fs"
  then show "distinct fs" by (auto simp: free_list_def distinct_page_nodes split: if_splits)
next
  fix st st' :: "'v store" and al fs
  assume A: "free_list sz asz base st al fs" and B: "\<forall>x\<in>set fs. st' x = st x"
  have "chain st' p fs = chain st p fs" for p using B by (intro ext chain_frame) auto
  with A show "free_list sz asz base st' al fs" by (simp add: free_list_def)
qed (rule alloc_node_law free_node_law; assumption)+

section \<open>Capacity\<close>

text \<open>
  \<open>n\<close> allocations in a row, collecting the addresses. The counter \<open>_free_count\<close> is set when the
  page is cut and raised by \<open>free\<close>, and no line of \<open>allocate\<close> lowers it, so the test that would
  fetch a second page never succeeds again.
\<close>

fun alloc_many :: "'v \<Rightarrow> nat \<Rightarrow> nat \<Rightarrow> nat \<Rightarrow> nat \<Rightarrow> 'v store \<Rightarrow> allocator \<Rightarrow>
    (nat list \<times> 'v store \<times> allocator) result" where
  "alloc_many dflt sz asz base 0 st al = Inr ([], st, al)"
| "alloc_many dflt sz asz base (Suc n) st al =
     rbind (alloc_node dflt sz asz base st al) (\<lambda>(a, st, al).
     rbind (alloc_many dflt sz asz base n st al) (\<lambda>(as, st, al). Inr (a # as, st, al)))"

lemma alloc_many_chain:
  "al_free_count al \<noteq> 0 \<Longrightarrow> chain st (al_free al) fs q \<Longrightarrow>
    alloc_many dflt sz asz base (length fs) st al = Inr (fs, st, al\<lparr>al_free := q\<rparr>)"
  by (induction fs arbitrary: al) (auto simp: alloc_node_def)

lemma alloc_many_add:
  "alloc_many dflt sz asz base (m + n) st al =
    rbind (alloc_many dflt sz asz base m st al) (\<lambda>(as, st, al).
    rbind (alloc_many dflt sz asz base n st al) (\<lambda>(bs, st, al). Inr (as @ bs, st, al)))"
proof (induction m arbitrary: st al)
  case 0
  show ?case by (cases "alloc_many dflt sz asz base n st al") auto
next
  case (Suc m)
  then show ?case
    by (cases "alloc_node dflt sz asz base st al")
      (auto simp: rbind_assoc split_def intro!: arg_cong [where f = "rbind _"])
qed

lemma alloc_many_page:
  assumes "0 < sz" "sz \<le> asz" "asz \<le> 4096" "al_free_count al = 0"
  shows "\<exists>st' al'. alloc_many dflt sz asz base (4096 div asz) st al = Inr (page_nodes asz base, st', al')
    \<and> al_free_count al' \<noteq> 0 \<and> al_free al' = page_end sz asz base
    \<and> st' = chained_page dflt sz asz base st"
proof -
  let ?st = "chained_page dflt sz asz base st"
  let ?cnt = "if 4096 > sz then of_nat (4096 div sz) else 1 :: u64"
  let ?al = "al\<lparr>al_free := Some base, al_free_count := ?cnt\<rparr>"
  have N: "0 < 4096 div asz" using assms by (simp add: div_greater_zero_iff)
  have "4096 div sz < 2 ^ 64" "4096 div sz \<noteq> 0 \<or> \<not> 4096 > sz"
    using assms by (auto simp: div_greater_zero_iff intro: le_less_trans [OF div_le_dividend])
  then have nz: "?cnt \<noteq> 0" using of_nat_u64_inject [of "4096 div sz" 0] by auto
  have ch: "chain ?st (Some base) (page_nodes asz base) (page_end sz asz base)"
    using chained_page_chain [OF assms(1,2) order_refl N, of dflt base st]
    by (simp add: page_nodes_def)
  have step: "alloc_node dflt sz asz base st al = alloc_node dflt sz asz base ?st ?al"
    using assms(4) nz by (simp add: alloc_node_def)
  obtain k where k: "4096 div asz = Suc k" using N by (cases "4096 div asz") auto
  have "alloc_many dflt sz asz base (Suc k) st al = alloc_many dflt sz asz base (Suc k) ?st ?al"
    by (simp add: step)
  also have "\<dots> = Inr (page_nodes asz base, ?st, ?al\<lparr>al_free := page_end sz asz base\<rparr>)"
    using alloc_many_chain [of ?al ?st "page_nodes asz base" "page_end sz asz base" dflt sz asz base]
      ch nz k by (simp add: page_nodes_def)
  finally show ?thesis using k nz by auto
qed

text \<open>
  C7. A fresh slab allocator hands out the objects of its first page one by one, all different,
  and the next request dereferences the link after the last object: a null pointer when the size
  of the object is a power of two (or leaves as many objects in a page), the unmapped address
  behind the array otherwise. It never fetches a second page.
\<close>

theorem allocator_single_page:
  assumes "0 < sz" "sz \<le> asz" "asz \<le> 4096" "st (base + 4096 div asz * asz) = None"
  shows "(\<exists>st' al'. alloc_many dflt sz asz base (4096 div asz) st empty_allocator =
            Inr (page_nodes asz base, st', al')) \<and> distinct (page_nodes asz base) \<and>
    alloc_many dflt sz asz base (4096 div asz + 1) st empty_allocator =
      Inl (if 4096 div asz = 4096 div sz then Null_Deref else Page_Fault)"
proof -
  obtain st' al' where many:
    "alloc_many dflt sz asz base (4096 div asz) st empty_allocator = Inr (page_nodes asz base, st', al')"
    and al': "al_free_count al' \<noteq> 0" "al_free al' = page_end sz asz base"
    and st': "st' = chained_page dflt sz asz base st"
    using alloc_many_page [OF assms(1-3), where al = empty_allocator and dflt = dflt
        and base = base and st = st]
    by (auto simp: empty_allocator_def)
  have "base + 4096 div asz * asz \<notin> set (page_nodes asz base)"
    using assms(1,2) by (auto simp: page_nodes_def)
  then have "st' (base + 4096 div asz * asz) = None"
    using assms(4) st' by (simp add: chained_page_outside)
  then have "alloc_node dflt sz asz base st' al' =
      Inl (if 4096 div asz = 4096 div sz then Null_Deref else Page_Fault)"
    using al' by (auto simp: alloc_node_def page_end_def deref_def)
  with many have "alloc_many dflt sz asz base (4096 div asz + 1) st empty_allocator =
      Inl (if 4096 div asz = 4096 div sz then Null_Deref else Page_Fault)"
    by (simp only: alloc_many_add) (simp add: One_nat_def)
  with many show ?thesis using assms(1,2) by (auto intro: distinct_page_nodes)
qed

text \<open>Both ends occur: 64-byte objects end in a null pointer, 40-byte ones behind the page.\<close>

theorem allocator_single_page_witness:
  "alloc_many (0::nat) 64 64 4096 65 (\<lambda>_. None) empty_allocator = Inl Null_Deref \<and>
   alloc_many (0::nat) 40 64 4096 65 (\<lambda>_. None) empty_allocator = Inl Page_Fault"
  using allocator_single_page [of 64 64 "\<lambda>_. None" 4096 "0::nat"]
    allocator_single_page [of 40 64 "\<lambda>_. None" 4096 "0::nat"] by simp

text \<open>The first \<open>free\<close> on an allocator that never allocated reads through its null list.\<close>

lemma free_node_empty [simp]:
  "al_free al = None \<Longrightarrow> al_free_count al + 1 \<noteq> 0 \<Longrightarrow> free_node p st al = Inl Null_Deref"
  by (simp add: free_node_def)

end
