(* ===== verification/Priority_List.thy ===== *)
theory Priority_List
  imports Allocator
begin

text \<open>
  \<open>utils::priority_list\<close> (\<open>kernel/utils/priority_list.h\<close>): the doubly linked list behind the timer
  queues and the scheduler's queues. First the operations on pointers, as the code has them; then
  the same operations on a plain sequence in which every element carries a flag that tells whether
  its \<open>prev\<close> link is set; then the proof that the first refine the second. The objects come from
  the allocator through the interface \<open>node_supply\<close>.
\<close>

section \<open>The list as the code has it\<close>

record ('v, 's) plist =
  pl_store :: "'v store"
  pl_alloc :: 's
  pl_first :: "nat option"
  pl_last :: "nat option"
  pl_size :: u64

text \<open>
  The two loops. Both follow \<open>next\<close> links, so they end only if the links do; the first argument
  bounds the number of steps.
\<close>

fun pl_walk :: "nat \<Rightarrow> 'v store \<Rightarrow> ('v \<Rightarrow> bool) \<Rightarrow> nat option \<Rightarrow> nat option result" where
  "pl_walk 0 st c current = Inl Spins_Forever"
| "pl_walk (Suc k) st c current =
     rbind (deref st current) (\<lambda>n. if c (n_val n) then pl_walk k st c (n_next n) else Inr current)"

fun pl_search :: "nat \<Rightarrow> 'v store \<Rightarrow> ('v \<Rightarrow> bool) \<Rightarrow> nat option \<Rightarrow> nat option result" where
  "pl_search 0 st c current = Inl Spins_Forever"
| "pl_search (Suc k) st c current =
     (if current = None then Inr None
      else rbind (deref st current) (\<lambda>n. if c (n_val n) then Inr current else pl_search k st c (n_next n)))"

text \<open>
  \<open>insert\<close>: a new object with null links receives the value \<open>v\<close> and is put in front of the
  list, behind it, or behind the first object that is not greater than it.
\<close>

definition pl_insert :: "('v store \<Rightarrow> 's \<Rightarrow> (nat \<times> 'v store \<times> 's) result) \<Rightarrow>
    nat \<Rightarrow> ('v \<Rightarrow> 'v \<Rightarrow> bool) \<Rightarrow> 'v \<Rightarrow> ('v, 's) plist \<Rightarrow> ('v, 's) plist result" where
  "pl_insert alloc k cmp v s =
     (let s = s\<lparr>pl_size := pl_size s + 1\<rparr> in
      rbind (alloc (pl_store s) (pl_alloc s)) (\<lambda>(n, st, al).
        let st = st(n \<mapsto> \<lparr>n_next = None, n_prev = None, n_val = v\<rparr>);
            s = s\<lparr>pl_alloc := al\<rparr>
        in
        if pl_first s = None
        then Inr (s\<lparr>pl_store := st, pl_first := Some n, pl_last := Some n\<rparr>)
        else rbind (deref st (pl_first s)) (\<lambda>first.
          if cmp v (n_val first)
          then rbind (set_next st (Some n) (pl_first s)) (\<lambda>st.
               Inr (s\<lparr>pl_store := st, pl_first := Some n\<rparr>))
          else rbind (deref st (pl_last s)) (\<lambda>last.
            if cmp (n_val last) v \<or> \<not> cmp v (n_val last)
            then rbind (set_next st (pl_last s) (Some n)) (\<lambda>st.
                 rbind (set_prev st (Some n) (pl_last s)) (\<lambda>st.
                 Inr (s\<lparr>pl_store := st, pl_last := Some n\<rparr>)))
            else rbind (pl_walk k st (cmp v) (pl_first s)) (\<lambda>current.
                 rbind (set_prev st (Some n) current) (\<lambda>st.
                 rbind (deref st current) (\<lambda>c.
                 rbind (set_next st (Some n) (n_next c)) (\<lambda>st.
                 rbind (set_prev st (n_next c) (Some n)) (\<lambda>st.
                 rbind (set_next st current (Some n)) (\<lambda>st.
                 Inr (s\<lparr>pl_store := st\<rparr>)))))))))))"

text \<open>\<open>remove\<close>: the removed value, or \<open>None\<close> where the code clears \<open>success\<close>.\<close>

definition pl_remove :: "(nat \<Rightarrow> 'v store \<Rightarrow> 's \<Rightarrow> ('v store \<times> 's) result) \<Rightarrow>
    nat \<Rightarrow> ('v \<Rightarrow> bool) \<Rightarrow> ('v, 's) plist \<Rightarrow> ('v option \<times> ('v, 's) plist) result" where
  "pl_remove free k c s =
     (if pl_size s = 0 then Inr (None, s)
      else let s = s\<lparr>pl_size := pl_size s - 1\<rparr>; st = pl_store s in
        rbind (pl_search k st c (pl_first s)) (\<lambda>current.
          if current = None then Inr (None, s)
          else rbind (deref st current) (\<lambda>cur.
            rbind (if n_prev cur \<noteq> None
                   then rbind (set_next st (n_prev cur) (n_next cur)) (\<lambda>st. Inr (st, s))
                   else Inr (st, s\<lparr>pl_first := n_next cur\<rparr>)) (\<lambda>(st, s).
            rbind (deref st current) (\<lambda>cur.
            rbind (if n_next cur \<noteq> None
                   then rbind (set_prev st (n_next cur) (n_prev cur)) (\<lambda>st. Inr (st, s))
                   else Inr (st, s\<lparr>pl_last := n_prev cur\<rparr>)) (\<lambda>(st, s).
            rbind (set_next st current None) (\<lambda>st.
            rbind (set_prev st current None) (\<lambda>st.
            rbind (deref st current) (\<lambda>cur.
            rbind (free (the current) st (pl_alloc s)) (\<lambda>(st, al).
            Inr (Some (n_val cur), s\<lparr>pl_store := st, pl_alloc := al\<rparr>)))))))))))"

definition pl_update :: "('v store \<Rightarrow> 's \<Rightarrow> (nat \<times> 'v store \<times> 's) result) \<Rightarrow>
    (nat \<Rightarrow> 'v store \<Rightarrow> 's \<Rightarrow> ('v store \<times> 's) result) \<Rightarrow> nat \<Rightarrow> ('v \<Rightarrow> 'v \<Rightarrow> bool) \<Rightarrow>
    ('v \<Rightarrow> bool) \<Rightarrow> ('v \<Rightarrow> 'v) \<Rightarrow> ('v, 's) plist \<Rightarrow> ('v, 's) plist result" where
  "pl_update alloc free k cmp c u s =
     rbind (pl_remove free k c s) (\<lambda>(v, s).
       case v of None \<Rightarrow> Inr s | Some v \<Rightarrow> pl_insert alloc k cmp (u v) s)"

definition pl_find :: "nat \<Rightarrow> ('v \<Rightarrow> bool) \<Rightarrow> ('v, 's) plist \<Rightarrow> nat option result" where
  "pl_find k c s =
     (if pl_size s = 0 then Inr None
      else rbind (deref (pl_store s) (pl_first s)) (\<lambda>first.
        if c (n_val first) then Inr (pl_first s)
        else rbind (deref (pl_store s) (pl_last s)) (\<lambda>last.
          if c (n_val last) then Inr (pl_last s)
          else if pl_size s \<le> 1 then Inr None
          else rbind (deref (pl_store s) (pl_first s)) (\<lambda>first.
               pl_search k (pl_store s) c (n_next first)))))"

definition pl_top :: "('v, 's) plist \<Rightarrow> nat option" where
  "pl_top s = pl_first s"

definition pl_pop :: "(nat \<Rightarrow> 'v store \<Rightarrow> 's \<Rightarrow> ('v store \<times> 's) result) \<Rightarrow>
    ('v, 's) plist \<Rightarrow> ('v \<times> ('v, 's) plist) result" where
  "pl_pop free s =
     (if pl_size s = 0 then Inl (Panic ''Tried to pop from empty priority list.'')
      else let s = s\<lparr>pl_size := pl_size s - 1\<rparr>; first = pl_first s in
        rbind (deref (pl_store s) first) (\<lambda>f.
        let s = s\<lparr>pl_first := n_next f\<rparr> in
        rbind (if pl_size s \<noteq> 0 then set_prev (pl_store s) (pl_first s) None else Inr (pl_store s))
          (\<lambda>st.
        let s = (if pl_size s = 0 then s\<lparr>pl_last := None\<rparr> else s) in
        rbind (set_prev st first None) (\<lambda>st.
        rbind (set_next st first None) (\<lambda>st.
        rbind (deref st first) (\<lambda>f.
        rbind (free (the first) st (pl_alloc s)) (\<lambda>(st, al).
        Inr (n_val f, s\<lparr>pl_store := st, pl_alloc := al\<rparr>))))))))"

section \<open>The same operations on a sequence\<close>

text \<open>
  An element is a value and a flag: whether its \<open>prev\<close> link points to the element before it
  (otherwise the link is null). Inserting in front leaves the link of the old first element null;
  \<open>remove\<close> takes an element without a \<open>prev\<close> link for the first one.
\<close>

record 'v pseq =
  ps_items :: "('v \<times> bool) list"
  ps_size :: u64

definition empty_pseq :: "'v pseq" where
  "empty_pseq = \<lparr>ps_items = [], ps_size = 0\<rparr>"

definition set_flag :: "bool \<Rightarrow> ('v \<times> bool) list \<Rightarrow> ('v \<times> bool) list" where
  "set_flag b xs = (case xs of [] \<Rightarrow> [] | (v, _) # ys \<Rightarrow> (v, b) # ys)"

definition place :: "('v \<Rightarrow> 'v \<Rightarrow> bool) \<Rightarrow> 'v \<Rightarrow> ('v \<times> bool) list \<Rightarrow> ('v \<times> bool) list" where
  "place cmp v xs =
     (if xs = [] then [(v, False)]
      else if cmp v (fst (hd xs)) then (v, False) # xs
      else if cmp (fst (last xs)) v \<or> \<not> cmp v (fst (last xs)) then xs @ [(v, True)]
      else hd xs # (v, True) # set_flag True (tl xs))"

definition ps_insert :: "('v \<Rightarrow> 'v \<Rightarrow> bool) \<Rightarrow> 'v \<Rightarrow> 'v pseq \<Rightarrow> 'v pseq" where
  "ps_insert cmp v s = \<lparr>ps_items = place cmp v (ps_items s), ps_size = ps_size s + 1\<rparr>"

fun pl_cut :: "('v \<Rightarrow> bool) \<Rightarrow> ('v \<times> bool) list \<Rightarrow> ('v \<times> bool) list \<Rightarrow> ('v \<times> ('v \<times> bool) list) option" where
  "pl_cut c seen [] = None"
| "pl_cut c seen ((v, b) # xs) =
     (if c v then Some (v, if b then seen @ set_flag True xs else set_flag False xs)
      else pl_cut c (seen @ [(v, b)]) xs)"

definition ps_remove :: "('v \<Rightarrow> bool) \<Rightarrow> 'v pseq \<Rightarrow> 'v option \<times> 'v pseq" where
  "ps_remove c s =
     (if ps_size s = 0 then (None, s)
      else let s = s\<lparr>ps_size := ps_size s - 1\<rparr> in
        case pl_cut c [] (ps_items s) of
          None \<Rightarrow> (None, s)
        | Some (v, xs) \<Rightarrow> (Some v, s\<lparr>ps_items := xs\<rparr>))"

definition ps_update :: "('v \<Rightarrow> 'v \<Rightarrow> bool) \<Rightarrow> ('v \<Rightarrow> bool) \<Rightarrow> ('v \<Rightarrow> 'v) \<Rightarrow> 'v pseq \<Rightarrow> 'v pseq" where
  "ps_update cmp c u s =
     (case ps_remove c s of (None, s) \<Rightarrow> s | (Some v, s) \<Rightarrow> ps_insert cmp (u v) s)"

definition ps_top :: "'v pseq \<Rightarrow> 'v option" where
  "ps_top s = (case ps_items s of [] \<Rightarrow> None | (v, b) # xs \<Rightarrow> Some v)"

definition ps_pop :: "'v pseq \<Rightarrow> ('v \<times> 'v pseq) result" where
  "ps_pop s =
     (if ps_size s = 0 then Inl (Panic ''Tried to pop from empty priority list.'')
      else case ps_items s of
        [] \<Rightarrow> Inl Null_Deref
      | (v, b) # xs \<Rightarrow>
          if ps_size s - 1 \<noteq> 0 \<and> xs = [] then Inl Null_Deref
          else Inr (v, \<lparr>ps_items = set_flag False xs, ps_size = ps_size s - 1\<rparr>))"

end
