(* ===== verification/Priority_List_Refine.thy ===== *)
theory Priority_List_Refine
  imports Priority_List
begin

text \<open>
  The pointer operations of \<open>utils::priority_list\<close> refine the operations on sequences: from a list
  that represents a sequence, each operation returns, gives the result of the sequence operation
  and leaves a list that represents the new sequence. Everything holds for any allocator with the
  laws of \<open>node_supply\<close>; the interpretation for the slab allocator gives it for the code's own.
\<close>

section \<open>Segments of the list\<close>

fun plseg :: "'v store \<Rightarrow> nat option \<Rightarrow> nat option \<Rightarrow> nat list \<Rightarrow> ('v \<times> bool) list \<Rightarrow> nat option \<Rightarrow> bool" where
  "plseg st pr p [] [] q \<longleftrightarrow> p = q"
| "plseg st pr p (a # as) (x # xs) q \<longleftrightarrow> p = Some a \<and>
     (\<exists>n. st a = Some n \<and> n_val n = fst x \<and> n_prev n = (if snd x then pr else None) \<and>
       plseg st (Some a) (n_next n) as xs q)"
| "plseg st pr p _ _ q \<longleftrightarrow> False"

definition last_of :: "nat option \<Rightarrow> nat list \<Rightarrow> nat option" where
  "last_of pr as = (if as = [] then pr else Some (last as))"

lemma last_of_simps [simp]:
  "last_of pr [] = pr" "last_of pr (a # as) = last_of (Some a) as" "last_of pr (as @ [a]) = Some a"
  by (auto simp: last_of_def)

lemma plseg_length: "plseg st pr p as xs q \<Longrightarrow> length as = length xs"
  by (induction st pr p as xs q rule: plseg.induct) auto

lemma plseg_append:
  "length as = length xs \<Longrightarrow>
   plseg st pr p (as @ bs) (xs @ ys) q \<longleftrightarrow>
     (\<exists>r. plseg st pr p as xs r \<and> plseg st (last_of pr as) r bs ys q)"
proof (induction as xs arbitrary: pr p rule: list_induct2)
  case (Cons a as x xs)
  then show ?case by simp metis
qed simp

lemma plseg_frame:
  "(\<And>a. a \<in> set as \<Longrightarrow> st' a = st a) \<Longrightarrow> plseg st' pr p as xs q = plseg st pr p as xs q"
  by (induction st pr p as xs q rule: plseg.induct) auto

lemma plseg_head_unlinked:
  "xs \<noteq> [] \<longrightarrow> \<not> snd (hd xs) \<Longrightarrow> plseg st pr p as xs q \<Longrightarrow> plseg st pr' p as xs q"
  by (cases as; cases xs) auto

lemma plseg_mapped: "plseg st pr p as xs q \<Longrightarrow> a \<in> set as \<Longrightarrow> st a \<noteq> None"
  by (induction st pr p as xs q rule: plseg.induct) auto

lemma plseg_ConsE:
  assumes "plseg st pr p as (x # xs) q"
  obtains a as' n where "as = a # as'" "p = Some a" "st a = Some n" "n_val n = fst x"
    "n_prev n = (if snd x then pr else None)" "plseg st (Some a) (n_next n) as' xs q"
proof (cases as)
  case Nil
  with assms show ?thesis by simp
next
  case (Cons a as')
  with assms obtain n where "p = Some a" "st a = Some n" "n_val n = fst x"
    "n_prev n = (if snd x then pr else None)" "plseg st (Some a) (n_next n) as' xs q"
    by (simp only: plseg.simps) blast
  with Cons show ?thesis by (rule that)
qed

lemma plseg_snoc:
  assumes "plseg st pr p as xs q" "xs \<noteq> []"
  obtains as' z where "as = as' @ [z]" "plseg st pr p as' (butlast xs) (Some z)"
    "\<exists>n. st z = Some n \<and> n_val n = fst (last xs) \<and> n_next n = q \<and>
      n_prev n = (if snd (last xs) then last_of pr as' else None)"
proof -
  from assms have "as \<noteq> []" using plseg_length by fastforce
  then obtain as' z where as: "as = as' @ [z]" by (metis rev_exhaust)
  from assms(2) have xs: "xs = butlast xs @ [last xs]" by simp
  from assms(1) as have "length as' = length (butlast xs)" by (metis butlast_snoc length_butlast plseg_length)
  with assms(1) as xs plseg_append [of as' "butlast xs" st pr p "[z]" "[last xs]" q] that [of as' z]
  show ?thesis by auto
qed

text \<open>Pointing the \<open>prev\<close> link of the first object of a segment elsewhere.\<close>

lemma plseg_relink:
  assumes "plseg st pr p ds zs None" "distinct ds"
  obtains st' where "(if p \<noteq> None then set_prev st p pr' else Inr st) = Inr st'"
    "plseg st' pr' p ds (set_flag (pr' \<noteq> None) zs) None" "\<forall>x. x \<notin> set ds \<longrightarrow> st' x = st x"
proof (cases zs)
  case Nil
  with assms(1) have "ds = []" "p = None" by (auto elim: plseg.elims)
  with Nil that [of st] show ?thesis by (simp add: set_flag_def)
next
  case (Cons z zs')
  from assms(1) obtain d ds' n where d: "ds = d # ds'" "p = Some d" "st d = Some n" "n_val n = fst z"
    "n_prev n = (if snd z then pr else None)" "plseg st (Some d) (n_next n) ds' zs' None"
    unfolding Cons by (rule plseg_ConsE)
  let ?st = "st(d \<mapsto> n\<lparr>n_prev := pr'\<rparr>)"
  have "plseg ?st (Some d) (n_next n) ds' zs' None"
    using d(1,6) assms(2) by (subst plseg_frame [where st = st]) auto
  with d Cons that [of ?st] show ?thesis by (cases z) (simp add: set_flag_def)
qed

lemma pl_search_none:
  assumes "plseg st pr p as xs None" "\<forall>x\<in>set xs. \<not> c (fst x)" "length as < k"
  shows "pl_search k st c p = Inr None"
  using assms
proof (induction k arbitrary: pr p as xs)
  case (Suc k)
  show ?case
  proof (cases xs)
    case Nil
    with Suc.prems(1) have "p = None" by (auto elim: plseg.elims)
    then show ?thesis by simp
  next
    case (Cons x xs')
    from Suc.prems(1) obtain a as' n where a: "as = a # as'" "p = Some a" "st a = Some n" "n_val n = fst x"
      "n_prev n = (if snd x then pr else None)" "plseg st (Some a) (n_next n) as' xs' None"
      unfolding Cons by (rule plseg_ConsE)
    with Suc.IH [OF a(6)] Suc.prems Cons show ?thesis by simp
  qed
qed simp

lemma pl_search_found:
  assumes "plseg st pr p (bs @ a # ds) (ys @ y # zs) None" "length bs = length ys"
    "\<forall>x\<in>set ys. \<not> c (fst x)" "c (fst y)" "length bs < k"
  shows "pl_search k st c p = Inr (Some a)"
  using assms
proof (induction k arbitrary: pr p bs ys)
  case (Suc k)
  show ?case
  proof (cases ys)
    case Nil
    with Suc.prems show ?thesis by auto
  next
    case (Cons x ys')
    with Suc.prems(2) obtain b bs' where bs: "bs = b # bs'" by (cases bs) auto
    from Suc.prems(1) obtain n where n: "p = Some b" "st b = Some n" "n_val n = fst x"
      "plseg st (Some b) (n_next n) (bs' @ a # ds) (ys' @ y # zs) None"
      unfolding Cons bs by auto
    with Suc.IH [OF n(4)] Suc.prems Cons bs show ?thesis by simp
  qed
qed simp

lemma pl_cut_None: "pl_cut c seen xs = None \<longleftrightarrow> (\<forall>x\<in>set xs. \<not> c (fst x))"
  by (induction c seen xs rule: pl_cut.induct) auto

lemma pl_cut_Some:
  "pl_cut c seen xs = Some (v, r) \<Longrightarrow> \<exists>ys b zs. xs = ys @ (v, b) # zs \<and> (\<forall>y\<in>set ys. \<not> c (fst y)) \<and> c v \<and>
     r = (if b then seen @ ys @ set_flag True zs else set_flag False zs)"
proof (induction c seen xs rule: pl_cut.induct)
  case (2 c seen w b xs)
  show ?case
  proof (cases "c w")
    case True
    with 2 show ?thesis by (intro exI [of _ "[]"]) auto
  next
    case False
    with 2 obtain ys b' zs where "xs = ys @ (v, b') # zs" "\<forall>y\<in>set ys. \<not> c (fst y)" "c v"
      "r = (if b' then (seen @ [(w, b)]) @ ys @ set_flag True zs else set_flag False zs)" by auto
    with False show ?thesis by (intro exI [of _ "(w, b) # ys"]) auto
  qed
qed simp

section \<open>Representation\<close>

text \<open>
  The representation relation: the links from \<open>_first\<close> run through the objects \<open>as\<close>, which carry
  the elements of the sequence \<open>t\<close>; \<open>fs\<close> are the addresses the allocator will hand out next.
\<close>

definition plrep :: "('v store \<Rightarrow> 's \<Rightarrow> nat list \<Rightarrow> bool) \<Rightarrow> ('v, 's) plist \<Rightarrow> nat list \<Rightarrow>
    'v pseq \<Rightarrow> nat list \<Rightarrow> bool" where
  "plrep avail s as t fs \<longleftrightarrow>
     plseg (pl_store s) None (pl_first s) as (ps_items t) None \<and> distinct as \<and>
     (ps_items t \<noteq> [] \<longrightarrow> \<not> snd (hd (ps_items t))) \<and>
     pl_last s = last_of None as \<and> pl_size s = ps_size t \<and>
     avail (pl_store s) (pl_alloc s) fs \<and> set as \<inter> set fs = {}"

context node_supply
begin

lemma plrep_alloc:
  assumes "plrep avail s as t (f # fs)"
  obtains st al where "alloc (pl_store s) (pl_alloc s) = Inr (f, st, al)"
    "\<forall>st'. (\<forall>x\<in>set fs. st' x = st x) \<longrightarrow> avail st' al fs" "f \<notin> set as" "f \<notin> set fs"
    "\<forall>a\<in>set as. st a = pl_store s a \<and> a \<notin> set fs"
proof -
  from assms have av: "avail (pl_store s) (pl_alloc s) (f # fs)" and dis: "set as \<inter> set (f # fs) = {}"
    by (auto simp: plrep_def)
  from alloc_law [OF av] obtain st al where st: "alloc (pl_store s) (pl_alloc s) = Inr (f, st, al)"
    "avail st al fs" "\<forall>x. x \<notin> set (f # fs) \<longrightarrow> st x = pl_store s x" by auto
  have f: "f \<notin> set fs" using avail_distinct [OF av] by simp
  have eq: "st a = pl_store s a" if "a \<in> set as" for a
    using st(3) dis that by auto
  from st(1) avail_frame [OF st(2)] f dis eq show ?thesis
    by (intro that [of st al]) auto
qed

text \<open>The parts of a representation, so that proofs name the ones they use.\<close>

lemma plrepD:
  assumes "plrep avail s as t fs"
  shows "plseg (pl_store s) None (pl_first s) as (ps_items t) None" "distinct as"
    "ps_items t \<noteq> [] \<longrightarrow> \<not> snd (hd (ps_items t))" "pl_last s = last_of None as"
    "pl_size s = ps_size t" "avail (pl_store s) (pl_alloc s) fs" "set as \<inter> set fs = {}"
  using assms by (simp_all add: plrep_def)

lemma pl_insert_empty:
  assumes "plrep avail s as t (f # fs)" "ps_items t = []"
  shows "\<exists>s'. pl_insert alloc k cmp v s = Inr s' \<and> plrep avail s' [f] (ps_insert cmp v t) fs"
proof -
  from plrepD(1) [OF assms(1)] assms(2) have "as = []" "pl_first s = None"
    by (auto elim: plseg.elims)
  moreover from assms(1) obtain st al where "alloc (pl_store s) (pl_alloc s) = Inr (f, st, al)"
    "\<forall>st'. (\<forall>x\<in>set fs. st' x = st x) \<longrightarrow> avail st' al fs" "f \<notin> set fs"
    by (rule plrep_alloc) blast
  ultimately show ?thesis
    using assms(2) plrepD(5) [OF assms(1)] by (simp add: pl_insert_def ps_insert_def place_def plrep_def)
qed

lemma pl_insert_front:
  assumes rep: "plrep avail s as t (f # fs)" and xs: "ps_items t = x # xs" "cmp v (fst x)"
  shows "\<exists>s'. pl_insert alloc k cmp v s = Inr s' \<and> plrep avail s' (f # as) (ps_insert cmp v t) fs"
proof -
  from rep obtain st al where al: "alloc (pl_store s) (pl_alloc s) = Inr (f, st, al)"
    "\<forall>st'. (\<forall>x\<in>set fs. st' x = st x) \<longrightarrow> avail st' al fs" "f \<notin> set as" "f \<notin> set fs"
    "\<forall>a\<in>set as. st a = pl_store s a \<and> a \<notin> set fs"
    by (rule plrep_alloc)
  from plrepD(1) [OF rep] have ps: "plseg (pl_store s) None (pl_first s) as (x # xs) None"
    by (simp only: xs)
  then obtain a as' n where as: "as = a # as'" "pl_first s = Some a" "pl_store s a = Some n"
    "n_val n = fst x"
    by (rule plseg_ConsE)
  let ?st = "st(f \<mapsto> \<lparr>n_next = Some a, n_prev = None, n_val = v\<rparr>)"
  have "x # xs \<noteq> [] \<longrightarrow> \<not> snd (hd (x # xs))" using plrepD(3) [OF rep] by (simp only: xs)
  from plseg_head_unlinked [OF this ps, of "Some f"]
  have "plseg (pl_store s) (Some f) (Some a) as (x # xs) None" by (simp only: as(2))
  moreover have "plseg ?st (Some f) (Some a) as (x # xs) None = plseg (pl_store s) (Some f) (Some a) as (x # xs) None"
    using al(3,5) by (intro plseg_frame) auto
  ultimately have seg: "plseg ?st (Some f) (Some a) as (x # xs) None" by simp
  have "a \<in> set as" using as(1) by simp
  then have "st a = Some n" "f \<noteq> a" using al(3,5) as(3) by auto
  then have "pl_insert alloc k cmp v s = Inr (s\<lparr>pl_size := pl_size s + 1, pl_alloc := al,
      pl_store := ?st, pl_first := Some f\<rparr>)"
    using al(1) as xs(2) by (simp add: pl_insert_def)
  moreover have "last_of None (f # as) = last_of None as" using as(1) by simp
  then have "plrep avail (s\<lparr>pl_size := pl_size s + 1, pl_alloc := al, pl_store := ?st, pl_first := Some f\<rparr>)
      (f # as) (ps_insert cmp v t) fs"
    using plrepD(2,4,5,7) [OF rep] al seg xs by (simp add: plrep_def ps_insert_def place_def)
  ultimately show ?thesis by blast
qed

lemma pl_insert_back:
  assumes rep: "plrep avail s as t (f # fs)" and xs: "ps_items t = x # xs" "\<not> cmp v (fst x)"
    and bk: "cmp (fst (last (x # xs))) v \<or> \<not> cmp v (fst (last (x # xs)))"
  shows "\<exists>s'. pl_insert alloc k cmp v s = Inr s' \<and> plrep avail s' (as @ [f]) (ps_insert cmp v t) fs"
proof -
  from rep obtain st al where al: "alloc (pl_store s) (pl_alloc s) = Inr (f, st, al)"
    "\<forall>st'. (\<forall>x\<in>set fs. st' x = st x) \<longrightarrow> avail st' al fs" "f \<notin> set as" "f \<notin> set fs"
    "\<forall>a\<in>set as. st a = pl_store s a \<and> a \<notin> set fs"
    by (rule plrep_alloc)
  from plrepD(1) [OF rep] have ps: "plseg (pl_store s) None (pl_first s) as (x # xs) None"
    by (simp only: xs)
  then obtain a as' n where as: "as = a # as'" "pl_first s = Some a" "pl_store s a = Some n"
    "n_val n = fst x"
    by (rule plseg_ConsE)
  from ps obtain bs z m where bs: "as = bs @ [z]"
    "plseg (pl_store s) None (pl_first s) bs (butlast (x # xs)) (Some z)"
    and m: "pl_store s z = Some m" "n_val m = fst (last (x # xs))" "n_next m = None"
      "n_prev m = (if snd (last (x # xs)) then last_of None bs else None)"
    by (rule plseg_snoc) auto
  let ?st = "st(f \<mapsto> \<lparr>n_next = None, n_prev = Some z, n_val = v\<rparr>, z \<mapsto> m\<lparr>n_next := Some f\<rparr>)"
  have last: "pl_last s = Some z" using plrepD(4) [OF rep] bs(1) by simp
  have d: "distinct as" by (rule plrepD(2) [OF rep])
  have za: "a \<in> set as" using as(1) by simp
  have "z \<in> set as" using bs(1) by simp
  with za have st: "st a = Some n" "f \<noteq> a" "st z = Some m" "f \<noteq> z" "z \<notin> set fs"
    using al(3,5) as(3) m(1) by auto
  let ?s = "s\<lparr>pl_size := pl_size s + 1, pl_alloc := al, pl_store := ?st, pl_last := Some f\<rparr>"
  have "pl_insert alloc k cmp v s = Inr ?s"
    using al(1) as st last xs(2) bk m by (auto simp: pl_insert_def fun_upd_twist)
  note ins = this
  have "plseg ?st None (pl_first s) bs (butlast (x # xs)) (Some z)"
    using bs(2) al(3,5) bs(1) d by (subst plseg_frame [where st = "pl_store s"]) auto
  then have "plseg ?st None (pl_first s) (bs @ [z, f]) (butlast (x # xs) @ [last (x # xs), (v, True)]) None"
    using m st(4) plseg_length [OF bs(2)] by (subst plseg_append) auto
  then have "plseg ?st None (pl_first s) (as @ [f]) ((x # xs) @ [(v, True)]) None"
    using bs(1) append_butlast_last_id [of "x # xs"] by (metis append.assoc append_Cons append_Nil list.distinct(1))
  moreover have "avail ?st al fs" using al(4) st(5) by (intro al(2) [rule_format]) auto
  ultimately have "plrep avail ?s (as @ [f]) (ps_insert cmp v t) fs"
    using plrepD(2,3,5,7) [OF rep] al(3,4) st(5) xs bk by (auto simp: plrep_def ps_insert_def place_def)
  with ins show ?thesis by blast
qed

lemma pl_insert_middle:
  assumes rep: "plrep avail s as t (f # fs)" and xs: "ps_items t = x # xs" "\<not> cmp v (fst x)"
    and mid: "\<not> cmp (fst (last (x # xs))) v" "cmp v (fst (last (x # xs)))" and k: "0 < k"
  shows "\<exists>s'. pl_insert alloc k cmp v s = Inr s' \<and> plrep avail s' (hd as # f # tl as) (ps_insert cmp v t) fs"
proof -
  from rep obtain st al where al: "alloc (pl_store s) (pl_alloc s) = Inr (f, st, al)"
    "\<forall>st'. (\<forall>x\<in>set fs. st' x = st x) \<longrightarrow> avail st' al fs" "f \<notin> set as" "f \<notin> set fs"
    "\<forall>a\<in>set as. st a = pl_store s a \<and> a \<notin> set fs"
    by (rule plrep_alloc)
  obtain y ys where ys: "xs = y # ys" using mid xs(2) by (cases xs) auto
  from plrepD(1) [OF rep] have "plseg (pl_store s) None (pl_first s) as (x # y # ys) None"
    by (simp only: xs ys)
  then obtain a as' n where a: "as = a # as'" "pl_first s = Some a" "pl_store s a = Some n"
    "n_val n = fst x" "n_prev n = (if snd x then None else None)"
    "plseg (pl_store s) (Some a) (n_next n) as' (y # ys) None"
    by (rule plseg_ConsE)
  from a(6) obtain b bs m where b: "as' = b # bs" "n_next n = Some b" "pl_store s b = Some m"
    "n_val m = fst y" "n_prev m = (if snd y then Some a else None)"
    "plseg (pl_store s) (Some b) (n_next m) bs ys None"
    by (rule plseg_ConsE)
  have lo: "pl_last s = last_of (Some b) bs" using plrepD(4) [OF rep] a(1) b(1) by simp
  then obtain z where last: "pl_last s = Some z" "z \<in> set as" "z = last (a # b # bs)"
    using a(1) b(1) by (auto simp: last_of_def split: if_splits)
  have "plseg (pl_store s) None (pl_first s) as (x # xs) None" using plrepD(1) [OF rep] xs(1) by simp
  then obtain cs z' mz where "as = cs @ [z']" "pl_store s z' = Some mz" "n_val mz = fst (last (x # xs))"
    by (rule plseg_snoc) auto
  then have mz: "pl_store s z = Some mz" "n_val mz = fst (last (x # xs))" using last(3) a(1) b(1) by auto
  have d: "a \<noteq> b" "a \<notin> set bs" "b \<notin> set bs" using plrepD(2) [OF rep] a(1) b(1) by auto
  have st: "st a = Some n" "st b = Some m" "st z = Some mz" "f \<noteq> a" "f \<noteq> b" "f \<noteq> z" "f \<notin> set bs"
    "a \<notin> set fs" "b \<notin> set fs" using al(3,5) a b last(2) mz(1) by auto
  let ?st = "st(f \<mapsto> \<lparr>n_next = Some b, n_prev = Some a, n_val = v\<rparr>, b \<mapsto> m\<lparr>n_prev := Some f\<rparr>,
      a \<mapsto> n\<lparr>n_next := Some f\<rparr>)"
  let ?s = "s\<lparr>pl_size := pl_size s + 1, pl_alloc := al, pl_store := ?st\<rparr>"
  obtain k' where "k = Suc k'" using k by (cases k) auto
  then have "pl_insert alloc k cmp v s = Inr ?s"
    using al(1) a(2,4) b(2) st(1-6) d(1) last(1) xs(2) mid mz(2)
    by (simp add: pl_insert_def)
  note ins = this
  have "plseg ?st (Some b) (n_next m) bs ys None"
    using b(6) al(5) a(1) b(1) d st(7) by (subst plseg_frame [where st = "pl_store s"]) auto
  then have "plseg ?st None (pl_first s) (a # f # b # bs) (x # (v, True) # set_flag True (y # ys)) None"
    using a(2,4,5) b(2,4) st d by (cases y) (simp add: set_flag_def)
  moreover have "avail ?st al fs" using al(4) st(8,9) by (intro al(2) [rule_format]) auto
  ultimately have "plrep avail ?s (hd as # f # tl as) (ps_insert cmp v t) fs"
    using plrepD(2,3,5,7) [OF rep] al(3,4) st(7-9) a(1) b(1) d xs ys mid lo
    by (auto simp: plrep_def ps_insert_def place_def)
  with ins show ?thesis by blast
qed

theorem pl_insert_refines:
  assumes "plrep avail s as t (f # fs)" "0 < k"
  shows "\<exists>s' as'. pl_insert alloc k cmp v s = Inr s' \<and> plrep avail s' as' (ps_insert cmp v t) fs"
proof (cases "ps_items t")
  case Nil
  with assms pl_insert_empty show ?thesis by blast
next
  case (Cons x xs)
  with assms pl_insert_front pl_insert_back pl_insert_middle show ?thesis by metis
qed

lemma plrep_free:
  assumes "avail st al (f # g # fs)" "free_ok al" "a \<notin> set (f # g # fs)" "st a = Some n"
    and "plseg (st(a \<mapsto> n')) pr p as xs None" "a \<notin> set as" "set as \<inter> set (f # g # fs) = {}"
  obtains st' al' where "free a (st(a \<mapsto> n')) al = Inr (st', al')" "avail st' al' (f # a # g # fs)"
    "plseg st' pr p as xs None"
proof -
  have "avail (st(a \<mapsto> n')) al (f # g # fs)"
    using assms(3) by (intro avail_frame [OF assms(1)]) auto
  from free_law [OF this assms(2,3)] obtain st' al' where
    st': "free a (st(a \<mapsto> n')) al = Inr (st', al')" "avail st' al' (f # a # g # fs)"
    "\<forall>x. x \<notin> set (f # a # g # fs) \<longrightarrow> st' x = (st(a \<mapsto> n')) x" by auto
  have "plseg st' pr p as xs None = plseg (st(a \<mapsto> n')) pr p as xs None"
    using st'(3) assms(6,7) by (intro plseg_frame) auto
  with st' assms(5) that show ?thesis by blast
qed

theorem pl_remove_fails:
  assumes rep: "plrep avail s as t fs" and none: "ps_remove c t = (None, t')" and k: "length as < k"
  shows "\<exists>s'. pl_remove free k c s = Inr (None, s') \<and> plrep avail s' as t' fs"
proof (cases "ps_size t = 0")
  case True
  with none rep plrepD(5) [OF rep] show ?thesis by (simp add: ps_remove_def pl_remove_def)
next
  case False
  with none have "pl_cut c [] (ps_items t) = None" and t': "t' = t\<lparr>ps_size := ps_size t - 1\<rparr>"
    by (auto simp: ps_remove_def Let_def split: option.splits)
  then have "pl_search k (pl_store s) c (pl_first s) = Inr None"
    using plrepD(1) [OF rep] k by (intro pl_search_none) (auto simp: pl_cut_None)
  with False plrepD(5) [OF rep] have "pl_remove free k c s = Inr (None, s\<lparr>pl_size := pl_size s - 1\<rparr>)"
    by (simp add: pl_remove_def)
  moreover have "plrep avail (s\<lparr>pl_size := pl_size s - 1\<rparr>) as t' fs"
    using rep t' by (simp add: plrep_def)
  ultimately show ?thesis by blast
qed

theorem pl_remove_refines:
  assumes rep: "plrep avail s as t (f # g # fs)" and rem: "ps_remove c t = (Some v, t')"
    and k: "length as < k" and ok: "free_ok (pl_alloc s)"
  shows "\<exists>s' as' a. pl_remove free k c s = Inr (Some v, s') \<and> plrep avail s' as' t' (f # a # g # fs)"
proof -
  from rem have nz: "ps_size t \<noteq> 0" by (auto simp: ps_remove_def)
  from rem nz obtain r where cut: "pl_cut c [] (ps_items t) = Some (v, r)"
    and t': "t' = t\<lparr>ps_size := ps_size t - 1, ps_items := r\<rparr>"
    by (auto simp: ps_remove_def Let_def split: option.splits)
  from pl_cut_Some [OF cut] obtain ys b zs where items: "ps_items t = ys @ (v, b) # zs"
    and ys: "\<forall>y\<in>set ys. \<not> c (fst y)" and cv: "c v"
    and r: "r = (if b then ys @ set_flag True zs else set_flag False zs)" by auto
  let ?st = "pl_store s"
  define bs a ds where "bs = take (length ys) as" and "a = as ! length ys" and "ds = drop (Suc (length ys)) as"
  have len: "length as = length ys + Suc (length zs)"
    using plseg_length [OF plrepD(1) [OF rep]] items by simp
  then have as: "as = bs @ a # ds" and lbs: "length bs = length ys"
    by (auto simp: bs_def a_def ds_def id_take_nth_drop [symmetric])
  have seg: "plseg ?st None (pl_first s) (bs @ a # ds) (ys @ (v, b) # zs) None"
    using plrepD(1) [OF rep] as items by simp
  then obtain n where bseg: "plseg ?st None (pl_first s) bs ys (Some a)"
    and n: "?st a = Some n" "n_val n = v" "n_prev n = (if b then last_of None bs else None)"
      "plseg ?st (Some a) (n_next n) ds zs None"
    using lbs by (auto simp: plseg_append)
  have d: "distinct (bs @ a # ds)" using plrepD(2) [OF rep] as by simp
  have dis: "set (bs @ a # ds) \<inter> set (f # g # fs) = {}" using plrepD(7) [OF rep] as by simp
  have hd: "b \<Longrightarrow> ys \<noteq> []" using plrepD(3) [OF rep] items by (cases ys) auto
  have found: "pl_search k ?st c (pl_first s) = Inr (Some a)"
    using seg lbs ys cv k as by (intro pl_search_found [where y = "(v, b)"]) auto
  have size: "pl_size s \<noteq> 0" using nz plrepD(5) [OF rep] by simp
  have last: "pl_last s = last_of (Some a) ds" using plrepD(4) [OF rep] as by (simp add: last_of_def)
  have nn: "n_next n = None \<longleftrightarrow> ds = []"
    using n(4) by (cases ds; cases zs) auto
  have a_out: "a \<notin> set (f # g # fs)" and a_ds: "a \<notin> set ds" and a_bs: "a \<notin> set (bs @ ds)"
    and ds_out: "set ds \<inter> set (f # g # fs) = {}" and bs_out: "set (bs @ ds) \<inter> set (f # g # fs) = {}"
    using d dis by auto
  show ?thesis
  proof (cases b)
    case False
    then have np: "n_prev n = None" using n(3) by simp
    from plseg_relink [OF n(4), of None] d obtain st1 where
      st1: "(if n_next n \<noteq> None then set_prev ?st (n_next n) None else Inr ?st) = Inr st1"
      "plseg st1 None (n_next n) ds (set_flag False zs) None" "\<forall>x. x \<notin> set ds \<longrightarrow> st1 x = ?st x"
      by auto
    let ?n = "n\<lparr>n_next := None, n_prev := None\<rparr>"
    have sa: "st1 a = Some n" using st1(3) n(1) d by auto
    have av: "avail st1 (pl_alloc s) (f # g # fs)"
      using st1(3) dis by (intro avail_frame [OF plrepD(6) [OF rep]]) auto
    have "plseg (st1(a \<mapsto> ?n)) None (n_next n) ds (set_flag False zs) None"
      using d st1(2) by (subst plseg_frame [where st = st1]) auto
    from plrep_free [OF av ok a_out sa this a_ds ds_out] obtain st2 al where
      st2: "free a (st1(a \<mapsto> ?n)) (pl_alloc s) = Inr (st2, al)" "avail st2 al (f # a # g # fs)"
      "plseg st2 None (n_next n) ds (set_flag False zs) None" by blast
    let ?s = "s\<lparr>pl_size := pl_size s - 1, pl_first := n_next n,
      pl_last := (if n_next n = None then None else pl_last s), pl_store := st2, pl_alloc := al\<rparr>"
    have "pl_remove free k c s = Inr (Some v, ?s)"
      using size found n(1,2) np st1(1) sa st2(1) by (auto simp: pl_remove_def Let_def fun_upd_twist)
    moreover have "(if n_next n = None then None else pl_last s) = last_of None ds"
      using last nn by (auto simp: last_of_def)
    then have "plrep avail ?s ds t' (f # a # g # fs)"
      using st2 d dis t' r False plrepD(5) [OF rep]
      by (auto simp: plrep_def set_flag_def split: list.splits)
    ultimately show ?thesis by blast
  next
    case True
    from hd [OF True] lbs have "bs \<noteq> []" by auto
    then obtain cs z where bs: "bs = cs @ [z]" by (metis rev_exhaust)
    have np: "n_prev n = Some z" using n(3) True bs by simp
    have yne: "ys \<noteq> []" using hd [OF True] by simp
    from plseg_snoc [OF bseg yne] bs obtain m where
      cseg: "plseg ?st None (pl_first s) cs (butlast ys) (Some z)"
      and m: "?st z = Some m" "n_val m = fst (last ys)" "n_next m = Some a"
        "n_prev m = (if snd (last ys) then last_of None cs else None)" by auto
    let ?st1 = "?st(z \<mapsto> m\<lparr>n_next := n_next n\<rparr>)"
    have z: "z \<noteq> a" "z \<notin> set ds" "z \<notin> set cs" "z \<notin> set (f # g # fs)" "set cs \<inter> set ds = {}" "a \<notin> set cs"
      using d dis bs by auto
    have "plseg ?st1 (Some a) (n_next n) ds zs None"
      using n(4) z(2) by (subst plseg_frame [where st = ?st]) auto
    from plseg_relink [OF this, of "Some z"] d obtain st1 where
      st1: "(if n_next n \<noteq> None then set_prev ?st1 (n_next n) (Some z) else Inr ?st1) = Inr st1"
      "plseg st1 (Some z) (n_next n) ds (set_flag True zs) None" "\<forall>x. x \<notin> set ds \<longrightarrow> st1 x = ?st1 x"
      by auto
    let ?n = "n\<lparr>n_next := None, n_prev := None\<rparr>"
    have sa: "st1 a = Some n" using st1(3) n(1) z(1) a_ds by auto
    have sz: "st1 z = Some (m\<lparr>n_next := n_next n\<rparr>)" using st1(3) z(2) by auto
    have av: "avail st1 (pl_alloc s) (f # g # fs)"
      using st1(3) ds_out z(4) by (intro avail_frame [OF plrepD(6) [OF rep]]) auto
    have "plseg (st1(a \<mapsto> ?n)) (Some z) (n_next n) ds (set_flag True zs) None"
      using a_ds st1(2) by (subst plseg_frame [where st = st1]) auto
    moreover have "plseg (st1(a \<mapsto> ?n)) None (pl_first s) cs (butlast ys) (Some z)"
      using cseg st1(3) z by (subst plseg_frame [where st = ?st]) auto
    ultimately have "plseg (st1(a \<mapsto> ?n)) None (pl_first s) (cs @ z # ds) (butlast ys @ last ys # set_flag True zs) None"
      using sz z(1) m plseg_length [OF cseg] by (subst plseg_append) auto
    moreover have "cs @ z # ds = bs @ ds" "butlast ys @ last ys # set_flag True zs = ys @ set_flag True zs"
      using bs yne by (simp_all add: append_butlast_last_id [symmetric])
    ultimately have "plseg (st1(a \<mapsto> ?n)) None (pl_first s) (bs @ ds) (ys @ set_flag True zs) None"
      by simp
    from plrep_free [OF av ok a_out sa this a_bs bs_out] obtain st2 al where
      st2: "free a (st1(a \<mapsto> ?n)) (pl_alloc s) = Inr (st2, al)" "avail st2 al (f # a # g # fs)"
      "plseg st2 None (pl_first s) (bs @ ds) (ys @ set_flag True zs) None" by blast
    let ?s = "s\<lparr>pl_size := pl_size s - 1,
      pl_last := (if n_next n = None then Some z else pl_last s), pl_store := st2, pl_alloc := al\<rparr>"
    have "pl_remove free k c s = Inr (Some v, ?s)"
      using size found n(1,2) np m(1) st1(1) sa z(1) st2(1) by (auto simp: pl_remove_def Let_def fun_upd_twist)
    moreover have "(if n_next n = None then Some z else pl_last s) = last_of None (bs @ ds)"
      using last nn bs by (auto simp: last_of_def)
    then have "plrep avail ?s (bs @ ds) t' (f # a # g # fs)"
      using st2 d a_bs bs_out a_out t' r True yne plrepD(3,5) [OF rep] items
      by (auto simp: plrep_def)
    ultimately show ?thesis by blast
  qed
qed

text \<open>
  \<open>pop\<close>, for a list whose size counts its elements (or exceeds their number): the only state the
  sequence does not describe is the one where \<open>_size\<close> reaches zero with elements left over.
\<close>

theorem pl_pop_refines:
  assumes rep: "plrep avail s as t (f # g # fs)" and pop: "ps_pop t = Inr (v, t')"
    and ok: "free_ok (pl_alloc s)" and size: "ps_size t = 1 \<Longrightarrow> length (ps_items t) = 1"
  shows "\<exists>s' a. pl_pop free s = Inr (v, s') \<and> plrep avail s' (tl as) t' (f # a # g # fs)"
proof -
  from pop obtain b xs where nz: "ps_size t \<noteq> 0" and items: "ps_items t = (v, b) # xs"
    and ne: "ps_size t - 1 \<noteq> 0 \<longrightarrow> xs \<noteq> []"
    and t': "t' = \<lparr>ps_items = set_flag False xs, ps_size = ps_size t - 1\<rparr>"
    by (auto simp: ps_pop_def split: if_splits list.splits)
  let ?st = "pl_store s"
  from plrepD(1) [OF rep] obtain a ds n where a: "as = a # ds" "pl_first s = Some a" "?st a = Some n"
    "n_val n = v" "plseg ?st (Some a) (n_next n) ds xs None"
    unfolding items by (elim plseg_ConsE) auto
  have z: "a \<notin> set ds" "distinct ds" "a \<notin> set (f # g # fs)" "set ds \<inter> set (f # g # fs) = {}"
    using plrepD(2,7) [OF rep] a(1) by auto
  have xs: "xs = [] \<longleftrightarrow> ps_size t - 1 = 0"
    using ne size items by (auto simp: algebra_simps)
  have nn: "n_next n = None \<longleftrightarrow> xs = []" using a(5) by (cases ds; cases xs) auto
  have dx: "ds = [] \<longleftrightarrow> xs = []" using plseg_length [OF a(5)] by auto
  from plseg_relink [OF a(5) z(2), of None] obtain st1 where
    st1: "(if n_next n \<noteq> None then set_prev ?st (n_next n) None else Inr ?st) = Inr st1"
    "plseg st1 None (n_next n) ds (set_flag False xs) None" "\<forall>x. x \<notin> set ds \<longrightarrow> st1 x = ?st x"
    by auto
  let ?n = "n\<lparr>n_next := None, n_prev := None\<rparr>"
  have sa: "st1 a = Some n" using st1(3) a(3) z(1) by auto
  have av: "avail st1 (pl_alloc s) (f # g # fs)"
    using st1(3) z(4) by (intro avail_frame [OF plrepD(6) [OF rep]]) auto
  have "plseg (st1(a \<mapsto> ?n)) None (n_next n) ds (set_flag False xs) None"
    using z(1) st1(2) by (subst plseg_frame [where st = st1]) auto
  from plrep_free [OF av ok z(3) sa this z(1,4)] obtain st2 al where
    st2: "free a (st1(a \<mapsto> ?n)) (pl_alloc s) = Inr (st2, al)" "avail st2 al (f # a # g # fs)"
    "plseg st2 None (n_next n) ds (set_flag False xs) None" by blast
  let ?s = "s\<lparr>pl_size := pl_size s - 1, pl_first := n_next n,
    pl_last := (if ps_size t - 1 = 0 then None else pl_last s), pl_store := st2, pl_alloc := al\<rparr>"
  have "(if ps_size t - 1 \<noteq> 0 then set_prev ?st (n_next n) None else Inr ?st) = Inr st1"
    using st1(1) nn xs by auto
  moreover have "set_prev st1 (Some a) None = Inr (st1(a \<mapsto> n\<lparr>n_prev := None\<rparr>))"
    using sa by simp
  moreover have "n\<lparr>n_prev := None, n_next := None\<rparr> = ?n" by (cases n) simp
  then have "set_next (st1(a \<mapsto> n\<lparr>n_prev := None\<rparr>)) (Some a) None = Inr (st1(a \<mapsto> ?n))"
    by (simp only: set_next_Some fun_upd_same fun_upd_upd)
  moreover have "deref (st1(a \<mapsto> ?n)) (Some a) = Inr ?n" by simp
  moreover have "deref ?st (Some a) = Inr n" using a(3) by simp
  ultimately have "pl_pop free s = Inr (v, ?s)"
    using nz plrepD(5) [OF rep] a(2,4) st2(1)
    by (cases "ps_size t = 1") (simp_all add: pl_pop_def Let_def del: rbind_Inr_iff)
  moreover have "(if ps_size t - 1 = 0 then None else pl_last s) = last_of None ds"
    using plrepD(4) [OF rep] a(1) xs dx by (auto simp: last_of_def)
  then have "plrep avail ?s ds t' (f # a # g # fs)"
    using st2 z t' plrepD(5) [OF rep] by (auto simp: plrep_def set_flag_def split: list.splits)
  ultimately show ?thesis using a(1) by auto
qed

end

end
