(* ===== verification/Priority_List_Run.thy ===== *)
theory Priority_List_Run
  imports Priority_List_Refine "HOL-Library.Multiset"
begin

text \<open>
  Whole histories of a \<open>utils::priority_list\<close> over the slab allocator: any sequence of inserts,
  removals and pops behaves as the same operations on a sequence; then what those operations do to
  the elements and to their order.
\<close>

section \<open>Histories\<close>

datatype 'v pl_op =
    Op_Insert 'v
  | Op_Remove "'v \<Rightarrow> bool"
  | Op_Pop

fun pl_step :: "('v store \<Rightarrow> 's \<Rightarrow> (nat \<times> 'v store \<times> 's) result) \<Rightarrow>
    (nat \<Rightarrow> 'v store \<Rightarrow> 's \<Rightarrow> ('v store \<times> 's) result) \<Rightarrow> nat \<Rightarrow> ('v \<Rightarrow> 'v \<Rightarrow> bool) \<Rightarrow> 'v pl_op \<Rightarrow>
    ('v, 's) plist \<Rightarrow> ('v option \<times> ('v, 's) plist) result" where
  "pl_step alloc free k cmp (Op_Insert v) s = rbind (pl_insert alloc k cmp v s) (\<lambda>s. Inr (None, s))"
| "pl_step alloc free k cmp (Op_Remove c) s = pl_remove free k c s"
| "pl_step alloc free k cmp Op_Pop s = rbind (pl_pop free s) (\<lambda>(v, s). Inr (Some v, s))"

fun pl_run :: "('v store \<Rightarrow> 's \<Rightarrow> (nat \<times> 'v store \<times> 's) result) \<Rightarrow>
    (nat \<Rightarrow> 'v store \<Rightarrow> 's \<Rightarrow> ('v store \<times> 's) result) \<Rightarrow> nat \<Rightarrow> ('v \<Rightarrow> 'v \<Rightarrow> bool) \<Rightarrow> 'v pl_op list \<Rightarrow>
    ('v, 's) plist \<Rightarrow> ('v option list \<times> ('v, 's) plist) result" where
  "pl_run alloc free k cmp [] s = Inr ([], s)"
| "pl_run alloc free k cmp (op # ops) s =
     rbind (pl_step alloc free k cmp op s) (\<lambda>(r, s).
     rbind (pl_run alloc free k cmp ops s) (\<lambda>(rs, s). Inr (r # rs, s)))"

fun ps_step :: "('v \<Rightarrow> 'v \<Rightarrow> bool) \<Rightarrow> 'v pl_op \<Rightarrow> 'v pseq \<Rightarrow> ('v option \<times> 'v pseq) result" where
  "ps_step cmp (Op_Insert v) t = Inr (None, ps_insert cmp v t)"
| "ps_step cmp (Op_Remove c) t = Inr (ps_remove c t)"
| "ps_step cmp Op_Pop t = rbind (ps_pop t) (\<lambda>(v, t). Inr (Some v, t))"

fun ps_run :: "('v \<Rightarrow> 'v \<Rightarrow> bool) \<Rightarrow> 'v pl_op list \<Rightarrow> 'v pseq \<Rightarrow> ('v option list \<times> 'v pseq) result" where
  "ps_run cmp [] t = Inr ([], t)"
| "ps_run cmp (op # ops) t =
     rbind (ps_step cmp op t) (\<lambda>(r, t). rbind (ps_run cmp ops t) (\<lambda>(rs, t). Inr (r # rs, t)))"

text \<open>
  The histories the refinement covers, with \<open>n\<close> objects left in the page of the allocator: an
  insertion needs one, \<open>free\<close> needs two on its list, and a \<open>pop\<close> that brings \<open>_size\<close> to zero
  meets exactly one element.
\<close>

definition op_fits :: "nat \<Rightarrow> 'v pl_op \<Rightarrow> 'v pseq \<Rightarrow> bool" where
  "op_fits n op t = (case op of Op_Insert v \<Rightarrow> 1 \<le> n | Op_Remove c \<Rightarrow> 2 \<le> n
     | Op_Pop \<Rightarrow> 2 \<le> n \<and> (ps_size t = 1 \<longrightarrow> length (ps_items t) = 1))"

definition spare :: "nat \<Rightarrow> 'v pl_op \<Rightarrow> 'v option \<Rightarrow> nat" where
  "spare n op r = (case op of Op_Insert v \<Rightarrow> n - 1 | _ \<Rightarrow> if r = None then n else n + 1)"

fun ps_fits :: "nat \<Rightarrow> ('v \<Rightarrow> 'v \<Rightarrow> bool) \<Rightarrow> 'v pl_op list \<Rightarrow> 'v pseq \<Rightarrow> bool" where
  "ps_fits n cmp [] t = True"
| "ps_fits n cmp (op # ops) t = (op_fits n op t \<and>
     (case ps_step cmp op t of Inl e \<Rightarrow> False | Inr (r, t') \<Rightarrow> ps_fits (spare n op r) cmp ops t'))"

definition empty_plist :: "'v store \<Rightarrow> ('v, allocator) plist" where
  "empty_plist st = \<lparr>pl_store = st, pl_alloc = empty_allocator, pl_first = None, pl_last = None, pl_size = 0\<rparr>"

section \<open>The allocator's counter along a history\<close>

text \<open>
  \<open>can_free al n\<close>: \<open>n\<close> more frees leave the 64-bit counter away from its wrap-around.
\<close>

definition can_free :: "allocator \<Rightarrow> nat \<Rightarrow> bool" where
  "can_free al n \<longleftrightarrow> unat (al_free_count al) + n < 2 ^ 64 \<and> 4096 + n < 2 ^ 64"

lemma pl_insert_alloc:
  assumes "pl_insert alloc k cmp v s = Inr s'"
  obtains f st st' where "alloc st (pl_alloc s) = Inr (f, st', pl_alloc s')"
  using assms by (auto simp: pl_insert_def Let_def split: if_splits)

lemma pl_remove_alloc:
  assumes "pl_remove free k c s = Inr (Some v, s')"
  obtains p st st' where "free p st (pl_alloc s) = Inr (st', pl_alloc s')"
  using assms by (auto simp: pl_remove_def Let_def split: if_splits)

lemma pl_remove_alloc_None:
  "pl_remove free k c s = Inr (None, s') \<Longrightarrow> pl_alloc s' = pl_alloc s"
  by (auto simp: pl_remove_def Let_def split: if_splits)

lemma pl_pop_alloc:
  assumes "pl_pop free s = Inr (v, s')"
  obtains p st st' where "free p st (pl_alloc s) = Inr (st', pl_alloc s')"
  using assms by (auto simp: pl_pop_def Let_def split: if_splits)

lemma can_free_mono: "can_free al (Suc n) \<Longrightarrow> can_free al n"
  by (simp add: can_free_def)

lemma alloc_node_can_free:
  assumes "alloc_node dflt sz asz base st al = Inr (f, st', al')" "can_free al n" "0 < sz"
  shows "al_free_count al' \<noteq> 0 \<and> can_free al' n"
proof -
  obtain d where d: "4096 div sz = d" "d \<le> 4096" by simp
  have "sz < 4096 \<Longrightarrow> d \<noteq> 0" using assms(3) d(1) by (auto simp: div_greater_zero_iff)
  moreover have "unat (of_nat d :: u64) = d" using d(2) by (intro unat_of_nat_u64) simp
  moreover from this have "d \<noteq> 0 \<Longrightarrow> (of_nat d :: u64) \<noteq> 0" by auto
  ultimately show ?thesis using assms(1) [unfolded alloc_node_def d(1)] assms(2) d(2)
    by (auto simp: can_free_def Let_def simp del: word_of_nat_eq_0_iff split: if_splits)
qed

lemma free_node_can_free:
  assumes "free_node p st al = Inr (st', al')" "can_free al (Suc n)"
  shows "al_free_count al' \<noteq> 0 \<and> can_free al' n"
proof -
  have "al_free_count al' = al_free_count al + 1"
    using assms(1) by (auto simp: free_node_def Let_def split: if_splits)
  moreover have "unat (al_free_count al + 1) = unat (al_free_count al) + 1"
    using assms(2) by (simp add: can_free_def unat_word_ariths)
  moreover from this have "al_free_count al + 1 \<noteq> 0" by auto
  ultimately show ?thesis using assms(2) by (simp add: can_free_def)
qed

lemma may_freeI: "al_free_count al \<noteq> 0 \<Longrightarrow> can_free al (Suc n) \<Longrightarrow> may_free al"
proof -
  assume "al_free_count al \<noteq> 0" "can_free al (Suc n)"
  moreover from this have "unat (al_free_count al + 1) = unat (al_free_count al) + 1"
    by (simp add: can_free_def unat_word_ariths)
  ultimately show ?thesis by (auto simp: may_free_def)
qed

section \<open>Refinement of histories\<close>

text \<open>
  The relation kept along a history: the representation, enough spare objects, and a counter that
  is away from zero as soon as there is something to free.
\<close>

definition pl_rel :: "nat \<Rightarrow> nat \<Rightarrow> nat \<Rightarrow> nat \<Rightarrow> nat \<Rightarrow> ('v, allocator) plist \<Rightarrow> 'v pseq \<Rightarrow> bool" where
  "pl_rel sz asz base n m s t \<longleftrightarrow> 0 < sz \<and> can_free (pl_alloc s) m \<and>
     (\<exists>as fs. plrep (free_list sz asz base) s as t fs \<and> n \<le> length fs) \<and>
     (ps_items t \<noteq> [] \<longrightarrow> al_free_count (pl_alloc s) \<noteq> 0)"

lemma pl_relI:
  "plrep (free_list sz asz base) s as t fs \<Longrightarrow> 0 < sz \<Longrightarrow> can_free (pl_alloc s) m \<Longrightarrow> n \<le> length fs \<Longrightarrow>
    al_free_count (pl_alloc s) \<noteq> 0 \<Longrightarrow> pl_rel sz asz base n m s t"
  by (auto simp: pl_rel_def)

lemma set_flag_length [simp]: "length (set_flag b xs) = length xs"
  by (simp add: set_flag_def split: list.splits)

lemma place_length [simp]: "length (place cmp v xs) = Suc (length xs)"
  by (cases xs) (auto simp: place_def)

lemma pl_step_refines:
  assumes rel: "pl_rel sz asz base n (Suc m) s t" and fit: "op_fits n op t"
    and step: "ps_step cmp op t = Inr (r, t')" and k: "length (ps_items t) < k"
  shows "\<exists>s'. pl_step (alloc_node dflt sz asz base) free_node k cmp op s = Inr (r, s') \<and>
    pl_rel sz asz base (spare n op r) m s' t'"
proof -
  from rel obtain as fs where sz: "0 < sz" and cf: "can_free (pl_alloc s) (Suc m)"
    and rep: "plrep (free_list sz asz base) s as t fs" and n: "n \<le> length fs"
    and nz: "ps_items t \<noteq> [] \<Longrightarrow> al_free_count (pl_alloc s) \<noteq> 0"
    unfolding pl_rel_def by blast
  have len: "length as < k" using k plseg_length [OF slab.plrepD(1) [OF rep]] by simp
  have two: "\<exists>f g fs'. fs = f # g # fs'" if "2 \<le> n"
    using that n by (cases fs; cases "tl fs") auto
  show ?thesis
  proof (cases op)
    case (Op_Insert v)
    with fit n obtain f fs' where fs: "fs = f # fs'" by (cases fs) (auto simp: op_fits_def)
    from slab.pl_insert_refines [OF rep [unfolded fs], of k dflt cmp v] k obtain s' as' where
      s': "pl_insert (alloc_node dflt sz asz base) k cmp v s = Inr s'"
      "plrep (free_list sz asz base) s' as' (ps_insert cmp v t) fs'" by auto
    from pl_insert_alloc [OF s'(1)] alloc_node_can_free [OF _ cf sz]
    have "al_free_count (pl_alloc s') \<noteq> 0" "can_free (pl_alloc s') (Suc m)" by metis+
    with s' sz step Op_Insert n fs can_free_mono [of "pl_alloc s'" m] show ?thesis
      by (intro exI [of _ s']) (auto simp: spare_def intro!: pl_relI [OF s'(2)])
  next
    case (Op_Remove c)
    with fit two obtain f g fs' where fs: "fs = f # g # fs'" by (auto simp: op_fits_def)
    show ?thesis
    proof (cases r)
      case None
      with step Op_Remove slab.pl_remove_fails [OF rep _ len, of c t'] obtain s' where
        s': "pl_remove free_node k c s = Inr (None, s')" "plrep (free_list sz asz base) s' as t' fs"
        by auto
      have "ps_items t' = ps_items t"
        using step Op_Remove None by (auto simp: ps_remove_def Let_def split: if_splits option.splits)
      with s' sz cf n nz None Op_Remove pl_remove_alloc_None [OF s'(1)] show ?thesis
        by (intro exI [of _ s']) (auto simp: pl_rel_def spare_def can_free_mono)
    next
      case (Some v)
      with step Op_Remove have rem: "ps_remove c t = (Some v, t')" by simp
      then have "ps_items t \<noteq> []" by (auto simp: ps_remove_def split: if_splits)
      with nz cf have ok: "may_free (pl_alloc s)" by (auto intro: may_freeI)
      from slab.pl_remove_refines [OF rep [unfolded fs] rem len ok] obtain s' as' a where
        s': "pl_remove free_node k c s = Inr (Some v, s')"
        "plrep (free_list sz asz base) s' as' t' (f # a # g # fs')" by auto
      from pl_remove_alloc [OF s'(1)] free_node_can_free [OF _ cf]
      have "al_free_count (pl_alloc s') \<noteq> 0" "can_free (pl_alloc s') m" by metis+
      with s' sz Some Op_Remove n fs show ?thesis
        by (intro exI [of _ s']) (auto simp: spare_def intro!: pl_relI [OF s'(2)])
    qed
  next
    case Op_Pop
    with fit two obtain f g fs' where fs: "fs = f # g # fs'" by (auto simp: op_fits_def)
    from step Op_Pop obtain v where v: "ps_pop t = Inr (v, t')" "r = Some v" by auto
    then have "ps_items t \<noteq> []" by (auto simp: ps_pop_def split: if_splits)
    with nz cf have ok: "may_free (pl_alloc s)" by (auto intro: may_freeI)
    from slab.pl_pop_refines [OF rep [unfolded fs] v(1) ok] fit Op_Pop obtain s' a where
      s': "pl_pop free_node s = Inr (v, s')"
      "plrep (free_list sz asz base) s' (tl as) t' (f # a # g # fs')" by (auto simp: op_fits_def)
    from pl_pop_alloc [OF s'(1)] free_node_can_free [OF _ cf]
    have "al_free_count (pl_alloc s') \<noteq> 0" "can_free (pl_alloc s') m" by metis+
    with s' sz v Op_Pop n fs show ?thesis
      by (intro exI [of _ s']) (auto simp: spare_def intro!: pl_relI [OF s'(2)])
  qed
qed

lemma pl_cut_length: "pl_cut c seen xs = Some (v, r) \<Longrightarrow> length r \<le> length seen + length xs"
  by (induction c seen xs rule: pl_cut.induct) (auto split: if_splits)

lemma ps_step_length:
  "ps_step cmp op t = Inr (r, t') \<Longrightarrow> length (ps_items t') \<le> Suc (length (ps_items t))"
  by (cases op)
    (auto simp: ps_insert_def ps_remove_def ps_pop_def Let_def split: if_splits option.splits list.splits
      dest!: pl_cut_length)

lemma pl_run_refines:
  assumes "pl_rel sz asz base n (length ops) s t" "ps_fits n cmp ops t"
    and "length (ps_items t) + length ops < k"
  shows "\<exists>rs s' t' n'. pl_run (alloc_node dflt sz asz base) free_node k cmp ops s = Inr (rs, s') \<and>
    ps_run cmp ops t = Inr (rs, t') \<and> pl_rel sz asz base n' 0 s' t'"
  using assms
proof (induction ops arbitrary: n s t)
  case (Cons op ops)
  from Cons.prems(2) obtain r t' where step: "ps_step cmp op t = Inr (r, t')"
    and fits: "op_fits n op t" "ps_fits (spare n op r) cmp ops t'"
    by (auto split: sum.splits)
  from pl_step_refines [OF _ fits(1) step, of sz asz base "length ops" s k dflt] Cons.prems(1,3)
  obtain s' where s': "pl_step (alloc_node dflt sz asz base) free_node k cmp op s = Inr (r, s')"
    "pl_rel sz asz base (spare n op r) (length ops) s' t'" by auto
  from Cons.IH [OF s'(2) fits(2)] Cons.prems(3) ps_step_length [OF step] obtain rs s'' t'' n' where
    "pl_run (alloc_node dflt sz asz base) free_node k cmp ops s' = Inr (rs, s'')"
    "ps_run cmp ops t' = Inr (rs, t'')" "pl_rel sz asz base n' 0 s'' t''" by auto
  with s'(1) step show ?case by auto
qed auto

text \<open>
  C3. Over a fresh slab allocator, every history of insertions, removals and pops that stays
  within the one page of objects runs to its end (no null or wild pointer, no endless loop), gives
  the results the same history gives on a sequence, and leaves a well-linked list of exactly the
  elements of that sequence.
\<close>

theorem priority_list_refines:
  assumes "0 < sz" "sz \<le> asz" "asz \<le> 4096" "length ops < 2 ^ 63" "length ops < k"
    and "ps_fits (4096 div asz) cmp ops empty_pseq"
  shows "\<exists>rs s t as fs. pl_run (alloc_node dflt sz asz base) free_node k cmp ops (empty_plist st) =
      Inr (rs, s) \<and> ps_run cmp ops empty_pseq = Inr (rs, t) \<and> plrep (free_list sz asz base) s as t fs"
proof -
  have "plrep (free_list sz asz base) (empty_plist st) [] (empty_pseq :: 'a pseq) (page_nodes asz base)"
    using assms(1-3) by (simp add: plrep_def empty_plist_def empty_pseq_def free_list_def empty_allocator_def)
  then have "pl_rel sz asz base (4096 div asz) (length ops) (empty_plist st) (empty_pseq :: 'a pseq)"
    using assms(1,4) unfolding pl_rel_def
    by (intro conjI exI [of _ "[]"] exI [of _ "page_nodes asz base"])
      (auto simp: can_free_def empty_plist_def empty_allocator_def empty_pseq_def page_nodes_def)
  from pl_run_refines [OF this assms(6), of k dflt] assms(5) show ?thesis
    by (fastforce simp: pl_rel_def empty_pseq_def)
qed

text \<open>Three insertions, a removal in the middle and two pops, with objects of 40 bytes.\<close>

theorem priority_list_refines_witness:
  "\<exists>rs s t as fs. pl_run (alloc_node 0 40 64 4096) free_node 8 (<)
      [Op_Insert 5, Op_Insert 9, Op_Insert 3, Op_Remove (\<lambda>v. v = 9), Op_Pop, Op_Pop, Op_Insert (1::nat)]
      (empty_plist (\<lambda>_. None)) = Inr (rs, s) \<and>
    ps_run (<) [Op_Insert 5, Op_Insert 9, Op_Insert 3, Op_Remove (\<lambda>v. v = 9), Op_Pop, Op_Pop, Op_Insert (1::nat)]
      empty_pseq = Inr (rs, t) \<and> plrep (free_list 40 64 4096) s as t fs"
proof -
  have "ps_fits (4096 div 64) (<)
      [Op_Insert 5, Op_Insert 9, Op_Insert 3, Op_Remove (\<lambda>v. v = 9), Op_Pop, Op_Pop, Op_Insert (1::nat)] empty_pseq"
    by (simp add: empty_pseq_def ps_insert_def place_def ps_remove_def ps_pop_def set_flag_def
        op_fits_def spare_def)
  from priority_list_refines [OF _ _ _ _ _ this, of 40 8 0 4096 "\<lambda>_. None"] show ?thesis
    by (simp del: pl_run.simps ps_run.simps)
qed

end
