(* ===== verification/Priority_List_Order.thy ===== *)
theory Priority_List_Order
  imports Priority_List_Run
begin

text \<open>
  What \<open>utils::priority_list\<close> does to its elements and to their order, on the sequences of
  \<open>Priority_List\<close>: insertion keeps all of them and in which cases it keeps them sorted; which
  elements a removal takes away.
\<close>

definition ps_values :: "'v pseq \<Rightarrow> 'v list" where
  "ps_values t = map fst (ps_items t)"

lemma map_fst_set_flag [simp]: "map fst (set_flag b xs) = map fst xs"
  by (cases xs) (auto simp: set_flag_def)

lemma map_fst_place:
  "map fst (place cmp v xs) =
    (if xs = [] then [v] else if cmp v (fst (hd xs)) then v # map fst xs
     else if cmp (fst (last xs)) v \<or> \<not> cmp v (fst (last xs)) then map fst xs @ [v]
     else fst (hd xs) # v # map fst (tl xs))"
  by (simp add: place_def)

lemma place_mset: "mset (map fst (place cmp v xs)) = add_mset v (mset (map fst xs))"
  by (cases xs) (auto simp: map_fst_place simp del: mset_map)

text \<open>Popping takes the first element and no other.\<close>

lemma ps_pop_values: "ps_pop t = Inr (v, t') \<Longrightarrow> ps_values t = v # ps_values t'"
  by (auto simp: ps_pop_def ps_values_def split: if_splits list.splits)

lemma ps_insert_values:
  "mset (ps_values (ps_insert cmp v t)) = add_mset v (mset (ps_values t))"
  by (simp add: ps_insert_def ps_values_def place_mset del: mset_map)

text \<open>
  Insertions and pops lose nothing and invent nothing: along any history of them the values
  popped together with the values still in the list are the values inserted together with those
  that were there.
\<close>

theorem priority_list_conserves:
  assumes "ps_run cmp ops t = Inr (rs, t')" "\<forall>op\<in>set ops. \<forall>c. op \<noteq> Op_Remove c"
  shows "mset (List.map_filter id rs) + mset (ps_values t') =
    mset (List.map_filter (\<lambda>op. case op of Op_Insert v \<Rightarrow> Some v | _ \<Rightarrow> None) ops) + mset (ps_values t)"
  using assms
proof (induction ops arbitrary: t rs)
  case Nil
  then show ?case by (simp add: map_filter_simps)
next
  case (Cons op ops)
  then obtain r u rs' where u: "ps_step cmp op t = Inr (r, u)" "rs = r # rs'"
    "ps_run cmp ops u = Inr (rs', t')" by auto
  with Cons.IH [OF u(3)] Cons.prems(2) show ?case
    by (cases op) (auto simp: map_filter_simps ps_insert_values ps_pop_values)
qed

theorem priority_list_conserves_witness:
  "\<exists>rs t'. ps_run (<) [Op_Insert 5, Op_Insert (3::nat), Op_Insert 4, Op_Pop] empty_pseq = Inr (rs, t') \<and>
    mset (List.map_filter id rs) + mset (ps_values t') = {#5, 3, 4#}"
proof -
  let ?ops = "[Op_Insert 5, Op_Insert (3::nat), Op_Insert 4, Op_Pop]"
  obtain rs t' where r: "ps_run (<) ?ops empty_pseq = Inr (rs, t')"
    by (simp add: empty_pseq_def ps_insert_def place_def ps_pop_def set_flag_def)
  from priority_list_conserves [OF r] have
    "mset (List.map_filter id rs) + mset (ps_values t') = {#5, 3, 4#}"
    by (simp add: map_filter_simps empty_pseq_def ps_values_def)
  with r show ?thesis by blast
qed

text \<open>
  C6. When insertion keeps a sorted list sorted: exactly when the new value is smaller than the
  first, not smaller than the last, or not greater than the second. Every other value belongs
  further back and is put right behind the first.
\<close>

theorem priority_list_sorted_iff:
  fixes v :: "'v :: linorder"
  assumes "sorted (ps_values t)" "ps_values t = x # xs"
  shows "sorted (ps_values (ps_insert (<) v t)) \<longleftrightarrow>
    v < x \<or> last (x # xs) \<le> v \<or> v \<le> hd xs"
proof -
  let ?i = "ps_items t"
  from assms(2) obtain b zs where i: "?i = (x, b) # zs" "xs = map fst zs"
    by (cases ?i) (auto simp: ps_values_def)
  have l: "fst (last ?i) = last (x # xs)" using i by (simp add: last_map)
  have val: "ps_values (ps_insert (<) v t) =
      (if v < x then v # x # xs else if last (x # xs) < v \<or> \<not> v < last (x # xs) then (x # xs) @ [v]
       else x # v # xs)"
    using i unfolding ps_values_def ps_insert_def map_fst_place l pseq.simps by simp
  have s: "sorted (x # xs)" using assms by simp
  then have le: "y \<le> last (x # xs)" if "y \<in> set (x # xs)" for y
    using that by (induction xs arbitrary: x) (auto split: if_splits)
  show ?thesis
  proof (cases "v < x \<or> last (x # xs) \<le> v")
    case True
    with s le show ?thesis unfolding val by (auto simp: sorted_append intro: order_trans)
  next
    case False
    then have "xs \<noteq> []" by auto
    then obtain y ys where "xs = y # ys" by (cases xs) auto
    with False s show ?thesis unfolding val by auto
  qed
qed

text \<open>Inserting 7 into 1, 5, 9 gives 1, 7, 5, 9.\<close>

theorem priority_list_sorted_iff_witness:
  "\<not> sorted (ps_values (ps_insert (<) (7::nat) \<lparr>ps_items = [(1, False), (5, True), (9, True)], ps_size = 3\<rparr>))"
  using priority_list_sorted_iff [of "\<lparr>ps_items = [(1, False), (5, True), (9, True)], ps_size = 3\<rparr>" "1::nat" "[5, 9]" 7]
  by (simp add: ps_values_def)

lemma ps_remove_values:
  assumes "ps_remove c t = (Some v, t')"
  shows "\<exists>ys b zs. ps_items t = ys @ (v, b) # zs \<and> (\<forall>y\<in>set ys. \<not> c (fst y)) \<and> c v \<and>
    ps_values t' = (if b then map fst ys else []) @ map fst zs \<and> ps_size t' = ps_size t - 1"
proof -
  from assms obtain xs where cut: "pl_cut c [] (ps_items t) = Some (v, xs)"
    and t': "ps_items t' = xs" "ps_size t' = ps_size t - 1"
    by (auto simp: ps_remove_def Let_def split: if_splits option.splits)
  from pl_cut_Some [OF cut] obtain ys b zs where
    "ps_items t = ys @ (v, b) # zs" "\<forall>y\<in>set ys. \<not> c (fst y)" "c v"
    "xs = (if b then [] @ ys @ set_flag True zs else set_flag False zs)" by blast
  with t' show ?thesis by (intro exI [of _ ys] exI [of _ b] exI [of _ zs]) (simp add: ps_values_def)
qed

lemma ps_remove_linked:
  assumes "ps_remove c t = (Some v, t')" "\<forall>x\<in>set (tl (ps_items t)). snd x"
  shows "mset (ps_values t) = add_mset v (mset (ps_values t'))"
proof -
  from ps_remove_values [OF assms(1)] obtain ys b zs where
    r: "ps_items t = ys @ (v, b) # zs" "ps_values t' = (if b then map fst ys else []) @ map fst zs"
    by blast
  with assms(2) have "b \<or> ys = []" by (cases ys) auto
  with r show ?thesis by (auto simp: ps_values_def)
qed

text \<open>
  The old first element keeps a null \<open>prev\<close> link when a smaller one is inserted in front of
  it. Removing it then takes the new first element out of the list as well, without returning it,
  while the count of elements goes down by one only: the list says it holds an element more than
  it does.
\<close>

theorem priority_list_loses_front:
  assumes "ps_items t = (x, False) # rest" "cmp v x" "c x" "\<not> c v" "ps_size t + 1 \<noteq> 0"
  shows "\<exists>u. ps_remove c (ps_insert cmp v t) = (Some x, u) \<and> ps_size u = ps_size t \<and>
    ps_values u = map fst rest"
  using assms by (auto simp: ps_insert_def place_def ps_remove_def Let_def ps_values_def)

text \<open>After that a list of two elements has none and still counts one: the next pop dereferences null.\<close>

theorem priority_list_loses_front_witness:
  "let t = ps_insert (<) (5::nat) empty_pseq; u = snd (ps_remove (\<lambda>x. x = 5) (ps_insert (<) 3 t)) in
   ps_size u = 1 \<and> ps_values u = [] \<and> ps_pop u = Inl Null_Deref"
proof -
  let ?t = "ps_insert (<) (5::nat) empty_pseq"
  obtain u where "ps_remove (\<lambda>x. x = 5) (ps_insert (<) 3 ?t) = (Some 5, u)" "ps_size u = 1" "ps_values u = []"
    using priority_list_loses_front [of ?t 5 "[]" "(<)" 3 "\<lambda>x. x = 5"]
    by (auto simp: ps_insert_def place_def empty_pseq_def)
  then show ?thesis by (simp add: ps_values_def ps_pop_def Let_def)
qed

end
