(* ===== verification/Page_Loop.thy ===== *)
theory Page_Loop
  imports Prelude
begin

text \<open>
  The four nested loops that \<open>map\<close> and \<open>unmap\<close> of the kernel (\<open>kernel/memory/x64paging.cpp\<close>) and of
  the boot loader (\<open>loader/booter/memory/x64paging.cpp\<close>) share: one loop per level of the paging
  structures over the counters \<open>startpml4e\<close>, \<open>startpdpte\<close>, \<open>startpde\<close>, \<open>startpte\<close>, each leaving when the
  four counters equal the end of the range or its own reaches 512. One induction for a level gives
  an invariant rule for the whole: the pages of the range are visited one by one, in order, each
  between entering and leaving its three tables.
\<close>

section \<open>The loops\<close>

text \<open>
  The innermost loop. \<open>fin\<close> is the test that the four counters have reached the end.
\<close>

function pt_loop :: "(nat \<Rightarrow> 'a \<Rightarrow> 'a result) \<Rightarrow> (nat \<Rightarrow> bool) \<Rightarrow> nat \<Rightarrow> 'a \<Rightarrow> (nat \<times> 'a) result" where
  "pt_loop leaf fin i s =
     (if \<not> fin i \<and> i < 512 then rbind (leaf i s) (pt_loop leaf fin (Suc i)) else Inr (i, s))"
  by pat_completeness auto
termination by (relation "measure (\<lambda>(_, _, i, _). 512 - i)") auto

text \<open>
  An outer loop: enter the table, run the loop of the next level from the inner counters \<open>r\<close>, leave
  the table (the destructor of the lock), and go on with the next entry and inner counters zero
  unless the end is reached, which is the early \<open>return\<close> of the code. The outermost loop does not
  test its counter against 512: \<open>over\<close> is what happens there.
\<close>

function level_loop :: "(nat \<Rightarrow> 'r \<Rightarrow> 'a \<Rightarrow> ((nat \<times> 'r) \<times> 'a) result) \<Rightarrow> (nat \<Rightarrow> 'a \<Rightarrow> 'a result) \<Rightarrow>
    (nat \<Rightarrow> 'r \<Rightarrow> 'a \<Rightarrow> ('r \<times> 'a) result) \<Rightarrow> (nat \<Rightarrow> 'a \<Rightarrow> 'a result) \<Rightarrow> (nat \<Rightarrow> 'r \<Rightarrow> bool) \<Rightarrow> 'r \<Rightarrow>
    nat \<Rightarrow> 'r \<Rightarrow> 'a \<Rightarrow> ((nat \<times> 'r) \<times> 'a) result" where
  "level_loop over enter inner leave fin zero i r s =
     (if fin i r then Inr ((i, r), s)
      else if 512 \<le> i then over i r s
      else rbind (enter i s) (\<lambda>s.
           rbind (inner i r s) (\<lambda>(r, s).
           rbind (leave i s) (\<lambda>s.
           if \<not> fin i r then level_loop over enter inner leave fin zero (Suc i) zero s
           else Inr ((i, r), s)))))"
  by pat_completeness auto
termination by (relation "measure (\<lambda>(_, _, _, _, _, _, i, _, _). 512 - i)") auto

declare pt_loop.simps [simp del] level_loop.simps [simp del]

definition next_table :: "nat \<Rightarrow> 'r \<Rightarrow> 'a \<Rightarrow> ((nat \<times> 'r) \<times> 'a) result" where
  "next_table i r s = Inr ((i, r), s)"

type_synonym pos = "nat \<times> nat \<times> nat \<times> nat"

definition page_loop :: "(nat \<Rightarrow> 'a \<Rightarrow> 'a result) \<Rightarrow> (nat \<Rightarrow> nat \<Rightarrow> 'a \<Rightarrow> 'a result) \<Rightarrow>
    (nat \<Rightarrow> nat \<Rightarrow> nat \<Rightarrow> 'a \<Rightarrow> 'a result) \<Rightarrow> (nat \<Rightarrow> nat \<Rightarrow> nat \<Rightarrow> nat \<Rightarrow> 'a \<Rightarrow> 'a result) \<Rightarrow>
    (nat \<Rightarrow> 'a \<Rightarrow> 'a result) \<Rightarrow> (nat \<Rightarrow> nat \<Rightarrow> 'a \<Rightarrow> 'a result) \<Rightarrow>
    (nat \<Rightarrow> nat \<Rightarrow> nat \<Rightarrow> 'a \<Rightarrow> 'a result) \<Rightarrow> pos \<Rightarrow> pos \<Rightarrow> 'a \<Rightarrow> 'a result" where
  "page_loop enter4 enter3 enter2 leaf leave4 leave3 leave2 start hi s =
     (let (i4, i3, i2, i1) = start in
      rbind (level_loop (\<lambda>_ _ _. Inl Out_Of_Bounds) enter4 (\<lambda>i4 (i3, i2, i1) s.
             level_loop next_table (enter3 i4) (\<lambda>i3 (i2, i1) s.
             level_loop next_table (enter2 i4 i3) (\<lambda>i2 i1 s.
             pt_loop (leaf i4 i3 i2) (\<lambda>i1. (i4, i3, i2, i1) = hi) i1 s)
             (leave2 i4 i3) (\<lambda>i2 i1. (i4, i3, i2, i1) = hi) 0 i2 i1 s)
             (leave3 i4) (\<lambda>i3 (i2, i1). (i4, i3, i2, i1) = hi) (0, 0) i3 (i2, i1) s)
             leave4 (\<lambda>i4 (i3, i2, i1). (i4, i3, i2, i1) = hi) (0, 0, 0) i4 (i3, i2, i1) s)
        (\<lambda>(_, s). Inr s))"

text \<open>The number of a page, and its counters.\<close>

fun page_number :: "pos \<Rightarrow> nat" where
  "page_number (i4, i3, i2, i1) = ((i4 * 512 + i3) * 512 + i2) * 512 + i1"

fun pos_ok :: "pos \<Rightarrow> bool" where
  "pos_ok (i4, i3, i2, i1) \<longleftrightarrow> i4 < 512 \<and> i3 < 512 \<and> i2 < 512 \<and> i1 < 512"

section \<open>Invariant rules\<close>

text \<open>
  What a loop over one table establishes, from page \<open>p\<close> on with \<open>pe\<close> the end: either the end was
  inside the table, or the table was finished.
\<close>

definition table_done :: "(nat \<Rightarrow> 's \<Rightarrow> bool) \<Rightarrow> nat \<Rightarrow> nat \<Rightarrow> bool \<Rightarrow> 's \<Rightarrow> bool" where
  "table_done I pe stop fin s \<longleftrightarrow> (if fin then I pe s else stop \<le> pe \<and> I stop s)"

lemma pt_loop_inv:
  assumes fin: "\<And>i. i < 512 \<Longrightarrow> fin i \<longleftrightarrow> b * 512 + i = pe" and over: "\<not> fin 512"
    and leaf: "\<And>i s. i < 512 \<Longrightarrow> b * 512 + i < pe \<Longrightarrow> I (b * 512 + i) s \<Longrightarrow>
      \<exists>s'. leaf i s = Inr s' \<and> I (Suc (b * 512 + i)) s'"
    and start: "i \<le> 512" "b * 512 + i \<le> pe" "I (b * 512 + i) s"
  shows "\<exists>i' s'. pt_loop leaf fin i s = Inr (i', s') \<and> table_done I pe (Suc b * 512) (fin i') s'"
  using start
proof (induction "512 - i" arbitrary: i s)
  case 0
  then have i: "i = 512" by simp
  with 0 over show ?case by (simp add: pt_loop.simps [of _ _ 512] table_done_def add.commute)
next
  case (Suc k)
  then have i: "i < 512" by simp
  show ?case
  proof (cases "fin i")
    case True
    with Suc.prems fin [OF i] show ?thesis by (simp add: pt_loop.simps [of _ _ i] table_done_def)
  next
    case False
    with fin [OF i] Suc.prems(2) have lt: "b * 512 + i < pe" by simp
    from leaf [OF i lt Suc.prems(3)] obtain s' where
      s': "leaf i s = Inr s'" "I (b * 512 + Suc i) s'" by auto
    have "k = 512 - Suc i" "Suc i \<le> 512" "b * 512 + Suc i \<le> pe" using Suc.hyps(2) i lt by auto
    from Suc.hyps(1) [OF this s'(2)] False i s'(1) show ?thesis
      by (simp add: pt_loop.simps [of _ _ i])
  qed
qed

lemma level_loop_inv:
  assumes fin: "\<And>i r. i < 512 \<Longrightarrow> N r \<Longrightarrow> fin i r \<longleftrightarrow> (b * 512 + i) * W + off r = pe"
    and over: "\<And>r. \<not> fin 512 r" "\<And>s. Suc b * 512 * W \<le> pe \<Longrightarrow> ov 512 zero s = Inr ((512, zero), s)"
    and zero: "N zero" "off zero = 0"
    and enter: "\<And>i p s. i < 512 \<Longrightarrow> p < pe \<Longrightarrow> Iout p s \<Longrightarrow> (b * 512 + i) * W \<le> p \<Longrightarrow>
      p < Suc (b * 512 + i) * W \<Longrightarrow> \<exists>s'. enter i s = Inr s' \<and> Iin i p s'"
    and inner: "\<And>i r s. i < 512 \<Longrightarrow> N r \<Longrightarrow> (b * 512 + i) * W + off r < pe \<Longrightarrow>
      Iin i ((b * 512 + i) * W + off r) s \<Longrightarrow>
      \<exists>r' s'. inner i r s = Inr (r', s') \<and> table_done (Iin i) pe (Suc (b * 512 + i) * W) (fin i r') s'"
    and leave: "\<And>i p s. i < 512 \<Longrightarrow> p = pe \<or> p = Suc (b * 512 + i) * W \<Longrightarrow> Iin i p s \<Longrightarrow>
      \<exists>s'. leave i s = Inr s' \<and> Iout p s'"
    and off: "\<And>r. N r \<Longrightarrow> off r < W"
    and start: "i < 512 \<or> i = 512 \<and> r = zero" "N r" "(b * 512 + i) * W + off r \<le> pe"
      "Iout ((b * 512 + i) * W + off r) s"
  shows "\<exists>i' r' s'. level_loop ov enter inner leave fin zero i r s = Inr ((i', r'), s') \<and>
    table_done Iout pe (Suc b * 512 * W) (fin i' r') s'"
  using start
proof (induction "512 - i" arbitrary: i r s)
  case 0
  then have i: "i = 512" "r = zero" by auto
  have eq: "(b * 512 + 512) * W + off zero = Suc b * 512 * W" using zero by simp
  have "ov 512 zero s = Inr ((512, zero), s)" "Suc b * 512 * W \<le> pe" "Iout (Suc b * 512 * W) s"
    using 0 over(2) [of s] unfolding i eq by auto
  with i over(1) show ?case by (simp add: level_loop.simps [of _ _ _ _ _ _ 512] table_done_def)
next
  case (Suc k)
  then have i: "i < 512" by auto
  let ?p = "(b * 512 + i) * W + off r"
  show ?case
  proof (cases "fin i r")
    case True
    with fin [OF i Suc.prems(2)] have "?p = pe" by simp
    with Suc.prems(4) have "Iout pe s" by simp
    with True show ?thesis by (simp add: level_loop.simps [of _ _ _ _ _ _ i] table_done_def)
  next
    case False
    with fin [OF i Suc.prems(2)] Suc.prems(3) have lt: "?p < pe" by simp
    have "?p < Suc (b * 512 + i) * W" using off [OF Suc.prems(2)] by simp
    from enter [OF i lt Suc.prems(4) _ this] obtain s1 where s1: "enter i s = Inr s1" "Iin i ?p s1" by auto
    from inner [OF i Suc.prems(2) lt s1(2)] obtain r' s2 where
      s2: "inner i r s1 = Inr (r', s2)" "table_done (Iin i) pe (Suc (b * 512 + i) * W) (fin i r') s2" by auto
    show ?thesis
    proof (cases "fin i r'")
      case True
      with s2(2) have "Iin i pe s2" by (simp add: table_done_def)
      from leave [OF i _ this] obtain s3 where "leave i s2 = Inr s3" "Iout pe s3" by auto
      with False True i s1 s2(1) show ?thesis
        by (simp add: level_loop.simps [of _ _ _ _ _ _ i] table_done_def)
    next
      case nfin: False
      let ?q = "(b * 512 + Suc i) * W + off zero"
      have q: "?q = Suc (b * 512 + i) * W" using zero(2) by simp
      from nfin s2(2) have "?q \<le> pe" "Iin i ?q s2" unfolding q table_done_def by simp_all
      from leave [OF i _ this(2)] q obtain s3 where s3: "leave i s2 = Inr s3" "Iout ?q s3" by auto
      have "k = 512 - Suc i" "Suc i < 512 \<or> Suc i = 512 \<and> zero = zero" using Suc.hyps(2) i by auto
      from Suc.hyps(1) [OF this zero(1) \<open>?q \<le> pe\<close> s3(2)] obtain i' r'' s' where
        "level_loop ov enter inner leave fin zero (Suc i) zero s3 = Inr ((i', r''), s')"
        "table_done Iout pe (Suc b * 512 * W) (fin i' r'') s'" by auto
      with False nfin i s1 s2(1) s3 show ?thesis
        by (simp add: level_loop.simps [of _ _ _ _ _ _ i])
    qed
  qed
qed

lemma page_number_inj:
  "pos_ok x \<Longrightarrow> pos_ok y \<Longrightarrow> page_number x = page_number y \<Longrightarrow> x = y"
proof (cases x, cases y)
  fix a b c d a' b' c' d'
  assume ok: "pos_ok x" "pos_ok y" and eq: "page_number x = page_number y"
    and xy: "x = (a, b, c, d)" "y = (a', b', c', d')"
  have digit: "h = h' \<and> l = l'" if "h * 512 + l = h' * 512 + l'" "l < 512" "l' < 512" for h l h' l' :: nat
  proof -
    have "(h * 512 + l) div 512 = h" "(h' * 512 + l') div 512 = h'"
      "(h * 512 + l) mod 512 = l" "(h' * 512 + l') mod 512 = l'" using that(2,3) by simp_all
    with that(1) show ?thesis by metis
  qed
  from digit [of "(a * 512 + b) * 512 + c" d "(a' * 512 + b') * 512 + c'" d'] ok eq xy
  have 1: "(a * 512 + b) * 512 + c = (a' * 512 + b') * 512 + c'" "d = d'" by simp_all
  from digit [OF 1(1)] ok xy have 2: "a * 512 + b = a' * 512 + b'" "c = c'" by simp_all
  from digit [OF 2(1)] ok xy have "a = a'" "b = b'" by simp_all
  with 1 2 xy show "x = y" by simp
qed

lemma page_number_eq_iff:
  "pos_ok x \<Longrightarrow> pos_ok y \<Longrightarrow> page_number x = page_number y \<longleftrightarrow> x = y"
  using page_number_inj by blast

text \<open>
  The rule for all four loops. \<open>I0 p\<close> holds between tables when the pages before \<open>p\<close> are done; \<open>I4\<close>,
  \<open>I3\<close>, \<open>I2\<close> hold inside the tables entered.
\<close>

theorem page_loop_inv:
  assumes ok: "pos_ok (i4, i3, i2, i1)" "pos_ok e"
    and enter4: "\<And>i p s. i < 512 \<Longrightarrow> p < page_number e \<Longrightarrow> i * 512 * 512 * 512 \<le> p \<Longrightarrow>
      p < Suc i * 512 * 512 * 512 \<Longrightarrow> I0 p s \<Longrightarrow> \<exists>s'. enter4 i s = Inr s' \<and> I4 i p s'"
    and enter3: "\<And>a i p s. a < 512 \<Longrightarrow> i < 512 \<Longrightarrow> p < page_number e \<Longrightarrow> (a * 512 + i) * 512 * 512 \<le> p \<Longrightarrow>
      p < Suc (a * 512 + i) * 512 * 512 \<Longrightarrow> I4 a p s \<Longrightarrow> \<exists>s'. enter3 a i s = Inr s' \<and> I3 a i p s'"
    and enter2: "\<And>a b i p s. a < 512 \<Longrightarrow> b < 512 \<Longrightarrow> i < 512 \<Longrightarrow> p < page_number e \<Longrightarrow>
      ((a * 512 + b) * 512 + i) * 512 \<le> p \<Longrightarrow> p < Suc ((a * 512 + b) * 512 + i) * 512 \<Longrightarrow>
      I3 a b p s \<Longrightarrow> \<exists>s'. enter2 a b i s = Inr s' \<and> I2 a b i p s'"
    and leaf: "\<And>a b c i s. pos_ok (a, b, c, i) \<Longrightarrow> page_number (a, b, c, i) < page_number e \<Longrightarrow>
      I2 a b c (page_number (a, b, c, i)) s \<Longrightarrow>
      \<exists>s'. leaf a b c i s = Inr s' \<and> I2 a b c (Suc (page_number (a, b, c, i))) s'"
    and leave2: "\<And>a b i p s. a < 512 \<Longrightarrow> b < 512 \<Longrightarrow> i < 512 \<Longrightarrow>
      p = page_number e \<or> p = Suc ((a * 512 + b) * 512 + i) * 512 \<Longrightarrow> I2 a b i p s \<Longrightarrow>
      \<exists>s'. leave2 a b i s = Inr s' \<and> I3 a b p s'"
    and leave3: "\<And>a i p s. a < 512 \<Longrightarrow> i < 512 \<Longrightarrow> p = page_number e \<or> p = Suc (a * 512 + i) * 512 * 512 \<Longrightarrow>
      I3 a i p s \<Longrightarrow> \<exists>s'. leave3 a i s = Inr s' \<and> I4 a p s'"
    and leave4: "\<And>i p s. i < 512 \<Longrightarrow> p = page_number e \<or> p = Suc i * 512 * 512 * 512 \<Longrightarrow> I4 i p s \<Longrightarrow>
      \<exists>s'. leave4 i s = Inr s' \<and> I0 p s'"
    and start: "page_number (i4, i3, i2, i1) \<le> page_number e" "I0 (page_number (i4, i3, i2, i1)) s"
  shows "\<exists>s'. page_loop enter4 enter3 enter2 leaf leave4 leave3 leave2 (i4, i3, i2, i1) e s = Inr s' \<and>
    I0 (page_number e) s'"
proof -
  let ?pe = "page_number e"
  have fin: "(a, b, c, d) = e \<longleftrightarrow> page_number (a, b, c, d) = ?pe" if "pos_ok (a, b, c, d)" for a b c d
    using page_number_eq_iff [OF that ok(2)] by blast
  have nfin: "(512, b, c, d) \<noteq> e" "(a, 512, c, d) \<noteq> e" "(a, b, 512, d) \<noteq> e" "(a, b, c, 512) \<noteq> e"
    for a b c d using ok(2) by auto
  have L2: "\<exists>i' s'. pt_loop (leaf a b c) (\<lambda>i1. (a, b, c, i1) = e) i s = Inr (i', s') \<and>
      table_done (I2 a b c) ?pe (Suc ((a * 512 + b) * 512 + c) * 512) ((a, b, c, i') = e) s'"
    if "a < 512" "b < 512" "c < 512" "i < 512" "((a * 512 + b) * 512 + c) * 512 + i < ?pe"
      "I2 a b c (((a * 512 + b) * 512 + c) * 512 + i) s" for a b c i s
    by (rule pt_loop_inv [where b = "(a * 512 + b) * 512 + c"])
      (use that fin [of a b c] nfin leaf [of a b c] in auto)
  let ?L3 = "\<lambda>a b. level_loop next_table (enter2 a b) (\<lambda>i2 i1 s. pt_loop (leaf a b i2) (\<lambda>i1. (a, b, i2, i1) = e) i1 s)
             (leave2 a b) (\<lambda>i2 i1. (a, b, i2, i1) = e) 0"
  have L3: "\<exists>r' s'. ?L3 a b i r s = Inr (r', s') \<and>
      table_done (I3 a b) ?pe (Suc (a * 512 + b) * (512 * 512)) ((a, b, r') = e) s'"
    if "a < 512" "b < 512" "i < 512" "r < 512" "(a * 512 + b) * (512 * 512) + (i * 512 + r) < ?pe"
      "I3 a b ((a * 512 + b) * (512 * 512) + (i * 512 + r)) s" for a b i r s
  proof -
    have "\<exists>i' r' s'. ?L3 a b i r s = Inr ((i', r'), s') \<and>
        table_done (I3 a b) ?pe (Suc (a * 512 + b) * 512 * 512) ((a, b, i', r') = e) s'"
    proof (rule level_loop_inv [where b = "a * 512 + b" and W = 512 and N = "\<lambda>r. r < 512" and off = "\<lambda>r. r"
          and Iin = "I2 a b"], goal_cases)
      case (1 i r) then show ?case using that fin [of a b i r] by simp
    next
      case (6 i p s) then show ?case using that enter2 [of a b i p s] by simp
    next
      case (7 i r s) then show ?case using that L2 [of a b i r s] by simp
    next
      case (8 i p s) then show ?case using that leave2 [of a b i p s] by simp
    qed (use that nfin in \<open>simp_all add: next_table_def algebra_simps\<close>)
    then show ?thesis by (fastforce simp: mult.assoc)
  qed
  let ?L4 = "\<lambda>a. level_loop next_table (enter3 a) (\<lambda>i3 (i2, i1) s. ?L3 a i3 i2 i1 s)
             (leave3 a) (\<lambda>i3 (i2, i1). (a, i3, i2, i1) = e) (0, 0)"
  have L4: "\<exists>r' s'. ?L4 a i (r, t) s = Inr (r', s') \<and>
      table_done (I4 a) ?pe (Suc a * (512 * 512 * 512)) ((a, r') = e) s'"
    if "a < 512" "i < 512" "r < 512" "t < 512" "a * (512 * 512 * 512) + (i * (512 * 512) + (r * 512 + t)) < ?pe"
      "I4 a (a * (512 * 512 * 512) + (i * (512 * 512) + (r * 512 + t))) s" for a i r t s
  proof -
    have "\<exists>i' r' s'. ?L4 a i (r, t) s = Inr ((i', r'), s') \<and>
        table_done (I4 a) ?pe (Suc a * 512 * (512 * 512)) (case r' of (i2, i1) \<Rightarrow> (a, i', i2, i1) = e) s'"
    proof (rule level_loop_inv [where b = a and W = "512 * 512" and N = "\<lambda>(x, y). x < 512 \<and> y < 512"
          and off = "\<lambda>(x, y). x * 512 + y" and Iin = "I3 a"], goal_cases)
      case (1 i r) then show ?case using that fin [of a i "fst r" "snd r"]
        by (auto simp: algebra_simps split: prod.splits)
    next
      case (6 i p s) then show ?case using that enter3 [of a i p s] by (simp add: mult.assoc)
    next
      case (7 i r s) then show ?case using that L3 [of a i "fst r" "snd r" s] by (auto split: prod.splits)
    next
      case (8 i p s) then show ?case using that leave3 [of a i p s] by (simp add: algebra_simps)
    next
      case (9 r) then show ?case by auto
    qed (use that nfin in \<open>auto simp: next_table_def algebra_simps\<close>)
    then show ?thesis by (fastforce simp: mult.assoc)
  qed
  let ?L5 = "level_loop (\<lambda>_ _ _. Inl Out_Of_Bounds) enter4 (\<lambda>i4 (i3, i2, i1) s. ?L4 i4 i3 (i2, i1) s)
             leave4 (\<lambda>i4 (i3, i2, i1). (i4, i3, i2, i1) = e) (0, 0, 0)"
  have pe: "?pe < 512 * (512 * 512 * 512)" using ok(2) by (cases e) auto
  have "\<exists>i' r' s'. ?L5 i4 (i3, i2, i1) s = Inr ((i', r'), s') \<and>
      table_done I0 ?pe (Suc 0 * 512 * (512 * 512 * 512)) (case r' of (i3, i2, i1) \<Rightarrow> (i', i3, i2, i1) = e) s'"
  proof (rule level_loop_inv [where b = 0 and W = "512 * 512 * 512" and N = "\<lambda>(x, y, z). x < 512 \<and> y < 512 \<and> z < 512"
        and off = "\<lambda>(x, y, z). x * (512 * 512) + (y * 512 + z)" and Iin = I4], goal_cases)
    case (1 i r) then show ?case using fin [of i "fst r" "fst (snd r)" "snd (snd r)"]
      by (auto simp: algebra_simps split: prod.splits)
  next
    case (6 i p s) then show ?case using enter4 [of i p s] by (simp add: mult.assoc)
  next
    case (7 i r s) then show ?case using L4 [of i "fst r" "fst (snd r)" "snd (snd r)" s] by (auto split: prod.splits)
  next
    case (8 i p s) then show ?case using leave4 [of i p s] by (simp add: algebra_simps)
  next
    case (9 r) then show ?case by auto
  qed (use ok nfin start pe in \<open>auto simp: next_table_def algebra_simps\<close>)
  then show ?thesis using pe
    by (fastforce simp: page_loop_def table_done_def split: if_splits)
qed

end
