(* ===== verification/Frame_Stack.thy ===== *)
theory Frame_Stack
  imports Prelude "HOL-Library.Multiset"
begin

text \<open>
  The stacks of free physical frames (\<open>kernel/memory/stack.h\<close>, \<open>stack.cpp\<close>) and the physical memory
  manager (\<open>kernel/memory/pmm.cpp\<close>). A stack is a chain of chunks of one page each, which live in a
  heap; a chunk is named by the physical frame it occupies. The field \<open>size\<close> of a chunk is the length
  of its list of frames.
\<close>

section \<open>Chunks and stacks\<close>

record chunk =
  ck_prev :: "u64 option"
  ck_next :: "u64 option"
  ck_frames :: "u64 list"

type_synonym chunks = "u64 \<Rightarrow> chunk option"

record frame_stack =
  fs_first :: "u64 option"
  fs_last :: "u64 option"
  fs_size :: u64
  fs_balance :: u64

text \<open>\<open>frame_stack_chunk::max\<close>: 509 words less the 24 bytes of the lock.\<close>

definition chunk_max :: nat where
  "chunk_max = 509 - 24 div 8"

definition empty_stack :: frame_stack where
  "empty_stack = \<lparr>fs_first = None, fs_last = None, fs_size = 0, fs_balance = 0\<rparr>"

definition get_chunk :: "chunks \<Rightarrow> u64 option \<Rightarrow> chunk result" where
  "get_chunk hp p = (case p of None \<Rightarrow> Inl Null_Deref
     | Some a \<Rightarrow> (case hp a of None \<Rightarrow> Inl Page_Fault | Some c \<Rightarrow> Inr c))"

definition set_balancing :: "u64 \<Rightarrow> frame_stack \<Rightarrow> frame_stack" where
  "set_balancing b s = s\<lparr>fs_balance := b * of_nat chunk_max\<rparr>"

text \<open>The chunk \<open>allocate_chained\<close> builds in a frame: no neighbours, no frames.\<close>

definition new_chunk :: chunk where
  "new_chunk = \<lparr>ck_prev = None, ck_next = None, ck_frames = []\<rparr>"

text \<open>
  \<open>pop\<close> from the line that locks \<open>_last\<close> on: take a frame from the last chunk. When that leaves
  \<open>max - 50\<close> frames in a chunk that is not the first one, the chunk behind it is looked at.
\<close>

definition take_frame :: "chunks \<Rightarrow> frame_stack \<Rightarrow> (u64 \<times> chunks \<times> frame_stack) result" where
  "take_frame hp s =
     rbind (get_chunk hp (fs_last s)) (\<lambda>c.
     if ck_frames c = [] then Inl Out_Of_Bounds
     else let hp = hp(the (fs_last s) \<mapsto> c\<lparr>ck_frames := butlast (ck_frames c)\<rparr>);
              s = s\<lparr>fs_size := fs_size s - 1\<rparr>
          in rbind (if fs_last s \<noteq> fs_first s \<and> length (ck_frames c) - 1 = chunk_max - 50
                    then rbind (get_chunk hp (ck_next c)) (\<lambda>_. Inr ()) else Inr ()) (\<lambda>_.
             Inr (last (ck_frames c), hp, s)))"

text \<open>
  \<open>push\<close> without its last two lines; the flag says that they are reached: the frame was stored, and
  not made into a chunk.
\<close>

definition put_frame :: "u64 \<Rightarrow> chunks \<Rightarrow> frame_stack \<Rightarrow> (bool \<times> chunks \<times> frame_stack) result" where
  "put_frame frame hp s =
     (if fs_first s = None
      then Inr (False, hp(frame \<mapsto> new_chunk), s\<lparr>fs_first := Some frame, fs_last := Some frame\<rparr>)
      else rbind (get_chunk hp (fs_last s)) (\<lambda>l.
        if length (ck_frames l) = chunk_max - 100 \<and> ck_next l = None
        then Inr (False, hp(frame \<mapsto> new_chunk\<lparr>ck_prev := fs_last s\<rparr>,
                            the (fs_last s) \<mapsto> l\<lparr>ck_next := Some frame\<rparr>), s)
        else let s = (if length (ck_frames l) = chunk_max then s\<lparr>fs_last := ck_next l\<rparr> else s) in
          rbind (get_chunk hp (fs_last s)) (\<lambda>l.
          if chunk_max \<le> length (ck_frames l) then Inl Out_Of_Bounds
          else Inr (True, hp(the (fs_last s) \<mapsto> l\<lparr>ck_frames := ck_frames l @ [frame]\<rparr>),
                    s\<lparr>fs_size := fs_size s + 1\<rparr>))))"

definition pop_chunk :: "chunks \<Rightarrow> frame_stack \<Rightarrow> (u64 \<times> chunks \<times> frame_stack) result" where
  "pop_chunk hp s =
     (if fs_first s = fs_last s then Inl (Panic ''tried to pop chunk from empty frame stack!'')
      else rbind (get_chunk hp (fs_first s)) (\<lambda>c.
        rbind (case ck_next c of None \<Rightarrow> Inr hp
               | Some n \<Rightarrow> rbind (get_chunk hp (Some n)) (\<lambda>d. Inr (hp(n \<mapsto> d\<lparr>ck_prev := None\<rparr>)))) (\<lambda>hp.
        Inr (the (fs_first s), hp,
          s\<lparr>fs_first := ck_next c, fs_size := fs_size s - of_nat (length (ck_frames c))\<rparr>))))"

definition push_chunk :: "u64 \<Rightarrow> chunks \<Rightarrow> frame_stack \<Rightarrow> (chunks \<times> frame_stack) result" where
  "push_chunk a hp s =
     rbind (get_chunk hp (Some a)) (\<lambda>c.
     if fs_first s = None
     then Inr (hp, s\<lparr>fs_first := Some a, fs_last := Some a, fs_size := of_nat (length (ck_frames c))\<rparr>)
     else if length (ck_frames c) = chunk_max
     then rbind (get_chunk hp (fs_first s)) (\<lambda>f.
       let hp = hp(a \<mapsto> c\<lparr>ck_prev := None, ck_next := fs_first s\<rparr>, the (fs_first s) \<mapsto> f\<lparr>ck_prev := Some a\<rparr>)
       in Inr (hp, s\<lparr>fs_first := Some a, fs_size := fs_size s + of_nat (length (ck_frames c))\<rparr>))
     else rbind (get_chunk hp (fs_last s)) (\<lambda>l.
       let hp = hp(a \<mapsto> c\<lparr>ck_prev := fs_last s, ck_next := ck_next l\<rparr>, the (fs_last s) \<mapsto> l\<lparr>ck_next := Some a\<rparr>)
       in Inr (hp, s\<lparr>fs_last := Some a, fs_size := fs_size s + of_nat (length (ck_frames c))\<rparr>)))"

section \<open>The global and the local stacks\<close>

record pmm =
  pm_boot_start :: u64
  pm_boot_left :: u8
  pm_smp_ready :: bool
  pm_chunks :: chunks
  pm_global :: frame_stack
  pm_locals :: "frame_stack list"

definition local_stack :: "nat \<Rightarrow> pmm \<Rightarrow> frame_stack result" where
  "local_stack i m = (if i < length (pm_locals m) then Inr (pm_locals m ! i) else Inl Out_Of_Bounds)"

text \<open>\<open>global_stack->push_chunk(local.pop_chunk())\<close> and the other way round.\<close>

definition chunk_to_global :: "nat \<Rightarrow> pmm \<Rightarrow> pmm result" where
  "chunk_to_global i m =
     rbind (local_stack i m) (\<lambda>s.
     rbind (pop_chunk (pm_chunks m) s) (\<lambda>(a, hp, s).
     rbind (push_chunk a hp (pm_global m)) (\<lambda>(hp, g).
     Inr (m\<lparr>pm_chunks := hp, pm_global := g, pm_locals := (pm_locals m)[i := s]\<rparr>))))"

definition chunk_to_local :: "nat \<Rightarrow> pmm \<Rightarrow> pmm result" where
  "chunk_to_local i m =
     rbind (local_stack i m) (\<lambda>s.
     rbind (pop_chunk (pm_chunks m) (pm_global m)) (\<lambda>(a, hp, g).
     rbind (push_chunk a hp s) (\<lambda>(hp, s).
     Inr (m\<lparr>pm_chunks := hp, pm_global := g, pm_locals := (pm_locals m)[i := s]\<rparr>))))"

text \<open>
  The two rebalancing loops of \<open>pop\<close>: what \<open>parallel_execute\<close> makes every other core do (at most 16
  chunks while it holds more than 128 chunks' worth), and the at most 8 chunks taken from the global
  stack.
\<close>

fun give_back :: "nat \<Rightarrow> nat \<Rightarrow> pmm \<Rightarrow> pmm result" where
  "give_back 0 j m = Inr m"
| "give_back (Suc k) j m =
     rbind (local_stack j m) (\<lambda>s.
     if of_nat (chunk_max * 128) < fs_size s then rbind (chunk_to_global j m) (give_back k j) else Inr m)"

fun others_give_back :: "nat list \<Rightarrow> pmm \<Rightarrow> pmm result" where
  "others_give_back [] m = Inr m"
| "others_give_back (j # js) m = rbind (give_back 16 j m) (others_give_back js)"

fun refill :: "nat \<Rightarrow> nat \<Rightarrow> pmm \<Rightarrow> pmm result" where
  "refill 0 i m = Inr m"
| "refill (Suc k) i m =
     (if of_nat chunk_max < fs_size (pm_global m) then rbind (chunk_to_local i m) (refill k i) else Inr m)"

definition local_pop :: "nat \<Rightarrow> pmm \<Rightarrow> (u64 \<times> pmm) result" where
  "local_pop i m =
     rbind (local_stack i m) (\<lambda>s.
     rbind (if fs_size s = 0
            then rbind (if fs_size (pm_global m) \<le> of_nat chunk_max
                        then others_give_back (filter (\<lambda>j. j \<noteq> i) [0..<length (pm_locals m)]) m else Inr m)
                   (refill 8 i)
            else Inr m) (\<lambda>m.
     rbind (local_stack i m) (\<lambda>s.
     rbind (take_frame (pm_chunks m) s) (\<lambda>(f, hp, s).
     Inr (f, m\<lparr>pm_chunks := hp, pm_locals := (pm_locals m)[i := s]\<rparr>)))))"

definition global_pop :: "pmm \<Rightarrow> (u64 \<times> pmm) result" where
  "global_pop m =
     (if fs_size (pm_global m) = 0
      then Inl (Panic (if fs_first (pm_global m) \<noteq> None then ''TODO: deallocate available chunk''
                       else ''TODO: ultimate OOM case''))
      else rbind (take_frame (pm_chunks m) (pm_global m)) (\<lambda>(f, hp, g).
           Inr (f, m\<lparr>pm_chunks := hp, pm_global := g\<rparr>)))"

definition local_push :: "nat \<Rightarrow> u64 \<Rightarrow> pmm \<Rightarrow> pmm result" where
  "local_push i f m =
     rbind (local_stack i m) (\<lambda>s.
     rbind (put_frame f (pm_chunks m) s) (\<lambda>(stored, hp, s).
     let m = m\<lparr>pm_chunks := hp, pm_locals := (pm_locals m)[i := s]\<rparr> in
     if stored \<and> fs_balance s < fs_size s then chunk_to_global i m else Inr m))"

definition global_push :: "u64 \<Rightarrow> pmm \<Rightarrow> pmm result" where
  "global_push f m =
     rbind (put_frame f (pm_chunks m) (pm_global m)) (\<lambda>(stored, hp, g).
     Inr (m\<lparr>pm_chunks := hp, pm_global := g\<rparr>))"

text \<open>\<open>pmm::pop\<close> and \<open>pmm::push\<close> on core \<open>i\<close>.\<close>

definition pmm_pop :: "nat \<Rightarrow> pmm \<Rightarrow> (u64 \<times> pmm) result" where
  "pmm_pop i m =
     (if pm_boot_left m \<noteq> 0
      then Inr (pm_boot_start m + (8 - ucast (pm_boot_left m)) * 4096, m\<lparr>pm_boot_left := pm_boot_left m - 1\<rparr>)
      else if \<not> pm_smp_ready m then global_pop m else local_pop i m)"

definition pmm_push :: "nat \<Rightarrow> u64 \<Rightarrow> pmm \<Rightarrow> pmm result" where
  "pmm_push i f m = (if \<not> pm_smp_ready m then global_push f m else local_push i f m)"

section \<open>Building the global stack from the memory map\<close>

record map_entry =
  me_base :: u64
  me_length :: u64
  me_type :: u32
  me_attribs :: u32

text \<open>The frames the inner loop pushes; it wraps and goes on for ever near the end of the address
  space, so it carries a bound.\<close>

fun frames_from :: "nat \<Rightarrow> u64 \<Rightarrow> u64 \<Rightarrow> u64 list result" where
  "frames_from 0 frame hi = Inl Spins_Forever"
| "frames_from (Suc k) frame hi =
     (if frame < hi then rbind (frames_from k (frame + 4096) hi) (\<lambda>fs. Inr (frame # fs)) else Inr [])"

definition entry_frames :: "nat \<Rightarrow> map_entry \<Rightarrow> u64 list result" where
  "entry_frames k e =
     (if me_type e = 1 \<and> (1024 * 1024 \<le> me_base e \<or> 1024 * 1024 < me_base e + me_length e)
      then frames_from k (if me_base e < 1024 * 1024 then 1024 * 1024 else page_ceil (me_base e))
             (me_base e + me_length e)
      else Inr [])"

fun push_all :: "u64 list \<Rightarrow> chunks \<Rightarrow> frame_stack \<Rightarrow> (chunks \<times> frame_stack) result" where
  "push_all [] hp s = Inr (hp, s)"
| "push_all (f # fs) hp s = rbind (put_frame f hp s) (\<lambda>(_, hp, s). push_all fs hp s)"

fun stack_of_map :: "nat \<Rightarrow> map_entry list \<Rightarrow> chunks \<Rightarrow> frame_stack \<Rightarrow> (chunks \<times> frame_stack) result" where
  "stack_of_map k [] hp s = Inr (hp, s)"
| "stack_of_map k (e # es) hp s =
     rbind (entry_frames k e) (\<lambda>fs.
     rbind (push_all fs hp s) (\<lambda>(hp, s). stack_of_map k es hp s))"

text \<open>\<open>ap_initialize\<close> on core \<open>i\<close>: the share of chunks every core gets, and the chunks moved.\<close>

fun move_chunks :: "nat \<Rightarrow> nat \<Rightarrow> pmm \<Rightarrow> pmm result" where
  "move_chunks 0 i m = Inr m"
| "move_chunks (Suc k) i m = rbind (chunk_to_local i m) (move_chunks k i)"

definition pmm_ap_initialize :: "u64 \<Rightarrow> u64 \<Rightarrow> nat \<Rightarrow> pmm \<Rightarrow> (u64 \<times> pmm) result" where
  "pmm_ap_initialize amount cores i m =
     (let amount = (if amount = 0 then fs_size (pm_global m) div (2 * cores * of_nat chunk_max) else amount) in
      rbind (local_stack i m) (\<lambda>s.
      rbind (move_chunks (unat amount) i
               (m\<lparr>pm_locals := (pm_locals m)[i := set_balancing (amount * 3 div 2) s]\<rparr>)) (\<lambda>m.
      Inr (amount, m))))"

end
