(* ===== verification/Frame_Stack_Chain.thy ===== *)
theory Frame_Stack_Chain
  imports Frame_Stack
begin

text \<open>
  The chain of chunks behind a frame stack: the shape pushes build (full chunks, the chunk in use,
  at most one spare), what \<open>push\<close> and \<open>pop\<close> do to it, and that no frame is lost or handed out twice
  while the stack is built from a list of different frames.
\<close>

section \<open>Shape\<close>

fun ck_seg :: "chunks \<Rightarrow> u64 option \<Rightarrow> u64 list \<Rightarrow> u64 list list \<Rightarrow> u64 option \<Rightarrow> bool" where
  "ck_seg hp p [] [] q \<longleftrightarrow> p = q"
| "ck_seg hp p (a # as) (x # xs) q \<longleftrightarrow>
     p = Some a \<and> (\<exists>c. hp a = Some c \<and> ck_frames c = x \<and> ck_seg hp (ck_next c) as xs q)"
| "ck_seg hp p _ _ q \<longleftrightarrow> False"

definition stack_rep :: "chunks \<Rightarrow> frame_stack \<Rightarrow> u64 list \<Rightarrow> u64 list list \<Rightarrow> u64 \<Rightarrow> u64 list \<Rightarrow> u64 list \<Rightarrow> bool" where
  "stack_rep hp s as xs a x sp \<longleftrightarrow>
     ck_seg hp (fs_first s) (as @ a # sp) (xs @ x # map (\<lambda>_. []) sp) None \<and>
     distinct (as @ a # sp) \<and> (\<forall>y\<in>set xs. length y = chunk_max) \<and> length x \<le> chunk_max \<and>
     length sp \<le> 1 \<and> (sp = [] \<longrightarrow> length x \<le> chunk_max - 100) \<and> length as = length xs \<and>
     fs_last s = Some a \<and> fs_size s = of_nat (length (concat xs @ x))"

lemma ck_seg_append:
  "length as = length xs \<Longrightarrow>
    ck_seg hp p (as @ bs) (xs @ ys) q \<longleftrightarrow> (\<exists>r. ck_seg hp p as xs r \<and> ck_seg hp r bs ys q)"
proof (induction as xs arbitrary: p rule: list_induct2)
  case (Cons a as x xs)
  then show ?case by simp metis
qed simp

lemma ck_seg_frame:
  "(\<And>a. a \<in> set as \<Longrightarrow> hp' a = hp a) \<Longrightarrow> ck_seg hp' p as xs q = ck_seg hp p as xs q"
  by (induction hp p as xs q rule: ck_seg.induct) auto

lemma ck_seg_upd [simp]: "b \<notin> set as \<Longrightarrow> ck_seg (hp(b := c)) p as xs q = ck_seg hp p as xs q"
  by (rule ck_seg_frame) auto

lemma get_chunk_simps [simp]:
  "get_chunk hp None = Inl Null_Deref"
  "hp a = Some c \<Longrightarrow> get_chunk hp (Some a) = Inr c"
  by (simp_all add: get_chunk_def)

lemma chunk_max_val: "chunk_max = 506"
  by (simp add: chunk_max_def)

lemma stack_repD:
  assumes "stack_rep hp s as xs a x sp"
  obtains c q where "ck_seg hp (fs_first s) as xs (Some a)" "hp a = Some c" "ck_frames c = x"
    "ck_next c = q" "q = (case sp of [] \<Rightarrow> None | b # bs \<Rightarrow> Some b)"
    "ck_seg hp q sp (map (\<lambda>_. []) sp) None"
    "distinct (as @ a # sp)" "\<forall>y\<in>set xs. length y = chunk_max" "length x \<le> chunk_max"
    "length sp \<le> 1" "sp = [] \<longrightarrow> length x \<le> chunk_max - 100" "length as = length xs"
    "fs_last s = Some a" "fs_size s = of_nat (length (concat xs @ x))"
proof -
  from assms have l: "length as = length xs" by (simp add: stack_rep_def)
  with assms obtain c where c: "ck_seg hp (fs_first s) as xs (Some a)" "hp a = Some c" "ck_frames c = x"
    "ck_seg hp (ck_next c) sp (map (\<lambda>_. []) sp) None"
    by (auto simp: stack_rep_def ck_seg_append)
  then have "ck_next c = (case sp of [] \<Rightarrow> None | b # bs \<Rightarrow> Some b)" by (cases sp) auto
  with c assms l show ?thesis by (intro that [of c]) (simp_all add: stack_rep_def)
qed

section \<open>Push\<close>

lemma put_frame_first:
  "fs_first s = None \<Longrightarrow> fs_size s = 0 \<Longrightarrow>
    \<exists>hp' s'. put_frame f hp s = Inr (False, hp', s') \<and> stack_rep hp' s' [] [] f [] []"
  by (auto simp: put_frame_def stack_rep_def new_chunk_def chunk_max_val)

lemma put_frame_rep:
  assumes rep: "stack_rep hp s as xs a x sp" and f: "f \<notin> set (as @ a # sp)"
  shows "\<exists>st hp' s' as' xs' a' x' sp'. put_frame f hp s = Inr (st, hp', s') \<and>
    stack_rep hp' s' as' xs' a' x' sp' \<and>
    as' @ a' # sp' = (if st then as @ a # sp else as @ a # sp @ [f]) \<and>
    concat xs' @ x' = (if st then concat xs @ x @ [f] else concat xs @ x)"
proof -
  from rep obtain c q where r: "ck_seg hp (fs_first s) as xs (Some a)" "hp a = Some c" "ck_frames c = x"
    "ck_next c = q" "q = (case sp of [] \<Rightarrow> None | b # bs \<Rightarrow> Some b)"
    "ck_seg hp q sp (map (\<lambda>_. []) sp) None"
    "distinct (as @ a # sp)" "\<forall>y\<in>set xs. length y = chunk_max" "length x \<le> chunk_max"
    "length sp \<le> 1" "sp = [] \<longrightarrow> length x \<le> chunk_max - 100" "length as = length xs"
    "fs_last s = Some a" "fs_size s = of_nat (length (concat xs @ x))"
    by (rule stack_repD)
  obtain p where first: "fs_first s = Some p" using r(1,12) by (cases as; cases xs) auto
  consider (spare) "sp = []" "length x = chunk_max - 100" | (full) b where "sp = [b]" "length x = chunk_max"
    | (room) "length x < chunk_max" "\<not> (sp = [] \<and> length x = chunk_max - 100)"
    using r(9,10,11) by (cases sp; cases "length x = chunk_max") (auto simp: chunk_max_val)
  then show ?thesis
  proof cases
    case spare
    let ?hp = "hp(f \<mapsto> new_chunk\<lparr>ck_prev := fs_last s\<rparr>, a \<mapsto> c\<lparr>ck_next := Some f\<rparr>)"
    have "put_frame f hp s = Inr (False, ?hp, s)"
      using first r spare by (simp add: put_frame_def)
    moreover have "stack_rep ?hp s as xs a x [f]"
      using f r spare by (auto simp: stack_rep_def ck_seg_append new_chunk_def)
    ultimately show ?thesis using spare by (intro exI conjI) (assumption | simp)+
  next
    case full
    from r(6) full r(5) obtain d where d: "hp b = Some d" "ck_frames d = []" "ck_next d = None" by auto
    let ?hp = "hp(b \<mapsto> d\<lparr>ck_frames := [f]\<rparr>)"
    let ?s = "s\<lparr>fs_last := Some b, fs_size := fs_size s + 1\<rparr>"
    have "put_frame f hp s = Inr (True, ?hp, ?s)"
      using first r full d by (simp add: put_frame_def chunk_max_val Let_def)
    moreover have "stack_rep ?hp ?s (as @ [a]) (xs @ [x]) b [f] []"
      using f r full d by (auto simp: stack_rep_def ck_seg_append chunk_max_val)
    ultimately show ?thesis using full
      by (intro exI conjI) (assumption | simp)+
  next
    case room
    let ?hp = "hp(a \<mapsto> c\<lparr>ck_frames := x @ [f]\<rparr>)"
    let ?s = "s\<lparr>fs_size := fs_size s + 1\<rparr>"
    have "\<not> (length x = chunk_max - 100 \<and> q = None)" using room r(5) by (cases sp) auto
    then have "put_frame f hp s = Inr (True, ?hp, ?s)"
      using first r room by (simp add: put_frame_def Let_def)
    moreover have "stack_rep ?hp ?s as xs a (x @ [f]) sp"
      using f r room by (auto simp: stack_rep_def ck_seg_append chunk_max_val)
    ultimately show ?thesis by (intro exI conjI) (assumption | simp)+
  qed
qed

lemma push_all_rep:
  "stack_rep hp s as xs a x sp \<Longrightarrow> distinct fs \<Longrightarrow> set fs \<inter> set (as @ a # sp) = {} \<Longrightarrow>
    \<exists>hp' s' as' xs' a' x' sp'. push_all fs hp s = Inr (hp', s') \<and> stack_rep hp' s' as' xs' a' x' sp' \<and>
      mset (as' @ a' # sp') + mset (concat xs' @ x') = mset fs + mset (as @ a # sp) + mset (concat xs @ x)"
proof (induction fs arbitrary: hp s as xs a x sp)
  case Nil
  then show ?case by (intro exI [of _ hp] exI [of _ s] exI [of _ as] exI [of _ xs] exI [of _ a] exI [of _ x] exI [of _ sp]) simp
next
  case (Cons f fs)
  from put_frame_rep [OF Cons.prems(1), of f] Cons.prems(3) obtain st hp' s' as' xs' a' x' sp' where
    p: "put_frame f hp s = Inr (st, hp', s')" "stack_rep hp' s' as' xs' a' x' sp'"
    "as' @ a' # sp' = (if st then as @ a # sp else as @ a # sp @ [f])"
    "concat xs' @ x' = (if st then concat xs @ x @ [f] else concat xs @ x)" by auto
  have "set fs \<inter> set (as' @ a' # sp') = {}"
    unfolding p(3) using Cons.prems(2,3) by auto
  from Cons.IH [OF p(2) _ this] Cons.prems(2) obtain hp'' s'' as'' xs'' a'' x'' sp'' where
    q: "push_all fs hp' s' = Inr (hp'', s'')" "stack_rep hp'' s'' as'' xs'' a'' x'' sp''"
    "mset (as'' @ a'' # sp'') + mset (concat xs'' @ x'') =
      mset fs + mset (as' @ a' # sp') + mset (concat xs' @ x')" by auto
  have "mset (as' @ a' # sp') + mset (concat xs' @ x') = {#f#} + mset (as @ a # sp) + mset (concat xs @ x)"
    unfolding p(3,4) by (cases st) simp_all
  with q(3) have "mset (as'' @ a'' # sp'') + mset (concat xs'' @ x'') =
      mset (f # fs) + mset (as @ a # sp) + mset (concat xs @ x)"
    by (simp only: mset.simps ac_simps) simp
  with p(1) q(1,2) show ?case
    by (intro exI [of _ hp''] exI [of _ s''] exI [of _ as''] exI [of _ xs''] exI [of _ a''] exI [of _ x''] exI [of _ sp'']) simp
qed



section \<open>Pop\<close>

fun take_many :: "nat \<Rightarrow> chunks \<Rightarrow> frame_stack \<Rightarrow> (u64 list \<times> chunks \<times> frame_stack) result" where
  "take_many 0 hp s = Inr ([], hp, s)"
| "take_many (Suc n) hp s =
     rbind (take_frame hp s) (\<lambda>(f, hp, s). rbind (take_many n hp s) (\<lambda>(fs, hp, s). Inr (f # fs, hp, s)))"

lemma take_frame_rep:
  assumes rep: "stack_rep hp s as xs a (x @ [f]) sp"
  shows "\<exists>hp' s'. take_frame hp s = Inr (f, hp', s') \<and> stack_rep hp' s' as xs a x sp"
proof -
  from rep obtain c q where r: "ck_seg hp (fs_first s) as xs (Some a)" "hp a = Some c" "ck_frames c = x @ [f]"
    "ck_next c = q" "q = (case sp of [] \<Rightarrow> None | b # bs \<Rightarrow> Some b)"
    "ck_seg hp q sp (map (\<lambda>_. []) sp) None"
    "distinct (as @ a # sp)" "\<forall>y\<in>set xs. length y = chunk_max" "length (x @ [f]) \<le> chunk_max"
    "length sp \<le> 1" "sp = [] \<longrightarrow> length (x @ [f]) \<le> chunk_max - 100" "length as = length xs"
    "fs_last s = Some a" "fs_size s = of_nat (length (concat xs @ x @ [f]))"
    by (rule stack_repD)
  let ?hp = "hp(a \<mapsto> c\<lparr>ck_frames := x\<rparr>)" and ?s = "s\<lparr>fs_size := fs_size s - 1\<rparr>"
  have "take_frame hp s = Inr (f, ?hp, ?s)"
  proof (cases sp)
    case Nil
    with r show ?thesis by (auto simp: take_frame_def chunk_max_val Let_def)
  next
    case (Cons b bs)
    with r obtain d where "hp b = Some d" "b \<noteq> a" by auto
    with r Cons show ?thesis by (auto simp: take_frame_def chunk_max_val Let_def)
  qed
  moreover have "stack_rep ?hp ?s as xs a x sp"
    using r by (auto simp: stack_rep_def ck_seg_append chunk_max_val)
  ultimately show ?thesis by blast
qed

lemma take_many_rep:
  assumes "stack_rep hp s as xs a (y @ rev z) sp"
  shows "\<exists>hp' s'. take_many (length z) hp s = Inr (z, hp', s') \<and> stack_rep hp' s' as xs a y sp"
  using assms
proof (induction z arbitrary: hp s)
  case (Cons f z)
  then have "stack_rep hp s as xs a ((y @ rev z) @ [f]) sp" by simp
  from take_frame_rep [OF this] Cons.IH show ?case by fastforce
qed simp

lemma take_frame_empty: "stack_rep hp s as xs a [] sp \<Longrightarrow> take_frame hp s = Inl Out_Of_Bounds"
  by (erule stack_repD) (simp add: take_frame_def)

lemma take_many_add:
  "take_many (m + n) hp s = rbind (take_many m hp s) (\<lambda>(fs, hp, s).
    rbind (take_many n hp s) (\<lambda>(gs, hp, s). Inr (fs @ gs, hp, s)))"
proof (induction m arbitrary: hp s)
  case 0
  show ?case by (cases "take_many n hp s") auto
next
  case (Suc m)
  then show ?case
    by (cases "take_frame hp s") (auto simp: rbind_assoc split_def intro!: arg_cong [where f = "rbind _"])
qed

text \<open>
  Frames come back in the reverse order of their pushes, but only those of the chunk in use:
  \<open>pop\<close> never moves \<open>_last\<close> back, so the pop after them reads in front of the array of an empty
  chunk, however many frames the earlier chunks hold.
\<close>

theorem frame_stack_pop_stops:
  assumes "stack_rep hp s as xs a x sp"
  shows "\<exists>hp' s'. take_many (length x) hp s = Inr (rev x, hp', s') \<and>
      fs_size s' = of_nat (chunk_max * length xs) \<and>
    take_many (length x + 1) hp s = Inl Out_Of_Bounds"
proof -
  from take_many_rep [of hp s as xs a "[]" "rev x" sp] assms obtain hp' s' where
    t: "take_many (length x) hp s = Inr (rev x, hp', s')" "stack_rep hp' s' as xs a [] sp" by auto
  from t(2) have "\<forall>y\<in>set xs. length y = chunk_max" "fs_size s' = of_nat (length (concat xs))"
    by (simp_all add: stack_rep_def)
  moreover from this(1) have "length (concat xs) = chunk_max * length xs"
    by (induction xs) (auto simp: algebra_simps)
  ultimately have "fs_size s' = of_nat (chunk_max * length xs)" by (simp only:)
  with t take_frame_empty [OF t(2)] show ?thesis by (simp only: take_many_add) simp
qed

text \<open>A full chunk of 506 frames with nothing in the next one: the first pop already fails.\<close>

theorem frame_stack_pop_stops_witness:
  "let hp = (\<lambda>_. None)(0x1000 \<mapsto> \<lparr>ck_prev = None, ck_next = Some 0x2000, ck_frames = replicate 506 0x5000\<rparr>,
       0x2000 \<mapsto> \<lparr>ck_prev = Some 0x1000, ck_next = None, ck_frames = []\<rparr>);
     s = \<lparr>fs_first = Some 0x1000, fs_last = Some 0x2000, fs_size = 506, fs_balance = 0\<rparr> in
   take_many 1 hp s = Inl Out_Of_Bounds"
  using frame_stack_pop_stops [where as = "[0x1000]" and xs = "[replicate 506 0x5000]" and a = "0x2000"
      and x = "[]" and sp = "[]" and s = "\<lparr>fs_first = Some 0x1000, fs_last = Some 0x2000, fs_size = 506, fs_balance = 0\<rparr>"
      and hp = "(\<lambda>_. None)(0x1000 \<mapsto> \<lparr>ck_prev = None, ck_next = Some 0x2000, ck_frames = replicate 506 0x5000\<rparr>,
       0x2000 \<mapsto> \<lparr>ck_prev = Some 0x1000, ck_next = None, ck_frames = []\<rparr>)"]
  by (simp add: stack_rep_def chunk_max_val)

end
