(* ===== verification/Pmm.thy ===== *)
theory Pmm
  imports Frame_Stack_Chain
begin

text \<open>
  The physical memory manager on top of the frame stacks: the interface \<open>frame_supply\<close> through which
  the paging code takes frames, its implementation by \<open>pmm::pop\<close>, the frames the memory map
  contributes, and what moving chunks between the stacks does.
\<close>

section \<open>The supply of frames\<close>

text \<open>\<open>avail s fs\<close>: the next pops return the frames \<open>fs\<close>, in this order.\<close>

locale frame_supply =
  fixes pop :: "'s \<Rightarrow> (u64 \<times> 's) result" and avail :: "'s \<Rightarrow> u64 list \<Rightarrow> bool"
  assumes pop_law: "avail s (f # fs) \<Longrightarrow> \<exists>s'. pop s = Inr (f, s') \<and> avail s' fs"

fun pop_many :: "('s \<Rightarrow> (u64 \<times> 's) result) \<Rightarrow> nat \<Rightarrow> 's \<Rightarrow> (u64 list \<times> 's) result" where
  "pop_many pop 0 s = Inr ([], s)"
| "pop_many pop (Suc n) s =
     rbind (pop s) (\<lambda>(f, s). rbind (pop_many pop n s) (\<lambda>(fs, s). Inr (f # fs, s)))"

context frame_supply
begin

lemma pop_many_avail: "avail s (fs @ gs) \<Longrightarrow> \<exists>s'. pop_many pop (length fs) s = Inr (fs, s') \<and> avail s' gs"
proof (induction fs arbitrary: s)
  case (Cons f fs)
  from pop_law [of s f "fs @ gs"] Cons.prems obtain s' where "pop s = Inr (f, s')" "avail s' (fs @ gs)" by auto
  with Cons.IH [of s'] show ?case by auto
qed simp

end

text \<open>
  The frames core \<open>i\<close> can count on: the boot frames, then the chunk in use of its stack (the global
  one until the other processors are up), from the top.
\<close>

definition boot_frames :: "pmm \<Rightarrow> u64 list" where
  "boot_frames m = map (\<lambda>j. pm_boot_start m + of_nat j * 4096) [8 - unat (pm_boot_left m)..<8]"

definition stack_avail :: "chunks \<Rightarrow> frame_stack \<Rightarrow> u64 list \<Rightarrow> bool" where
  "stack_avail hp s fs \<longleftrightarrow> (\<exists>as xs a sp. stack_rep hp s as xs a (rev fs) sp) \<and> length fs \<le> unat (fs_size s)"

definition pmm_avail :: "nat \<Rightarrow> pmm \<Rightarrow> u64 list \<Rightarrow> bool" where
  "pmm_avail i m fs \<longleftrightarrow> unat (pm_boot_left m) \<le> 8 \<and> (\<exists>gs. fs = boot_frames m @ gs \<and>
     (if pm_smp_ready m then i < length (pm_locals m) \<and> stack_avail (pm_chunks m) (pm_locals m ! i) gs
      else stack_avail (pm_chunks m) (pm_global m) gs))"

lemma stack_avail_take:
  assumes "stack_avail hp s (f # fs)"
  shows "\<exists>hp' s'. take_frame hp s = Inr (f, hp', s') \<and> stack_avail hp' s' fs \<and> fs_size s \<noteq> 0"
proof -
  from assms obtain as xs a sp where rep: "stack_rep hp s as xs a (rev fs @ [f]) sp"
    and le: "length fs < unat (fs_size s)" by (auto simp: stack_avail_def)
  from take_frame_rep [OF rep] obtain hp' s' where
    t: "take_frame hp s = Inr (f, hp', s')" "stack_rep hp' s' as xs a (rev fs) sp" by auto
  have sz: "fs_size s' = fs_size s - 1" using t(1) by (auto simp: take_frame_def Let_def split: if_splits)
  have nz: "fs_size s \<noteq> 0" using le by auto
  then have "unat (fs_size s') = unat (fs_size s) - 1" unfolding sz by (rule unat_minus_one)
  with t le nz show ?thesis by (auto simp: stack_avail_def)
qed

lemma boot_frames_pop:
  assumes "pm_boot_left m \<noteq> 0" "unat (pm_boot_left m) \<le> 8"
  shows "boot_frames m = (pm_boot_start m + (8 - ucast (pm_boot_left m)) * 4096) #
      boot_frames (m\<lparr>pm_boot_left := pm_boot_left m - 1\<rparr>)"
    and "unat (pm_boot_left m - 1) \<le> 8"
proof -
  obtain k where k: "unat (pm_boot_left m) = Suc k"
    using assms(1) by (metis not0_implies_Suc unat_eq_0)
  have k1: "unat (pm_boot_left m - 1) = k" using unat_minus_one [OF assms(1)] k by simp
  have "(ucast (pm_boot_left m) :: u64) = of_nat (Suc k)" using k by (metis of_nat_unat)
  then have "(8 - ucast (pm_boot_left m) :: u64) = of_nat (8 - Suc k)" using assms(2) k by (simp add: of_nat_diff)
  moreover have upt: "[8 - Suc k..<8] = (8 - Suc k) # [8 - k..<8]"
    using assms(2) k Suc_diff_Suc [of k 8] by (subst upt_conv_Cons) simp_all
  ultimately show "boot_frames m = (pm_boot_start m + (8 - ucast (pm_boot_left m)) * 4096) #
      boot_frames (m\<lparr>pm_boot_left := pm_boot_left m - 1\<rparr>)"
    using k1 upt by (simp add: boot_frames_def k)
  show "unat (pm_boot_left m - 1) \<le> 8" using k k1 assms(2) by simp
qed

lemma pmm_pop_law:
  assumes av: "pmm_avail i m (f # fs)"
  shows "\<exists>m'. pmm_pop i m = Inr (f, m') \<and> pmm_avail i m' fs"
proof (cases "pm_boot_left m = 0")
  case False
  with av boot_frames_pop [of m] show ?thesis
    by (intro exI [of _ "m\<lparr>pm_boot_left := pm_boot_left m - 1\<rparr>"]) (auto simp: pmm_avail_def pmm_pop_def)
next
  case True
  then have b: "boot_frames m = []" by (simp add: boot_frames_def)
  show ?thesis
  proof (cases "pm_smp_ready m")
    case False
    with av b have "stack_avail (pm_chunks m) (pm_global m) (f # fs)" by (simp add: pmm_avail_def)
    from stack_avail_take [OF this] obtain hp g where
      t: "take_frame (pm_chunks m) (pm_global m) = Inr (f, hp, g)" "stack_avail hp g fs" "fs_size (pm_global m) \<noteq> 0"
      by auto
    let ?m = "m\<lparr>pm_chunks := hp, pm_global := g\<rparr>"
    have "pmm_pop i m = Inr (f, ?m)" using t True False by (simp add: pmm_pop_def global_pop_def)
    moreover have "pmm_avail i ?m fs" using t(2) True False by (simp add: pmm_avail_def boot_frames_def)
    ultimately show ?thesis by blast
  next
    case ready: True
    with av b have i: "i < length (pm_locals m)" and "stack_avail (pm_chunks m) (pm_locals m ! i) (f # fs)"
      by (simp_all add: pmm_avail_def)
    from stack_avail_take [OF this(2)] obtain hp s where
      t: "take_frame (pm_chunks m) (pm_locals m ! i) = Inr (f, hp, s)" "stack_avail hp s fs"
      "fs_size (pm_locals m ! i) \<noteq> 0" by auto
    let ?m = "m\<lparr>pm_chunks := hp, pm_locals := (pm_locals m)[i := s]\<rparr>"
    have "pmm_pop i m = Inr (f, ?m)" using t True ready i by (simp add: pmm_pop_def local_pop_def local_stack_def)
    moreover have "pmm_avail i ?m fs" using t(2) True ready i by (simp add: pmm_avail_def boot_frames_def)
    ultimately show ?thesis by blast
  qed
qed

interpretation frames: frame_supply "pmm_pop i" "pmm_avail i" for i
  by unfold_locales (rule pmm_pop_law)

text \<open>
  \<open>pmm::pop\<close> returns the boot frames in ascending order and then the frames of the chunk in use
  from the top, without failing and without taking a chunk from anywhere.
\<close>

theorem pmm_pop_order:
  assumes "pmm_avail i m (fs @ gs)"
  shows "\<exists>m'. pop_many (pmm_pop i) (length fs) m = Inr (fs, m') \<and> pmm_avail i m' gs"
  using assms by (rule frames.pop_many_avail)

theorem pmm_pop_order_witness:
  "\<exists>m'. pop_many (pmm_pop 0) 3
      \<lparr>pm_boot_start = 0x200000, pm_boot_left = 2, pm_smp_ready = False,
       pm_chunks = (\<lambda>_. None)(0x1000 \<mapsto> \<lparr>ck_prev = None, ck_next = None, ck_frames = [0x5000, 0x6000]\<rparr>),
       pm_global = \<lparr>fs_first = Some 0x1000, fs_last = Some 0x1000, fs_size = 2, fs_balance = 0\<rparr>,
       pm_locals = []\<rparr> = Inr ([0x206000, 0x207000, 0x6000], m') \<and> pmm_avail 0 m' [0x5000]"
proof -
  let ?m = "\<lparr>pm_boot_start = 0x200000, pm_boot_left = 2, pm_smp_ready = False,
       pm_chunks = (\<lambda>_. None)(0x1000 \<mapsto> \<lparr>ck_prev = None, ck_next = None, ck_frames = [0x5000, 0x6000]\<rparr>),
       pm_global = \<lparr>fs_first = Some 0x1000, fs_last = Some 0x1000, fs_size = 2, fs_balance = 0\<rparr>,
       pm_locals = []\<rparr>"
  have "stack_rep (pm_chunks ?m) (pm_global ?m) [] [] 0x1000 (rev [0x6000, 0x5000]) []"
    by (simp add: stack_rep_def chunk_max_val)
  then have "stack_avail (pm_chunks ?m) (pm_global ?m) [0x6000, 0x5000]"
    unfolding stack_avail_def by (intro conjI exI) simp_all
  then have "pmm_avail 0 ?m ([0x206000, 0x207000, 0x6000] @ [0x5000])"
    by (simp add: pmm_avail_def boot_frames_def upt_rec)
  from pmm_pop_order [OF this] show ?thesis by (simp add: eval_nat_numeral)
qed

section \<open>Frames of the memory map\<close>

definition pages :: "nat \<Rightarrow> nat" where
  "pages d = (d + 4095) div 4096"

lemma pages_0 [simp]: "pages 0 = 0"
  by (simp add: pages_def)

lemma pages_bound: "i < pages d \<longleftrightarrow> i * 4096 < d"
  using less_eq_div_iff_mult_less_eq [of 4096 "Suc i" "d + 4095"]
  by (auto simp: pages_def Suc_le_eq)

lemma pages_step:
  assumes "0 < d"
  shows "pages d = Suc (pages (d - 4096))"
proof (rule linorder_cases)
  have *: "Suc i < pages d \<longleftrightarrow> i < pages (d - 4096)" for i unfolding pages_bound by auto
  have "0 < pages d" using assms by (simp add: pages_bound)
  then obtain n where n: "pages d = Suc n" by (cases "pages d") auto
  show "pages d = Suc (pages (d - 4096))" if "pages d < Suc (pages (d - 4096))"
    using that * [of n] n by simp
  show "pages d = Suc (pages (d - 4096))" if "Suc (pages (d - 4096)) < pages d"
    using that * [of "pages (d - 4096)"] by simp
qed

lemma frames_from_eq:
  assumes "unat hi + 4096 \<le> 2 ^ 64" "pages (unat hi - unat lo) < k"
  shows "frames_from k lo hi = Inr (map (\<lambda>i. lo + of_nat i * 4096) [0..<pages (unat hi - unat lo)])"
  using assms(2)
proof (induction k arbitrary: lo)
  case (Suc k)
  show ?case
  proof (cases "lo < hi")
    case True
    then have lt: "unat lo < unat hi" by (simp add: word_less_nat_alt)
    then have u: "unat (lo + 4096) = unat lo + 4096" using assms(1) by (simp add: unat_word_ariths)
    let ?n = "pages (unat hi - unat (lo + 4096))"
    have n: "pages (unat hi - unat lo) = Suc ?n"
      using lt unfolding u by (subst pages_step) simp_all
    with Suc.prems have "?n < k" by simp
    from Suc.IH [OF this] have "frames_from (Suc k) lo hi =
        Inr (lo # map (\<lambda>i. lo + 4096 + of_nat i * 4096) [0..<?n])" using True by simp
    also have "map (\<lambda>i. lo + 4096 + of_nat i * 4096) [0..<?n] = map (\<lambda>i. lo + of_nat i * 4096) [Suc 0..<Suc ?n]"
      by (simp add: map_Suc_upt [symmetric] algebra_simps del: upt_Suc)
    finally show ?thesis unfolding n by (simp add: upt_conv_Cons del: upt_Suc)
  next
    case False
    then show ?thesis by (simp add: word_less_nat_alt)
  qed
qed simp

text \<open>A run of page addresses: which they are, and that they differ.\<close>

lemma page_run:
  fixes lo hi :: u64
  assumes "4096 dvd unat lo"
  shows "distinct (map (\<lambda>i. lo + of_nat i * 4096) [0..<pages (unat hi - unat lo)])"
    and "set (map (\<lambda>i. lo + of_nat i * 4096) [0..<pages (unat hi - unat lo)]) =
      {f. 4096 dvd unat f \<and> lo \<le> f \<and> f < hi}"
proof -
  define n where "n = pages (unat hi - unat lo)"
  have val: "unat (lo + of_nat i * 4096) = unat lo + i * 4096" and bound: "unat lo + i * 4096 < unat hi" if "i < n" for i
  proof -
    show b: "unat lo + i * 4096 < unat hi" using that unfolding n_def pages_bound by simp
    with unat_u64_less [of hi] have "i * 4096 < 2 ^ 64" by linarith
    then have "unat (of_nat i * 4096 :: u64) = i * 4096" using unat_of_nat_u64 [of "i * 4096"] by simp
    with b unat_u64_less [of hi] show "unat (lo + of_nat i * 4096) = unat lo + i * 4096" by (simp add: unat_word_ariths)
  qed
  have "inj_on (\<lambda>i. lo + of_nat i * 4096) {0..<n}"
    using val by (intro inj_onI) (metis atLeastLessThan_iff add_left_cancel mult_right_cancel zero_neq_numeral)
  then show "distinct (map (\<lambda>i. lo + of_nat i * 4096) [0..<pages (unat hi - unat lo)])"
    by (simp add: distinct_map n_def)
  have "f \<in> (\<lambda>i. lo + of_nat i * 4096) ` {0..<n}" if f: "4096 dvd unat f" "unat lo \<le> unat f" "unat f < unat hi" for f
  proof -
    from f assms have "4096 dvd unat f - unat lo" by simp
    then obtain i where i: "unat f = unat lo + i * 4096" using f(2) by (metis dvdE mult.commute le_add_diff_inverse)
    with f(3) have "i * 4096 < unat hi - unat lo" by linarith
    then have "i < n" unfolding n_def pages_bound .
    with i val have "f = lo + of_nat i * 4096" by (metis word_unat_eq_iff)
    with \<open>i < n\<close> show ?thesis by simp
  qed
  with assms val bound show "set (map (\<lambda>i. lo + of_nat i * 4096) [0..<pages (unat hi - unat lo)]) =
      {f. 4096 dvd unat f \<and> lo \<le> f \<and> f < hi}"
    by (auto simp: n_def [symmetric] word_less_nat_alt word_le_nat_alt)
qed

text \<open>
  The frames an entry of the memory map contributes are exactly the page-aligned addresses from
  its base (or from 1 MiB, when it starts below) up to its end, each once, provided the entry ends
  a page before the end of the address space. The last frame may stick out of the entry: the code
  compares where the frame starts, not where it ends.
\<close>

theorem entry_frames_exact:
  assumes "me_type e = 1" "unat (me_base e) + unat (me_length e) + 8192 \<le> 2 ^ 64"
    and "unat (me_length e) div 4096 + 1 < k" "1024 * 1024 < me_base e + me_length e"
  shows "\<exists>fs. entry_frames k e = Inr fs \<and> distinct fs \<and>
    set fs = {f. 4096 dvd unat f \<and> 1024 * 1024 \<le> f \<and> me_base e \<le> f \<and> f < me_base e + me_length e}"
proof -
  let ?hi = "me_base e + me_length e"
  define lo where "lo = (if me_base e < 1024 * 1024 then 1024 * 1024 else page_ceil (me_base e))"
  have e: "unat ?hi = unat (me_base e) + unat (me_length e)" using assms(2) by (simp add: unat_word_ariths)
  have pc: "unat (page_ceil (me_base e)) = 4096 * ((unat (me_base e) + 4095) div 4096)"
    using assms(2) by (intro unat_page_ceil) simp
  have lo: "4096 dvd unat lo" "unat (me_base e) \<le> unat lo" "2 ^ 20 \<le> unat lo"
    "4096 dvd y \<Longrightarrow> 2 ^ 20 \<le> y \<Longrightarrow> unat (me_base e) \<le> y \<Longrightarrow> unat lo \<le> y" for y
    using pc by (auto simp: lo_def word_less_nat_alt elim!: dvdE)
  have "pages (unat ?hi - unat lo) \<le> (unat (me_length e) + 4095) div 4096"
    unfolding pages_def e using lo(2) by (intro div_le_mono) simp
  also have "\<dots> \<le> (unat (me_length e) + 4096) div 4096" by (intro div_le_mono) simp
  also have "\<dots> = unat (me_length e) div 4096 + 1" by simp
  finally have k: "pages (unat ?hi - unat lo) < k" using assms(3) by simp
  have "entry_frames k e = Inr (map (\<lambda>i. lo + of_nat i * 4096) [0..<pages (unat ?hi - unat lo)])"
    using assms(1,2,4) frames_from_eq [of ?hi lo k] k e by (simp add: entry_frames_def lo_def)
  moreover have "{f. 4096 dvd unat f \<and> lo \<le> f \<and> f < ?hi} =
      {f. 4096 dvd unat f \<and> 1024 * 1024 \<le> f \<and> me_base e \<le> f \<and> f < ?hi}"
  proof (rule Collect_cong)
    fix f :: u64
    show "4096 dvd unat f \<and> lo \<le> f \<and> f < ?hi \<longleftrightarrow>
        4096 dvd unat f \<and> 1024 * 1024 \<le> f \<and> me_base e \<le> f \<and> f < ?hi"
    proof (cases "4096 dvd unat f")
      case True
      with lo(2,3) lo(4) [of "unat f"] have "lo \<le> f \<longleftrightarrow> 1024 * 1024 \<le> f \<and> me_base e \<le> f"
        by (auto simp: word_le_nat_alt)
      then show ?thesis by blast
    qed simp
  qed
  ultimately show ?thesis using page_run [OF lo(1), of ?hi] by simp
qed

theorem entry_frames_exact_witness:
  "\<exists>fs. entry_frames 10 \<lparr>me_base = 0x100800, me_length = 0x1900, me_type = 1, me_attribs = 0\<rparr> = Inr fs \<and> distinct fs \<and>
    set fs = {f. 4096 dvd unat f \<and> 1024 * 1024 \<le> f \<and> 0x100800 \<le> f \<and> f < 0x102100}"
  using entry_frames_exact [of "\<lparr>me_base = 0x100800, me_length = 0x1900, me_type = 1, me_attribs = 0\<rparr>" 10] by simp

section \<open>Chunks shared between stacks\<close>

text \<open>
  Moving a chunk from the global stack to an empty local one, as \<open>ap_initialize\<close> does first: the
  chunk keeps its link to the next chunk of the global stack, so the local stack runs on into it.
  The local stack counts a full chunk, and its next \<open>push\<close> follows the link and writes behind the
  array of a chunk that is full and not its own.
\<close>

theorem local_stack_overflows:
  assumes rep: "stack_rep (pm_chunks m) (pm_global m) (a # b # as) xs z x sp"
    and i: "i < length (pm_locals m)" "fs_first (pm_locals m ! i) = None"
  shows "\<exists>m' s. chunk_to_local i m = Inr m' \<and> pm_locals m' ! i = s \<and>
    fs_first s = Some a \<and> fs_last s = Some a \<and> fs_size s = of_nat chunk_max \<and>
    (\<exists>c. pm_chunks m' a = Some c \<and> ck_next c = fs_first (pm_global m') \<and> ck_next c = Some b) \<and>
    local_push i f m' = Inl Out_Of_Bounds"
proof -
  from rep have l: "length xs = Suc (Suc (length as))" and seg: "ck_seg (pm_chunks m) (fs_first (pm_global m)) (a # b # as) xs (Some z)"
    and full: "\<forall>y\<in>set xs. length y = chunk_max" and d: "distinct ((a # b # as) @ z # sp)"
    and last: "fs_last (pm_global m) = Some z"
    by (auto elim!: stack_repD)
  from l obtain xa xb xs' where xs: "xs = xa # xb # xs'" by (cases xs; cases "tl xs") auto
  from seg xs obtain c e where c: "fs_first (pm_global m) = Some a" "pm_chunks m a = Some c" "ck_frames c = xa"
    "ck_next c = Some b" "pm_chunks m b = Some e" "ck_frames e = xb" by auto
  have ab: "a \<noteq> b" "a \<noteq> z" "length xa = chunk_max" "length xb = chunk_max" using d full xs by auto
  let ?hp = "(pm_chunks m)(b \<mapsto> e\<lparr>ck_prev := None\<rparr>)"
  let ?s = "(pm_locals m ! i)\<lparr>fs_first := Some a, fs_last := Some a, fs_size := of_nat chunk_max\<rparr>"
  let ?m = "m\<lparr>pm_chunks := ?hp, pm_global := (pm_global m)\<lparr>fs_first := Some b,
      fs_size := fs_size (pm_global m) - of_nat chunk_max\<rparr>, pm_locals := (pm_locals m)[i := ?s]\<rparr>"
  have step: "chunk_to_local i m = Inr ?m"
    using i c ab last by (simp add: chunk_to_local_def local_stack_def pop_chunk_def push_chunk_def Let_def)
  moreover have "local_push i f ?m = Inl Out_Of_Bounds"
    using i c ab by (simp add: local_push_def local_stack_def put_frame_def chunk_max_val)
  ultimately show ?thesis using i c ab by (intro exI [of _ ?m] exI [of _ ?s]) simp
qed

theorem local_stack_overflows_witness:
  "\<exists>m m'. pm_locals m = [empty_stack] \<and> chunk_to_local 0 m = Inr m' \<and> local_push 0 0x9000 m' = Inl Out_Of_Bounds"
proof -
  let ?full = "replicate 506 0x5000 :: u64 list"
  let ?m = "\<lparr>pm_boot_start = 0, pm_boot_left = 0, pm_smp_ready = True,
       pm_chunks = (\<lambda>_. None)(0x1000 \<mapsto> \<lparr>ck_prev = None, ck_next = Some 0x2000, ck_frames = ?full\<rparr>,
         0x2000 \<mapsto> \<lparr>ck_prev = Some 0x1000, ck_next = Some 0x3000, ck_frames = ?full\<rparr>,
         0x3000 \<mapsto> \<lparr>ck_prev = Some 0x2000, ck_next = None, ck_frames = [0x6000]\<rparr>),
       pm_global = \<lparr>fs_first = Some 0x1000, fs_last = Some 0x3000, fs_size = 1013, fs_balance = 0\<rparr>,
       pm_locals = [empty_stack]\<rparr>"
  have "stack_rep (pm_chunks ?m) (pm_global ?m) (0x1000 # 0x2000 # []) [?full, ?full] 0x3000 [0x6000] []"
    by (simp add: stack_rep_def chunk_max_val)
  from local_stack_overflows [OF this, of 0 "0x9000"] obtain m' where
    "chunk_to_local 0 ?m = Inr m'" "local_push 0 0x9000 m' = Inl Out_Of_Bounds"
    by (auto simp: empty_stack_def)
  then show ?thesis by (intro exI [of _ ?m] exI [of _ m']) simp
qed

end
