(* ===== verification/Paging.thy ===== *)
theory Paging
  imports Page_Loop Pmm
begin

text \<open>
  The paging code of the kernel (\<open>kernel/memory/x64paging.h\<close>, \<open>x64paging.cpp\<close>, \<open>vm.h\<close>, \<open>vm.cpp\<close>): the
  64-bit entries of the four kinds of tables, the walk of the processor, the code's access to the
  tables through the recursive entries 256 (its own address space) and 257 (a foreign one), and the
  operations on mappings. Memory is a map from physical page addresses to 512 words; the code
  reaches it through virtual addresses only, so every access is translated by the same walk.
\<close>

section \<open>Entries\<close>

text \<open>
  The bit fields shared by \<open>page_table_entry\<close>, \<open>page_directory_entry\<close>, \<open>pdpt_entry\<close> and \<open>pml4_entry\<close>:
  \<open>present\<close> bit 0, \<open>read_write\<close> bit 1, \<open>user\<close> bit 2, the ignored bits from bit 8, \<open>address\<close> in bits 12-51.
\<close>

definition e_present :: "u64 \<Rightarrow> bool" where
  "e_present e = bit e 0"

definition e_read_write :: "u64 \<Rightarrow> bool" where
  "e_read_write e = bit e 1"

definition e_user :: "u64 \<Rightarrow> bool" where
  "e_user e = bit e 2"

text \<open>\<open>address << 12\<close>\<close>

definition e_frame :: "u64 \<Rightarrow> u64" where
  "e_frame e = push_bit 12 (drop_bit 12 e AND mask 40)"

definition e_put :: "nat \<Rightarrow> bool \<Rightarrow> u64 \<Rightarrow> u64" where
  "e_put n b e = (if b then e OR push_bit n 1 else e AND NOT (push_bit n 1))"

text \<open>\<open>operator=\<close>: present, and the address of the argument.\<close>

definition e_assign :: "u64 \<Rightarrow> u64 \<Rightarrow> u64" where
  "e_assign a e = (e AND NOT (push_bit 12 (mask 40))) OR push_bit 12 (drop_bit 12 a AND mask 40) OR 1"

section \<open>Walks and addresses\<close>

type_synonym frames = "u64 \<Rightarrow> nat \<Rightarrow> u64"

fun walk :: "frames \<Rightarrow> u64 \<Rightarrow> nat list \<Rightarrow> u64 option" where
  "walk mem f [] = Some f"
| "walk mem f (i # is) = (if e_present (mem f i) then walk mem (e_frame (mem f i)) is else None)"

definition index_of :: "nat \<Rightarrow> u64 \<Rightarrow> nat" where
  "index_of n v = unat (drop_bit n v AND 511)"

definition indices :: "u64 \<Rightarrow> nat list" where
  "indices v = [index_of 39 v, index_of 30 v, index_of 21 v, index_of 12 v]"

text \<open>The translation of the page of a virtual address by the processor, from the root in \<open>cr3\<close>.\<close>

definition translate :: "frames \<Rightarrow> u64 \<Rightarrow> u64 \<Rightarrow> u64 option" where
  "translate mem root v = walk mem root (indices v)"

text \<open>\<open>address_generator\<close>\<close>

definition gen_pt :: "nat \<Rightarrow> nat \<Rightarrow> nat \<Rightarrow> nat \<Rightarrow> u64" where
  "gen_pt rid pml4e pdpte pde = 0xFFFF000000000000 + push_bit 39 (of_nat rid) + push_bit 30 (of_nat pml4e) +
     push_bit 21 (of_nat pdpte) + push_bit 12 (of_nat pde)"

definition gen_pd :: "nat \<Rightarrow> nat \<Rightarrow> nat \<Rightarrow> u64" where
  "gen_pd rid pml4e pdpte = gen_pt rid 256 pml4e pdpte"

definition gen_pdpt :: "nat \<Rightarrow> nat \<Rightarrow> u64" where
  "gen_pdpt rid pml4e = gen_pt rid 256 256 pml4e"

definition gen_pml4 :: "nat \<Rightarrow> u64" where
  "gen_pml4 rid = gen_pt rid 256 256 256"

section \<open>The state and the accesses\<close>

record 's vas =
  vs_mem :: frames
  vs_cr3 :: u64
  vs_supply :: 's
  vs_lowest :: u64
  vs_temp :: u64

text \<open>Entry \<open>i\<close> of the table at the virtual address \<open>page\<close>.\<close>

definition vread :: "u64 \<Rightarrow> nat \<Rightarrow> 's vas \<Rightarrow> u64 result" where
  "vread page i s = (if 512 \<le> i then Inl Out_Of_Bounds
     else case translate (vs_mem s) (vs_cr3 s) page of None \<Rightarrow> Inl Page_Fault | Some f \<Rightarrow> Inr (vs_mem s f i))"

definition vupdate :: "u64 \<Rightarrow> nat \<Rightarrow> (u64 \<Rightarrow> u64) \<Rightarrow> 's vas \<Rightarrow> 's vas result" where
  "vupdate page i g s = (if 512 \<le> i then Inl Out_Of_Bounds
     else case translate (vs_mem s) (vs_cr3 s) page of None \<Rightarrow> Inl Page_Fault
     | Some f \<Rightarrow> Inr (s\<lparr>vs_mem := (vs_mem s)(f := (vs_mem s f)(i := g (vs_mem s f i)))\<rparr>))"

text \<open>The constructors of the tables and \<open>memory::zero\<close> on a page: all 512 words become zero.\<close>

definition vzero :: "u64 \<Rightarrow> 's vas \<Rightarrow> 's vas result" where
  "vzero page s = (case translate (vs_mem s) (vs_cr3 s) page of None \<Rightarrow> Inl Page_Fault
     | Some f \<Rightarrow> Inr (s\<lparr>vs_mem := (vs_mem s)(f := (\<lambda>_. 0))\<rparr>))"

text \<open>\<open>utils::bit_lock\<close> on bit 9 of an entry: spin while it is set, then set it; clear it at the end of the scope.\<close>

definition lock_entry :: "u64 \<Rightarrow> nat \<Rightarrow> 's vas \<Rightarrow> 's vas result" where
  "lock_entry page i s = rbind (vread page i s) (\<lambda>e.
     if bit e 9 then Inl Spins_Forever else vupdate page i (e_put 9 True) s)"

definition unlock_entry :: "u64 \<Rightarrow> nat \<Rightarrow> 's vas \<Rightarrow> 's vas result" where
  "unlock_entry page i s = vupdate page i (e_put 9 False) s"

definition pop_frame :: "('s \<Rightarrow> (u64 \<times> 's) result) \<Rightarrow> 's vas \<Rightarrow> (u64 \<times> 's vas) result" where
  "pop_frame pop s = rbind (pop (vs_supply s)) (\<lambda>(f, t). Inr (f, s\<lparr>vs_supply := t\<rparr>))"

section \<open>Mapping\<close>

record attributes =
  at_user :: bool
  at_read_write :: bool
  at_foreign :: bool

definition vm_user :: attributes where
  "vm_user = \<lparr>at_user = True, at_read_write = True, at_foreign = False\<rparr>"

definition vm_system :: attributes where
  "vm_system = \<lparr>at_user = False, at_read_write = True, at_foreign = False\<rparr>"

definition vm_foreign_user :: attributes where
  "vm_foreign_user = \<lparr>at_user = True, at_read_write = True, at_foreign = True\<rparr>"

definition vm_foreign_system :: attributes where
  "vm_foreign_system = \<lparr>at_user = False, at_read_write = True, at_foreign = True\<rparr>"

definition vm_system_read_only :: attributes where
  "vm_system_read_only = \<lparr>at_user = False, at_read_write = False, at_foreign = False\<rparr>"

definition vm_foreign_system_read_only :: attributes where
  "vm_foreign_system_read_only = \<lparr>at_user = False, at_read_write = False, at_foreign = False\<rparr>"

text \<open>
  Entering entry \<open>i\<close> of the table at \<open>tbl\<close>, whose own table is reached at \<open>child\<close>: lock it, give it
  a fresh zeroed table if it has none, and set its flags to \<open>user\<close> and \<open>rw\<close>.
\<close>

definition map_enter :: "('s \<Rightarrow> (u64 \<times> 's) result) \<Rightarrow> u64 \<Rightarrow> u64 \<Rightarrow> bool \<Rightarrow> bool \<Rightarrow> nat \<Rightarrow> 's vas \<Rightarrow> 's vas result" where
  "map_enter pop tbl child user rw i s =
     rbind (lock_entry tbl i s) (\<lambda>s.
     rbind (vread tbl i s) (\<lambda>e.
     rbind (if \<not> e_present e
            then rbind (pop_frame pop s) (\<lambda>(f, s). rbind (vupdate tbl i (e_assign f) s) (vzero child))
            else Inr s) (\<lambda>s.
     rbind (vupdate tbl i (e_put 2 user) s) (vupdate tbl i (e_put 1 rw)))))"

text \<open>The body of the innermost loop; the physical address is carried along.\<close>

definition map_leaf :: "u64 \<Rightarrow> bool \<Rightarrow> bool \<Rightarrow> nat \<Rightarrow> 's vas \<times> u64 \<Rightarrow> ('s vas \<times> u64) result" where
  "map_leaf pt user rw i = (\<lambda>(s, phys).
     rbind (lock_entry pt i s) (\<lambda>s.
     rbind (vread pt i s) (\<lambda>e.
     if e_present e \<and> phys \<noteq> e_frame e then Inl (Panic ''Tried to map something at already mapped page'')
     else rbind (vupdate pt i (e_assign phys) s) (\<lambda>s.
          rbind (vupdate pt i (e_put 2 user) s) (\<lambda>s.
          rbind (vupdate pt i (e_put 1 rw) s) (\<lambda>s.
          rbind (unlock_entry pt i s) (\<lambda>s. Inr (s, phys + 4096))))))))"

definition on_first :: "('a \<Rightarrow> 'a result) \<Rightarrow> 'a \<times> 'b \<Rightarrow> ('a \<times> 'b) result" where
  "on_first f = (\<lambda>(s, x). rbind (f s) (\<lambda>s. Inr (s, x)))"

definition pos_of :: "u64 \<Rightarrow> pos" where
  "pos_of v = (index_of 39 v, index_of 30 v, index_of 21 v, index_of 12 v)"

definition x64_map :: "('s \<Rightarrow> (u64 \<times> 's) result) \<Rightarrow> u64 \<Rightarrow> u64 \<Rightarrow> u64 \<Rightarrow> attributes \<Rightarrow> 's vas \<Rightarrow> 's vas result" where
  "x64_map pop vstart vend phys attr s =
     (let rid = (if at_foreign attr then 257 else 256); user = at_user attr; rw = at_read_write attr in
      if 0xFFFF800000000000 \<le> vstart \<and> vstart < 0xFFFF800000000000 + 2 * 512 * 1024 * 1024 * 1024
      then Inl (Panic ''Trying to map something in paging structs area'')
      else let vstart = page_floor vstart; vend = page_ceil vend in
        if vend \<le> vstart then Inr s
        else rbind (page_loop
          (\<lambda>i4. on_first (map_enter pop (gen_pml4 rid) (gen_pdpt rid i4) user rw i4))
          (\<lambda>i4 i3. on_first (map_enter pop (gen_pdpt rid i4) (gen_pd rid i4 i3) user rw i3))
          (\<lambda>i4 i3 i2. on_first (map_enter pop (gen_pd rid i4 i3) (gen_pt rid i4 i3 i2) user user i2))
          (\<lambda>i4 i3 i2 i1. map_leaf (gen_pt rid i4 i3 i2) user rw i1)
          (\<lambda>i4. on_first (unlock_entry (gen_pml4 rid) i4))
          (\<lambda>i4 i3. on_first (unlock_entry (gen_pdpt rid i4) i3))
          (\<lambda>i4 i3 i2. on_first (unlock_entry (gen_pd rid i4 i3) i2))
          (pos_of vstart) (pos_of vend) (s, phys)) (\<lambda>(s, _). Inr s))"

section \<open>Unmapping\<close>

definition unmap_enter :: "u64 \<Rightarrow> nat \<Rightarrow> 's vas \<Rightarrow> 's vas result" where
  "unmap_enter tbl i s =
     rbind (lock_entry tbl i s) (\<lambda>s.
     rbind (vread tbl i s) (\<lambda>e.
     if \<not> e_present e then Inl (Panic ''Tried to unmap something not mapped'') else Inr s))"

definition unmap_leaf :: "(u64 \<Rightarrow> 's \<Rightarrow> 's result) \<Rightarrow> bool \<Rightarrow> u64 \<Rightarrow> nat \<Rightarrow> 's vas \<Rightarrow> 's vas result" where
  "unmap_leaf give push pt i s =
     rbind (lock_entry pt i s) (\<lambda>s.
     rbind (vread pt i s) (\<lambda>e.
     if \<not> e_present e then Inl (Panic ''tried to unmap not mapped page'')
     else rbind (vupdate pt i (e_put 0 False) s) (\<lambda>s.
          rbind (if push
                 then rbind (vread pt i s) (\<lambda>e.
                      rbind (give (e_frame e) (vs_supply s)) (\<lambda>t. Inr (s\<lparr>vs_supply := t\<rparr>)))
                 else Inr s) (\<lambda>s.
          unlock_entry pt i s))))"

definition x64_unmap :: "(u64 \<Rightarrow> 's \<Rightarrow> 's result) \<Rightarrow> u64 \<Rightarrow> u64 \<Rightarrow> bool \<Rightarrow> bool \<Rightarrow> 's vas \<Rightarrow> 's vas result" where
  "x64_unmap give vstart vend push foreign s =
     (let rid = (if foreign then 257 else 256); vstart = page_floor vstart; vend = page_ceil vend in
      page_loop
        (\<lambda>i4. unmap_enter (gen_pml4 rid) i4)
        (\<lambda>i4 i3. unmap_enter (gen_pdpt rid i4) i3)
        (\<lambda>i4 i3 i2. unmap_enter (gen_pd rid i4 i3) i2)
        (\<lambda>i4 i3 i2 i1. unmap_leaf give push (gen_pt rid i4 i3 i2) i1)
        (\<lambda>i4. unlock_entry (gen_pml4 rid) i4)
        (\<lambda>i4 i3. unlock_entry (gen_pdpt rid i4) i3)
        (\<lambda>i4 i3 i2. unlock_entry (gen_pd rid i4 i3) i2)
        (pos_of vstart) (pos_of vend) s)"

section \<open>Looking up, cloning, foreign address spaces\<close>

definition get_physical_address :: "u64 \<Rightarrow> bool \<Rightarrow> 's vas \<Rightarrow> (u64 \<times> 's vas) result" where
  "get_physical_address a foreign s =
     (let rid = (if foreign then 257 else 256);
          i4 = index_of 39 a; i3 = index_of 30 a; i2 = index_of 21 a; i1 = index_of 12 a;
          fail = Inl (Panic ''Tried to get physical address of not mapped page'') in
      rbind (lock_entry (gen_pml4 rid) i4 s) (\<lambda>s.
      rbind (vread (gen_pml4 rid) i4 s) (\<lambda>e4. if \<not> e_present e4 then fail else
      rbind (vread (gen_pdpt rid i4) i3 s) (\<lambda>e3. if \<not> e_present e3 then fail else
      rbind (vread (gen_pd rid i4 i3) i2 s) (\<lambda>e2. if \<not> e_present e2 then fail else
      rbind (vread (gen_pt rid i4 i3 i2) i1 s) (\<lambda>e1. if \<not> e_present e1 then fail else
      rbind (unlock_entry (gen_pml4 rid) i4 s) (\<lambda>s. Inr (e_frame e1, s))))))))"

text \<open>\<open>set_foreign\<close> takes bit 0 of the recursive entry 257 for its lock, so it waits while a foreign
  address space is set.\<close>

definition set_foreign :: "u64 \<Rightarrow> 's vas \<Rightarrow> 's vas result" where
  "set_foreign frame s =
     rbind (vread (gen_pml4 256) 257 s) (\<lambda>e.
     if bit e 0 then Inl Spins_Forever
     else rbind (vupdate (gen_pml4 256) 257 (e_put 0 True) s) (\<lambda>s.
          rbind (vupdate (gen_pml4 256) 257 (e_assign frame) s) (\<lambda>s.
          vupdate (gen_pdpt 256 257) 256 (e_assign frame) s)))"

definition release_foreign :: "'s vas \<Rightarrow> 's vas result" where
  "release_foreign s =
     rbind (vupdate (gen_pml4 256) 257 (e_assign 0) s) (vupdate (gen_pml4 256) 257 (e_put 0 False))"

text \<open>\<open>allocate_address_range\<close> (\<open>vm.cpp\<close>): address space is handed out downwards and never taken back.\<close>

definition allocate_address_range :: "u64 \<Rightarrow> 's vas \<Rightarrow> (u64 \<times> 's vas) result" where
  "allocate_address_range sz s =
     (let real_size = page_ceil sz; ret = vs_lowest s - real_size; s = s\<lparr>vs_lowest := vs_lowest s - real_size\<rparr> in
      if ret < 0xFFFF800000000000 then Inl (Panic ''virtual memory exhausted!'') else Inr (ret, s))"

text \<open>
  \<open>vm::initialize\<close>: the root is still mapped at its physical address; its entry 256 becomes recursive.
\<close>

definition vm_initialize :: "'s vas \<Rightarrow> 's vas result" where
  "vm_initialize s =
     rbind (vupdate (vs_cr3 s) 256 (e_assign (vs_cr3 s)) s) (\<lambda>s. Inr (s\<lparr>vs_lowest := 0xFFFFFFFF80000000\<rparr>))"

text \<open>The overloads of \<open>vm::map\<close>: one page with a frame of its own, one page at a given frame, a range
  with a frame for every page, a range at given frames.\<close>

definition vm_map_page :: "('s \<Rightarrow> (u64 \<times> 's) result) \<Rightarrow> u64 \<Rightarrow> attributes \<Rightarrow> 's vas \<Rightarrow> 's vas result" where
  "vm_map_page pop a attr s = rbind (pop_frame pop s) (\<lambda>(f, s). x64_map pop a (a + 4096) f attr s)"

definition vm_map_at :: "('s \<Rightarrow> (u64 \<times> 's) result) \<Rightarrow> u64 \<Rightarrow> u64 \<Rightarrow> attributes \<Rightarrow> 's vas \<Rightarrow> 's vas result" where
  "vm_map_at pop a phys attr s = x64_map pop a (a + 4096) phys attr s"

fun vm_map_range :: "nat \<Rightarrow> ('s \<Rightarrow> (u64 \<times> 's) result) \<Rightarrow> u64 \<Rightarrow> u64 \<Rightarrow> attributes \<Rightarrow> 's vas \<Rightarrow> 's vas result" where
  "vm_map_range 0 pop base hi attr s = Inl Spins_Forever"
| "vm_map_range (Suc k) pop base hi attr s =
     (if base < hi then rbind (vm_map_page pop base attr s) (vm_map_range k pop (base + 4096) hi attr) else Inr s)"

text \<open>\<open>clone_kernel\<close>: a new root whose upper half, but for the two recursive entries, is the current one.\<close>

fun copy_entries :: "nat list \<Rightarrow> 's vas \<Rightarrow> 's vas result" where
  "copy_entries [] s = Inr s"
| "copy_entries (i # is) s =
     rbind (vread (gen_pml4 256) i s) (\<lambda>e. rbind (vupdate (gen_pml4 257) i (\<lambda>_. e) s) (copy_entries is))"

definition clone_kernel :: "('s \<Rightarrow> (u64 \<times> 's) result) \<Rightarrow> (u64 \<Rightarrow> 's \<Rightarrow> 's result) \<Rightarrow> 's vas \<Rightarrow> (u64 \<times> 's vas) result" where
  "clone_kernel pop give s =
     rbind (if vs_temp s = 0
            then rbind (allocate_address_range 4096 s) (\<lambda>(t, s). Inr (s\<lparr>vs_temp := t\<rparr>)) else Inr s) (\<lambda>s.
     let temp = vs_temp s in
     rbind (pop_frame pop s) (\<lambda>(f, s).
     rbind (vm_map_at pop temp f vm_system s) (\<lambda>s.
     rbind (vzero temp s) (\<lambda>s.
     rbind (x64_unmap give temp (temp + 4096) False False s) (\<lambda>s.
     rbind (set_foreign f s) (\<lambda>s.
     rbind (copy_entries [258..<512] s) (\<lambda>s. Inr (f, s))))))))"

text \<open>\<open>locked\<close>: the lowest of the ignored bits, which is bit 8, of the three upper entries.\<close>

definition locked :: "u64 \<Rightarrow> 's vas \<Rightarrow> bool result" where
  "locked a s =
     (let i4 = index_of 39 a; i3 = index_of 30 a; i2 = index_of 21 a in
      rbind (vread (gen_pml4 256) i4 s) (\<lambda>e. if bit e 8 then Inr True else
      rbind (vread (gen_pdpt 256 i4) i3 s) (\<lambda>e. if bit e 8 then Inr True else
      rbind (vread (gen_pd 256 i4 i3) i2 s) (\<lambda>e. Inr (bit e 8)))))"

section \<open>Dropping the boot loader's mapping\<close>

text \<open>\<open>each is f\<close>: a \<open>for\<close> loop over the entries \<open>is\<close>.\<close>

fun each :: "nat list \<Rightarrow> (nat \<Rightarrow> 'a \<Rightarrow> 'a result) \<Rightarrow> 'a \<Rightarrow> 'a result" where
  "each [] f s = Inr s"
| "each (i # is) f s = rbind (f i s) (each is f)"

definition give_entry :: "(u64 \<Rightarrow> 's \<Rightarrow> 's result) \<Rightarrow> u64 \<Rightarrow> nat \<Rightarrow> 's vas \<Rightarrow> 's vas result" where
  "give_entry give tbl i s =
     rbind (vread tbl i s) (\<lambda>e.
     rbind (give (e_frame e) (vs_supply s)) (\<lambda>t.
     vupdate tbl i (e_put 0 False) (s\<lparr>vs_supply := t\<rparr>)))"

definition drop_bootloader_mapping :: "(u64 \<Rightarrow> 's \<Rightarrow> 's result) \<Rightarrow> bool \<Rightarrow> 's vas \<Rightarrow> 's vas result" where
  "drop_bootloader_mapping give push s =
     (let skip = (\<lambda>tbl i body s. rbind (vread tbl i s) (\<lambda>e. if \<not> e_present e then Inr s else body s)) in
      if \<not> push then each [0..<256] (\<lambda>i. vupdate (gen_pml4 256) i (e_put 0 False)) s
      else each [0..<256] (\<lambda>i4. skip (gen_pml4 256) i4 (\<lambda>s.
             rbind (each [0..<512] (\<lambda>i3. skip (gen_pdpt 256 i4) i3 (\<lambda>s.
               rbind (each [0..<512] (\<lambda>i2. skip (gen_pd 256 i4 i3) i2
                 (give_entry give (gen_pd 256 i4 i3) i2)) s)
               (give_entry give (gen_pdpt 256 i4) i3))) s)
             (give_entry give (gen_pml4 256) i4))) s)"

end
