(* ===== verification/Paging_Walk.thy ===== *)
theory Paging_Walk
  imports Paging "HOL-Library.Sublist"
begin

text \<open>
  The fields of the entries, the recursive mapping (which physical entry an access through the
  virtual addresses of \<open>address_generator\<close> reaches), and how a write to one entry changes the walks
  of an address space whose tables are all different.
\<close>

section \<open>Entries\<close>

lemma e_present_put [simp, field_simps_hw]: "e_present (e_put n b e) = (if n = 0 then b else e_present e)"
  by (auto simp: e_present_def e_put_def bit_simps)

lemma e_frame_put [simp, field_simps_hw]: "n < 12 \<Longrightarrow> e_frame (e_put n b e) = e_frame e"
  unfolding e_frame_def e_put_def by (rule bit_word_eqI) (auto simp: bit_simps)

lemma bit_put [simp, field_simps_hw]: "n < 64 \<Longrightarrow> bit (e_put n b e) m = (if m = n then b else bit e m)"
  by (auto simp: e_put_def bit_simps dest: bit_imp_le_length)

lemma e_present_assign [simp, field_simps_hw]: "e_present (e_assign a e)"
  by (simp add: e_present_def e_assign_def bit_simps)

lemma e_frame_assign [simp, field_simps_hw]: "e_frame (e_assign a e) = e_frame a"
  unfolding e_frame_def e_assign_def by (rule bit_word_eqI) (auto simp: bit_simps)

lemma bit_assign [simp, field_simps_hw]: "0 < n \<Longrightarrow> n < 12 \<Longrightarrow> bit (e_assign a e) n = bit e n"
  by (auto simp: e_assign_def bit_simps)

lemma e_frame_frame [simp]: "e_frame (e_frame a) = e_frame a"
  unfolding e_frame_def by (rule bit_word_eqI) (auto simp: bit_simps)

section \<open>The recursive mapping\<close>

lemma unat_and_511: "unat (w AND 511 :: u64) = unat w mod 512"
proof -
  have "(511 :: u64) = mask 9" by (simp add: mask_eq_exp_minus_1)
  then have "w AND 511 = take_bit 9 w" by (simp add: take_bit_eq_mask)
  then show ?thesis by (simp add: take_bit_eq_mod unat_mod)
qed

lemma index_of_eq: "index_of n v = unat v div 2 ^ n mod 512"
proof -
  have "unat (drop_bit n v) = drop_bit n (take_bit 64 (unat v))"
    using unsigned_drop_bit_eq [of n v, where ?'a = nat] by simp
  also have "\<dots> = unat v div 2 ^ n"
    using unat_u64_less [of v] by (simp add: drop_bit_eq_div take_bit_nat_eq_self)
  finally show ?thesis by (simp add: index_of_def unat_and_511)
qed

lemma index_of_less [simp]: "index_of n v < 512"
  by (simp add: index_of_def unat_and_511)

lemma unat_gen_pt:
  assumes "rid < 512" "a < 512" "b < 512" "c < 512"
  shows "unat (gen_pt rid a b c) =
    0xFFFF000000000000 + rid * 2 ^ 39 + a * 2 ^ 30 + b * 2 ^ 21 + c * 2 ^ 12"
proof -
  have "gen_pt rid a b c = of_nat (0xFFFF000000000000 + rid * 2 ^ 39 + a * 2 ^ 30 + b * 2 ^ 21 + c * 2 ^ 12)"
    by (simp add: gen_pt_def push_bit_eq_mult mult.commute)
  then show ?thesis using assms by (simp only:) (intro unat_of_nat_u64, simp)
qed

lemma indices_gen_pt:
  assumes "rid < 512" "a < 512" "b < 512" "c < 512"
  shows "indices (gen_pt rid a b c) = [rid, a, b, c]"
proof -
  define x where "x = ((((511 * 128 + 127) * 512 + rid) * 512 + a) * 512 + b) * 512 + c"
  have digit: "(h * 512 + l) div 512 = h" "(h * 512 + l) mod 512 = l" if "l < 512" for h l :: nat
    using that by simp_all
  have u: "unat (gen_pt rid a b c) = x * 4096"
    unfolding unat_gen_pt [OF assms] x_def by simp
  have "x * 4096 div 2 ^ 12 = x" by simp
  moreover have "x * 4096 div 2 ^ 21 = x div 512"
    using div_mult_mult2 [of 4096 x 512] by simp
  moreover have "x * 4096 div 2 ^ 30 = x div 512 div 512"
    using div_mult_mult2 [of 4096 x "512 * 512"] by (simp add: div_mult2_eq [symmetric])
  moreover have "x * 4096 div 2 ^ 39 = x div 512 div 512 div 512"
    using div_mult_mult2 [of 4096 x "512 * 512 * 512"] by (simp add: div_mult2_eq [symmetric])
  ultimately have "indices (gen_pt rid a b c) =
      [x div 512 div 512 div 512 mod 512, x div 512 div 512 mod 512, x div 512 mod 512, x mod 512]"
    by (simp only: indices_def index_of_eq u)
  then show ?thesis using assms by (simp only: x_def digit)
qed

lemma walk_append: "walk mem f (is @ js) = (case walk mem f is of None \<Rightarrow> None | Some g \<Rightarrow> walk mem g js)"
  by (induction "is" arbitrary: f) auto

text \<open>The root has itself at its entry 256.\<close>

definition recursive :: "frames \<Rightarrow> u64 \<Rightarrow> bool" where
  "recursive mem root \<longleftrightarrow> e_present (mem root 256) \<and> e_frame (mem root 256) = root"

text \<open>The address of the table at the path \<open>is\<close>.\<close>

fun table_address :: "nat list \<Rightarrow> u64" where
  "table_address [] = gen_pml4 256"
| "table_address [a] = gen_pdpt 256 a"
| "table_address [a, b] = gen_pd 256 a b"
| "table_address [a, b, c] = gen_pt 256 a b c"
| "table_address _ = 0"

lemma translate_table_address:
  assumes "recursive mem root" "length is \<le> 3" "\<forall>i\<in>set is. i < 512"
  shows "translate mem root (table_address is) = walk mem root is"
proof -
  have r: "walk mem root (256 # js) = walk mem root js" for js
    using assms(1) by (simp add: recursive_def)
  from assms(2) consider "is = []" | a where "is = [a]" | a b where "is = [a, b]" | a b c where "is = [a, b, c]"
    by (cases "is"; cases "tl is"; cases "tl (tl is)") auto
  then show ?thesis
    by cases (use assms(3) in \<open>auto simp: translate_def gen_pml4_def gen_pdpt_def gen_pd_def indices_gen_pt r
        simp del: walk.simps(2)\<close>)
qed

section \<open>Address spaces\<close>

text \<open>
  The paths to the tables, apart from those through the recursive entries. In a well-formed address
  space they lead to different pages.
\<close>

definition path_ok :: "nat list \<Rightarrow> bool" where
  "path_ok is \<longleftrightarrow> (\<forall>i\<in>set is. i < 512) \<and> (is \<noteq> [] \<longrightarrow> hd is \<noteq> 256 \<and> hd is \<noteq> 257)"

definition separate :: "frames \<Rightarrow> u64 \<Rightarrow> bool" where
  "separate mem root \<longleftrightarrow> (\<forall>p q f. path_ok p \<longrightarrow> path_ok q \<longrightarrow> length p \<le> 3 \<longrightarrow> length q \<le> 3 \<longrightarrow>
     walk mem root p = Some f \<longrightarrow> walk mem root q = Some f \<longrightarrow> p = q)"

definition vas_ok :: "frames \<Rightarrow> u64 \<Rightarrow> bool" where
  "vas_ok mem root \<longleftrightarrow> recursive mem root \<and> separate mem root"

abbreviation set_entry :: "frames \<Rightarrow> u64 \<Rightarrow> nat \<Rightarrow> u64 \<Rightarrow> frames" where
  "set_entry mem f i e \<equiv> mem(f := (mem f)(i := e))"

lemma path_ok_snoc [simp]: "path_ok (p @ [i]) \<longleftrightarrow> path_ok p \<and> i < 512 \<and> (p = [] \<longrightarrow> i \<noteq> 256 \<and> i \<noteq> 257)"
  by (cases p) (auto simp: path_ok_def)

lemma path_ok_Nil [simp]: "path_ok []"
  by (simp add: path_ok_def)

lemma separateD:
  "separate mem root \<Longrightarrow> path_ok p \<Longrightarrow> path_ok q \<Longrightarrow> length p \<le> 3 \<Longrightarrow> length q \<le> 3 \<Longrightarrow>
    walk mem root p = Some f \<Longrightarrow> walk mem root q = Some f \<Longrightarrow> p = q"
  unfolding separate_def by blast

lemma walk_snoc:
  "walk mem f (p @ [i]) = (case walk mem f p of None \<Rightarrow> None
     | Some g \<Rightarrow> if e_present (mem g i) then Some (e_frame (mem g i)) else None)"
  by (simp add: walk_append split: option.splits)

lemma walk_step:
  "walk mem f p = Some g \<Longrightarrow>
    walk mem f (p @ [i]) = (if e_present (mem g i) then Some (e_frame (mem g i)) else None)"
  by (simp add: walk_append)

lemma walk_stuck: "walk mem f p = None \<Longrightarrow> walk mem f (p @ [i]) = None"
  by (simp add: walk_append)

text \<open>A write that keeps the presence and the address of an entry changes no walk.\<close>

lemma walk_same:
  assumes "e_present e = e_present (mem f i)" "e_frame e = e_frame (mem f i)"
  shows "walk (set_entry mem f i e) = walk mem"
proof (intro ext)
  fix g "is"
  show "walk (set_entry mem f i e) g is = walk mem g is"
    using assms by (induction "is" arbitrary: g) auto
qed

text \<open>A write to an entry changes only the walks through it.\<close>

lemma walk_other:
  assumes "separate mem root" "path_ok p" "length p \<le> 3" "walk mem root p = Some f"
    and "path_ok q" "length q \<le> 4" "\<not> prefix (p @ [i]) q"
  shows "walk (set_entry mem f i e) root q = walk mem root q"
  using assms(5-7)
proof (induction q rule: rev_induct)
  case (snoc j q)
  then have np: "\<not> prefix (p @ [i]) q" "path_ok q" "length q \<le> 3" by (auto intro: prefix_order.trans)
  have IH: "walk (set_entry mem f i e) root q = walk mem root q"
    using np by (intro snoc.IH) simp_all
  have "walk (set_entry mem f i e) root (q @ [j]) = walk mem root (q @ [j])"
  proof (cases "walk mem root q")
    case (Some g)
    have "g \<noteq> f \<or> j \<noteq> i"
    proof (rule ccontr)
      assume "\<not> (g \<noteq> f \<or> j \<noteq> i)"
      with Some assms(1-4) np have "q = p" "j = i" by (auto dest: separateD)
      with snoc.prems(3) show False by simp
    qed
    with Some IH show ?thesis by (auto simp: walk_step)
  qed (use IH in \<open>simp add: walk_stuck\<close>)
  then show ?case .
qed simp

lemma prefix_path: "prefix p q \<Longrightarrow> path_ok q \<Longrightarrow> path_ok p"
  by (cases p) (auto simp: path_ok_def prefix_def)

text \<open>Zeroing a page that is no table changes no walk; a walk from it ends there.\<close>

lemma walk_zero_other:
  assumes "\<forall>p. path_ok p \<longrightarrow> length p \<le> 3 \<longrightarrow> walk mem root p \<noteq> Some g" "path_ok q" "length q \<le> 4"
  shows "walk (mem(g := (\<lambda>_. 0))) root q = walk mem root q"
  using assms(2,3)
proof (induction q rule: rev_induct)
  case (snoc j q)
  then have q: "path_ok q" "length q \<le> 3" by auto
  then have "walk mem root q \<noteq> Some g" using assms(1) by blast
  moreover have "walk (mem(g := (\<lambda>_. 0))) root q = walk mem root q"
    using q by (intro snoc.IH) simp_all
  ultimately have "walk (mem(g := (\<lambda>_. 0))) root (q @ [j]) = walk mem root (q @ [j])"
    by (cases "walk mem root q") (auto simp: walk_step walk_stuck)
  then show ?case .
qed simp

lemma walk_from_zero [simp]: "walk (mem(g := (\<lambda>_. 0))) g js = (if js = [] then Some g else None)"
  by (cases js) (auto simp: e_present_def)

text \<open>Hanging a zeroed fresh page under an absent entry.\<close>

lemma walk_new_table_separate:
  fixes mem root p f i e g
  defines "mem' \<equiv> (set_entry mem f i e)(g := (\<lambda>_. 0))"
  assumes sep: "separate mem root" and p: "path_ok (p @ [i])" "length p \<le> 2" "walk mem root p = Some f"
    and absent: "\<not> e_present (mem f i)" and e: "e_present e" "e_frame e = g"
    and fresh: "\<forall>p. path_ok p \<longrightarrow> length p \<le> 3 \<longrightarrow> walk mem root p \<noteq> Some g"
  shows "\<And>q. path_ok q \<Longrightarrow> length q \<le> 4 \<Longrightarrow> walk mem' root q =
      (if q = p @ [i] then Some g else walk mem root q)"
    and "separate mem' root" "p = [] \<or> f \<noteq> root" "g \<noteq> root"
proof -
  let ?m = "set_entry mem f i e"
  have pp: "path_ok p" "length p \<le> 3" using p by auto
  have gf: "g \<noteq> f" using fresh pp p(3) by auto
  have groot: "g \<noteq> root" using fresh [rule_format, of "[]"] by auto
  have none: "walk mem root (p @ i # js) = None" for js
    using p(3) absent by (simp add: walk_append)
  have W: "walk mem' root q = (if q = p @ [i] then Some g else walk mem root q)"
    if q: "path_ok q" "length q \<le> 4" for q
    using q
  proof (induction q rule: rev_induct)
    case Nil
    then show ?case by simp
  next
    case (snoc j q)
    then have q: "path_ok q" "length q \<le> 3" by auto
    with snoc have IH: "walk mem' root q = (if q = p @ [i] then Some g else walk mem root q)" by simp
    show ?case
    proof (cases "q = p @ [i]")
      case True
      then have "walk mem' root q = Some g" using IH by simp
      moreover have "\<not> e_present (mem' g j)" by (simp add: mem'_def e_present_def)
      ultimately have "walk mem' root (q @ [j]) = None" by (simp add: walk_step del: append_assoc)
      moreover have "walk mem root (q @ [j]) = None" using none [of "[j]"] True by simp
      ultimately show ?thesis using True by simp
    next
      case False
      with IH have IH: "walk mem' root q = walk mem root q" by simp
      show ?thesis
      proof (cases "walk mem root q")
        case (Some h)
        then have "h \<noteq> g" using fresh q by auto
        show ?thesis
        proof (cases "h = f \<and> j = i")
          case True
          with Some sep pp p(3) q have "q = p" by (auto dest: separateD)
          have "mem' h j = e" using True gf by (simp add: mem'_def)
          moreover have "walk mem' root q = Some h" using IH Some by simp
          ultimately have "walk mem' root (q @ [j]) = Some g" using e by (simp add: walk_step)
          with True \<open>q = p\<close> show ?thesis by simp
        next
          case F: False
          then have "mem' h j = mem h j" using \<open>h \<noteq> g\<close> by (auto simp: mem'_def)
          then have "walk mem' root (q @ [j]) = walk mem root (q @ [j])" using Some IH by (simp add: walk_step)
          moreover have "q @ [j] \<noteq> p @ [i]" using F Some p(3) by auto
          ultimately show ?thesis by (simp only: if_False)
        qed
      next
        case None
        then have "walk mem' root (q @ [j]) = walk mem root (q @ [j])" using IH by (simp add: walk_stuck)
        moreover from None have "q @ [j] \<noteq> p @ [i]" using p(3) by auto
        ultimately show ?thesis by (simp only: if_False)
      qed
    qed
  qed
  then show "\<And>q. path_ok q \<Longrightarrow> length q \<le> 4 \<Longrightarrow> walk mem' root q =
      (if q = p @ [i] then Some g else walk mem root q)" .
  show "separate mem' root"
    unfolding separate_def
  proof (intro allI impI)
    fix q r h
    assume A: "path_ok q" "path_ok r" "length q \<le> 3" "length r \<le> 3" "walk mem' root q = Some h" "walk mem' root r = Some h"
    then show "q = r"
      using W [of q] W [of r] fresh separateD [OF sep A(1-4)] by (auto split: if_splits)
  qed
  show "p = [] \<or> f \<noteq> root" using p(3) sep pp by (auto dest: separateD [of mem root p "[]" root])
  show "g \<noteq> root" by (rule groot)
qed

lemma walk_new_table:
  fixes mem root p f i e g
  defines "mem' \<equiv> (set_entry mem f i e)(g := (\<lambda>_. 0))"
  assumes ok: "vas_ok mem root" and p: "path_ok (p @ [i])" "length p \<le> 2" "walk mem root p = Some f"
    and absent: "\<not> e_present (mem f i)" and e: "e_present e" "e_frame e = g"
    and fresh: "\<forall>p. path_ok p \<longrightarrow> length p \<le> 3 \<longrightarrow> walk mem root p \<noteq> Some g"
  shows "\<And>q. path_ok q \<Longrightarrow> length q \<le> 4 \<Longrightarrow> walk mem' root q =
      (if q = p @ [i] then Some g else walk mem root q)"
    and "vas_ok mem' root"
proof -
  have sep: "separate mem root" and rec: "recursive mem root" using ok by (auto simp: vas_ok_def)
  note N = walk_new_table_separate [OF sep p absent e fresh, folded mem'_def]
  show "\<And>q. path_ok q \<Longrightarrow> length q \<le> 4 \<Longrightarrow> walk mem' root q =
      (if q = p @ [i] then Some g else walk mem root q)" by (rule N(1))
  have "f \<noteq> root \<or> i \<noteq> 256" using N(3) p(1) by (auto simp: path_ok_def)
  then have "mem' root 256 = mem root 256" using N(4) by (auto simp: mem'_def)
  with rec N(2) show "vas_ok mem' root" by (simp add: vas_ok_def recursive_def)
qed

text \<open>Setting an entry of the last level changes one translation and no table.\<close>

lemma walk_leaf_separate:
  assumes sep: "separate mem root" and p: "path_ok (p @ [i])" "length p = 3" "walk mem root p = Some f"
  shows "\<And>q. path_ok q \<Longrightarrow> length q \<le> 4 \<Longrightarrow> walk (set_entry mem f i e) root q =
      (if q = p @ [i] then (if e_present e then Some (e_frame e) else None) else walk mem root q)"
    and "separate (set_entry mem f i e) root" "f \<noteq> root"
proof -
  have pp: "path_ok p" "length p \<le> 3" using p by auto
  have O: "walk (set_entry mem f i e) root q = walk mem root q" if "path_ok q" "length q \<le> 4" "q \<noteq> p @ [i]" for q
  proof (rule walk_other [OF sep pp p(3) that(1,2)])
    show "\<not> prefix (p @ [i]) q" using that(2,3) p(2) by (auto simp: prefix_def)
  qed
  moreover have "walk (set_entry mem f i e) root (p @ [i]) = (if e_present e then Some (e_frame e) else None)"
    using O [of p] pp p(3) by (simp add: walk_step)
  ultimately show "\<And>q. path_ok q \<Longrightarrow> length q \<le> 4 \<Longrightarrow> walk (set_entry mem f i e) root q =
      (if q = p @ [i] then (if e_present e then Some (e_frame e) else None) else walk mem root q)" by auto
  show "f \<noteq> root" using separateD [OF sep pp(1) path_ok_Nil pp(2), of f] p(2,3) by auto
  show "separate (set_entry mem f i e) root"
    unfolding separate_def
  proof (intro allI impI)
    fix q r h
    assume A: "path_ok q" "path_ok r" "length q \<le> 3" "length r \<le> 3"
      "walk (set_entry mem f i e) root q = Some h" "walk (set_entry mem f i e) root r = Some h"
    have "q \<noteq> p @ [i]" "r \<noteq> p @ [i]" using A(3,4) p(2) by auto
    with A O [of q] O [of r] separateD [OF sep A(1-4)] show "q = r" by auto
  qed
qed

lemma walk_leaf:
  assumes ok: "vas_ok mem root" and p: "path_ok (p @ [i])" "length p = 3" "walk mem root p = Some f"
  shows "\<And>q. path_ok q \<Longrightarrow> length q \<le> 4 \<Longrightarrow> walk (set_entry mem f i e) root q =
      (if q = p @ [i] then (if e_present e then Some (e_frame e) else None) else walk mem root q)"
    and "vas_ok (set_entry mem f i e) root"
proof -
  have sep: "separate mem root" and rec: "recursive mem root" using ok by (auto simp: vas_ok_def)
  note S = walk_leaf_separate [OF sep p]
  show "\<And>q. path_ok q \<Longrightarrow> length q \<le> 4 \<Longrightarrow> walk (set_entry mem f i e) root q =
      (if q = p @ [i] then (if e_present e then Some (e_frame e) else None) else walk mem root q)" by (rule S(1))
  show "vas_ok (set_entry mem f i e) root"
    using S(2,3) rec by (simp add: vas_ok_def recursive_def)
qed

text \<open>Flag changes keep an address space well formed.\<close>

lemma vas_ok_same:
  assumes "vas_ok mem root" "e_present e = e_present (mem f i)" "e_frame e = e_frame (mem f i)"
  shows "vas_ok (set_entry mem f i e) root"
proof -
  have "recursive (set_entry mem f i e) root"
    using assms by (auto simp: vas_ok_def recursive_def)
  moreover have "separate (set_entry mem f i e) root"
    using assms(1) unfolding vas_ok_def separate_def walk_same [where mem = mem and f = f and i = i, OF assms(2,3)] by simp
  ultimately show ?thesis by (simp add: vas_ok_def)
qed

end
