(* ===== verification/Paging_Map.thy ===== *)
theory Paging_Map
  imports Paging_Walk
begin

text \<open>
  Correctness of \<open>map\<close> (\<open>kernel/memory/x64paging.cpp\<close>): from a well-formed address space and a supply
  of enough fresh frames it returns, every page of the range is translated to its frame with the
  flags of the request, and no other translation changes. The frames come through the interface
  \<open>frame_supply\<close>.
\<close>

section \<open>Entries by path\<close>

definition entry :: "frames \<Rightarrow> u64 \<Rightarrow> nat list \<Rightarrow> u64 option" where
  "entry mem root q = (case walk mem root (butlast q) of None \<Rightarrow> None | Some f \<Rightarrow> Some (mem f (last q)))"

lemma entry_snoc [simp]:
  "entry mem root (p @ [i]) = (case walk mem root p of None \<Rightarrow> None | Some f \<Rightarrow> Some (mem f i))"
  by (simp add: entry_def split: option.splits)

lemma walk_entry:
  "q \<noteq> [] \<Longrightarrow> walk mem root q =
    (case entry mem root q of None \<Rightarrow> None | Some e \<Rightarrow> if e_present e then Some (e_frame e) else None)"
  by (cases q rule: rev_cases) (auto simp: walk_snoc split: option.splits)

lemma entry_set:
  assumes sep: "separate mem root" and t: "path_ok t" "length t \<le> 3" "walk mem root t = Some f"
    and q: "path_ok q" "q \<noteq> []" "length q \<le> 4"
    and same: "walk (set_entry mem f i e) root (butlast q) = walk mem root (butlast q)"
  shows "entry (set_entry mem f i e) root q = (if q = t @ [i] then Some e else entry mem root q)"
proof -
  obtain p j where pj: "q = p @ [j]" using q(2) by (cases q rule: rev_cases) auto
  with q have p: "path_ok p" "length p \<le> 3" by auto
  show ?thesis
  proof (cases "walk mem root p")
    case (Some h)
    have "h = f \<longleftrightarrow> p = t" using Some t separateD [OF sep p(1) t(1) p(2) t(2)] by auto
    with Some same pj show ?thesis by auto
  next
    case None
    then show ?thesis using same pj t(3) by auto
  qed
qed

section \<open>The invariant of the loops\<close>

text \<open>What the flags of an entry of level \<open>k\<close> (1 for the root) on the way to a mapped page are.\<close>

definition flags_ok :: "bool \<Rightarrow> bool \<Rightarrow> nat \<Rightarrow> u64 \<Rightarrow> bool" where
  "flags_ok user rw k e \<longleftrightarrow> e_user e = user \<and> e_read_write e = (if k = 3 then user else rw)"

fun path_number :: "nat list \<Rightarrow> nat" where
  "path_number [a, b, c, d] = page_number (a, b, c, d)"
| "path_number _ = 0"

definition frame_for :: "u64 \<Rightarrow> nat \<Rightarrow> nat list \<Rightarrow> u64" where
  "frame_for phys p0 q = e_frame (phys + 4096 * of_nat (path_number q - p0))"

definition fresh_frames :: "frames \<Rightarrow> u64 \<Rightarrow> u64 list \<Rightarrow> bool" where
  "fresh_frames mem root fs \<longleftrightarrow> distinct fs \<and> (\<forall>f\<in>set fs. e_frame f = f \<and>
     (\<forall>p. path_ok p \<longrightarrow> length p \<le> 3 \<longrightarrow> walk mem root p \<noteq> Some f))"

text \<open>
  \<open>lo\<close>: the range lies in the user half, and nothing is written to the entries of the other half;
  \<open>ks\<close>: frames that are no tables and are not handed out, so that nothing is written to them;
  \<open>L\<close>: the paths of the locked entries; \<open>p\<close>: the next page; \<open>n\<close>: the frames still needed; \<open>m0\<close>: the
  memory at the start.
\<close>

definition map_inv :: "('s \<Rightarrow> u64 list \<Rightarrow> bool) \<Rightarrow> u64 list \<Rightarrow> bool \<Rightarrow> u64 \<Rightarrow> frames \<Rightarrow> nat \<Rightarrow> u64 \<Rightarrow> bool \<Rightarrow> bool \<Rightarrow>
    nat list set \<Rightarrow> nat \<Rightarrow> nat \<Rightarrow> 's vas \<Rightarrow> bool" where
  "map_inv avail ks lo root m0 p0 phys user rw L p n s \<longleftrightarrow>
     vs_cr3 s = root \<and> vas_ok (vs_mem s) root \<and>
     (\<forall>q e. path_ok q \<longrightarrow> q \<noteq> [] \<longrightarrow> length q \<le> 4 \<longrightarrow> entry (vs_mem s) root q = Some e \<longrightarrow> bit e 9 = (q \<in> L)) \<and>
     (\<exists>fs. avail (vs_supply s) fs \<and> n \<le> length fs \<and> fresh_frames (vs_mem s) root (fs @ ks)) \<and> (\<forall>h\<in>set ks. vs_mem s h = m0 h) \<and>
     vs_mem s root 257 = m0 root 257 \<and>
     (\<forall>q. path_ok q \<longrightarrow> q \<noteq> [] \<longrightarrow> length q \<le> 4 \<longrightarrow> (hd q < 256) \<noteq> lo \<longrightarrow> entry (vs_mem s) root q = entry m0 root q) \<and>
     (\<forall>q. path_ok q \<longrightarrow> length q = 4 \<longrightarrow> walk (vs_mem s) root q =
        (if p0 \<le> path_number q \<and> path_number q < p then Some (frame_for phys p0 q) else walk m0 root q)) \<and>
     (\<forall>q k e. path_ok q \<longrightarrow> length q = 4 \<longrightarrow> p0 \<le> path_number q \<longrightarrow> path_number q < p \<longrightarrow> 0 < k \<longrightarrow> k \<le> 4 \<longrightarrow>
        entry (vs_mem s) root (take k q) = Some e \<longrightarrow> flags_ok user rw k e)"

lemma map_invD:
  assumes "map_inv avail ks lo root m0 p0 phys user rw L p n s"
  shows "vs_cr3 s = root" "vas_ok (vs_mem s) root"
    "\<And>q e. path_ok q \<Longrightarrow> q \<noteq> [] \<Longrightarrow> length q \<le> 4 \<Longrightarrow> entry (vs_mem s) root q = Some e \<Longrightarrow> bit e 9 = (q \<in> L)"
    "\<exists>fs. avail (vs_supply s) fs \<and> n \<le> length fs \<and> fresh_frames (vs_mem s) root (fs @ ks)"
    "\<And>q. path_ok q \<Longrightarrow> length q = 4 \<Longrightarrow> walk (vs_mem s) root q =
        (if p0 \<le> path_number q \<and> path_number q < p then Some (frame_for phys p0 q) else walk m0 root q)"
    "\<And>q k e. path_ok q \<Longrightarrow> length q = 4 \<Longrightarrow> p0 \<le> path_number q \<Longrightarrow> path_number q < p \<Longrightarrow> 0 < k \<Longrightarrow> k \<le> 4 \<Longrightarrow>
        entry (vs_mem s) root (take k q) = Some e \<Longrightarrow> flags_ok user rw k e"
    "\<And>h. h \<in> set ks \<Longrightarrow> vs_mem s h = m0 h" "vs_mem s root 257 = m0 root 257"
    "\<And>q. path_ok q \<Longrightarrow> q \<noteq> [] \<Longrightarrow> length q \<le> 4 \<Longrightarrow> (hd q < 256) \<noteq> lo \<Longrightarrow> entry (vs_mem s) root q = entry m0 root q"
  using assms unfolding map_inv_def by blast+

text \<open>The recursive entries of the root are not on any path.\<close>

lemma path_not_recursive:
  assumes "separate mem root" "path_ok (t @ [i])" "length t \<le> 3" "walk mem root t = Some f"
  shows "f \<noteq> root \<or> (i \<noteq> 256 \<and> i \<noteq> 257)"
  using assms separateD [of mem root t "[]" root] by auto

text \<open>The kept frames are no tables.\<close>

lemma map_inv_kept:
  "map_inv avail ks lo root m0 p0 phys user rw L p n s \<Longrightarrow> h \<in> set ks \<Longrightarrow> path_ok t \<Longrightarrow> length t \<le> 3 \<Longrightarrow>
    walk (vs_mem s) root t \<noteq> Some h"
  unfolding map_inv_def fresh_frames_def by auto

lemma map_inv_less: "map_inv avail ks lo root m0 p0 phys user rw L p n s \<Longrightarrow> m \<le> n \<Longrightarrow>
    map_inv avail ks lo root m0 p0 phys user rw L p m s"
  unfolding map_inv_def by (meson order_trans)

text \<open>An access through a table's address reaches the entry of its path.\<close>

lemma vread_entry:
  assumes "vs_cr3 s = root" "recursive (vs_mem s) root" "path_ok (t @ [i])" "length t \<le> 3" "walk (vs_mem s) root t = Some f"
  shows "vread (table_address t) i s = Inr (vs_mem s f i)"
    and "vupdate (table_address t) i g s = Inr (s\<lparr>vs_mem := set_entry (vs_mem s) f i (g (vs_mem s f i))\<rparr>)"
proof -
  have "\<forall>j\<in>set t. j < 512" "i < 512" using assms(3) by (auto simp: path_ok_def)
  then show "vread (table_address t) i s = Inr (vs_mem s f i)"
    "vupdate (table_address t) i g s = Inr (s\<lparr>vs_mem := set_entry (vs_mem s) f i (g (vs_mem s f i))\<rparr>)"
    using translate_table_address [OF assms(2,4)] assms by (simp_all add: vread_def vupdate_def)
qed

text \<open>Changing an entry without touching its presence and its address.\<close>

lemma map_inv_update:
  assumes inv: "map_inv avail ks lo root m0 p0 phys user rw L p n s"
    and t: "path_ok (t @ [i])" "length t \<le> 3" "walk (vs_mem s) root t = Some f" "(hd (t @ [i]) < 256) = lo"
    and g: "\<And>e. e_present (g e) = e_present e" "\<And>e. e_frame (g e) = e_frame e"
      "bit (g (vs_mem s f i)) 9 = (t @ [i] \<in> L')" "L' - {t @ [i]} = L - {t @ [i]}"
      "\<And>e. flags_ok user rw (Suc (length t)) e \<Longrightarrow> flags_ok user rw (Suc (length t)) (g e)"
  shows "\<exists>s'. vupdate (table_address t) i g s = Inr s' \<and> map_inv avail ks lo root m0 p0 phys user rw L' p n s' \<and>
    walk (vs_mem s') = walk (vs_mem s) \<and> vs_mem s' f i = g (vs_mem s f i) \<and>
    (\<forall>h j. h \<noteq> f \<or> j \<noteq> i \<longrightarrow> vs_mem s' h j = vs_mem s h j) \<and>
    (\<forall>q. path_ok q \<longrightarrow> q \<noteq> [] \<longrightarrow> length q \<le> 4 \<longrightarrow> q \<noteq> t @ [i] \<longrightarrow>
       entry (vs_mem s') root q = entry (vs_mem s) root q)"
proof -
  note D = map_invD [OF inv]
  let ?m = "set_entry (vs_mem s) f i (g (vs_mem s f i))" and ?e = "g (vs_mem s f i)"
  let ?s = "s\<lparr>vs_mem := ?m\<rparr>"
  have pt: "path_ok t" using t(1) by simp
  have sep: "separate (vs_mem s) root" and rec: "recursive (vs_mem s) root" using D(2) by (auto simp: vas_ok_def)
  have W: "walk ?m = walk (vs_mem s)" by (rule walk_same) (simp_all add: g(1,2))
  have E: "entry ?m root q = (if q = t @ [i] then Some ?e else entry (vs_mem s) root q)"
    if "path_ok q" "q \<noteq> []" "length q \<le> 4" for q
    by (rule entry_set [OF sep pt t(2,3) that]) (simp add: W)
  have old: "entry (vs_mem s) root (t @ [i]) = Some (vs_mem s f i)" using t(3) by simp
  have "vas_ok ?m root" using D(2) by (intro vas_ok_same) (simp_all add: g(1,2))
  moreover have "bit e 9 = (q \<in> L')"
    if q: "path_ok q" "q \<noteq> []" "length q \<le> 4" "entry ?m root q = Some e" for q e
    using q D(3) [of q e] E [OF q(1-3)] g(3,4) by (auto split: if_splits)
  moreover have "flags_ok user rw k e" if q: "path_ok q" "length q = 4" "p0 \<le> path_number q" "path_number q < p"
      "0 < k" "k \<le> 4" "entry ?m root (take k q) = Some e" for q k e
  proof -
    have tk: "path_ok (take k q)" "take k q \<noteq> []" "length (take k q) = k"
      using q by (auto simp: path_ok_def hd_take dest: in_set_takeD)
    show ?thesis
    proof (cases "take k q = t @ [i]")
      case True
      then have "k = Suc (length t)" using tk(3) by simp
      with True q old D(6) [of q k "vs_mem s f i"] g(5) E [OF tk(1,2)] tk(3) show ?thesis by simp
    next
      case False
      with q D(6) [of q k e] E [OF tk(1,2)] tk(3) show ?thesis by simp
    qed
  qed
  moreover have "?m h = m0 h" if "h \<in> set ks" for h
    using D(7) [OF that] map_inv_kept [OF inv that pt t(2)] t(3) by auto
  moreover have "?m root 257 = m0 root 257" using path_not_recursive [OF sep t(1-3)] D(8) by auto
  moreover have "entry ?m root q = entry m0 root q" if "path_ok q" "q \<noteq> []" "length q \<le> 4" "(hd q < 256) \<noteq> lo" for q
    using E [OF that(1-3)] D(9) [OF that] t(4) that(4) by auto
  ultimately have "map_inv avail ks lo root m0 p0 phys user rw L' p n ?s"
    using D(1,4,5) unfolding map_inv_def by (simp add: W fresh_frames_def)
  then show ?thesis
    using vread_entry(2) [OF D(1) rec t(1-3), of g] W E by (intro exI [of _ ?s]) simp
qed

section \<open>The steps\<close>

lemma walk_prefix_None: "walk mem root p = None \<Longrightarrow> prefix p q \<Longrightarrow> walk mem root q = None"
  by (auto simp: prefix_def walk_append)

lemma map_inv_lock:
  assumes inv: "map_inv avail ks lo root m0 p0 phys user rw L p n s"
    and t: "path_ok (t @ [i])" "length t \<le> 3" "walk (vs_mem s) root t = Some f" "(hd (t @ [i]) < 256) = lo" and L: "t @ [i] \<notin> L"
  shows "\<exists>s'. lock_entry (table_address t) i s = Inr s' \<and>
    map_inv avail ks lo root m0 p0 phys user rw (insert (t @ [i]) L) p n s' \<and>
    walk (vs_mem s') = walk (vs_mem s) \<and> vs_mem s' f i = e_put 9 True (vs_mem s f i) \<and>
    (\<forall>h j. h \<noteq> f \<or> j \<noteq> i \<longrightarrow> vs_mem s' h j = vs_mem s h j)"
proof -
  note D = map_invD [OF inv]
  have rec: "recursive (vs_mem s) root" using D(2) by (simp add: vas_ok_def)
  have "\<not> bit (vs_mem s f i) 9" using D(3) [of "t @ [i]" "vs_mem s f i"] t L by simp
  moreover note map_inv_update [OF inv t, of "e_put 9 True" "insert (t @ [i]) L"]
  ultimately show ?thesis
    by (fastforce simp: lock_entry_def vread_entry(1) [OF D(1) rec t(1-3)] flags_ok_def e_user_def e_read_write_def)
qed

lemma map_inv_unlock:
  assumes inv: "map_inv avail ks lo root m0 p0 phys user rw (insert (t @ [i]) L) p n s"
    and t: "path_ok (t @ [i])" "length t \<le> 3" "walk (vs_mem s) root t = Some f" "(hd (t @ [i]) < 256) = lo" and L: "t @ [i] \<notin> L"
  shows "\<exists>s'. unlock_entry (table_address t) i s = Inr s' \<and> map_inv avail ks lo root m0 p0 phys user rw L p n s' \<and>
    walk (vs_mem s') = walk (vs_mem s) \<and> (\<forall>q. path_ok q \<longrightarrow> q \<noteq> [] \<longrightarrow> length q \<le> length t \<longrightarrow>
       entry (vs_mem s') root q = entry (vs_mem s) root q)"
proof -
  from map_inv_update [OF inv t, of "e_put 9 False" L] L obtain s' where
    s': "unlock_entry (table_address t) i s = Inr s'" "map_inv avail ks lo root m0 p0 phys user rw L p n s'"
    "walk (vs_mem s') = walk (vs_mem s)"
    "\<forall>q. path_ok q \<longrightarrow> q \<noteq> [] \<longrightarrow> length q \<le> 4 \<longrightarrow> q \<noteq> t @ [i] \<longrightarrow> entry (vs_mem s') root q = entry (vs_mem s) root q"
    by (auto simp: unlock_entry_def flags_ok_def e_user_def e_read_write_def)
  have "entry (vs_mem s') root q = entry (vs_mem s) root q" if "path_ok q" "q \<noteq> []" "length q \<le> length t" for q
  proof -
    have "q \<noteq> t @ [i]" "length q \<le> 4" using that(3) t(2) by auto
    with s'(4) that show ?thesis by blast
  qed
  with s'(1-3) show ?thesis by blast
qed

text \<open>A fresh table below an absent entry.\<close>

lemma entry_new_table:
  fixes mem root t f i e g
  defines "mem' \<equiv> (set_entry mem f i e)(g := (\<lambda>_. 0))"
  assumes ok: "vas_ok mem root" and t: "path_ok (t @ [i])" "length t \<le> 2" "walk mem root t = Some f"
    and absent: "\<not> e_present (mem f i)" and e: "e_present e" "e_frame e = g"
    and fresh: "\<forall>p. path_ok p \<longrightarrow> length p \<le> 3 \<longrightarrow> walk mem root p \<noteq> Some g"
    and q: "path_ok q" "q \<noteq> []" "length q \<le> 4"
  shows "entry mem' root q = (if q = t @ [i] then Some e else if butlast q = t @ [i] then Some 0 else entry mem root q)"
proof -
  have sep: "separate mem root" using ok by (simp add: vas_ok_def)
  obtain p j where pj: "q = p @ [j]" using q(2) by (cases q rule: rev_cases) auto
  with q have p: "path_ok p" "length p \<le> 3" by auto
  have W: "walk mem' root p = (if p = t @ [i] then Some g else walk mem root p)"
    using walk_new_table(1) [OF ok t absent e fresh p(1)] p(2) by (simp add: mem'_def)
  show ?thesis
  proof (cases "p = t @ [i]")
    case True
    then have "walk mem' root p = Some g" using W by simp
    then have "entry mem' root q = Some 0" unfolding pj entry_snoc by (simp add: mem'_def)
    moreover have "butlast q = t @ [i]" "q \<noteq> t @ [i]" using pj True by (simp_all only: butlast_snoc) simp
    ultimately show ?thesis by (simp only: if_True if_False refl)
  next
    case False
    show ?thesis
    proof (cases "walk mem root p")
      case (Some h)
      then have "h \<noteq> g" using fresh p by auto
      moreover have "h = f \<longleftrightarrow> p = t" using Some t separateD [OF sep p(1) _ p(2), of t] by auto
      ultimately show ?thesis using W Some False pj by (auto simp: mem'_def)
    next
      case None
      with W False pj t(3) show ?thesis by auto
    qed
  qed
qed

lemma set_entry_recursive:
  assumes "vas_ok mem root" "path_ok (t @ [i])" "length t \<le> 3" "walk mem root t = Some f"
  shows "recursive (set_entry mem f i e) root"
proof -
  have "f \<noteq> root \<or> i \<noteq> 256"
  proof (rule ccontr)
    assume "\<not> (f \<noteq> root \<or> i \<noteq> 256)"
    with assms separateD [of mem root t "[]" root] have "t = []" "i = 256" by (auto simp: vas_ok_def)
    with assms(2) show False by (simp add: path_ok_def)
  qed
  with assms(1) show ?thesis by (auto simp: vas_ok_def recursive_def)
qed

context frame_supply
begin

lemma map_inv_new_table:
  assumes inv: "map_inv avail ks lo root m0 p0 phys user rw L p (Suc n) s"
    and t: "path_ok (t @ [i])" "length t \<le> 2" "walk (vs_mem s) root t = Some f" "(hd (t @ [i]) < 256) = lo"
    and absent: "\<not> e_present (vs_mem s f i)" and L: "\<And>j. t @ [i, j] \<notin> L"
  shows "\<exists>g s1 s2 s'. pop_frame pop s = Inr (g, s1) \<and> vupdate (table_address t) i (e_assign g) s1 = Inr s2 \<and>
    vzero (table_address (t @ [i])) s2 = Inr s' \<and> map_inv avail ks lo root m0 p0 phys user rw L p n s' \<and>
    (\<forall>q. path_ok q \<longrightarrow> length q \<le> 4 \<longrightarrow>
       walk (vs_mem s') root q = (if q = t @ [i] then Some g else walk (vs_mem s) root q)) \<and>
    (\<forall>q. path_ok q \<longrightarrow> q \<noteq> [] \<longrightarrow> length q \<le> length t \<longrightarrow> entry (vs_mem s') root q = entry (vs_mem s) root q)"
proof -
  note D = map_invD [OF inv]
  from D(4) obtain fs0 where fs0: "avail (vs_supply s) fs0" "Suc n \<le> length fs0" "fresh_frames (vs_mem s) root (fs0 @ ks)"
    by blast
  then obtain g fs where fs: "fs0 = g # fs" by (cases fs0) auto
  from pop_law [OF fs0(1) [unfolded fs]] obtain u where u: "pop (vs_supply s) = Inr (g, u)" "avail u fs" by auto
  from fs0(3) fs have g: "e_frame g = g" "\<forall>p. path_ok p \<longrightarrow> length p \<le> 3 \<longrightarrow> walk (vs_mem s) root p \<noteq> Some g"
    "g \<notin> set fs" "g \<notin> set ks" "fresh_frames (vs_mem s) root (fs @ ks)" by (auto simp: fresh_frames_def)
  let ?s1 = "s\<lparr>vs_supply := u\<rparr>" and ?e = "e_assign g (vs_mem s f i)"
  let ?m1 = "set_entry (vs_mem s) f i ?e"
  let ?m = "?m1(g := (\<lambda>_. 0))"
  have e: "e_present ?e" "e_frame ?e = g" using g(1) by simp_all
  have rec: "recursive (vs_mem s) root" and sep: "separate (vs_mem s) root" using D(2) by (auto simp: vas_ok_def)
  have pt: "path_ok t" "length t \<le> 3" using t by auto
  have step1: "vupdate (table_address t) i (e_assign g) ?s1 = Inr (?s1\<lparr>vs_mem := ?m1\<rparr>)"
    using vread_entry(2) [of ?s1 root t i f] D(1) rec t(1,3) pt(2) by simp
  have W1: "walk ?m1 root t = Some f"
    using walk_other [OF sep pt t(3) pt(1), of i ?e] t(2,3) by (simp add: prefix_def)
  have "walk ?m1 root (t @ [i]) = Some g" using W1 e by (simp add: walk_step)
  moreover have "\<forall>j\<in>set (t @ [i]). j < 512" using t(1) unfolding path_ok_def by blast
  ultimately have "translate ?m1 root (table_address (t @ [i])) = Some g"
    using translate_table_address [OF set_entry_recursive [OF D(2) t(1) pt(2) t(3)], of "t @ [i]" ?e] t(2) by simp
  then have step2: "vzero (table_address (t @ [i])) (?s1\<lparr>vs_mem := ?m1\<rparr>) = Inr (?s1\<lparr>vs_mem := ?m\<rparr>)"
    using D(1) by (simp add: vzero_def)
  note W = walk_new_table(1) [OF D(2) t(1-3) absent e g(2)]
  note E = entry_new_table [OF D(2) t(1-3) absent e g(2)]
  have none: "walk (vs_mem s) root (t @ [i]) = None" using t(3) absent by (simp add: walk_step)
  have "bit x 9 = (q \<in> L)" if q: "path_ok q" "q \<noteq> []" "length q \<le> 4" "entry ?m root q = Some x" for q x
  proof -
    have "q \<notin> L" if "butlast q = t @ [i]"
      using that L [of "last q"] append_butlast_last_id [OF q(2)] by (metis append.assoc append_Cons append_Nil)
    moreover have "bit (vs_mem s f i) 9 = (t @ [i] \<in> L)" using D(3) [of "t @ [i]"] t(1-3) by simp
    ultimately show ?thesis using q D(3) [of q x] E [OF q(1-3)] by (auto split: if_splits)
  qed
  moreover have "fresh_frames ?m root (fs @ ks)"
    using g W by (auto simp: fresh_frames_def)
  moreover have "walk ?m root q = walk (vs_mem s) root q" if "path_ok q" "length q = 4" for q
    using W [of q] that t(2) by auto
  moreover have "flags_ok user rw k x" if q: "path_ok q" "length q = 4" "p0 \<le> path_number q" "path_number q < p"
      "0 < k" "k \<le> 4" "entry ?m root (take k q) = Some x" for q k x
  proof -
    have tk: "path_ok (take k q)" "take k q \<noteq> []" "length (take k q) \<le> 4" "prefix (take k q) q"
      using q by (auto simp: path_ok_def hd_take take_is_prefix dest: in_set_takeD)
    have "walk (vs_mem s) root q \<noteq> None" using D(5) q by simp
    then have no: "\<not> prefix (t @ [i]) q" using walk_prefix_None [OF none] by auto
    have "prefix (butlast (take k q)) q" using tk(4) by (metis prefix_order.trans prefixeq_butlast)
    with no tk(4) have "take k q \<noteq> t @ [i]" "butlast (take k q) \<noteq> t @ [i]" by auto
    with E [OF tk(1-3)] q D(6) [of q k x] show ?thesis by simp
  qed
  moreover have kept: "?m h = m0 h" if "h \<in> set ks" for h
    using D(7) [OF that] map_inv_kept [OF inv that pt] t(3) g(4) that by auto
  moreover have slot: "?m root 257 = m0 root 257"
    using path_not_recursive [OF sep t(1) pt(2) t(3)] D(8) g(2) [rule_format, of "[]"] by auto
  moreover have half: "entry ?m root q = entry m0 root q" if "path_ok q" "q \<noteq> []" "length q \<le> 4" "(hd q < 256) \<noteq> lo" for q
  proof -
    have "hd q = hd (butlast q)" if "butlast q \<noteq> []" using that by (cases q) auto
    then have "q \<noteq> t @ [i]" "butlast q \<noteq> t @ [i]" using that(2,4) t(4) by auto
    with E [OF that(1-3)] D(9) [OF that] show ?thesis by simp
  qed
  ultimately have "map_inv avail ks lo root m0 p0 phys user rw L p n (?s1\<lparr>vs_mem := ?m\<rparr>)"
    using D(1,5) walk_new_table(2) [OF D(2) t(1-3) absent e g(2)] u(2) fs0(2) fs kept slot half
    unfolding map_inv_def by (auto intro!: exI [of _ fs])
  moreover have "entry ?m root q = entry (vs_mem s) root q"
    if "path_ok q" "q \<noteq> []" "length q \<le> length t" for q
  proof -
    have "q \<noteq> t @ [i]" "butlast q \<noteq> t @ [i]" using that(3) by (auto dest: arg_cong [where f = length])
    with E [OF that(1,2)] that(3) t(2) show ?thesis by simp
  qed
  ultimately show ?thesis using step1 step2 W u(1)
    by (intro exI [of _ g] exI [of _ ?s1] exI [of _ "?s1\<lparr>vs_mem := ?m1\<rparr>"] exI [of _ "?s1\<lparr>vs_mem := ?m\<rparr>"])
      (simp add: pop_frame_def)
qed

text \<open>Entering a table of the range.\<close>

lemma map_enter_inv:
  assumes inv: "map_inv avail ks lo root m0 p0 phys user rw L p (Suc n) s"
    and t: "path_ok (t @ [i])" "length t \<le> 2" "walk (vs_mem s) root t = Some f" "(hd (t @ [i]) < 256) = lo"
    and L: "t @ [i] \<notin> L" "\<And>j. t @ [i, j] \<notin> L"
  shows "\<exists>s' g e. map_enter pop (table_address t) (table_address (t @ [i])) user
        (if length t = 2 then user else rw) i s = Inr s' \<and>
    map_inv avail ks lo root m0 p0 phys user rw (insert (t @ [i]) L) p n s' \<and>
    walk (vs_mem s') root (t @ [i]) = Some g \<and>
    entry (vs_mem s') root (t @ [i]) = Some e \<and> flags_ok user rw (Suc (length t)) e \<and>
    (\<forall>q. path_ok q \<longrightarrow> q \<noteq> [] \<longrightarrow> length q \<le> length t \<longrightarrow> walk (vs_mem s') root q = walk (vs_mem s) root q \<and>
      entry (vs_mem s') root q = entry (vs_mem s) root q)"
proof -
  let ?rw = "if length t = 2 then user else rw"
  let ?t = "table_address t"
  have l: "length t \<le> 3" using t(2) by simp
  from map_inv_lock [OF inv t(1) l t(3,4) L(1)] obtain s1 where s1: "lock_entry ?t i s = Inr s1"
    "map_inv avail ks lo root m0 p0 phys user rw (insert (t @ [i]) L) p (Suc n) s1" "walk (vs_mem s1) = walk (vs_mem s)"
    "\<forall>h j. h \<noteq> f \<or> j \<noteq> i \<longrightarrow> vs_mem s1 h j = vs_mem s h j" by blast
  note D1 = map_invD [OF s1(2)]
  have t1: "walk (vs_mem s1) root t = Some f" using s1(3) t(3) by simp
  have rec1: "recursive (vs_mem s1) root" and sep1: "separate (vs_mem s1) root" using D1(2) by (auto simp: vas_ok_def)
  have read: "vread ?t i s1 = Inr (vs_mem s1 f i)" using vread_entry(1) [OF D1(1) rec1 t(1) l t1] .
  have sep: "separate (vs_mem s) root" using map_invD(2) [OF inv] by (simp add: vas_ok_def)
  have short: "entry m root q = entry (vs_mem s) root q"
    if q: "path_ok q" "q \<noteq> []" "length q \<le> length t" and same: "walk m root = walk (vs_mem s) root"
      "\<forall>h j. h \<noteq> f \<or> j \<noteq> i \<longrightarrow> m h j = vs_mem s h j" for m q
  proof -
    obtain p j where pj: "q = p @ [j]" using q(2) by (cases q rule: rev_cases) auto
    have "h \<noteq> f" if "walk (vs_mem s) root p = Some h" for h
      using separateD [OF sep, of p t f] that t(1,3) q l pj by auto
    then show ?thesis using same pj by (auto split: option.splits)
  qed
  have "\<exists>s2 g. (if \<not> e_present (vs_mem s1 f i)
            then rbind (pop_frame pop s1) (\<lambda>(f, s). rbind (vupdate ?t i (e_assign f) s) (vzero (table_address (t @ [i]))))
            else Inr s1) = Inr s2 \<and> map_inv avail ks lo root m0 p0 phys user rw (insert (t @ [i]) L) p n s2 \<and>
      walk (vs_mem s2) root (t @ [i]) = Some g \<and> walk (vs_mem s2) root t = Some f \<and>
      (\<forall>q. path_ok q \<longrightarrow> q \<noteq> [] \<longrightarrow> length q \<le> length t \<longrightarrow> walk (vs_mem s2) root q = walk (vs_mem s) root q \<and>
        entry (vs_mem s2) root q = entry (vs_mem s) root q)"
  proof (cases "e_present (vs_mem s1 f i)")
    case True
    then have "walk (vs_mem s1) root (t @ [i]) = Some (e_frame (vs_mem s1 f i))" using t1 by (simp add: walk_step)
    with True s1 t1 short [of _ "vs_mem s1"] map_inv_less [OF s1(2), of n] show ?thesis
      by (intro exI [of _ s1] exI [of _ "e_frame (vs_mem s1 f i)"]) simp
  next
    case False
    have "t @ [i, j] \<notin> insert (t @ [i]) L" for j using L(2) by simp
    from map_inv_new_table [OF s1(2) t(1,2) t1 t(4) False this] obtain g s2 s3 s' where
      n: "pop_frame pop s1 = Inr (g, s2)" "vupdate ?t i (e_assign g) s2 = Inr s3"
      "vzero (table_address (t @ [i])) s3 = Inr s'"
      "map_inv avail ks lo root m0 p0 phys user rw (insert (t @ [i]) L) p n s'"
      "\<forall>q. path_ok q \<longrightarrow> length q \<le> 4 \<longrightarrow>
         walk (vs_mem s') root q = (if q = t @ [i] then Some g else walk (vs_mem s1) root q)"
      "\<forall>q. path_ok q \<longrightarrow> q \<noteq> [] \<longrightarrow> length q \<le> length t \<longrightarrow> entry (vs_mem s') root q = entry (vs_mem s1) root q"
      by blast
    have "walk (vs_mem s') root (t @ [i]) = Some g" using n(5) t(1,2) by simp
    moreover have "walk (vs_mem s') root q = walk (vs_mem s) root q \<and> entry (vs_mem s') root q = entry (vs_mem s) root q"
      if "path_ok q" "q \<noteq> []" "length q \<le> length t" for q
    proof -
      have "q \<noteq> t @ [i]" "length q \<le> 4" using that(3) t(2) by auto
      with n(5,6) that s1(3,4) short [of q "vs_mem s1"] show ?thesis by simp
    qed
    moreover have "walk (vs_mem s') root t = Some f"
      using n(5) [rule_format, of t] t t1 by simp
    ultimately show ?thesis using n(1-4) False by (intro exI [of _ s'] exI [of _ g]) simp
  qed
  then obtain s2 g where s2: "(if \<not> e_present (vs_mem s1 f i)
            then rbind (pop_frame pop s1) (\<lambda>(f, s). rbind (vupdate ?t i (e_assign f) s) (vzero (table_address (t @ [i]))))
            else Inr s1) = Inr s2" "map_inv avail ks lo root m0 p0 phys user rw (insert (t @ [i]) L) p n s2"
    "walk (vs_mem s2) root (t @ [i]) = Some g" "walk (vs_mem s2) root t = Some f"
    "\<forall>q. path_ok q \<longrightarrow> q \<noteq> [] \<longrightarrow> length q \<le> length t \<longrightarrow> walk (vs_mem s2) root q = walk (vs_mem s) root q \<and>
        entry (vs_mem s2) root q = entry (vs_mem s) root q" by blast
  have locked: "bit (vs_mem s2 f i) 9"
    using map_invD(3) [OF s2(2), of "t @ [i]" "vs_mem s2 f i"] t(1,2) s2(4) by simp
  from map_inv_update [OF s2(2) t(1) l s2(4) t(4), of "e_put 2 user" "insert (t @ [i]) L"] locked obtain s3 where
    s3: "vupdate ?t i (e_put 2 user) s2 = Inr s3"
    "map_inv avail ks lo root m0 p0 phys user rw (insert (t @ [i]) L) p n s3" "walk (vs_mem s3) = walk (vs_mem s2)"
    "vs_mem s3 f i = e_put 2 user (vs_mem s2 f i)" "\<forall>h j. h \<noteq> f \<or> j \<noteq> i \<longrightarrow> vs_mem s3 h j = vs_mem s2 h j"
    by (auto simp: flags_ok_def e_user_def e_read_write_def)
  have t3: "walk (vs_mem s3) root t = Some f" using s3(3) s2(4) by simp
  from map_inv_update [OF s3(2) t(1) l t3 t(4), of "e_put 1 ?rw" "insert (t @ [i]) L"] locked t(2) s3(4) obtain s4 where
    s4: "vupdate ?t i (e_put 1 ?rw) s3 = Inr s4"
    "map_inv avail ks lo root m0 p0 phys user rw (insert (t @ [i]) L) p n s4" "walk (vs_mem s4) = walk (vs_mem s3)"
    "vs_mem s4 f i = e_put 1 ?rw (vs_mem s3 f i)" "\<forall>h j. h \<noteq> f \<or> j \<noteq> i \<longrightarrow> vs_mem s4 h j = vs_mem s3 h j"
    by (auto simp: flags_ok_def e_user_def e_read_write_def)
  have run: "map_enter pop ?t (table_address (t @ [i])) user ?rw i s = Inr s4"
    unfolding map_enter_def s1(1) rbind.simps read s2(1) s3(1) s4(1) ..
  have "entry (vs_mem s4) root q = entry (vs_mem s) root q" if q: "path_ok q" "q \<noteq> []" "length q \<le> length t" for q
  proof -
    obtain p j where pj: "q = p @ [j]" using q(2) by (cases q rule: rev_cases) auto
    have pl: "path_ok p" "length p < length t" using q pj by auto
    have "h \<noteq> f" if "walk (vs_mem s2) root p = Some h" for h
    proof
      assume "h = f"
      moreover have "separate (vs_mem s2) root" using map_invD(2) [OF s2(2)] by (simp add: vas_ok_def)
      ultimately have "p = t" using separateD [of "vs_mem s2" root p t f] that s2(4) t(1) pl l by auto
      with pl(2) show False by simp
    qed
    then have "entry (vs_mem s4) root q = entry (vs_mem s2) root q"
      using s3(3,5) s4(3,5) pj by (auto split: option.splits)
    with s2(5) q show ?thesis by simp
  qed
  moreover have "entry (vs_mem s4) root (t @ [i]) = Some (e_put 1 ?rw (e_put 2 user (vs_mem s2 f i)))"
    using s3(3,4) s4(3,4) s2(4) by simp
  moreover have "flags_ok user rw (Suc (length t)) (e_put 1 ?rw (e_put 2 user (vs_mem s2 f i)))"
    by (auto simp: flags_ok_def e_user_def e_read_write_def)
  ultimately show ?thesis using run s4(2,3) s3(3) s2(3,5)
    by - (rule exI [of _ s4], rule exI [of _ g], rule exI [of _ "e_put 1 ?rw (e_put 2 user (vs_mem s2 f i))"], auto)
qed

end

section \<open>The innermost loop\<close>

lemma leaf_update:
  assumes "vs_cr3 s = root" "vas_ok (vs_mem s) root" "path_ok (t @ [i])" "length t = 3" "walk (vs_mem s) root t = Some f"
  shows "vread (table_address t) i s = Inr (vs_mem s f i)"
    "vupdate (table_address t) i g s = Inr (s\<lparr>vs_mem := set_entry (vs_mem s) f i (g (vs_mem s f i))\<rparr>)"
    "vas_ok (set_entry (vs_mem s) f i e) root" "walk (set_entry (vs_mem s) f i e) root t = Some f"
proof -
  have rec: "recursive (vs_mem s) root" and l: "length t \<le> 3" using assms by (auto simp: vas_ok_def)
  show "vread (table_address t) i s = Inr (vs_mem s f i)"
    "vupdate (table_address t) i g s = Inr (s\<lparr>vs_mem := set_entry (vs_mem s) f i (g (vs_mem s f i))\<rparr>)"
    using vread_entry [OF assms(1) rec assms(3) l assms(5)] by simp_all
  show "vas_ok (set_entry (vs_mem s) f i e) root" by (rule walk_leaf(2) [OF assms(2-5)])
  have "t \<noteq> t @ [i]" "path_ok t" using assms(3) by auto
  then show "walk (set_entry (vs_mem s) f i e) root t = Some f"
    using walk_leaf(1) [OF assms(2-5), of t e] l assms(5) by simp
qed

lemma path_number_inj:
  assumes "path_ok p" "path_ok q" "length p = 4" "length q = 4" "path_number p = path_number q"
  shows "p = q"
proof -
  have "\<exists>a b c d. r = [a, b, c, d]" if "length r = 4" for r :: "nat list"
    using that by (cases r; cases "tl r"; cases "tl (tl r)"; cases "tl (tl (tl r))") auto
  with assms(3,4) obtain a b c d a' b' c' d' where "p = [a, b, c, d]" "q = [a', b', c', d']" by metis
  with assms(1,2,5) page_number_inj [of "(a, b, c, d)" "(a', b', c', d')"] show ?thesis
    by (simp add: path_ok_def)
qed

lemma map_inv_leaf:
  fixes t i phys p0
  defines "q0 \<equiv> t @ [i]"
  defines "p \<equiv> path_number q0"
  defines "ph \<equiv> phys + 4096 * of_nat (p - p0)"
  assumes inv: "map_inv avail ks lo root m0 p0 phys user rw L p n s"
    and t: "path_ok (t @ [i])" "length t = 3" "walk (vs_mem s) root t = Some f" and lo: "(hd (t @ [i]) < 256) = lo" and L: "q0 \<notin> L"
    and p0: "p0 \<le> p" and free: "walk m0 root q0 = None \<or> walk m0 root q0 = Some ph"
    and upper: "\<And>k e. 0 < k \<Longrightarrow> k \<le> 3 \<Longrightarrow> entry (vs_mem s) root (take k t) = Some e \<Longrightarrow> flags_ok user rw k e"
  shows "\<exists>s'. map_leaf (table_address t) user rw i (s, ph) = Inr (s', ph + 4096) \<and>
    map_inv avail ks lo root m0 p0 phys user rw L (Suc p) n s' \<and>
    (\<forall>q. path_ok q \<longrightarrow> length q \<le> 3 \<longrightarrow> walk (vs_mem s') root q = walk (vs_mem s) root q \<and>
      (q \<noteq> [] \<longrightarrow> entry (vs_mem s') root q = entry (vs_mem s) root q))"
proof -
  note D = map_invD [OF inv]
  let ?t = "table_address t"
  let ?old = "vs_mem s f i"
  let ?new = "e_put 9 False (e_put 1 rw (e_put 2 user (e_assign ph (e_put 9 True ?old))))"
  let ?st = "\<lambda>e. s\<lparr>vs_mem := set_entry (vs_mem s) f i e\<rparr>"
  have q0: "path_ok q0" "length q0 = 4" "q0 \<noteq> []" using t by (auto simp: q0_def)
  have l: "length t \<le> 3" using t(2) by simp
  have sep: "separate (vs_mem s) root" using D(2) by (simp add: vas_ok_def)
  have st: "vs_cr3 (?st e) = root" "vas_ok (vs_mem (?st e)) root" "walk (vs_mem (?st e)) root t = Some f" for e
    using leaf_update(3,4) [OF D(1,2) t, of e] D(1) by simp_all
  have acc: "vread ?t i (?st e) = Inr e" "vupdate ?t i g (?st e) = Inr (?st (g e))" for e g
    using leaf_update(1) [OF st(1) [of e] st(2) [of e] t(1,2) st(3) [of e]]
      leaf_update(2) [OF st(1) [of e] st(2) [of e] t(1,2) st(3) [of e], of g] by simp_all
  have e0: "entry (vs_mem s) root q0 = Some ?old" using t(3) by (simp add: q0_def)
  have nb: "\<not> bit ?old 9" using D(3) [OF q0(1,3) _ e0] q0(2) L by simp
  have "walk (vs_mem s) root q0 = walk m0 root q0" using D(5) [OF q0(1,2)] by (simp add: p_def)
  then have "\<not> (e_present ?old \<and> ph \<noteq> e_frame ?old)"
    using free walk_entry [OF q0(3), of "vs_mem s" root] e0 by (auto split: if_splits)
  moreover have "lock_entry ?t i s = Inr (?st (e_put 9 True ?old))"
    using leaf_update(1,2) [OF D(1,2) t] nb by (simp add: lock_entry_def)
  ultimately have run: "map_leaf ?t user rw i (s, ph) = Inr (?st ?new, ph + 4096)"
    by (simp add: map_leaf_def acc unlock_entry_def)
  let ?m = "set_entry (vs_mem s) f i ?new"
  have W: "walk ?m root q = (if q = q0 then Some (e_frame ph) else walk (vs_mem s) root q)"
    if "path_ok q" "length q \<le> 4" for q
    using walk_leaf(1) [OF D(2) t that, of ?new] by (simp add: q0_def)
  have E: "entry ?m root q = (if q = q0 then Some ?new else entry (vs_mem s) root q)"
    if q: "path_ok q" "q \<noteq> []" "length q \<le> 4" for q
    unfolding q0_def
  proof (rule entry_set [OF sep _ l t(3) q])
    show "path_ok t" using t(1) by simp
    obtain r j where "q = r @ [j]" using q(2) by (cases q rule: rev_cases) auto
    then have "path_ok (butlast q)" "length (butlast q) \<le> 3" "butlast q \<noteq> q0"
      using q q0(2) by auto
    then show "walk ?m root (butlast q) = walk (vs_mem s) root (butlast q)" using W [of "butlast q"] by simp
  qed
  have "bit e 9 = (q \<in> L)" if q: "path_ok q" "q \<noteq> []" "length q \<le> 4" "entry ?m root q = Some e" for q e
    using q E [OF q(1-3)] D(3) [OF q(1-3)] L by (auto split: if_splits)
  moreover have "\<exists>fs. avail (vs_supply s) fs \<and> n \<le> length fs \<and> fresh_frames ?m root (fs @ ks)"
  proof -
    from D(4) obtain fs where "avail (vs_supply s) fs" "n \<le> length fs" "fresh_frames (vs_mem s) root (fs @ ks)" by blast
    moreover have "walk ?m root q = walk (vs_mem s) root q" if "path_ok q" "length q \<le> 3" for q
      using W [of q] that q0(2) by auto
    ultimately show ?thesis by (auto simp: fresh_frames_def)
  qed
  moreover have "walk ?m root q =
      (if p0 \<le> path_number q \<and> path_number q < Suc p then Some (frame_for phys p0 q) else walk m0 root q)"
    if q: "path_ok q" "length q = 4" for q
  proof (cases "q = q0")
    case True
    with W [OF q(1)] q(2) p0 show ?thesis by (simp add: p_def frame_for_def ph_def)
  next
    case False
    then have "path_number q \<noteq> p" using path_number_inj [OF q(1) q0(1) q(2) q0(2)] by (auto simp: p_def)
    with False W [OF q(1)] q D(5) [OF q] show ?thesis by (auto simp: less_Suc_eq)
  qed
  moreover have "flags_ok user rw k e" if q: "path_ok q" "length q = 4" "p0 \<le> path_number q" "path_number q < Suc p"
      "0 < k" "k \<le> 4" "entry ?m root (take k q) = Some e" for q k e
  proof -
    have tk: "path_ok (take k q)" "take k q \<noteq> []" "length (take k q) = k"
      using q by (auto simp: path_ok_def hd_take dest: in_set_takeD)
    have fin: "flags_ok user rw 4 ?new" by (auto simp: flags_ok_def e_user_def e_read_write_def)
    show ?thesis
    proof (cases "q = q0")
      case True
      show ?thesis
      proof (cases "k = 4")
        case True
        with \<open>q = q0\<close> E [OF tk(1,2)] q tk(3) fin show ?thesis by simp
      next
        case False
        with q have k: "k \<le> 3" by simp
        have "take k q = take k t" using True t(2) k by (simp add: q0_def)
        moreover have "length (take k q) \<noteq> length q0" using tk(3) k q0(2) by simp
        then have "take k q \<noteq> q0" by metis
        ultimately have "take k q = take k t" "take k q \<noteq> q0" by blast+
        with E [OF tk(1,2)] q k upper [of k e] tk(3) show ?thesis by simp
      qed
    next
      case False
      then have "path_number q \<noteq> p" using path_number_inj [OF q(1) q0(1) q(2) q0(2)] by (auto simp: p_def)
      then have lt: "path_number q < p" using q(4) by simp
      have "take k q \<noteq> q0" using False q tk(3) q0(2) by auto
      with E [OF tk(1,2)] tk(3) q D(6) [OF q(1,2,3) lt q(5,6)] show ?thesis by simp
    qed
  qed
  moreover have kept: "?m h = m0 h" if "h \<in> set ks" for h
    using D(7) [OF that] map_inv_kept [OF inv that _ l] t(1,3) by auto
  moreover have slot: "?m root 257 = m0 root 257" using path_not_recursive [OF sep t(1) l t(3)] D(8) by auto
  moreover have half: "entry ?m root q = entry m0 root q" if "path_ok q" "q \<noteq> []" "length q \<le> 4" "(hd q < 256) \<noteq> lo" for q
    using E [OF that(1-3)] D(9) [OF that] lo that(4) by (auto simp: q0_def)
  ultimately have "map_inv avail ks lo root m0 p0 phys user rw L (Suc p) n (?st ?new)"
    using st(1,2) [of ?new] kept slot half unfolding map_inv_def by simp
  moreover have "walk ?m root q = walk (vs_mem s) root q \<and> (q \<noteq> [] \<longrightarrow> entry ?m root q = entry (vs_mem s) root q)"
    if "path_ok q" "length q \<le> 3" for q
    using W [of q] E [of q] that q0(2) by auto
  ultimately show ?thesis using run by (intro exI [of _ "?st ?new"]) simp
qed

end
