(* ===== verification/Paging_Map_Range.thy ===== *)
theory Paging_Map_Range
  imports Paging_Map
begin

text \<open>
  \<open>map\<close> on a whole range: the steps of \<open>Paging_Map\<close> put together by the invariant rule of
  \<open>Page_Loop\<close>, with the number of frames it needs, and the theorem about the kernel's \<open>map\<close> on the
  physical memory manager.
\<close>

section \<open>Frames needed\<close>

text \<open>The tables of \<open>W\<close> pages each that the pages from \<open>p\<close> up to \<open>pe\<close> touch.\<close>

definition tables_left :: "nat \<Rightarrow> nat \<Rightarrow> nat \<Rightarrow> nat" where
  "tables_left W pe p = (if p < pe then Suc ((pe - 1) div W) - p div W else 0)"

definition tables_touched :: "nat \<Rightarrow> nat \<Rightarrow> nat" where
  "tables_touched p pe = tables_left (512 * 512 * 512) pe p + tables_left (512 * 512) pe p + tables_left 512 pe p"

lemma slot_eq: "j * W \<le> p \<Longrightarrow> p < Suc j * W \<Longrightarrow> p div W = (j :: nat)"
  by (metis div_nat_eqI mult.commute mult_Suc add.commute)

lemma tables_left_enter:
  "p < pe \<Longrightarrow> j * W \<le> p \<Longrightarrow> p < Suc j * W \<Longrightarrow> tables_left W pe p = Suc ((pe - 1) div W - j)"
proof -
  assume A: "p < pe" "j * W \<le> p" "p < Suc j * W"
  then have "p div W = j" by (intro slot_eq)
  moreover from this have "j \<le> (pe - 1) div W" using A(1) by (auto intro: div_le_mono)
  ultimately show ?thesis using A(1) by (simp add: tables_left_def Suc_diff_le)
qed

lemma tables_left_leave:
  "0 < W \<Longrightarrow> p = pe \<or> p = Suc j * W \<Longrightarrow> tables_left W pe p \<le> (pe - 1) div W - j"
  by (auto simp: tables_left_def)

section \<open>The loops\<close>

declare walk.simps(2) [simp del]

definition unlocked :: "frames \<Rightarrow> u64 \<Rightarrow> bool" where
  "unlocked mem root \<longleftrightarrow> (\<forall>q e. path_ok q \<longrightarrow> q \<noteq> [] \<longrightarrow> length q \<le> 4 \<longrightarrow> entry mem root q = Some e \<longrightarrow> \<not> bit e 9)"

text \<open>A table entered, with the flags of the request on its entry.\<close>

definition entered :: "frames \<Rightarrow> u64 \<Rightarrow> bool \<Rightarrow> bool \<Rightarrow> nat list \<Rightarrow> bool" where
  "entered mem root user rw q \<longleftrightarrow> walk mem root q \<noteq> None \<and>
     (\<exists>e. entry mem root q = Some e \<and> flags_ok user rw (length q) e)"

lemma entered_cong:
  "entered mem root user rw q \<Longrightarrow> walk mem' root q = walk mem root q \<Longrightarrow> entry mem' root q = entry mem root q \<Longrightarrow>
    entered mem' root user rw q"
  by (simp add: entered_def)

context frame_supply
begin

lemma page_loop_maps:
  fixes root m0 phys user rw and k :: nat
  assumes p0: "pos_ok (a0, b0, c0, d0)" "p0 = page_number (a0, b0, c0, d0)" and pe: "pos_ok e" "p0 \<le> page_number e"
    and region: "page_number e \<le> 256 * (512 * 512 * 512) \<or> 258 * (512 * 512 * 512) \<le> p0"
    and lo: "lo = (p0 < 256 * (512 * 512 * 512))"
    and free: "\<And>q. path_ok q \<Longrightarrow> length q = 4 \<Longrightarrow> p0 \<le> path_number q \<Longrightarrow> path_number q < page_number e \<Longrightarrow>
      walk m0 root q = None \<or> walk m0 root q = Some (phys + 4096 * of_nat (path_number q - p0))"
    and inv: "map_inv avail ks lo root m0 p0 phys user rw {} p0 (tables_touched p0 (page_number e) + k) s"
  shows "\<exists>s' ph. page_loop
      (\<lambda>i4. on_first (map_enter pop (gen_pml4 256) (gen_pdpt 256 i4) user rw i4))
      (\<lambda>i4 i3. on_first (map_enter pop (gen_pdpt 256 i4) (gen_pd 256 i4 i3) user rw i3))
      (\<lambda>i4 i3 i2. on_first (map_enter pop (gen_pd 256 i4 i3) (gen_pt 256 i4 i3 i2) user user i2))
      (\<lambda>i4 i3 i2 i1. map_leaf (gen_pt 256 i4 i3 i2) user rw i1)
      (\<lambda>i4. on_first (unlock_entry (gen_pml4 256) i4))
      (\<lambda>i4 i3. on_first (unlock_entry (gen_pdpt 256 i4) i3))
      (\<lambda>i4 i3 i2. on_first (unlock_entry (gen_pd 256 i4 i3) i2))
      (a0, b0, c0, d0) e (s, phys) = Inr (s', ph) \<and>
    map_inv avail ks lo root m0 p0 phys user rw {} (page_number e) k s'"
proof -
  let ?pe = "page_number e"
  let ?W4 = "512 * 512 * 512 :: nat" and ?W3 = "512 * 512 :: nat"
  let ?inv = "map_inv avail ks lo root m0 p0 phys user rw"
  let ?ent = "\<lambda>s. entered (vs_mem s) root user rw"
  let ?at = "\<lambda>p ph. p0 \<le> p \<and> ph = phys + 4096 * of_nat (p - p0)"
  let ?n4 = "\<lambda>a. (?pe - 1) div ?W4 - a + k" and ?n3 = "\<lambda>a b. (?pe - 1) div ?W3 - (a * 512 + b)"
  let ?n2 = "\<lambda>a b c. (?pe - 1) div 512 - ((a * 512 + b) * 512 + c)"
  let ?I0 = "\<lambda>p (s, ph). ?inv {} p (tables_touched p ?pe + k) s \<and> ?at p ph"
  let ?I4 = "\<lambda>a p (s, ph). ?inv {[a]} p (?n4 a + tables_left ?W3 ?pe p + tables_left 512 ?pe p) s \<and> ?at p ph \<and>
      path_ok [a] \<and> (a < 256) = lo \<and> ?ent s [a]"
  let ?I3 = "\<lambda>a b p (s, ph). ?inv {[a], [a, b]} p (?n4 a + ?n3 a b + tables_left 512 ?pe p) s \<and> ?at p ph \<and>
      path_ok [a, b] \<and> (a < 256) = lo \<and> ?ent s [a] \<and> ?ent s [a, b]"
  let ?I2 = "\<lambda>a b c p (s, ph). ?inv {[a], [a, b], [a, b, c]} p (?n4 a + ?n3 a b + ?n2 a b c) s \<and> ?at p ph \<and>
      path_ok [a, b, c] \<and> (a < 256) = lo \<and> ?ent s [a] \<and> ?ent s [a, b] \<and> ?ent s [a, b, c]"
  have okc: "path_ok (a # t)" if "a < 512" "a \<noteq> 256" "a \<noteq> 257" "\<forall>i\<in>set t. i < 512" for a t
    using that by (simp add: path_ok_def)
  have "\<exists>s'. page_loop
      (\<lambda>i4. on_first (map_enter pop (gen_pml4 256) (gen_pdpt 256 i4) user rw i4))
      (\<lambda>i4 i3. on_first (map_enter pop (gen_pdpt 256 i4) (gen_pd 256 i4 i3) user rw i3))
      (\<lambda>i4 i3 i2. on_first (map_enter pop (gen_pd 256 i4 i3) (gen_pt 256 i4 i3 i2) user user i2))
      (\<lambda>i4 i3 i2 i1. map_leaf (gen_pt 256 i4 i3 i2) user rw i1)
      (\<lambda>i4. on_first (unlock_entry (gen_pml4 256) i4))
      (\<lambda>i4 i3. on_first (unlock_entry (gen_pdpt 256 i4) i3))
      (\<lambda>i4 i3 i2. on_first (unlock_entry (gen_pd 256 i4 i3) i2))
      (a0, b0, c0, d0) e (s, phys) = Inr s' \<and> ?I0 ?pe s'"
  proof (rule page_loop_inv [where ?I0.0 = ?I0 and ?I4.0 = ?I4 and ?I3.0 = ?I3 and ?I2.0 = ?I2], goal_cases)
    case (3 a p sp)
    obtain s ph where sp: "sp = (s, ph)" by (cases sp)
    with 3 have J: "?inv {} p (tables_touched p ?pe + k) s" "?at p ph" by auto
    have n: "tables_touched p ?pe + k = Suc (?n4 a + tables_left ?W3 ?pe p + tables_left 512 ?pe p)"
      using tables_left_enter [of p ?pe a ?W4] 3 by (simp add: tables_touched_def mult.assoc)
    have a: "a \<noteq> 256" "a \<noteq> 257" using region J(2) 3(2-4) by auto
    have half: "(hd ([] @ [a]) < 256) = lo" using region lo J(2) 3(2-4) by auto
    have "path_ok ([] @ [a])" using okc [of a "[]"] a 3(1) by simp
    from map_enter_inv [OF J(1) [unfolded n] this _ _ half] okc [of a "[]"] a 3(1) J(2) half show ?case
      unfolding sp by (fastforce simp: on_first_def entered_def)
  next
    case (4 a b p sp)
    obtain s ph where sp: "sp = (s, ph)" by (cases sp)
    with 4 have J: "?inv {[a]} p (?n4 a + tables_left ?W3 ?pe p + tables_left 512 ?pe p) s" "?at p ph"
      "path_ok [a]" "?ent s [a]" and half: "(a < 256) = lo" by auto
    have n: "?n4 a + tables_left ?W3 ?pe p + tables_left 512 ?pe p = Suc (?n4 a + ?n3 a b + tables_left 512 ?pe p)"
      using tables_left_enter [of p ?pe "a * 512 + b" ?W3] 4 by (simp add: mult.assoc)
    obtain f where f: "walk (vs_mem s) root [a] = Some f" using J(4) by (auto simp: entered_def)
    have ok: "path_ok ([a] @ [b])" using J(3) 4(2) by (simp add: path_ok_def)
    from map_enter_inv [OF J(1) [unfolded n] ok _ f] half obtain s' g x where
      s': "map_enter pop (gen_pdpt 256 a) (gen_pd 256 a b) user rw b s = Inr s'"
      "?inv {[a, b], [a]} p (?n4 a + ?n3 a b + tables_left 512 ?pe p) s'"
      "walk (vs_mem s') root [a, b] = Some g" "entry (vs_mem s') root [a, b] = Some x" "flags_ok user rw 2 x"
      "\<forall>q. path_ok q \<longrightarrow> q \<noteq> [] \<longrightarrow> length q \<le> 1 \<longrightarrow> walk (vs_mem s') root q = walk (vs_mem s) root q \<and>
        entry (vs_mem s') root q = entry (vs_mem s) root q"
      by (auto simp: numeral_2_eq_2)
    have "?ent s' [a]" using s'(6) J(3) by (intro entered_cong [OF J(4)]) simp_all
    moreover have "?ent s' [a, b]" using s'(3-5) by (simp add: entered_def numeral_2_eq_2)
    ultimately show ?case using s'(1,2) J(2) ok half unfolding sp by (simp add: on_first_def insert_commute)
  next
    case (5 a b c p sp)
    obtain s ph where sp: "sp = (s, ph)" by (cases sp)
    with 5 have J: "?inv {[a], [a, b]} p (?n4 a + ?n3 a b + tables_left 512 ?pe p) s" "?at p ph"
      "path_ok [a, b]" "?ent s [a]" "?ent s [a, b]" and half: "(a < 256) = lo" by auto
    have n: "?n4 a + ?n3 a b + tables_left 512 ?pe p = Suc (?n4 a + ?n3 a b + ?n2 a b c)"
      using tables_left_enter [of p ?pe "(a * 512 + b) * 512 + c" 512] 5 by simp
    obtain f where f: "walk (vs_mem s) root [a, b] = Some f" using J(5) by (auto simp: entered_def)
    have ok: "path_ok ([a, b] @ [c])" using J(3) 5(3) by (simp add: path_ok_def)
    from map_enter_inv [OF J(1) [unfolded n] ok _ f] half obtain s' g x where
      s': "map_enter pop (gen_pd 256 a b) (gen_pt 256 a b c) user user c s = Inr s'"
      "?inv {[a, b, c], [a], [a, b]} p (?n4 a + ?n3 a b + ?n2 a b c) s'"
      "walk (vs_mem s') root [a, b, c] = Some g" "entry (vs_mem s') root [a, b, c] = Some x" "flags_ok user rw 3 x"
      "\<forall>q. path_ok q \<longrightarrow> q \<noteq> [] \<longrightarrow> length q \<le> 2 \<longrightarrow> walk (vs_mem s') root q = walk (vs_mem s) root q \<and>
        entry (vs_mem s') root q = entry (vs_mem s) root q"
      by (auto simp: numeral_3_eq_3)
    have "path_ok [a]" using J(3) by (simp add: path_ok_def)
    then have "?ent s' [a]" "?ent s' [a, b]"
      using s'(6) J(3) by (intro entered_cong [OF J(4)] entered_cong [OF J(5)]; simp)+
    moreover have "?ent s' [a, b, c]" using s'(3-5) by (simp add: entered_def numeral_3_eq_3)
    ultimately show ?case using s'(1,2) J(2) ok half unfolding sp by (simp add: on_first_def insert_commute)
  next
    case (6 a b c d sp)
    let ?p = "page_number (a, b, c, d)"
    obtain s ph where sp: "sp = (s, ph)" by (cases sp)
    with 6 have J: "?inv {[a], [a, b], [a, b, c]} ?p (?n4 a + ?n3 a b + ?n2 a b c) s" "?at ?p ph"
      "path_ok [a, b, c]" "?ent s [a]" "?ent s [a, b]" "?ent s [a, b, c]" and half: "(a < 256) = lo" by auto
    obtain f where f: "walk (vs_mem s) root [a, b, c] = Some f" using J(6) by (auto simp: entered_def)
    have ok: "path_ok ([a, b, c] @ [d])" using J(3) 6(1) by (simp add: path_ok_def)
    have up: "flags_ok user rw k x" if "0 < k" "k \<le> 3" "entry (vs_mem s) root (take k [a, b, c]) = Some x" for k x
    proof -
      from that(1,2) consider "k = 1" | "k = 2" | "k = 3" by linarith
      then show ?thesis using J(4-6) that(3) by cases (auto simp: entered_def numeral_2_eq_2 numeral_3_eq_3)
    qed
    have pn: "path_number ([a, b, c] @ [d]) = ?p" by simp
    have fr: "walk m0 root ([a, b, c] @ [d]) = None \<or> walk m0 root ([a, b, c] @ [d]) = Some (phys + 4096 * of_nat (?p - p0))"
      using free [OF ok] J(2) 6(2) unfolding pn by simp
    have inv': "?inv {[a], [a, b], [a, b, c]} (path_number ([a, b, c] @ [d])) (?n4 a + ?n3 a b + ?n2 a b c) s"
      unfolding pn by (rule J(1))
    have hl: "(hd ([a, b, c] @ [d]) < 256) = lo" using half by simp
    have side: "length [a, b, c] = 3" "[a, b, c] @ [d] \<notin> {[a], [a, b], [a, b, c]}" by simp_all
    have le: "p0 \<le> path_number ([a, b, c] @ [d])" using J(2) unfolding pn by blast
    have ph: "ph = phys + 4096 * of_nat (?p - p0)" using J(2) by blast
    from map_inv_leaf [OF inv' ok side(1) f hl side(2) le fr [folded pn] up] obtain s' where
      s': "map_leaf (gen_pt 256 a b c) user rw d (s, ph) = Inr (s', ph + 4096)"
      "?inv {[a], [a, b], [a, b, c]} (Suc ?p) (?n4 a + ?n3 a b + ?n2 a b c) s'"
      "\<forall>q. path_ok q \<longrightarrow> length q \<le> 3 \<longrightarrow> walk (vs_mem s') root q = walk (vs_mem s) root q \<and>
        (q \<noteq> [] \<longrightarrow> entry (vs_mem s') root q = entry (vs_mem s) root q)"
      unfolding pn ph table_address.simps by blast
    have "path_ok [a]" "path_ok [a, b]" using J(3) by (auto simp: path_ok_def)
    then have "?ent s' [a]" "?ent s' [a, b]" "?ent s' [a, b, c]"
      using s'(3) J(3) by (intro entered_cong [OF J(4)] entered_cong [OF J(5)] entered_cong [OF J(6)]; simp)+
    moreover have "ph + 4096 = phys + 4096 * of_nat (Suc ?p - p0)"
      using J(2) by (simp add: Suc_diff_le algebra_simps del: page_number.simps)
    ultimately show ?case using s'(1,2) J(2,3) half unfolding sp by (simp del: page_number.simps)
  next
    case (7 a b c p sp)
    obtain s ph where sp: "sp = (s, ph)" by (cases sp)
    with 7 have J: "?inv {[a], [a, b], [a, b, c]} p (?n4 a + ?n3 a b + ?n2 a b c) s" "?at p ph"
      "path_ok [a, b, c]" "?ent s [a]" "?ent s [a, b]" and half: "(a < 256) = lo" by auto
    obtain f where f: "walk (vs_mem s) root [a, b] = Some f" using J(5) by (auto simp: entered_def)
    have ins: "?inv (insert ([a, b] @ [c]) {[a], [a, b]}) p (?n4 a + ?n3 a b + ?n2 a b c) s"
      using J(1) by (simp add: insert_commute)
    from map_inv_unlock [OF ins _ _ f] J(3) half obtain s' where
      s': "unlock_entry (gen_pd 256 a b) c s = Inr s'" "?inv {[a], [a, b]} p (?n4 a + ?n3 a b + ?n2 a b c) s'"
      "walk (vs_mem s') = walk (vs_mem s)" "\<forall>q. path_ok q \<longrightarrow> q \<noteq> [] \<longrightarrow> length q \<le> 2 \<longrightarrow>
       entry (vs_mem s') root q = entry (vs_mem s) root q" by (auto simp: numeral_2_eq_2)
    have ok: "path_ok [a]" "path_ok [a, b]" using J(3) by (auto simp: path_ok_def)
    then have "?ent s' [a]" "?ent s' [a, b]"
      using s'(3,4) by (intro entered_cong [OF J(4)] entered_cong [OF J(5)]; simp)+
    moreover have "tables_left 512 ?pe p \<le> ?n2 a b c" using 7(4) by (intro tables_left_leave) auto
    then have "?inv {[a], [a, b]} p (?n4 a + ?n3 a b + tables_left 512 ?pe p) s'"
      by (intro map_inv_less [OF s'(2)]) simp
    ultimately show ?case using s'(1) J(2) ok half unfolding sp by (simp add: on_first_def)
  next
    case (8 a b p sp)
    obtain s ph where sp: "sp = (s, ph)" by (cases sp)
    with 8 have J: "?inv {[a], [a, b]} p (?n4 a + ?n3 a b + tables_left 512 ?pe p) s" "?at p ph"
      "path_ok [a, b]" "?ent s [a]" and half: "(a < 256) = lo" by auto
    obtain f where f: "walk (vs_mem s) root [a] = Some f" using J(4) by (auto simp: entered_def)
    have ins: "?inv (insert ([a] @ [b]) {[a]}) p (?n4 a + ?n3 a b + tables_left 512 ?pe p) s"
      using J(1) by (simp add: insert_commute)
    from map_inv_unlock [OF ins _ _ f] J(3) half obtain s' where
      s': "unlock_entry (gen_pdpt 256 a) b s = Inr s'" "?inv {[a]} p (?n4 a + ?n3 a b + tables_left 512 ?pe p) s'"
      "walk (vs_mem s') = walk (vs_mem s)" "\<forall>q. path_ok q \<longrightarrow> q \<noteq> [] \<longrightarrow> length q \<le> 1 \<longrightarrow>
       entry (vs_mem s') root q = entry (vs_mem s) root q" by auto
    have ok: "path_ok [a]" using J(3) by (auto simp: path_ok_def)
    then have "?ent s' [a]" using s'(3,4) by (intro entered_cong [OF J(4)]) simp_all
    moreover have "tables_left ?W3 ?pe p \<le> ?n3 a b" using 8(3) by (intro tables_left_leave) (auto simp: mult.assoc)
    then have "?inv {[a]} p (?n4 a + tables_left ?W3 ?pe p + tables_left 512 ?pe p) s'"
      by (intro map_inv_less [OF s'(2)]) simp
    ultimately show ?case using s'(1) J(2) ok half unfolding sp by (simp add: on_first_def)
  next
    case (9 a p sp)
    obtain s ph where sp: "sp = (s, ph)" by (cases sp)
    with 9 have J: "?inv {[a]} p (?n4 a + tables_left ?W3 ?pe p + tables_left 512 ?pe p) s" "?at p ph"
      "path_ok [a]" and half: "(a < 256) = lo" by auto
    have ins: "?inv (insert ([] @ [a]) {}) p (?n4 a + tables_left ?W3 ?pe p + tables_left 512 ?pe p) s"
      using J(1) by simp
    from map_inv_unlock [OF ins] J(3) half obtain s' where
      s': "unlock_entry (gen_pml4 256) a s = Inr s'"
      "?inv {} p (?n4 a + tables_left ?W3 ?pe p + tables_left 512 ?pe p) s'" by auto
    have "tables_left ?W4 ?pe p \<le> (?pe - 1) div ?W4 - a" using 9(2) by (intro tables_left_leave) (auto simp: mult.assoc)
    then have "?inv {} p (tables_touched p ?pe + k) s'"
      by (intro map_inv_less [OF s'(2)]) (simp add: tables_touched_def)
    then show ?case using s'(1) J(2) unfolding sp by (simp add: on_first_def)
  qed (use p0 pe inv in simp_all)
  then show ?thesis by (auto simp: tables_touched_def tables_left_def)
qed

end

section \<open>The kernel's map\<close>

text \<open>The number of the page of an address among the pages a four-level walk tells apart.\<close>

definition vpage :: "u64 \<Rightarrow> nat" where
  "vpage v = page_number (pos_of v)"

text \<open>The upper half without the two recursive entries, and the lower half.\<close>

definition ordinary :: "u64 \<Rightarrow> bool" where
  "ordinary v \<longleftrightarrow> index_of 39 v \<noteq> 256 \<and> index_of 39 v \<noteq> 257"

lemma pos_ok_pos_of [simp]: "pos_ok (pos_of v)"
  by (simp add: pos_of_def)

lemma path_number_indices [simp]: "path_number (indices v) = vpage v"
  by (simp add: indices_def vpage_def pos_of_def)

lemma length_indices [simp]: "length (indices v) = 4"
  by (simp add: indices_def)

lemma path_ok_indices [simp]: "path_ok (indices v) \<longleftrightarrow> ordinary v"
  by (simp add: path_ok_def ordinary_def indices_def)

lemma indices_of_path:
  assumes "path_ok q" "length q = 4"
  shows "indices (of_nat (path_number q * 4096)) = q"
proof -
  obtain a b c d where q: "q = [a, b, c, d]"
    using assms(2) by (cases q; cases "tl q"; cases "tl (tl q)"; cases "tl (tl (tl q))") auto
  with assms(1) have l: "a < 512" "b < 512" "c < 512" "d < 512" by (auto simp: path_ok_def)
  define x where "x = ((a * 512 + b) * 512 + c) * 512 + d"
  have digit: "(h * 512 + l) div 512 = h" "(h * 512 + l) mod 512 = l" if "l < 512" for h l :: nat
    using that by simp_all
  have "x * 4096 < 2 ^ 64" using l unfolding x_def by simp
  then have u: "unat (of_nat (x * 4096) :: u64) = x * 4096" by (rule unat_of_nat_u64)
  have "x * 4096 div 2 ^ 12 = x" by simp
  moreover have "x * 4096 div 2 ^ 21 = x div 512" using div_mult_mult2 [of 4096 x 512] by simp
  moreover have "x * 4096 div 2 ^ 30 = x div 512 div 512"
    using div_mult_mult2 [of 4096 x "512 * 512"] by (simp add: div_mult2_eq [symmetric])
  moreover have "x * 4096 div 2 ^ 39 = x div 512 div 512 div 512"
    using div_mult_mult2 [of 4096 x "512 * 512 * 512"] by (simp add: div_mult2_eq [symmetric])
  ultimately have "indices (of_nat (x * 4096)) =
      [x div 512 div 512 div 512 mod 512, x div 512 div 512 mod 512, x div 512 mod 512, x mod 512]"
    by (simp only: indices_def index_of_eq u)
  moreover have "path_number q = x" by (simp add: q x_def)
  ultimately show ?thesis using l by (simp only: q x_def digit) simp
qed

text \<open>
  What \<open>map\<close> is called on: the range lies in one half and outside the recursive area, is not mapped
  yet, no entry is locked, and the supply has a fresh frame for every table the range touches.
\<close>

definition map_pre :: "('s \<Rightarrow> u64 list \<Rightarrow> bool) \<Rightarrow> u64 \<Rightarrow> u64 \<Rightarrow> u64 list \<Rightarrow> 's vas \<Rightarrow> bool" where
  "map_pre avail vstart vend fs s \<longleftrightarrow>
     vas_ok (vs_mem s) (vs_cr3 s) \<and> unlocked (vs_mem s) (vs_cr3 s) \<and>
     (vstart < 0xFFFF800000000000 \<or> 0xFFFF810000000000 \<le> vstart) \<and> page_floor vstart < page_ceil vend \<and>
     vpage (page_floor vstart) \<le> vpage (page_ceil vend) \<and>
     (vpage (page_ceil vend) \<le> 256 * (512 * 512 * 512) \<or> 258 * (512 * 512 * 512) \<le> vpage (page_floor vstart)) \<and>
     (\<forall>v. ordinary v \<longrightarrow> vpage (page_floor vstart) \<le> vpage v \<longrightarrow> vpage v < vpage (page_ceil vend) \<longrightarrow>
        translate (vs_mem s) (vs_cr3 s) v = None) \<and>
     avail (vs_supply s) fs \<and> fresh_frames (vs_mem s) (vs_cr3 s) fs \<and>
     tables_touched (vpage (page_floor vstart)) (vpage (page_ceil vend)) \<le> length fs"

context frame_supply
begin

lemma x64_map_inv_rest:
  assumes pre: "map_pre avail vstart vend fs s" and attr: "\<not> at_foreign attr"
    and k: "tables_touched (vpage (page_floor vstart)) (vpage (page_ceil vend)) + k \<le> length fs"
    and ks: "fresh_frames (vs_mem s) (vs_cr3 s) (fs @ ks)"
  shows "\<exists>s'. x64_map pop vstart vend phys attr s = Inr s' \<and>
    map_inv avail ks (vpage (page_floor vstart) < 256 * (512 * 512 * 512)) (vs_cr3 s) (vs_mem s) (vpage (page_floor vstart)) phys (at_user attr) (at_read_write attr) {}
      (vpage (page_ceil vend)) k s'"
proof -
  let ?p0 = "vpage (page_floor vstart)" and ?pe = "vpage (page_ceil vend)"
  let ?inv = "map_inv avail ks (vpage (page_floor vstart) < 256 * (512 * 512 * 512)) (vs_cr3 s) (vs_mem s) ?p0 phys (at_user attr) (at_read_write attr) {}"
  from pre have vas: "vas_ok (vs_mem s) (vs_cr3 s)" "unlocked (vs_mem s) (vs_cr3 s)"
    and area: "\<not> (0xFFFF800000000000 \<le> vstart \<and> vstart < 0xFFFF810000000000)"
    and lt: "page_floor vstart < page_ceil vend" and le: "?p0 \<le> ?pe"
    and half: "?pe \<le> 256 * (512 * 512 * 512) \<or> 258 * (512 * 512 * 512) \<le> ?p0"
    and free: "\<And>v. ordinary v \<Longrightarrow> ?p0 \<le> vpage v \<Longrightarrow> vpage v < ?pe \<Longrightarrow> translate (vs_mem s) (vs_cr3 s) v = None"
    and fs: "avail (vs_supply s) fs" "fresh_frames (vs_mem s) (vs_cr3 s) fs" "tables_touched ?p0 ?pe \<le> length fs"
    by (auto simp: map_pre_def)
  have start: "?inv ?p0 (tables_touched ?p0 ?pe + k) s"
    using vas fs(1) ks k unfolding map_inv_def unlocked_def by auto
  have free': "walk (vs_mem s) (vs_cr3 s) q = None" if "path_ok q" "length q = 4" "?p0 \<le> path_number q" "path_number q < ?pe" for q
  proof -
    let ?v = "of_nat (path_number q * 4096) :: u64"
    have i: "indices ?v = q" by (rule indices_of_path [OF that(1,2)])
    then have "path_number q = vpage ?v" "ordinary ?v"
      using path_number_indices [of ?v] path_ok_indices [of ?v] that(1) by simp_all
    with free [of ?v] that(3,4) i show ?thesis by (simp only: translate_def)
  qed
  obtain a b c d where pos: "pos_of (page_floor vstart) = (a, b, c, d)" by (cases "pos_of (page_floor vstart)")
  have p0: "pos_ok (a, b, c, d)" "?p0 = page_number (a, b, c, d)"
    using pos_ok_pos_of [of "page_floor vstart"] by (simp_all only: pos vpage_def)
  have half': "page_number (pos_of (page_ceil vend)) \<le> 256 * (512 * 512 * 512) \<or> 258 * (512 * 512 * 512) \<le> ?p0"
    using half by (simp only: vpage_def)
  have free'': "walk (vs_mem s) (vs_cr3 s) q = None \<or>
      walk (vs_mem s) (vs_cr3 s) q = Some (phys + 4096 * of_nat (path_number q - ?p0))"
    if "path_ok q" "length q = 4" "?p0 \<le> path_number q" "path_number q < page_number (pos_of (page_ceil vend))" for q
    using free' [OF that(1-3)] that(4) by (simp add: vpage_def)
  from page_loop_maps [OF p0 pos_ok_pos_of _ half' refl free'' start [unfolded vpage_def [of "page_ceil vend"]]] le
  obtain s' ph where s': "page_loop
      (\<lambda>i4. on_first (map_enter pop (gen_pml4 256) (gen_pdpt 256 i4) (at_user attr) (at_read_write attr) i4))
      (\<lambda>i4 i3. on_first (map_enter pop (gen_pdpt 256 i4) (gen_pd 256 i4 i3) (at_user attr) (at_read_write attr) i3))
      (\<lambda>i4 i3 i2. on_first (map_enter pop (gen_pd 256 i4 i3) (gen_pt 256 i4 i3 i2) (at_user attr) (at_user attr) i2))
      (\<lambda>i4 i3 i2 i1. map_leaf (gen_pt 256 i4 i3 i2) (at_user attr) (at_read_write attr) i1)
      (\<lambda>i4. on_first (unlock_entry (gen_pml4 256) i4))
      (\<lambda>i4 i3. on_first (unlock_entry (gen_pdpt 256 i4) i3))
      (\<lambda>i4 i3 i2. on_first (unlock_entry (gen_pd 256 i4 i3) i2))
      (a, b, c, d) (pos_of (page_ceil vend)) (s, phys) = Inr (s', ph)" "?inv ?pe k s'"
    by (auto simp: vpage_def)
  have "x64_map pop vstart vend phys attr s = Inr s'"
    using area lt attr s'(1) by (simp add: x64_map_def Let_def pos)
  with s'(2) show ?thesis by blast
qed

lemma x64_map_inv:
  assumes "map_pre avail vstart vend fs s" "\<not> at_foreign attr"
  shows "\<exists>s'. x64_map pop vstart vend phys attr s = Inr s' \<and>
    map_inv avail [] (vpage (page_floor vstart) < 256 * (512 * 512 * 512)) (vs_cr3 s) (vs_mem s) (vpage (page_floor vstart)) phys (at_user attr) (at_read_write attr) {}
      (vpage (page_ceil vend)) 0 s'"
  using assms by (intro x64_map_inv_rest) (auto simp: map_pre_def)

end

lemma map_inv_translate:
  "map_inv avail ks lo root m0 p0 phys user rw L pe n s \<Longrightarrow> ordinary v \<Longrightarrow>
    translate (vs_mem s) root v =
      (if p0 \<le> vpage v \<and> vpage v < pe then Some (e_frame (phys + 4096 * of_nat (vpage v - p0)))
       else translate m0 root v)"
  using map_invD(5) [of avail ks lo root m0 p0 phys user rw L pe n s "indices v"]
  by (simp add: translate_def frame_for_def)

text \<open>
  C1. The kernel's \<open>map\<close> returns, with the address space well formed and every entry unlocked;
  afterwards the pages of the range translate to the frames from \<open>phys\<close> on, in order, and every
  address outside the range translates as before.
\<close>

theorem x64_map_correct:
  assumes "map_pre (pmm_avail i) vstart vend fs s" "\<not> at_foreign attr"
  shows "\<exists>s'. x64_map (pmm_pop i) vstart vend phys attr s = Inr s' \<and> vs_cr3 s' = vs_cr3 s \<and>
    vas_ok (vs_mem s') (vs_cr3 s) \<and> unlocked (vs_mem s') (vs_cr3 s) \<and>
    (\<forall>v. ordinary v \<longrightarrow> translate (vs_mem s') (vs_cr3 s) v =
       (if vpage (page_floor vstart) \<le> vpage v \<and> vpage v < vpage (page_ceil vend)
        then Some (e_frame (phys + 4096 * of_nat (vpage v - vpage (page_floor vstart))))
        else translate (vs_mem s) (vs_cr3 s) v))"
proof -
  from frames.x64_map_inv [OF assms] obtain s' where
    s': "x64_map (pmm_pop i) vstart vend phys attr s = Inr s'"
    "map_inv (pmm_avail i) [] (vpage (page_floor vstart) < 256 * (512 * 512 * 512)) (vs_cr3 s) (vs_mem s) (vpage (page_floor vstart)) phys (at_user attr)
      (at_read_write attr) {} (vpage (page_ceil vend)) 0 s'" by blast
  have "unlocked (vs_mem s') (vs_cr3 s)"
    using map_invD(3) [OF s'(2)] unfolding unlocked_def by blast
  with s'(1) map_invD(1,2) [OF s'(2)] map_inv_translate [OF s'(2)] show ?thesis by blast
qed

text \<open>
  A concrete address space: only the recursive entry of the root at \<open>0x1000\<close> is present, and the eight
  boot frames are left. Two pages are mapped at 4 MiB.
\<close>

definition demo_pmm :: pmm where
  "demo_pmm = \<lparr>pm_boot_start = 0x200000, pm_boot_left = 8, pm_smp_ready = False,
     pm_chunks = (\<lambda>_. None)(0x3000 \<mapsto> new_chunk),
     pm_global = \<lparr>fs_first = Some 0x3000, fs_last = Some 0x3000, fs_size = 0, fs_balance = 0\<rparr>, pm_locals = []\<rparr>"

definition demo_vas :: "pmm vas" where
  "demo_vas = \<lparr>vs_mem = (\<lambda>f i. if f = 0x1000 \<and> i = 256 then 0x1001 else 0), vs_cr3 = 0x1000,
     vs_supply = demo_pmm, vs_lowest = 0xFFFFFFFF80000000, vs_temp = 0\<rparr>"

lemma demo_walk: "path_ok q \<Longrightarrow> walk (vs_mem demo_vas) 0x1000 q = (if q = [] then Some 0x1000 else None)"
  by (cases q) (auto simp: demo_vas_def path_ok_def walk.simps e_present_def)

lemma demo_mem: "vs_mem demo_vas f i = (if f = 0x1000 \<and> i = 256 then 0x1001 else 0)"
  by (simp add: demo_vas_def)

lemma demo_recursive: "recursive (vs_mem demo_vas) 0x1000"
  by (simp add: recursive_def demo_vas_def e_present_def e_frame_def) code_simp

lemma demo_avail: "pmm_avail 0 demo_pmm (boot_frames demo_pmm)"
proof -
  have "stack_rep (pm_chunks demo_pmm) (pm_global demo_pmm) [] [] 0x3000 (rev []) []"
    by (simp add: stack_rep_def demo_pmm_def new_chunk_def)
  then have "stack_avail (pm_chunks demo_pmm) (pm_global demo_pmm) []"
    unfolding stack_avail_def by (intro conjI exI) simp_all
  then show ?thesis by (simp add: pmm_avail_def demo_pmm_def)
qed

lemma demo_frames: "boot_frames demo_pmm = [0x200000, 0x201000, 0x202000, 0x203000, 0x204000, 0x205000, 0x206000, 0x207000]"
  by (simp add: boot_frames_def demo_pmm_def upt_rec)

lemma demo_pages: "vpage (page_floor 0x400000) = 1024" "vpage (page_ceil 0x402000) = 1026"
  "page_floor 0x400000 < page_ceil 0x402000"
  by (simp_all add: vpage_def pos_of_def page_floor_def page_ceil_def index_of_def)

lemma demo_translate: "ordinary v \<Longrightarrow> translate (vs_mem demo_vas) 0x1000 v = None"
proof -
  assume o: "ordinary v"
  have "indices v \<noteq> []" by (simp add: indices_def)
  then show ?thesis using demo_walk [of "indices v"] o by (simp add: translate_def)
qed

text \<open>Any free range whose tables the eight frames can hold may be mapped.\<close>

lemma demo_pre_at:
  assumes "vstart < 0xFFFF800000000000 \<or> 0xFFFF810000000000 \<le> vstart" "page_floor vstart < page_ceil vend"
    "vpage (page_floor vstart) \<le> vpage (page_ceil vend)"
    "vpage (page_ceil vend) \<le> 256 * (512 * 512 * 512) \<or> 258 * (512 * 512 * 512) \<le> vpage (page_floor vstart)"
    "tables_touched (vpage (page_floor vstart)) (vpage (page_ceil vend)) \<le> 8"
  shows "map_pre (pmm_avail 0) vstart vend (boot_frames demo_pmm) (demo_vas\<lparr>vs_lowest := low\<rparr>)"
proof -
  let ?m = "vs_mem demo_vas"
  have cr3: "vs_cr3 demo_vas = 0x1000" "vs_supply demo_vas = demo_pmm" by (simp_all add: demo_vas_def)
  have "vas_ok ?m 0x1000"
    using demo_recursive by (auto simp: vas_ok_def separate_def demo_walk split: if_splits)
  moreover have "unlocked ?m 0x1000"
    unfolding unlocked_def
  proof (intro allI impI)
    fix q e
    assume q: "path_ok q" "q \<noteq> []" "entry ?m 0x1000 q = Some e"
    then obtain r j where r: "q = r @ [j]" by (cases q rule: rev_cases) auto
    with q show "\<not> bit e 9" by (auto simp: demo_walk demo_mem split: if_splits)
  qed
  moreover have "fresh_frames ?m 0x1000 (boot_frames demo_pmm)"
    unfolding demo_frames fresh_frames_def by (auto simp: demo_walk e_frame_def mask_eq_exp_minus_1 split: if_splits)
  moreover have "length (boot_frames demo_pmm) = 8" by (simp add: demo_frames)
  ultimately show ?thesis
    using demo_avail assms demo_translate unfolding map_pre_def by (simp add: cr3)
qed

lemma demo_pre: "map_pre (pmm_avail 0) 0x400000 0x402000 (boot_frames demo_pmm) demo_vas"
proof -
  have "tables_touched 1024 1026 \<le> 8" by (simp add: tables_touched_def tables_left_def)
  then have "map_pre (pmm_avail 0) 0x400000 0x402000 (boot_frames demo_pmm) (demo_vas\<lparr>vs_lowest := vs_lowest demo_vas\<rparr>)"
    using demo_pages by (intro demo_pre_at) simp_all
  then show ?thesis by simp
qed

theorem x64_map_correct_witness:
  "\<exists>s'. x64_map (pmm_pop 0) 0x400000 0x402000 0x900000 vm_system demo_vas = Inr s' \<and>
    translate (vs_mem s') 0x1000 0x400000 = Some 0x900000 \<and> translate (vs_mem s') 0x1000 0x401000 = Some 0x901000"
proof -
  have o: "ordinary 0x400000" "ordinary 0x401000" "vpage 0x400000 = 1024" "vpage 0x401000 = 1025"
    by (simp_all add: ordinary_def vpage_def pos_of_def index_of_def)
  have f: "e_frame 0x900000 = 0x900000" "e_frame 0x901000 = 0x901000"
    by (simp_all add: e_frame_def mask_eq_exp_minus_1)
  from x64_map_correct [OF demo_pre, of vm_system "0x900000"] obtain s' where
    "x64_map (pmm_pop 0) 0x400000 0x402000 0x900000 vm_system demo_vas = Inr s'"
    "\<forall>v. ordinary v \<longrightarrow> translate (vs_mem s') (vs_cr3 demo_vas) v =
       (if 1024 \<le> vpage v \<and> vpage v < 1026 then Some (e_frame (0x900000 + 4096 * of_nat (vpage v - 1024)))
        else translate (vs_mem demo_vas) (vs_cr3 demo_vas) v)"
    unfolding demo_pages by (auto simp: vm_system_def)
  with o f show ?thesis by (intro exI [of _ s']) (simp add: demo_vas_def)
qed

text \<open>A page is writable when the entries of all four levels allow it.\<close>

definition mmu_writable :: "frames \<Rightarrow> u64 \<Rightarrow> u64 \<Rightarrow> bool" where
  "mmu_writable mem root v = list_all (\<lambda>k. case entry mem root (take k (indices v)) of
     None \<Rightarrow> False | Some e \<Rightarrow> e_present e \<and> e_read_write e) [1, 2, 3, 4]"

text \<open>
  C5. The flags after \<open>map\<close>: a page of the range is writable exactly when the request is for a page
  that is writable and for user mode, because the directory entry gets \<open>attrib.user\<close> for its
  \<open>read_write\<close>. A writable kernel mapping is write-protected at that level.
\<close>

theorem x64_map_writable_iff:
  assumes "map_pre (pmm_avail i) vstart vend fs s" "\<not> at_foreign attr"
    and "ordinary v" "vpage (page_floor vstart) \<le> vpage v" "vpage v < vpage (page_ceil vend)"
  shows "\<exists>s'. x64_map (pmm_pop i) vstart vend phys attr s = Inr s' \<and>
    (mmu_writable (vs_mem s') (vs_cr3 s) v \<longleftrightarrow> at_user attr \<and> at_read_write attr)"
proof -
  from frames.x64_map_inv [OF assms(1,2)] obtain s' where
    s': "x64_map (pmm_pop i) vstart vend phys attr s = Inr s'"
    and inv: "map_inv (pmm_avail i) [] (vpage (page_floor vstart) < 256 * (512 * 512 * 512)) (vs_cr3 s) (vs_mem s) (vpage (page_floor vstart)) phys (at_user attr)
      (at_read_write attr) {} (vpage (page_ceil vend)) 0 s'" by blast
  let ?m = "vs_mem s'" and ?r = "vs_cr3 s" and ?q = "indices v"
  have "walk ?m ?r ?q \<noteq> None"
    using map_inv_translate [OF inv assms(3)] assms(4,5) by (simp add: translate_def)
  moreover have "?q = take k ?q @ drop k ?q" for k by simp
  ultimately have w: "walk ?m ?r (take k ?q) \<noteq> None" for k by (metis walk_prefix_None take_is_prefix)
  have ex: "\<exists>e. entry ?m ?r (take k ?q) = Some e \<and> e_present e \<and> flags_ok (at_user attr) (at_read_write attr) k e"
    if "0 < k" "k \<le> 4" for k
  proof -
    have "take k ?q \<noteq> []" using that by (simp add: indices_def)
    with w [of k] walk_entry [of "take k ?q" ?m ?r] obtain e where
      "entry ?m ?r (take k ?q) = Some e" "e_present e" by (auto split: option.splits if_splits)
    with map_invD(6) [OF inv, of ?q k e] that assms(3-5) show ?thesis by auto
  qed
  have K: "(case entry ?m ?r (take k ?q) of None \<Rightarrow> False | Some e \<Rightarrow> e_present e \<and> e_read_write e) \<longleftrightarrow>
      (if k = 3 then at_user attr else at_read_write attr)" if "0 < k" "k \<le> 4" for k
  proof -
    from ex [OF that] obtain e where "entry ?m ?r (take k ?q) = Some e" "e_present e"
      "flags_ok (at_user attr) (at_read_write attr) k e" by blast
    then show ?thesis by (simp only: flags_ok_def option.case) simp
  qed
  have "mmu_writable ?m ?r v \<longleftrightarrow> at_user attr \<and> at_read_write attr"
    using K [of 1] K [of 2] K [of 3] K [of 4] by (simp add: mmu_writable_def) blast
  with s' show ?thesis by blast
qed

text \<open>The kernel's own mappings (\<open>vm::system\<close>) are not writable.\<close>

theorem x64_map_writable_iff_witness:
  "\<exists>s'. x64_map (pmm_pop 0) 0x400000 0x402000 0x900000 vm_system demo_vas = Inr s' \<and>
    \<not> mmu_writable (vs_mem s') 0x1000 0x401000"
proof -
  have "ordinary 0x401000" "vpage 0x401000 = 1025"
    by (simp_all add: ordinary_def vpage_def pos_of_def index_of_def)
  with x64_map_writable_iff [OF demo_pre, of vm_system "0x401000" "0x900000"] show ?thesis
    by (auto simp: demo_pages vm_system_def demo_vas_def)
qed

end
