(* ===== verification/Paging_Unmap.thy ===== *)
theory Paging_Unmap
  imports Paging_Map_Range
begin

text \<open>
  Correctness of \<open>unmap\<close> and \<open>get_physical_address\<close> (\<open>kernel/memory/x64paging.cpp\<close>): a mapped range
  becomes unmapped, its frames are handed back in order, nothing else changes; a lookup agrees with
  the walk of the processor.
\<close>

section \<open>Updates of single entries\<close>

lemma vupdate_entry:
  assumes "vs_cr3 s = root" "vas_ok (vs_mem s) root" and t: "path_ok (t @ [i])" "length t \<le> 3" "walk (vs_mem s) root t = Some f"
    and g: "e_present (g (vs_mem s f i)) = e_present (vs_mem s f i)" "e_frame (g (vs_mem s f i)) = e_frame (vs_mem s f i)"
  shows "\<exists>s'. vupdate (table_address t) i g s = Inr s' \<and> vs_cr3 s' = root \<and> vs_supply s' = vs_supply s \<and>
    vas_ok (vs_mem s') root \<and> walk (vs_mem s') = walk (vs_mem s) \<and>
    (\<forall>q. path_ok q \<longrightarrow> q \<noteq> [] \<longrightarrow> length q \<le> 4 \<longrightarrow> entry (vs_mem s') root q =
      (if q = t @ [i] then Some (g (vs_mem s f i)) else entry (vs_mem s) root q)) \<and>
    (\<forall>h j. h \<noteq> f \<or> j \<noteq> i \<longrightarrow> vs_mem s' h j = vs_mem s h j)"
proof -
  let ?m = "set_entry (vs_mem s) f i (g (vs_mem s f i))"
  have W: "walk ?m = walk (vs_mem s)" by (rule walk_same) (rule g)+
  have sep: "separate (vs_mem s) root" "recursive (vs_mem s) root" using assms(2) by (auto simp: vas_ok_def)
  have "entry ?m root q = (if q = t @ [i] then Some (g (vs_mem s f i)) else entry (vs_mem s) root q)"
    if "path_ok q" "q \<noteq> []" "length q \<le> 4" for q
    using t(1) by (intro entry_set [OF sep(1) _ t(2,3) that]) (simp_all add: W)
  moreover have "vas_ok ?m root" by (rule vas_ok_same [OF assms(2) g])
  ultimately show ?thesis
    using vread_entry(2) [OF assms(1) sep(2) t, of g] assms(1) W
    by (intro exI [of _ "s\<lparr>vs_mem := ?m\<rparr>"]) simp
qed

section \<open>The invariant\<close>

fun give_all :: "(u64 \<Rightarrow> 's \<Rightarrow> 's result) \<Rightarrow> u64 list \<Rightarrow> 's \<Rightarrow> 's result" where
  "give_all give [] u = Inr u"
| "give_all give (f # fs) u = rbind (give f u) (give_all give fs)"

lemma give_all_append:
  "give_all give (fs @ gs) = (\<lambda>u. rbind (give_all give fs u) (give_all give gs))"
proof (induction fs)
  case (Cons f fs)
  show ?case by (rule ext) (simp add: Cons.IH rbind_assoc)
qed (simp add: fun_eq_iff)

fun page_path :: "nat \<Rightarrow> nat list" where
  "page_path p = [p div 512 div 512 div 512, p div 512 div 512 mod 512, p div 512 mod 512, p mod 512]"

text \<open>The frames of the pages from \<open>p0\<close> up to \<open>p\<close> before anything was unmapped.\<close>

definition range_frames :: "frames \<Rightarrow> u64 \<Rightarrow> nat \<Rightarrow> nat \<Rightarrow> u64 list" where
  "range_frames m0 root p0 p = map (\<lambda>n. the (walk m0 root (page_path n))) [p0..<p]"

definition unmap_inv :: "(u64 \<Rightarrow> 's \<Rightarrow> 's result) \<Rightarrow> bool \<Rightarrow> u64 \<Rightarrow> frames \<Rightarrow> 's \<Rightarrow> nat \<Rightarrow> nat list set \<Rightarrow> nat \<Rightarrow> 's vas \<Rightarrow> bool" where
  "unmap_inv give push root m0 u0 p0 L p s \<longleftrightarrow>
     vs_cr3 s = root \<and> vas_ok (vs_mem s) root \<and> p0 \<le> p \<and>
     (\<forall>q e. path_ok q \<longrightarrow> q \<noteq> [] \<longrightarrow> length q \<le> 4 \<longrightarrow> entry (vs_mem s) root q = Some e \<longrightarrow> bit e 9 = (q \<in> L)) \<and>
     (\<forall>q. path_ok q \<longrightarrow> length q \<le> 4 \<longrightarrow> walk (vs_mem s) root q =
        (if length q = 4 \<and> p0 \<le> path_number q \<and> path_number q < p then None else walk m0 root q)) \<and>
     give_all give (if push then range_frames m0 root p0 p else []) u0 = Inr (vs_supply s) \<and>
     (\<forall>h. (\<forall>t. path_ok t \<longrightarrow> length t \<le> 3 \<longrightarrow> walk m0 root t \<noteq> Some h) \<longrightarrow> vs_mem s h = m0 h) \<and>
     vs_mem s root 257 = m0 root 257"

lemma unmap_invD:
  assumes "unmap_inv give push root m0 u0 p0 L p s"
  shows "vs_cr3 s = root" "vas_ok (vs_mem s) root" "p0 \<le> p"
    "\<And>q e. path_ok q \<Longrightarrow> q \<noteq> [] \<Longrightarrow> length q \<le> 4 \<Longrightarrow> entry (vs_mem s) root q = Some e \<Longrightarrow> bit e 9 = (q \<in> L)"
    "\<And>q. path_ok q \<Longrightarrow> length q \<le> 4 \<Longrightarrow> walk (vs_mem s) root q =
        (if length q = 4 \<and> p0 \<le> path_number q \<and> path_number q < p then None else walk m0 root q)"
    "give_all give (if push then range_frames m0 root p0 p else []) u0 = Inr (vs_supply s)"
    "\<And>h. (\<And>t. path_ok t \<Longrightarrow> length t \<le> 3 \<Longrightarrow> walk m0 root t \<noteq> Some h) \<Longrightarrow> vs_mem s h = m0 h"
    "vs_mem s root 257 = m0 root 257"
  using assms unfolding unmap_inv_def by blast+

text \<open>A write to an entry on a path leaves the pages that are no tables, and the entry 257 of the root.\<close>

lemma unmap_inv_kept:
  assumes inv: "unmap_inv give push root m0 u0 p0 L p s"
    and t: "path_ok (t @ [i])" "length t \<le> 3" "walk (vs_mem s) root t = Some f"
    and m: "\<And>h j. h \<noteq> f \<or> j \<noteq> i \<Longrightarrow> m h j = vs_mem s h j"
  shows "(\<forall>t. path_ok t \<longrightarrow> length t \<le> 3 \<longrightarrow> walk m0 root t \<noteq> Some h) \<Longrightarrow> m h = m0 h" "m root 257 = m0 root 257"
proof -
  note D = unmap_invD [OF inv]
  have w: "walk m0 root t = Some f" using D(5) [of t] t by simp
  show "m h = m0 h" if "\<forall>t. path_ok t \<longrightarrow> length t \<le> 3 \<longrightarrow> walk m0 root t \<noteq> Some h"
  proof -
    have "h \<noteq> f" using that w t(1,2) by auto
    then show ?thesis using m D(7) that by (intro ext) metis
  qed
  have "separate (vs_mem s) root" using D(2) by (simp add: vas_ok_def)
  from path_not_recursive [OF this t] m [of root 257] D(8) show "m root 257 = m0 root 257" by auto
qed

lemma unmap_inv_bit:
  assumes inv: "unmap_inv give push root m0 u0 p0 L p s"
    and t: "path_ok (t @ [i])" "length t \<le> 3" "walk (vs_mem s) root t = Some f"
    and L: "L' - {t @ [i]} = L - {t @ [i]}" "b = (t @ [i] \<in> L')"
  shows "\<exists>s'. vupdate (table_address t) i (e_put 9 b) s = Inr s' \<and> unmap_inv give push root m0 u0 p0 L' p s' \<and>
    walk (vs_mem s') = walk (vs_mem s) \<and> entry (vs_mem s') root (t @ [i]) = Some (e_put 9 b (vs_mem s f i))"
proof -
  note D = unmap_invD [OF inv]
  from vupdate_entry [OF D(1,2) t, of "e_put 9 b"] obtain s' where
    s': "vupdate (table_address t) i (e_put 9 b) s = Inr s'" "vs_cr3 s' = root" "vs_supply s' = vs_supply s"
    "vas_ok (vs_mem s') root" "walk (vs_mem s') = walk (vs_mem s)"
    "\<forall>q. path_ok q \<longrightarrow> q \<noteq> [] \<longrightarrow> length q \<le> 4 \<longrightarrow> entry (vs_mem s') root q =
      (if q = t @ [i] then Some (e_put 9 b (vs_mem s f i)) else entry (vs_mem s) root q)"
    "\<And>h j. h \<noteq> f \<or> j \<noteq> i \<Longrightarrow> vs_mem s' h j = vs_mem s h j" by auto
  note kept = unmap_inv_kept [OF inv t s'(7)]
  have "bit e 9 = (q \<in> L')" if q: "path_ok q" "q \<noteq> []" "length q \<le> 4" "entry (vs_mem s') root q = Some e" for q e
  proof (cases "q = t @ [i]")
    case True
    have "entry (vs_mem s') root q = Some (e_put 9 b (vs_mem s f i))"
      using s'(6) [rule_format, OF q(1-3)] True by (simp del: entry_snoc)
    with q(4) True L(2) show ?thesis by (simp del: entry_snoc)
  next
    case False
    with q s'(6) D(4) [OF q(1-3)] L(1) show ?thesis by auto
  qed
  then have "unmap_inv give push root m0 u0 p0 L' p s'"
    unfolding unmap_inv_def s'(3,5) using s'(2,4) D(3,5,6) kept by blast
  moreover have "entry (vs_mem s') root (t @ [i]) = Some (e_put 9 b (vs_mem s f i))"
    using s'(6) [rule_format, OF t(1)] t(2) by (simp del: entry_snoc)
  ultimately show ?thesis using s'(1,5) by blast
qed

lemma unmap_enter_inv:
  assumes inv: "unmap_inv give push root m0 u0 p0 L p s"
    and t: "path_ok (t @ [i])" "length t \<le> 2" "walk (vs_mem s) root t = Some f" and L: "t @ [i] \<notin> L"
    and mapped: "walk m0 root (t @ [i]) \<noteq> None"
  shows "\<exists>s'. unmap_enter (table_address t) i s = Inr s' \<and>
    unmap_inv give push root m0 u0 p0 (insert (t @ [i]) L) p s'"
proof -
  note D = unmap_invD [OF inv]
  have l: "length t \<le> 3" using t(2) by simp
  have rec: "recursive (vs_mem s) root" using D(2) by (simp add: vas_ok_def)
  have "\<not> bit (vs_mem s f i) 9" using D(4) [of "t @ [i]" "vs_mem s f i"] t L by simp
  then have read: "vread (table_address t) i s = Inr (vs_mem s f i)" "\<not> bit (vs_mem s f i) 9"
    using vread_entry(1) [OF D(1) rec t(1) l t(3)] by auto
  from unmap_inv_bit [OF inv t(1) l t(3), of "insert (t @ [i]) L" True] obtain s' where
    s': "vupdate (table_address t) i (e_put 9 True) s = Inr s'"
    "unmap_inv give push root m0 u0 p0 (insert (t @ [i]) L) p s'" "walk (vs_mem s') = walk (vs_mem s)" by auto
  note D' = unmap_invD [OF s'(2)]
  have rec': "recursive (vs_mem s') root" using D'(2) by (simp add: vas_ok_def)
  have t': "walk (vs_mem s') root t = Some f" using s'(3) t(3) by simp
  have "walk (vs_mem s') root (t @ [i]) \<noteq> None" using D'(5) [OF t(1)] t(2) mapped by simp
  then have "e_present (vs_mem s' f i)" using t' by (auto simp: walk_step split: if_splits)
  with read s' vread_entry(1) [OF D'(1) rec' t(1) l t'] show ?thesis
    by (simp add: unmap_enter_def lock_entry_def)
qed

lemma unmap_unlock_inv:
  assumes inv: "unmap_inv give push root m0 u0 p0 (insert (t @ [i]) L) p s"
    and t: "path_ok (t @ [i])" "length t \<le> 3" "walk (vs_mem s) root t = Some f" and L: "t @ [i] \<notin> L"
  shows "\<exists>s'. unlock_entry (table_address t) i s = Inr s' \<and> unmap_inv give push root m0 u0 p0 L p s'"
  using unmap_inv_bit [OF inv t, of L False] L by (auto simp: unlock_entry_def)

lemma page_path_number:
  assumes "path_ok q" "length q = 4"
  shows "page_path (path_number q) = q"
proof -
  obtain a b c d where q: "q = [a, b, c, d]"
    using assms(2) by (cases q; cases "tl q"; cases "tl (tl q)"; cases "tl (tl (tl q))") auto
  with assms(1) have "b < 512" "c < 512" "d < 512" by (auto simp: path_ok_def)
  moreover have "(h * 512 + l) div 512 = h" "(h * 512 + l) mod 512 = l" if "l < 512" for h l :: nat
    using that by simp_all
  ultimately show ?thesis by (simp only: q path_number.simps page_number.simps page_path.simps)
qed

lemma unmap_leaf_inv:
  fixes t i
  defines "p \<equiv> path_number (t @ [i])"
  assumes inv: "unmap_inv give push root m0 u0 p0 L p s"
    and t: "path_ok (t @ [i])" "length t = 3" "walk (vs_mem s) root t = Some f" and L: "t @ [i] \<notin> L"
    and mapped: "walk m0 root (t @ [i]) = Some x" and give: "push \<Longrightarrow> give x (vs_supply s) = Inr u'"
  shows "\<exists>s'. unmap_leaf give push (table_address t) i s = Inr s' \<and> unmap_inv give push root m0 u0 p0 L (Suc p) s'"
proof -
  note D = unmap_invD [OF inv]
  let ?t = "table_address t" and ?q = "t @ [i]" and ?old = "vs_mem s f i"
  let ?new = "e_put 9 False (e_put 0 False (e_put 9 True ?old))"
  let ?st = "\<lambda>e. s\<lparr>vs_mem := set_entry (vs_mem s) f i e\<rparr>"
  let ?u = "if push then u' else vs_supply s"
  have q: "path_ok ?q" "length ?q = 4" "?q \<noteq> []" using t by auto
  have sep: "separate (vs_mem s) root" using D(2) by (simp add: vas_ok_def)
  have st: "vs_cr3 (?st e) = root" "vas_ok (vs_mem (?st e)) root" "walk (vs_mem (?st e)) root t = Some f" for e
    using leaf_update(3,4) [OF D(1,2) t, of e] D(1) by simp_all
  have acc: "vread ?t i (?st e) = Inr e" "vupdate ?t i g (?st e) = Inr (?st (g e))" for e g
    using leaf_update(1) [OF st(1) [of e] st(2) [of e] t(1,2) st(3) [of e]]
      leaf_update(2) [OF st(1) [of e] st(2) [of e] t(1,2) st(3) [of e], of g] by simp_all
  have acc': "vupdate ?t i g ((?st e)\<lparr>vs_supply := u\<rparr>) = Inr ((?st (g e))\<lparr>vs_supply := u\<rparr>)" for e g u
    using leaf_update(2) [of "(?st e)\<lparr>vs_supply := u\<rparr>" root t i f g] st [of e] t by simp
  have e0: "entry (vs_mem s) root ?q = Some ?old" using t(3) by simp
  have nb: "\<not> bit ?old 9" using D(4) [OF q(1,3) _ e0] q(2) L by simp
  have old: "e_present ?old" "e_frame ?old = x"
    using D(5) [OF q(1)] q(2) mapped t(3) by (auto simp: p_def walk_step split: if_splits)
  have lock: "lock_entry ?t i s = Inr (?st (e_put 9 True ?old))"
    using leaf_update(1) [OF D(1,2) t] leaf_update(2) [OF D(1,2) t, of "e_put 9 True"] nb by (simp add: lock_entry_def)
  have run: "unmap_leaf give push ?t i s = Inr ((?st ?new)\<lparr>vs_supply := ?u\<rparr>)"
    using lock old give by (simp add: unmap_leaf_def acc acc' unlock_entry_def)
  let ?m = "set_entry (vs_mem s) f i ?new"
  have W: "walk ?m root r = (if r = ?q then None else walk (vs_mem s) root r)" if "path_ok r" "length r \<le> 4" for r
    using walk_leaf(1) [OF D(2) t that, of ?new] by simp
  have E: "entry ?m root r = (if r = ?q then Some ?new else entry (vs_mem s) root r)"
    if r: "path_ok r" "r \<noteq> []" "length r \<le> 4" for r
  proof (rule entry_set [OF sep _ _ t(3) r])
    show "path_ok t" "length t \<le> 3" using t by auto
    obtain r' j where "r = r' @ [j]" using r(2) by (cases r rule: rev_cases) auto
    then have "path_ok (butlast r)" "length (butlast r) \<le> 3" "butlast r \<noteq> ?q" using r q(2) by auto
    then show "walk ?m root (butlast r) = walk (vs_mem s) root (butlast r)" using W [of "butlast r"] by simp
  qed
  have "walk ?m root r =
      (if length r = 4 \<and> p0 \<le> path_number r \<and> path_number r < Suc p then None else walk m0 root r)"
    if r: "path_ok r" "length r \<le> 4" for r
  proof (cases "r = ?q")
    case True
    with W [OF r] q(2) D(3) show ?thesis by (simp add: p_def)
  next
    case False
    then have "length r = 4 \<Longrightarrow> path_number r \<noteq> p"
      using path_number_inj [OF r(1) q(1) _ q(2)] by (auto simp: p_def)
    with False W [OF r] D(5) [OF r] show ?thesis by (auto simp: less_Suc_eq)
  qed
  moreover have "bit e 9 = (r \<in> L)" if r: "path_ok r" "r \<noteq> []" "length r \<le> 4" "entry ?m root r = Some e" for r e
    using r E [OF r(1-3)] D(4) [OF r(1-3)] L by (auto split: if_splits)
  moreover have "page_path p = ?q" unfolding p_def by (rule page_path_number [OF q(1,2)])
  then have "range_frames m0 root p0 (Suc p) = range_frames m0 root p0 p @ [x]"
    using D(3) mapped by (simp only: range_frames_def upt_Suc_append map_append) (simp del: page_path.simps)
  then have "give_all give (if push then range_frames m0 root p0 (Suc p) else []) u0 = Inr ?u"
    using D(6) give by (cases push) (auto simp: give_all_append)
  moreover have "?m h j = vs_mem s h j" if "h \<noteq> f \<or> j \<noteq> i" for h j using that by auto
  note kept = unmap_inv_kept [OF inv t(1) _ t(3) this]
  have kept: "(\<forall>t. path_ok t \<longrightarrow> length t \<le> 3 \<longrightarrow> walk m0 root t \<noteq> Some h) \<longrightarrow> ?m h = m0 h" "?m root 257 = m0 root 257" for h
    using kept t(2) by simp_all
  ultimately have "unmap_inv give push root m0 u0 p0 L (Suc p) ((?st ?new)\<lparr>vs_supply := ?u\<rparr>)"
    using st(1,2) [of ?new] D(3) kept unfolding unmap_inv_def by simp
  with run show ?thesis by blast
qed

section \<open>Ranges\<close>

lemma path_number_page_path [simp]: "path_number (page_path p) = p"
  by (simp only: page_path.simps path_number.simps page_number.simps div_mult_mod_eq)

text \<open>Every page of the range was mapped.\<close>

definition range_mapped :: "frames \<Rightarrow> u64 \<Rightarrow> nat \<Rightarrow> nat \<Rightarrow> bool" where
  "range_mapped m0 root p0 pe \<longleftrightarrow> (\<forall>q. path_ok q \<longrightarrow> length q = 4 \<longrightarrow> p0 \<le> path_number q \<longrightarrow> path_number q < pe \<longrightarrow>
     walk m0 root q \<noteq> None)"

lemma range_mapped_tables:
  assumes m: "range_mapped m0 root p0 pe" and p: "p0 \<le> p" "p < pe"
  shows "path_ok [a] \<Longrightarrow> a * 512 * 512 * 512 \<le> p \<Longrightarrow> p < Suc a * 512 * 512 * 512 \<Longrightarrow> walk m0 root [a] \<noteq> None"
    and "path_ok [a, b] \<Longrightarrow> (a * 512 + b) * 512 * 512 \<le> p \<Longrightarrow> p < Suc (a * 512 + b) * 512 * 512 \<Longrightarrow>
      walk m0 root [a, b] \<noteq> None"
    and "path_ok [a, b, c] \<Longrightarrow> ((a * 512 + b) * 512 + c) * 512 \<le> p \<Longrightarrow> p < Suc ((a * 512 + b) * 512 + c) * 512 \<Longrightarrow>
      walk m0 root [a, b, c] \<noteq> None"
proof -
  have leaf: "walk m0 root t \<noteq> None" if "page_path p = t @ r" "path_ok (t @ r)" for t r
  proof -
    have "length (t @ r) = 4" "path_number (t @ r) = p"
      unfolding that(1) [symmetric] by (simp, rule path_number_page_path)
    then have "walk m0 root (t @ r) \<noteq> None" using m p that(2) unfolding range_mapped_def by blast
    with walk_prefix_None [of m0 root t "t @ r"] show ?thesis by auto
  qed
  have digit: "(h * 512 + l) div 512 = h" "(h * 512 + l) mod 512 = l" if "l < 512" for h l :: nat
    using that by simp_all
  show "walk m0 root [a, b, c] \<noteq> None" if "path_ok [a, b, c]" "((a * 512 + b) * 512 + c) * 512 \<le> p"
      "p < Suc ((a * 512 + b) * 512 + c) * 512"
  proof (rule leaf)
    have e: "p div 512 = (a * 512 + b) * 512 + c" by (rule slot_eq [OF that(2,3)])
    have "b < 512" "c < 512" using that(1) by (simp_all add: path_ok_def)
    then show "page_path p = [a, b, c] @ [p mod 512]"
      by (simp only: page_path.simps e digit append_Cons append_Nil)
  qed (use that(1) in \<open>simp add: path_ok_def\<close>)
  show "walk m0 root [a, b] \<noteq> None" if "path_ok [a, b]" "(a * 512 + b) * 512 * 512 \<le> p"
      "p < Suc (a * 512 + b) * 512 * 512"
  proof (rule leaf)
    have "p div (512 * 512) = a * 512 + b" using that(2,3) by (intro slot_eq) (simp_all only: mult.assoc)
    then have e: "p div 512 div 512 = a * 512 + b" by (simp add: div_mult2_eq [symmetric])
    have "b < 512" using that(1) by (simp add: path_ok_def)
    then show "page_path p = [a, b] @ [p div 512 mod 512, p mod 512]"
      by (simp only: page_path.simps e digit append_Cons append_Nil)
  qed (use that(1) in \<open>simp add: path_ok_def\<close>)
  show "walk m0 root [a] \<noteq> None" if "path_ok [a]" "a * 512 * 512 * 512 \<le> p" "p < Suc a * 512 * 512 * 512"
  proof (rule leaf)
    have "p div (512 * 512 * 512) = a" using that(2,3) by (intro slot_eq) (simp_all only: mult.assoc)
    then have "p div 512 div 512 div 512 = a" by (simp add: div_mult2_eq [symmetric])
    then show "page_path p = [a] @ [p div 512 div 512 mod 512, p div 512 mod 512, p mod 512]" by simp
  qed (use that(1) in \<open>simp add: path_ok_def\<close>)
qed

lemma give_all_prefix:
  assumes "give_all give (range_frames m0 root p0 pe) u0 = Inr u1" "p0 \<le> p" "p < pe"
    and "give_all give (range_frames m0 root p0 p) u0 = Inr u"
  shows "\<exists>u'. give (the (walk m0 root (page_path p))) u = Inr u'"
proof -
  have "[p0..<p + (pe - p)] = [p0..<p] @ [p..<p + (pe - p)]" by (rule upt_add_eq_append [OF assms(2)])
  with assms(3) have "[p0..<pe] = [p0..<p] @ p # [Suc p..<pe]" by (simp add: upt_conv_Cons)
  then have "range_frames m0 root p0 pe = range_frames m0 root p0 p @ the (walk m0 root (page_path p)) #
      range_frames m0 root (Suc p) pe"
    unfolding range_frames_def by simp
  with assms(1,4) show ?thesis by (auto simp: give_all_append)
qed

lemma page_loop_unmaps:
  assumes p0: "pos_ok (a0, b0, c0, d0)" "p0 = page_number (a0, b0, c0, d0)" and pe: "pos_ok e" "p0 \<le> page_number e"
    and region: "page_number e \<le> 256 * (512 * 512 * 512) \<or> 258 * (512 * 512 * 512) \<le> p0"
    and mapped: "range_mapped m0 root p0 (page_number e)"
    and gives: "push \<Longrightarrow> give_all give (range_frames m0 root p0 (page_number e)) u0 = Inr u1"
    and inv: "unmap_inv give push root m0 u0 p0 {} p0 s"
  shows "\<exists>s'. page_loop
        (\<lambda>i4. unmap_enter (gen_pml4 256) i4)
        (\<lambda>i4 i3. unmap_enter (gen_pdpt 256 i4) i3)
        (\<lambda>i4 i3 i2. unmap_enter (gen_pd 256 i4 i3) i2)
        (\<lambda>i4 i3 i2 i1. unmap_leaf give push (gen_pt 256 i4 i3 i2) i1)
        (\<lambda>i4. unlock_entry (gen_pml4 256) i4)
        (\<lambda>i4 i3. unlock_entry (gen_pdpt 256 i4) i3)
        (\<lambda>i4 i3 i2. unlock_entry (gen_pd 256 i4 i3) i2)
        (a0, b0, c0, d0) e s = Inr s' \<and> unmap_inv give push root m0 u0 p0 {} (page_number e) s'"
proof -
  let ?pe = "page_number e"
  let ?inv = "unmap_inv give push root m0 u0 p0"
  let ?I4 = "\<lambda>a p s. ?inv {[a]} p s \<and> path_ok [a] \<and> walk m0 root [a] \<noteq> None"
  let ?I3 = "\<lambda>a b p s. ?inv {[a], [a, b]} p s \<and> path_ok [a, b] \<and> walk m0 root [a] \<noteq> None \<and> walk m0 root [a, b] \<noteq> None"
  let ?I2 = "\<lambda>a b c p s. ?inv {[a], [a, b], [a, b, c]} p s \<and> path_ok [a, b, c] \<and> walk m0 root [a] \<noteq> None \<and>
      walk m0 root [a, b] \<noteq> None \<and> walk m0 root [a, b, c] \<noteq> None"
  have table: "\<exists>f. walk (vs_mem s) root t = Some f" if "?inv L p s" "path_ok t" "length t \<le> 3" "walk m0 root t \<noteq> None" for L p s t
    using unmap_invD(5) [OF that(1,2)] that(3,4) by auto
  show ?thesis
  proof (rule page_loop_inv [where ?I0.0 = "?inv {}" and ?I4.0 = ?I4 and ?I3.0 = ?I3 and ?I2.0 = ?I2], goal_cases)
    case (3 a p s)
    have p: "p0 \<le> p" using unmap_invD(3) [OF 3(5)] .
    have "a \<noteq> 256" "a \<noteq> 257" using region p 3(2-4) by auto
    with 3(1) have a: "path_ok ([] @ [a])" "path_ok [a]" by (simp_all add: path_ok_def)
    have m: "walk m0 root [a] \<noteq> None" by (rule range_mapped_tables(1) [OF mapped p 3(2) a(2) 3(3,4)])
    from unmap_enter_inv [OF 3(5) a(1), of root] m a(2) show ?case by simp
  next
    case (4 a b p s)
    then have J: "?inv {[a]} p s" "path_ok [a]" "walk m0 root [a] \<noteq> None" by auto
    have p: "p0 \<le> p" using unmap_invD(3) [OF J(1)] .
    have ok: "path_ok ([a] @ [b])" "path_ok [a, b]" using J(2) 4(2) by (simp_all add: path_ok_def)
    have m: "walk m0 root [a, b] \<noteq> None" by (rule range_mapped_tables(2) [OF mapped p 4(3) ok(2) 4(4,5)])
    obtain f where f: "walk (vs_mem s) root [a] = Some f" using table [OF J(1,2) _ J(3)] by auto
    from unmap_enter_inv [OF J(1) ok(1) _ f] m J(3) ok(2) show ?case
      by (simp add: insert_commute)
  next
    case (5 a b c p s)
    then have J: "?inv {[a], [a, b]} p s" "path_ok [a, b]" "walk m0 root [a] \<noteq> None" "walk m0 root [a, b] \<noteq> None" by auto
    have p: "p0 \<le> p" using unmap_invD(3) [OF J(1)] .
    have ok: "path_ok ([a, b] @ [c])" "path_ok [a, b, c]" using J(2) 5(3) by (simp_all add: path_ok_def)
    have m: "walk m0 root [a, b, c] \<noteq> None" by (rule range_mapped_tables(3) [OF mapped p 5(4) ok(2) 5(5,6)])
    obtain f where f: "walk (vs_mem s) root [a, b] = Some f" using table [OF J(1,2) _ J(4)] by auto
    from unmap_enter_inv [OF J(1) ok(1) _ f] m J(3,4) ok(2) show ?case
      by (simp add: insert_commute)
  next
    case (6 a b c d s)
    let ?p = "page_number (a, b, c, d)"
    have J: "?inv {[a], [a, b], [a, b, c]} ?p s" "path_ok [a, b, c]" "walk m0 root [a, b, c] \<noteq> None" using 6(3) by auto
    have p: "p0 \<le> ?p" using unmap_invD(3) [OF J(1)] .
    have ok: "path_ok ([a, b, c] @ [d])" using J(2) 6(1) by (simp add: path_ok_def)
    have pn: "path_number ([a, b, c] @ [d]) = ?p" by simp
    obtain f where f: "walk (vs_mem s) root [a, b, c] = Some f" using table [OF J(1,2) _ J(3)] by auto
    have "length ([a, b, c] @ [d]) = 4" "p0 \<le> path_number ([a, b, c] @ [d])"
      "path_number ([a, b, c] @ [d]) < ?pe" using p 6(2) unfolding pn by simp_all
    then have "walk m0 root ([a, b, c] @ [d]) \<noteq> None"
      using mapped ok unfolding range_mapped_def by blast
    then obtain x where x: "walk m0 root ([a, b, c] @ [d]) = Some x" by blast
    have pp: "page_path ?p = [a, b, c] @ [d]" unfolding pn [symmetric] by (rule page_path_number [OF ok]) simp
    have "\<exists>u'. push \<longrightarrow> give x (vs_supply s) = Inr u'"
    proof (cases push)
      case True
      with give_all_prefix [OF gives [OF True] p 6(2)] unmap_invD(6) [OF J(1)] show ?thesis
        unfolding pp x by simp
    qed simp
    then obtain u' where u': "push \<Longrightarrow> give x (vs_supply s) = Inr u'" by blast
    have L: "[a, b, c] @ [d] \<notin> {[a], [a, b], [a, b, c]}" by simp
    from unmap_leaf_inv [OF J(1) [folded pn] ok _ f L x u'] 6(3) show ?case unfolding pn by simp
  next
    case (7 a b c p s)
    then have J: "?inv {[a], [a, b], [a, b, c]} p s" "path_ok [a, b, c]" "walk m0 root [a] \<noteq> None" "walk m0 root [a, b] \<noteq> None" by auto
    have ok: "path_ok ([a, b] @ [c])" "path_ok [a, b]" using J(2) by (simp_all add: path_ok_def)
    obtain f where f: "walk (vs_mem s) root [a, b] = Some f" using table [OF J(1) ok(2) _ J(4)] by auto
    have "?inv (insert ([a, b] @ [c]) {[a], [a, b]}) p s" using J(1) by (simp add: insert_commute)
    from unmap_unlock_inv [OF this ok(1) _ f] J(3,4) ok(2) show ?case by simp
  next
    case (8 a b p s)
    then have J: "?inv {[a], [a, b]} p s" "path_ok [a, b]" "walk m0 root [a] \<noteq> None" by auto
    have ok: "path_ok ([a] @ [b])" "path_ok [a]" using J(2) by (simp_all add: path_ok_def)
    obtain f where f: "walk (vs_mem s) root [a] = Some f" using table [OF J(1) ok(2) _ J(3)] by auto
    have "?inv (insert ([a] @ [b]) {[a]}) p s" using J(1) by (simp add: insert_commute)
    from unmap_unlock_inv [OF this ok(1) _ f] J(3) ok(2) show ?case by simp
  next
    case (9 a p s)
    then have J: "?inv (insert ([] @ [a]) {}) p s" "path_ok ([] @ [a])" by (simp_all only: append_Nil)
    from unmap_unlock_inv [OF J] show ?case by simp
  qed (use p0 pe inv in simp_all)
qed

end
