(* ===== verification/Paging_Ops.thy ===== *)
theory Paging_Ops
  imports Paging_Unmap
begin

text \<open>
  What the operations of the kernel's virtual memory promise (\<open>x64paging.cpp\<close>, \<open>vm.cpp\<close>): unmapping a
  range, looking an address up, testing for a lock, and handing out address space.
\<close>

section \<open>Unmapping\<close>

text \<open>What \<open>unmap\<close> is called on: a range inside one half, every page of it mapped, no entry locked.\<close>

definition unmap_pre :: "u64 \<Rightarrow> u64 \<Rightarrow> 's vas \<Rightarrow> bool" where
  "unmap_pre vstart vend s \<longleftrightarrow>
     vas_ok (vs_mem s) (vs_cr3 s) \<and> unlocked (vs_mem s) (vs_cr3 s) \<and>
     vpage (page_floor vstart) \<le> vpage (page_ceil vend) \<and>
     (vpage (page_ceil vend) \<le> 256 * (512 * 512 * 512) \<or> 258 * (512 * 512 * 512) \<le> vpage (page_floor vstart)) \<and>
     (\<forall>v. ordinary v \<longrightarrow> vpage (page_floor vstart) \<le> vpage v \<longrightarrow> vpage v < vpage (page_ceil vend) \<longrightarrow>
        translate (vs_mem s) (vs_cr3 s) v \<noteq> None)"

lemma x64_unmap_inv:
  assumes pre: "unmap_pre vstart vend s"
    and gives: "push \<Longrightarrow> give_all give (range_frames (vs_mem s) (vs_cr3 s) (vpage (page_floor vstart)) (vpage (page_ceil vend)))
      (vs_supply s) = Inr u"
  shows "\<exists>s'. x64_unmap give vstart vend push False s = Inr s' \<and>
    unmap_inv give push (vs_cr3 s) (vs_mem s) (vs_supply s) (vpage (page_floor vstart)) {} (vpage (page_ceil vend)) s'"
proof -
  let ?p0 = "vpage (page_floor vstart)" and ?pe = "vpage (page_ceil vend)" and ?r = "vs_cr3 s"
  have start: "unmap_inv give push ?r (vs_mem s) (vs_supply s) ?p0 {} ?p0 s"
    using pre by (auto simp: unmap_pre_def unmap_inv_def unlocked_def range_frames_def)
  have mapped: "range_mapped (vs_mem s) ?r ?p0 ?pe"
    unfolding range_mapped_def
  proof (intro allI impI)
    fix q assume q: "path_ok q" "length q = 4" "?p0 \<le> path_number q" "path_number q < ?pe"
    let ?v = "of_nat (path_number q * 4096) :: u64"
    have i: "indices ?v = q" by (rule indices_of_path [OF q(1,2)])
    then have "path_number q = vpage ?v" "ordinary ?v"
      using path_number_indices [of ?v] path_ok_indices [of ?v] q(1) by simp_all
    with pre q(3,4) i show "walk (vs_mem s) ?r q \<noteq> None"
      unfolding unmap_pre_def translate_def by metis
  qed
  obtain a b c d where pos: "pos_of (page_floor vstart) = (a, b, c, d)" by (cases "pos_of (page_floor vstart)")
  have p0: "pos_ok (a, b, c, d)" "?p0 = page_number (a, b, c, d)"
    using pos_ok_pos_of [of "page_floor vstart"] by (simp_all only: pos vpage_def)
  have pe: "page_number (pos_of (page_ceil vend)) = ?pe" by (simp add: vpage_def)
  have le: "?p0 \<le> ?pe" and half: "?pe \<le> 256 * (512 * 512 * 512) \<or> 258 * (512 * 512 * 512) \<le> ?p0"
    using pre by (auto simp: unmap_pre_def)
  from page_loop_unmaps [OF p0 pos_ok_pos_of, of "page_ceil vend", unfolded pe, OF le half mapped gives start]
  obtain s' where s': "x64_unmap give vstart vend push False s = Inr s'"
    "unmap_inv give push ?r (vs_mem s) (vs_supply s) ?p0 {} ?pe s'"
    by (auto simp: x64_unmap_def Let_def pos)
  then show ?thesis by blast
qed

lemma unmap_inv_translate:
  "unmap_inv give push root m0 u0 p0 L pe s \<Longrightarrow> ordinary v \<Longrightarrow>
    translate (vs_mem s) root v = (if p0 \<le> vpage v \<and> vpage v < pe then None else translate m0 root v)"
  using unmap_invD(5) [of give push root m0 u0 p0 L pe s "indices v"] by (simp add: translate_def)



section \<open>Looking an address up\<close>

lemma vread_step:
  assumes "vs_cr3 s = root" "vas_ok (vs_mem s) root" "path_ok (t @ [i])" "length t \<le> 3" "walk (vs_mem s) root t = Some f"
  shows "\<exists>e. vread (table_address t) i s = Inr e \<and> entry (vs_mem s) root (t @ [i]) = Some e \<and>
    walk (vs_mem s) root (t @ [i]) = (if e_present e then Some (e_frame e) else None)"
proof -
  have "recursive (vs_mem s) root" using assms(2) by (simp add: vas_ok_def)
  from vread_entry(1) [OF assms(1) this assms(3-5)] assms(5) show ?thesis
    by (auto simp: walk_step)
qed

text \<open>
  \<open>get_physical_address\<close> agrees with the processor: it returns the frame of the page an address
  translates to and leaves all translations as they are, and panics for an address without one.
\<close>

theorem get_physical_address_correct:
  assumes ok: "vas_ok (vs_mem s) (vs_cr3 s)" "unlocked (vs_mem s) (vs_cr3 s)" "ordinary a"
  shows "case translate (vs_mem s) (vs_cr3 s) a of
      None \<Rightarrow> get_physical_address a False s = Inl (Panic ''Tried to get physical address of not mapped page'')
    | Some f \<Rightarrow> \<exists>s'. get_physical_address a False s = Inr (f, s') \<and> translate (vs_mem s') = translate (vs_mem s)"
proof -
  let ?r = "vs_cr3 s"
  obtain i4 i3 i2 i1 where i: "index_of 39 a = i4" "index_of 30 a = i3" "index_of 21 a = i2" "index_of 12 a = i1" by simp
  have "i4 < 512" "i3 < 512" "i2 < 512" "i1 < 512" using index_of_less i by metis+
  moreover have "i4 \<noteq> 256" "i4 \<noteq> 257" using ok(3) i by (auto simp: ordinary_def)
  ultimately have p: "path_ok ([] @ [i4])" "path_ok ([i4] @ [i3])" "path_ok ([i4, i3] @ [i2])" "path_ok ([i4, i3, i2] @ [i1])"
    by (simp_all add: path_ok_def)
  have rec: "recursive (vs_mem s) ?r" using ok(1) by (simp add: vas_ok_def)
  have "\<not> bit (vs_mem s ?r i4) 9"
    using ok(2) [unfolded unlocked_def, rule_format, OF p(1), of "vs_mem s ?r i4"]
      entry_snoc [of "vs_mem s" ?r "[]" i4] by simp
  then have nb: "lock_entry (gen_pml4 256) i4 s = vupdate (gen_pml4 256) i4 (e_put 9 True) s"
    using vread_entry(1) [OF refl rec p(1)] by (simp add: lock_entry_def)
  from vupdate_entry [OF refl ok(1) p(1), of ?r "e_put 9 True"] obtain s1 where
    s1: "lock_entry (gen_pml4 256) i4 s = Inr s1" "vs_cr3 s1 = ?r" "vas_ok (vs_mem s1) ?r" "walk (vs_mem s1) = walk (vs_mem s)"
    unfolding nb by auto
  from vupdate_entry [OF s1(2,3) p(1), of ?r "e_put 9 False"] obtain s2 where
    s2: "unlock_entry (gen_pml4 256) i4 s1 = Inr s2" "walk (vs_mem s2) = walk (vs_mem s)"
    using s1(4) by (auto simp: unlock_entry_def)
  note rd = vread_step [OF s1(2,3)]
  have tr: "translate (vs_mem s) ?r a = walk (vs_mem s1) ?r [i4, i3, i2, i1]"
    by (simp add: translate_def indices_def i s1(4))
  have none: "walk (vs_mem s1) ?r t = None \<Longrightarrow> [i4, i3, i2, i1] = t @ u \<Longrightarrow> translate (vs_mem s) ?r a = None" for t u
    unfolding tr by (simp add: walk_append)
  note G = get_physical_address_def Let_def i s1(1)
  obtain e4 where e4: "vread (gen_pml4 256) i4 s1 = Inr e4"
    "walk (vs_mem s1) ?r [i4] = (if e_present e4 then Some (e_frame e4) else None)"
    using rd [OF p(1), of ?r] by auto
  show ?thesis
  proof (cases "e_present e4")
    case False
    with none [of "[i4]"] e4 show ?thesis by (simp add: G)
  next
    case P4: True
    with e4(2) obtain e3 where e3: "vread (gen_pdpt 256 i4) i3 s1 = Inr e3"
      "walk (vs_mem s1) ?r [i4, i3] = (if e_present e3 then Some (e_frame e3) else None)"
      using rd [OF p(2)] by auto
    show ?thesis
    proof (cases "e_present e3")
      case False
      with none [of "[i4, i3]"] e3 e4 P4 show ?thesis by (simp add: G)
    next
      case P3: True
      with e3(2) obtain e2 where e2: "vread (gen_pd 256 i4 i3) i2 s1 = Inr e2"
        "walk (vs_mem s1) ?r [i4, i3, i2] = (if e_present e2 then Some (e_frame e2) else None)"
        using rd [OF p(3)] by auto
      show ?thesis
      proof (cases "e_present e2")
        case False
        with none [of "[i4, i3, i2]"] e2 e3 e4 P4 P3 show ?thesis by (simp add: G)
      next
        case P2: True
        with e2(2) obtain e1 where e1: "vread (gen_pt 256 i4 i3 i2) i1 s1 = Inr e1"
          "walk (vs_mem s1) ?r [i4, i3, i2, i1] = (if e_present e1 then Some (e_frame e1) else None)"
          using rd [OF p(4)] by auto
        have "translate (vs_mem s2) = translate (vs_mem s)" using s2(2) by (simp add: translate_def fun_eq_iff)
        with e1 e2(1) e3(1) e4(1) P4 P3 P2 s2(1) show ?thesis unfolding tr by (simp add: G)
      qed
    qed
  qed
qed

theorem get_physical_address_correct_witness:
  "get_physical_address 0x400000 False demo_vas = Inl (Panic ''Tried to get physical address of not mapped page'')"
proof -
  have "ordinary 0x400000" by (simp add: ordinary_def index_of_def)
  moreover have "indices 0x400000 \<noteq> []" by (simp add: indices_def)
  ultimately have "translate (vs_mem demo_vas) (vs_cr3 demo_vas) 0x400000 = None"
    using demo_walk [of "indices 0x400000"] by (simp add: translate_def demo_vas_def [THEN arg_cong [where f = vs_cr3]])
  with get_physical_address_correct [of demo_vas "0x400000"] demo_pre \<open>ordinary 0x400000\<close> show ?thesis
    by (simp add: map_pre_def)
qed

section \<open>Testing for a lock\<close>

text \<open>
  \<open>locked\<close> never sees a lock taken by \<open>lock\<close>: locking an upper entry sets bit 9 and the test
  reads bit 8, so the answer is the same before and after.
\<close>

theorem locked_blind:
  assumes ok: "vas_ok (vs_mem s) (vs_cr3 s)" and p: "i < 512" "i \<noteq> 256" "i \<noteq> 257"
    and lock: "lock_entry (gen_pml4 256) i s = Inr s'"
  shows "entry (vs_mem s') (vs_cr3 s) [i] = map_option (e_put 9 True) (entry (vs_mem s) (vs_cr3 s) [i]) \<and>
    locked a s' = locked a s"
proof -
  let ?r = "vs_cr3 s"
  have pi: "path_ok ([] @ [i])" using p by (simp add: path_ok_def)
  have rec: "recursive (vs_mem s) ?r" and sep: "separate (vs_mem s) ?r" using ok by (auto simp: vas_ok_def)
  let ?m = "set_entry (vs_mem s) ?r i (e_put 9 True (vs_mem s ?r i))"
  have s': "s' = s\<lparr>vs_mem := ?m\<rparr>"
    using lock vread_entry(1) [OF refl rec pi, of ?r] vread_entry(2) [OF refl rec pi, of ?r "e_put 9 True"]
    by (auto simp: lock_entry_def split: if_splits)
  have W: "walk ?m = walk (vs_mem s)" by (rule walk_same) simp_all
  have bit8: "rbind (vread pg j s') f = rbind (vread pg j s) g"
    if "\<And>e e'. bit e' 8 = bit e 8 \<Longrightarrow> f e' = g e" for pg j and f g :: "u64 \<Rightarrow> bool result"
    using that [of "e_put 9 True x" x for x] that [of x x for x]
    by (auto simp: vread_def translate_def s' W split: option.splits)
  have "locked a s' = locked a s"
    unfolding locked_def Let_def by (intro bit8) (auto intro!: bit8 split: if_splits)
  moreover have "entry ?m ?r [i] = Some (e_put 9 True (vs_mem s ?r i))" "entry (vs_mem s) ?r [i] = Some (vs_mem s ?r i)"
    using entry_snoc [of ?m ?r "[]" i] entry_snoc [of "vs_mem s" ?r "[]" i] by simp_all
  ultimately show ?thesis by (simp add: s')
qed

theorem locked_blind_witness:
  "\<exists>s'. lock_entry (gen_pml4 256) 3 demo_vas = Inr s' \<and> locked 0x18000000000 s' = locked 0x18000000000 demo_vas"
proof -
  have ok: "vas_ok (vs_mem demo_vas) (vs_cr3 demo_vas)" using demo_pre by (simp add: map_pre_def)
  have pi: "path_ok ([] @ [3])" by (simp add: path_ok_def)
  have rec: "recursive (vs_mem demo_vas) (vs_cr3 demo_vas)" using ok by (simp add: vas_ok_def)
  obtain s' where s': "lock_entry (gen_pml4 256) 3 demo_vas = Inr s'"
    using vread_entry(1) [OF refl rec pi, of "vs_cr3 demo_vas"] vread_entry(2) [OF refl rec pi, of "vs_cr3 demo_vas"]
    by (simp add: lock_entry_def demo_mem)
  from locked_blind [OF ok _ _ _ s'] s' show ?thesis by auto
qed

section \<open>Handing out address space\<close>

fun alloc_ranges :: "u64 list \<Rightarrow> 's vas \<Rightarrow> (u64 list \<times> 's vas) result" where
  "alloc_ranges [] s = Inr ([], s)"
| "alloc_ranges (sz # szs) s =
     rbind (allocate_address_range sz s) (\<lambda>(a, s). rbind (alloc_ranges szs s) (\<lambda>(as, s). Inr (a # as, s)))"

lemma allocate_address_range_step:
  assumes "allocate_address_range sz s = Inr (a, s')" "unat sz \<le> 2 ^ 63" "4096 dvd unat (vs_lowest s)"
    "0xFFFF800000000000 \<le> vs_lowest s"
  shows "vs_lowest s' = a" "4096 dvd unat a" "0xFFFF800000000000 \<le> a" "unat a + unat sz \<le> unat (vs_lowest s)"
proof -
  have a: "a = vs_lowest s - page_ceil sz" "vs_lowest s' = a" "0xFFFF800000000000 \<le> a"
    using assms(1) by (auto simp: allocate_address_range_def Let_def split: if_splits)
  have pc: "unat (page_ceil sz) = 4096 * ((unat sz + 4095) div 4096)" using assms(2) by (intro unat_page_ceil) simp
  then have sz: "unat sz \<le> unat (page_ceil sz)" "unat (page_ceil sz) \<le> unat sz + 4095" by linarith+
  have "2 ^ 63 + 4095 \<le> unat (vs_lowest s)" using assms(4) by (simp add: word_le_nat_alt)
  then have "page_ceil sz \<le> vs_lowest s" using sz(2) assms(2) by (simp add: word_le_nat_alt)
  then have ua: "unat a = unat (vs_lowest s) - unat (page_ceil sz)" "unat (page_ceil sz) \<le> unat (vs_lowest s)"
    unfolding a(1) by (simp_all add: unat_sub word_le_nat_alt)
  show "vs_lowest s' = a" "0xFFFF800000000000 \<le> a" by (rule a)+
  show "4096 dvd unat a" unfolding ua(1) pc using assms(3) by simp
  show "unat a + unat sz \<le> unat (vs_lowest s)" using ua sz(1) by linarith
qed

text \<open>
  C10. Address ranges are handed out downwards: every range is page aligned, lies in the kernel half,
  and ends where the one before it starts or below, so no two overlap; as long as no request is
  larger than 2 to the 63.
\<close>

theorem allocate_ranges_disjoint:
  assumes "alloc_ranges szs s = Inr (as, s')" "\<forall>sz\<in>set szs. unat sz \<le> 2 ^ 63"
    "4096 dvd unat (vs_lowest s)" "0xFFFF800000000000 \<le> vs_lowest s"
  shows "length as = length szs \<and> (\<forall>a\<in>set as. 4096 dvd unat a \<and> 0xFFFF800000000000 \<le> a) \<and>
    (\<forall>(a, sz)\<in>set (zip as szs). unat a + unat sz \<le> unat (vs_lowest s)) \<and>
    sorted_wrt (\<lambda>(a, _) (b, sz). unat b + unat sz \<le> unat a) (zip as szs)"
  using assms
proof (induction szs arbitrary: s as)
  case (Cons sz szs)
  from Cons.prems(1) obtain a s1 as' where r: "allocate_address_range sz s = Inr (a, s1)"
    "alloc_ranges szs s1 = Inr (as', s')" "as = a # as'" by auto
  note st = allocate_address_range_step [OF r(1) _ Cons.prems(3,4)]
  have sz: "unat sz \<le> 2 ^ 63" using Cons.prems(2) by simp
  from Cons.IH [OF r(2)] Cons.prems(2) st [OF sz] have IH:
    "length as' = length szs" "\<forall>a\<in>set as'. 4096 dvd unat a \<and> 0xFFFF800000000000 \<le> a"
    "\<forall>(b, sz)\<in>set (zip as' szs). unat b + unat sz \<le> unat a"
    "sorted_wrt (\<lambda>(a, _) (b, sz). unat b + unat sz \<le> unat a) (zip as' szs)" by auto
  have "unat a \<le> unat (vs_lowest s)" using st(4) [OF sz] by simp
  with IH(3) have "\<forall>(b, sz)\<in>set (zip as' szs). unat b + unat sz \<le> unat (vs_lowest s)" by fastforce
  with IH st [OF sz] r(3) show ?case by auto
qed auto

theorem allocate_ranges_disjoint_witness:
  "\<exists>as s'. alloc_ranges [0x1000, 0x2001] demo_vas = Inr (as, s') \<and> length as = 2 \<and>
    sorted_wrt (\<lambda>(a, _) (b, sz). unat b + unat sz \<le> unat a) (zip as [0x1000, 0x2001 :: u64])"
proof -
  obtain as s' where r: "alloc_ranges [0x1000, 0x2001] demo_vas = Inr (as, s')"
    by (simp add: allocate_address_range_def demo_vas_def page_ceil_def)
  have "4096 dvd unat (vs_lowest demo_vas)" "0xFFFF800000000000 \<le> vs_lowest demo_vas" by (simp_all add: demo_vas_def)
  from allocate_ranges_disjoint [OF r _ this] r show ?thesis by auto
qed

end
