(* ===== verification/Address_Spaces.thy ===== *)
theory Address_Spaces
  imports Paging_Ops
begin

text \<open>
  New address spaces (\<open>clone_kernel\<close>, \<open>set_foreign\<close> and \<open>release_foreign\<close> of
  \<open>kernel/memory/x64paging.cpp\<close>): the new root shares the kernel half of the current one below its
  top-level entries and has an empty user half, and the current address space is left as it was.
\<close>

section \<open>Pages\<close>

lemma vpage_eq: "vpage v = unat v div 4096 mod 2 ^ 36"
proof -
  let ?x = "unat v div 4096"
  have "unat v div 2 ^ 21 = ?x div 512" "unat v div 2 ^ 30 = ?x div 512 div 512"
    "unat v div 2 ^ 39 = ?x div 512 div 512 div 512" by (simp_all add: div_mult2_eq [symmetric])
  then have "vpage v = ((?x div 512 div 512 div 512 mod 512 * 512 + ?x div 512 div 512 mod 512) * 512 +
      ?x div 512 mod 512) * 512 + ?x mod 512"
    by (simp add: vpage_def pos_of_def index_of_eq)
  also have "\<dots> = ?x mod (512 * (512 * (512 * 512)))"
    unfolding mod_mult2_eq by (simp add: div_mult2_eq)
  finally show ?thesis by simp
qed

lemma index_of_vpage: "index_of 39 v = vpage v div (512 * 512 * 512)"
proof -
  have "vpage v = index_of 39 v * (512 * 512 * 512) + (index_of 30 v * (512 * 512) + (index_of 21 v * 512 + index_of 12 v))"
    by (simp add: vpage_def pos_of_def)
  moreover have "index_of 30 v * (512 * 512) + (index_of 21 v * 512 + index_of 12 v) < 512 * 512 * 512"
    using index_of_less [of 30 v] index_of_less [of 21 v] index_of_less [of 12 v] by linarith
  ultimately show ?thesis by simp
qed

text \<open>A single page of the kernel half.\<close>

lemma kernel_page:
  assumes "4096 dvd unat t" "0xFFFF810000000000 \<le> t" "t < 0xFFFFFFFFFFFFF000"
  shows "page_floor t = t" "page_ceil (t + 4096) = t + 4096" "t < t + 4096" "vpage (t + 4096) = Suc (vpage t)"
    "258 * (512 * 512 * 512) \<le> vpage t" "tables_touched (vpage t) (Suc (vpage t)) = 3"
proof -
  obtain x where x: "unat t = 4096 * x" using assms(1) by blast
  have b: "0xFFFF810000000000 \<le> unat t" "unat t < 0xFFFFFFFFFFFFF000" using assms(2,3) by (simp_all add: word_le_nat_alt word_less_nat_alt)
  have x': "0xFFFF810000000 \<le> x" "x < 0xFFFFFFFFFFFFF" using b x by simp_all
  have u: "unat (t + 4096) = 4096 * Suc x" using x b by (simp add: unat_word_ariths)
  show "page_floor t = t" unfolding word_unat_eq_iff by (simp add: unat_page_floor x)
  show "page_ceil (t + 4096) = t + 4096"
    unfolding word_unat_eq_iff using u x' by (simp add: unat_page_ceil)
  show "t < t + 4096" using x u by (simp add: word_less_nat_alt)
  have m: "y mod 2 ^ 36 = y - 0xFFFF000000000" if "0xFFFF000000000 \<le> y" "y < 0x10000000000000" for y :: nat
    using that mod_add_self2 [of "y - 0xFFFF000000000" "2 ^ 36"] mod_mult_self2 [of "y - 0xFFFF000000000" "2 ^ 36" "0xFFFF"]
    by simp
  have "vpage t = x - 0xFFFF000000000" "vpage (t + 4096) = Suc x - 0xFFFF000000000"
    using x' m [of x] m [of "Suc x"] by (simp_all only: vpage_eq x u) simp_all
  then show "vpage (t + 4096) = Suc (vpage t)" "258 * (512 * 512 * 512) \<le> vpage t"
    using x' by simp_all
  show "tables_touched (vpage t) (Suc (vpage t)) = 3" by (simp add: tables_touched_def tables_left_def)
qed

section \<open>Pages outside the tables\<close>

text \<open>A walk reads the entries on its path only.\<close>

lemma walk_agree:
  assumes "\<And>p g i. path_ok (p @ [i]) \<Longrightarrow> length p \<le> 3 \<Longrightarrow> walk mem root p = Some g \<Longrightarrow> mem' g i = mem g i"
    and "path_ok q" "length q \<le> 4"
  shows "walk mem' root q = walk mem root q"
  using assms(2,3)
proof (induction q rule: rev_induct)
  case (snoc j q)
  then have q: "path_ok q" "length q \<le> 3" "path_ok (q @ [j])" by auto
  then have "walk mem' root q = walk mem root q" by (intro snoc.IH) simp_all
  with assms(1) [OF q(3,2)] show ?case by (cases "walk mem root q") (simp_all add: walk_step walk_stuck)
qed simp

text \<open>The memory keeps what the address space at \<open>root\<close> reads: the pages of its tables, apart from
  the recursive entries of the root.\<close>

definition tables_kept :: "u64 \<Rightarrow> frames \<Rightarrow> frames \<Rightarrow> bool" where
  "tables_kept root mem mem' \<longleftrightarrow> (\<forall>p g i. path_ok (p @ [i]) \<longrightarrow> length p \<le> 3 \<longrightarrow> walk mem root p = Some g \<longrightarrow> mem' g i = mem g i)"

lemma tables_kept_walk: "tables_kept root mem mem' \<Longrightarrow> path_ok q \<Longrightarrow> length q \<le> 4 \<Longrightarrow> walk mem' root q = walk mem root q"
  unfolding tables_kept_def by (rule walk_agree) auto

lemma tables_kept_entry:
  assumes "tables_kept root mem mem'" "path_ok q" "q \<noteq> []" "length q \<le> 4"
  shows "entry mem' root q = entry mem root q"
proof -
  obtain p j where q: "q = p @ [j]" using assms(3) by (cases q rule: rev_cases) auto
  with assms have "path_ok p" "length p \<le> 3" by auto
  with tables_kept_walk [OF assms(1), of p] assms q show ?thesis
    by (auto simp: tables_kept_def split: option.splits)
qed

lemma tables_kept_ok:
  assumes "tables_kept root mem mem'" "separate mem root" "unlocked mem root"
  shows "separate mem' root" "unlocked mem' root"
  using assms(2,3) tables_kept_walk [OF assms(1)] tables_kept_entry [OF assms(1)]
  unfolding separate_def unlocked_def by (auto dest: order_trans)

lemma tables_kept_fresh:
  "tables_kept root mem mem' \<Longrightarrow> fresh_frames mem root fs \<Longrightarrow> fresh_frames mem' root fs"
  unfolding fresh_frames_def by (auto simp: tables_kept_walk)

lemma tables_kept_translate:
  "tables_kept root mem mem' \<Longrightarrow> ordinary v \<Longrightarrow> translate mem' root v = translate mem root v"
  by (simp add: translate_def tables_kept_walk)

section \<open>A cloned root\<close>

text \<open>The root \<open>f\<close> has the upper entries of \<open>root\<close>, itself at 256 and an empty lower half.\<close>

definition cloned :: "frames \<Rightarrow> u64 \<Rightarrow> u64 \<Rightarrow> bool" where
  "cloned mem root f \<longleftrightarrow> recursive mem f \<and> (\<forall>i<256. mem f i = 0) \<and> (\<forall>i<512. 258 \<le> i \<longrightarrow> mem f i = mem root i)"

lemma cloned_walk:
  assumes "cloned mem root f" "path_ok (a # js)"
  shows "walk mem f (a # js) = (if 258 \<le> a then walk mem root (a # js) else None)"
proof -
  have "a < 512" "a < 256 \<or> 258 \<le> a" using assms(2) by (auto simp: path_ok_def)
  with assms(1) show ?thesis by (auto simp: cloned_def e_present_def walk.simps)
qed

lemma cloned_ok:
  assumes c: "cloned mem root f" and ok: "separate mem root" "unlocked mem root"
    and f: "\<And>p. path_ok p \<Longrightarrow> length p \<le> 3 \<Longrightarrow> walk mem root p \<noteq> Some f"
  shows "vas_ok mem f" "unlocked mem f"
proof -
  have W: "walk mem f p = Some h \<longleftrightarrow> (if p = [] then h = f else 258 \<le> hd p \<and> walk mem root p = Some h)"
    if "path_ok p" for p h
    using cloned_walk [OF c] that by (cases p) auto
  have "separate mem f"
    unfolding separate_def
  proof (intro allI impI)
    fix p q h
    assume A: "path_ok p" "path_ok q" "length p \<le> 3" "length q \<le> 3" "walk mem f p = Some h" "walk mem f q = Some h"
    then show "p = q"
      using W [of p h] W [of q h] f separateD [OF ok(1) A(1-4)] by (auto split: if_splits)
  qed
  then show "vas_ok mem f" using c by (simp add: vas_ok_def cloned_def)
  show "unlocked mem f"
    unfolding unlocked_def
  proof (intro allI impI)
    fix q e
    assume q: "path_ok q" "q \<noteq> []" "length q \<le> 4" "entry mem f q = Some e"
    obtain p j where pj: "q = p @ [j]" using q(2) by (cases q rule: rev_cases) auto
    show "\<not> bit e 9"
    proof (cases "p = []")
      case True
      with q pj have j: "j < 512" "e = mem f j" "j < 256 \<or> 258 \<le> j" by (auto simp: path_ok_def entry_def)
      have "entry mem root [j] = Some (mem root j)" by (simp add: entry_def)
      then have "\<not> bit (mem root j) 9" using ok(2) q pj True by (auto simp: unlocked_def)
      with j c show ?thesis by (auto simp: cloned_def)
    next
      case False
      with q pj obtain h where "walk mem f p = Some h" "mem h j = e" by (auto split: option.splits)
      with False W [of p h] q(1) pj have "entry mem root q = Some e" by auto
      with ok(2) q show ?thesis by (auto simp: unlocked_def)
    qed
  qed
qed

lemma cloned_translate:
  assumes "cloned mem root f" "ordinary v"
  shows "translate mem f v = (if 258 \<le> index_of 39 v then translate mem root v else None)"
  using cloned_walk [OF assms(1), of "index_of 39 v"] assms(2) path_ok_indices [of v]
  by (simp add: translate_def indices_def)

lemma cloned_fresh:
  assumes "cloned mem root f" "fresh_frames mem root (f # fs)"
  shows "fresh_frames mem f fs"
proof -
  have "walk mem f p \<noteq> Some h" if "h \<in> set fs" "path_ok p" "length p \<le> 3" for h p
    using that assms(2) cloned_walk [OF assms(1)] by (cases p) (auto simp: fresh_frames_def)
  with assms(2) show ?thesis by (auto simp: fresh_frames_def)
qed

section \<open>The recursive entries of another root\<close>

lemma translate_gen:
  assumes "recursive mem root"
  shows "translate mem root (gen_pml4 256) = Some root"
    and "e_present (mem root 257) \<Longrightarrow> translate mem root (gen_pdpt 256 257) = Some (e_frame (mem root 257))"
    and "e_present (mem root 257) \<Longrightarrow> recursive mem (e_frame (mem root 257)) \<Longrightarrow>
      translate mem root (gen_pml4 257) = Some (e_frame (mem root 257))"
  using assms by (simp_all add: translate_def gen_pml4_def gen_pdpt_def indices_gen_pt recursive_def walk.simps)

text \<open>\<open>set_foreign\<close>: the entry 257 of the current root and the entry 256 of the other one.\<close>

lemma set_foreign_run:
  assumes "recursive (vs_mem s) (vs_cr3 s)" "\<not> e_present (vs_mem s (vs_cr3 s) 257)" "e_frame f = f" "f \<noteq> vs_cr3 s"
  shows "\<exists>e. e_present e \<and> e_frame e = f \<and>
    set_foreign f s = Inr (s\<lparr>vs_mem := (vs_mem s)(vs_cr3 s := (vs_mem s (vs_cr3 s))(257 := e),
       f := (vs_mem s f)(256 := e_assign f (vs_mem s f 256)))\<rparr>)"
proof -
  let ?r = "vs_cr3 s" and ?e = "e_assign f (e_put 0 True (vs_mem s (vs_cr3 s) 257))"
  let ?m = "\<lambda>e. set_entry (vs_mem s) ?r 257 e"
  have r: "recursive (?m e) ?r" for e using assms(1) by (simp add: recursive_def)
  note t = translate_gen(1) [OF assms(1)] translate_gen(1) [OF r] translate_gen(2) [OF r, of ?e]
  have "set_foreign f s = Inr (s\<lparr>vs_mem := set_entry (?m ?e) f 256 (e_assign f (vs_mem s f 256))\<rparr>)"
    using t assms(2-4) by (simp add: set_foreign_def vread_def vupdate_def e_present_def [symmetric])
  then show ?thesis using assms(3,4) by (intro exI [of _ ?e]) simp
qed

text \<open>\<open>release_foreign\<close> only clears the entry 257 of the current root.\<close>

lemma release_foreign_run:
  assumes "recursive (vs_mem s) (vs_cr3 s)"
  shows "\<exists>e. \<not> e_present e \<and>
    release_foreign s = Inr (s\<lparr>vs_mem := set_entry (vs_mem s) (vs_cr3 s) 257 e\<rparr>)"
proof -
  let ?r = "vs_cr3 s" and ?e = "e_put 0 False (e_assign 0 (vs_mem s (vs_cr3 s) 257))"
  have r: "recursive (set_entry (vs_mem s) ?r 257 e) ?r" for e using assms(1) by (simp add: recursive_def)
  have "release_foreign s = Inr (s\<lparr>vs_mem := set_entry (vs_mem s) ?r 257 ?e\<rparr>)"
    using translate_gen(1) [OF assms(1)] translate_gen(1) [OF r] by (simp add: release_foreign_def vupdate_def)
  then show ?thesis by (intro exI [of _ ?e]) simp
qed

lemma copy_entries_run:
  assumes "recursive (vs_mem s) (vs_cr3 s)" "e_present (vs_mem s (vs_cr3 s) 257)" "e_frame (vs_mem s (vs_cr3 s) 257) = f"
    "recursive (vs_mem s) f" "f \<noteq> vs_cr3 s" "set is \<subseteq> {258..<512}"
  shows "copy_entries is s = Inr (s\<lparr>vs_mem := (vs_mem s)(f := (\<lambda>i. if i \<in> set is then vs_mem s (vs_cr3 s) i else vs_mem s f i))\<rparr>)"
  using assms
proof (induction "is" arbitrary: s)
  case (Cons i "is")
  let ?r = "vs_cr3 s"
  let ?m = "set_entry (vs_mem s) f i (vs_mem s ?r i)"
  have i: "i < 512" "258 \<le> i" using Cons.prems(6) by auto
  have "vread (gen_pml4 256) i s = Inr (vs_mem s ?r i)"
    using translate_gen(1) [OF Cons.prems(1)] i by (simp add: vread_def)
  moreover have "vupdate (gen_pml4 257) i (\<lambda>_. vs_mem s ?r i) s = Inr (s\<lparr>vs_mem := ?m\<rparr>)"
    using translate_gen(3) [OF Cons.prems(1,2)] Cons.prems(3,4) i by (simp add: vupdate_def)
  moreover have "copy_entries is (s\<lparr>vs_mem := ?m\<rparr>) = Inr (s\<lparr>vs_mem := ?m(f := (\<lambda>j. if j \<in> set is then ?m ?r j else ?m f j))\<rparr>)"
  proof -
    let ?t = "s\<lparr>vs_mem := ?m\<rparr>"
    have a: "vs_mem ?t = ?m" "vs_cr3 ?t = ?r" "?t\<lparr>vs_mem := m\<rparr> = s\<lparr>vs_mem := m\<rparr>" for m by simp_all
    show ?thesis
      using Cons.IH [of ?t, unfolded a] Cons.prems i by (auto simp: recursive_def)
  qed
  moreover have "?m(f := (\<lambda>j. if j \<in> set is then ?m ?r j else ?m f j)) =
      (vs_mem s)(f := (\<lambda>j. if j \<in> set (i # is) then vs_mem s ?r j else vs_mem s f j))"
    using Cons.prems(5) by (auto simp: fun_eq_iff)
  ultimately show ?case by (simp add: fun_upd_def)
qed simp

section \<open>Cloning\<close>

text \<open>The page the new root is cleared at.\<close>

definition temp_page :: "'s vas \<Rightarrow> u64" where
  "temp_page s = (if vs_temp s = 0 then vs_lowest s - 4096 else vs_temp s)"

text \<open>
  What \<open>clone_kernel\<close> is called on: no foreign address space is set, the supply has the new root and the
  tables for the temporary page, which is a free page of the kernel half.
\<close>

definition clone_pre :: "('s \<Rightarrow> u64 list \<Rightarrow> bool) \<Rightarrow> u64 \<Rightarrow> u64 list \<Rightarrow> 's vas \<Rightarrow> bool" where
  "clone_pre avail f fs s \<longleftrightarrow>
     vas_ok (vs_mem s) (vs_cr3 s) \<and> unlocked (vs_mem s) (vs_cr3 s) \<and> \<not> e_present (vs_mem s (vs_cr3 s) 257) \<and>
     avail (vs_supply s) (f # fs) \<and> fresh_frames (vs_mem s) (vs_cr3 s) (f # fs) \<and> 3 \<le> length fs \<and>
     4096 dvd unat (temp_page s) \<and> 0xFFFF810000000000 \<le> temp_page s \<and> temp_page s < 0xFFFFFFFFFFFFF000 \<and>
     translate (vs_mem s) (vs_cr3 s) (temp_page s) = None"

context frame_supply
begin

text \<open>Mapping, clearing and unmapping the temporary page: the frame is zero, the address space as before,
  and so are the frames \<open>ks\<close>.\<close>

lemma temp_page_cleared:
  assumes s: "vas_ok (vs_mem s) r" "unlocked (vs_mem s) r" "vs_cr3 s = r"
    and fs: "avail (vs_supply s) fs" "fresh_frames (vs_mem s) r (f # fs @ ks)" "3 + k \<le> length fs"
    and t: "4096 dvd unat t" "0xFFFF810000000000 \<le> t" "t < 0xFFFFFFFFFFFFF000" "translate (vs_mem s) r t = None"
  shows "\<exists>s1 s2 s3 gs. vm_map_at pop t f vm_system s = Inr s1 \<and> vzero t s1 = Inr s2 \<and>
    x64_unmap give t (t + 4096) False False s2 = Inr s3 \<and> vs_cr3 s3 = r \<and> vas_ok (vs_mem s3) r \<and>
    unlocked (vs_mem s3) r \<and> vs_mem s3 f = (\<lambda>_. 0) \<and> vs_mem s3 r 257 = vs_mem s r 257 \<and>
    (\<forall>v. ordinary v \<longrightarrow> translate (vs_mem s3) r v = translate (vs_mem s) r v) \<and>
    avail (vs_supply s3) gs \<and> k \<le> length gs \<and> fresh_frames (vs_mem s3) r (f # gs @ ks) \<and>
    (\<forall>h\<in>set ks. vs_mem s3 h = vs_mem s h)"
proof -
  note K = kernel_page [OF t(1-3)]
  have o: "ordinary t" using K(5) by (simp add: ordinary_def index_of_vpage) linarith
  have free: "translate (vs_mem s) r v = None" if "vpage v = vpage t" for v
  proof -
    have "indices v = indices t" using that
      by (metis path_number_indices path_ok_indices ordinary_def index_of_vpage path_number_inj length_indices o)
    with t(4) show ?thesis by (simp add: translate_def)
  qed
  have "fresh_frames (vs_mem s) r fs" using fs(2) by (auto simp: fresh_frames_def)
  then have pre: "map_pre avail t (t + 4096) fs s"
    using s fs K free o t(2) unfolding map_pre_def by (simp add: le_Suc_eq)
  have "tables_touched (vpage (page_floor t)) (vpage (page_ceil (t + 4096))) + k \<le> length fs"
    using K fs(3) by simp
  moreover have "fresh_frames (vs_mem s) (vs_cr3 s) (fs @ f # ks)" using fs(2) s(3) by (auto simp: fresh_frames_def)
  ultimately obtain s1 where s1: "vm_map_at pop t f vm_system s = Inr s1"
    "map_inv avail (f # ks) False r (vs_mem s) (vpage t) f False True {} (Suc (vpage t)) k s1"
    using x64_map_inv_rest [OF pre, of vm_system k "f # ks" f] K s(3)
    by (auto simp: vm_map_at_def vm_system_def)
  note D1 = map_invD [OF s1(2)]
  from D1(4) obtain gs where gs: "avail (vs_supply s1) gs" "k \<le> length gs" "fresh_frames (vs_mem s1) r (gs @ f # ks)" by blast
  have ff: "e_frame f = f" "\<And>p. path_ok p \<Longrightarrow> length p \<le> 3 \<Longrightarrow> walk (vs_mem s1) r p \<noteq> Some f"
    using gs(3) by (auto simp: fresh_frames_def)
  have T1: "translate (vs_mem s1) r v = (if vpage v = vpage t then Some f else translate (vs_mem s) r v)" if "ordinary v" for v
    using map_inv_translate [OF s1(2) that] ff(1) by (auto simp: less_Suc_eq_le)
  let ?s2 = "s1\<lparr>vs_mem := (vs_mem s1)(f := (\<lambda>_. 0))\<rparr>"
  have s2: "vzero t s1 = Inr ?s2" using T1 [OF o] D1(1) by (simp add: vzero_def)
  have keep: "tables_kept r (vs_mem s1) (vs_mem ?s2)" using ff(2) by (auto simp: tables_kept_def)
  have fr: "f \<noteq> r" using ff(2) [of "[]"] by auto
  have ok1: "separate (vs_mem s1) r" "recursive (vs_mem s1) r" "unlocked (vs_mem s1) r"
    using D1(2,3) by (auto simp: vas_ok_def unlocked_def)
  have ok2: "vas_ok (vs_mem ?s2) r" "unlocked (vs_mem ?s2) r"
    using tables_kept_ok [OF keep ok1(1,3)] ok1(2) fr by (auto simp: vas_ok_def recursive_def)
  note T2 = tables_kept_translate [OF keep]
  have "unmap_pre t (t + 4096) ?s2"
    unfolding unmap_pre_def using ok2 K D1(1) T1 T2 by (simp add: le_Suc_eq)
  from x64_unmap_inv [OF this, of False give] obtain s3 where
    s3: "x64_unmap give t (t + 4096) False False ?s2 = Inr s3"
    "unmap_inv give False r (vs_mem ?s2) (vs_supply ?s2) (vpage t) {} (Suc (vpage t)) s3"
    using K D1(1) by auto
  note D3 = unmap_invD [OF s3(2)]
  have W: "walk (vs_mem s3) r p = walk (vs_mem s1) r p" if "path_ok p" "length p \<le> 3" for p
    using D3(5) [of p] tables_kept_walk [OF keep, of p] that by simp
  then have "fresh_frames (vs_mem s3) r (f # gs @ ks)" using gs(3) by (auto simp: fresh_frames_def)
  moreover have "vs_mem s3 h = vs_mem s h" if "h \<in> set ks" for h
  proof -
    have h: "h \<noteq> f" "\<And>p. path_ok p \<Longrightarrow> length p \<le> 3 \<Longrightarrow> walk (vs_mem s1) r p \<noteq> Some h"
      using gs(3) that by (auto simp: fresh_frames_def)
    then have "vs_mem s3 h = vs_mem ?s2 h" using D3(7) [of h] tables_kept_walk [OF keep] by simp
    with h(1) D1(7) [of h] that show ?thesis by simp
  qed
  moreover have "vs_mem s3 f = (\<lambda>_. 0)" using D3(7) [of f] ff(2) tables_kept_walk [OF keep] by simp
  moreover have "vs_mem s3 r 257 = vs_mem s r 257" using D3(8) D1(8) fr by simp
  moreover have "unlocked (vs_mem s3) r" using D3(4) unfolding unlocked_def by blast
  moreover have "translate (vs_mem s3) r v = translate (vs_mem s) r v" if "ordinary v" for v
    using unmap_inv_translate [OF s3(2) that] T2 [OF that] T1 [OF that] free [of v] by (auto simp: less_Suc_eq_le)
  moreover have "vs_supply s3 = vs_supply s1" using D3(6) by simp
  ultimately show ?thesis
    using s1(1) s2 s3(1) D3(1,2) gs(1,2) by (intro exI [of _ s1] exI [of _ ?s2] exI [of _ s3] exI [of _ gs]) simp
qed

lemma clone_kernel_run:
  assumes pre: "clone_pre avail f fs s" and k: "3 + k \<le> length fs"
    and ks: "fresh_frames (vs_mem s) (vs_cr3 s) (f # fs @ ks)"
  shows "\<exists>s' gs. clone_kernel pop give s = Inr (f, s') \<and> vs_cr3 s' = vs_cr3 s \<and> vas_ok (vs_mem s') (vs_cr3 s) \<and>
    unlocked (vs_mem s') (vs_cr3 s) \<and> cloned (vs_mem s') (vs_cr3 s) f \<and> f \<noteq> vs_cr3 s \<and>
    (\<forall>v. ordinary v \<longrightarrow> translate (vs_mem s') (vs_cr3 s) v = translate (vs_mem s) (vs_cr3 s) v) \<and>
    avail (vs_supply s') gs \<and> k \<le> length gs \<and> fresh_frames (vs_mem s') (vs_cr3 s) (f # gs @ ks) \<and>
    (\<forall>h\<in>set ks. vs_mem s' h = vs_mem s h)"
proof -
  let ?r = "vs_cr3 s" and ?t = "temp_page s"
  obtain s0 where s0: "(if vs_temp s = 0 then rbind (allocate_address_range 4096 s) (\<lambda>(t, s). Inr (s\<lparr>vs_temp := t\<rparr>)) else Inr s) = Inr s0"
    "vs_mem s0 = vs_mem s" "vs_cr3 s0 = ?r" "vs_supply s0 = vs_supply s" "vs_temp s0 = ?t"
  proof (cases "vs_temp s = 0")
    case True
    have "page_ceil 4096 = (4096 :: u64)" by (simp add: page_ceil_def)
    moreover have "\<not> vs_lowest s - 4096 < 0xFFFF800000000000"
    proof -
      have "(0xFFFF800000000000 :: u64) \<le> 0xFFFF810000000000" by simp
      also have "\<dots> \<le> vs_lowest s - 4096" using pre True by (simp add: clone_pre_def temp_page_def)
      finally show ?thesis by (simp add: not_less)
    qed
    ultimately show thesis using that True by (simp add: allocate_address_range_def temp_page_def Let_def)
  qed (use that in \<open>simp add: temp_page_def\<close>)
  from pre have av: "avail (vs_supply s0) (f # fs)" by (simp add: clone_pre_def s0(4))
  from pop_law [OF av] obtain u where u: "pop (vs_supply s0) = Inr (f, u)" "avail u fs" by blast
  let ?s1 = "s0\<lparr>vs_supply := u\<rparr>"
  from pre ks s0 u(2) temp_page_cleared [of ?s1 ?r fs f ks k ?t give, OF _ _ _ _ _ k] obtain sa sb s3 gs where
    step: "vm_map_at pop ?t f vm_system ?s1 = Inr sa" "vzero ?t sa = Inr sb"
      "x64_unmap give ?t (?t + 4096) False False sb = Inr s3" and
    s3: "vs_cr3 s3 = ?r" "vas_ok (vs_mem s3) ?r" "unlocked (vs_mem s3) ?r" "vs_mem s3 f = (\<lambda>_. 0)"
      "vs_mem s3 ?r 257 = vs_mem s ?r 257"
      "\<And>v. ordinary v \<Longrightarrow> translate (vs_mem s3) ?r v = translate (vs_mem s) ?r v"
      "avail (vs_supply s3) gs" "k \<le> length gs" "fresh_frames (vs_mem s3) ?r (f # gs @ ks)" "\<And>h. h \<in> set ks \<Longrightarrow> vs_mem s3 h = vs_mem s h"
    by (auto simp: clone_pre_def)
  have ff: "e_frame f = f" "\<And>p. path_ok p \<Longrightarrow> length p \<le> 3 \<Longrightarrow> walk (vs_mem s3) ?r p \<noteq> Some f"
    using s3(9) by (auto simp: fresh_frames_def)
  then have ff: "e_frame f = f" "f \<noteq> ?r" "\<And>p. path_ok p \<Longrightarrow> length p \<le> 3 \<Longrightarrow> walk (vs_mem s3) ?r p \<noteq> Some f"
    using ff(2) [of "[]"] by auto
  have rec: "recursive (vs_mem s3) ?r" and sep: "separate (vs_mem s3) ?r" using s3(2) by (auto simp: vas_ok_def)
  have free: "\<not> e_present (vs_mem s3 ?r 257)" using pre s3(5) by (simp add: clone_pre_def)
  from set_foreign_run [of s3 f] rec free ff s3(1) obtain e where
    e: "e_present e" "e_frame e = f" and
    s4: "set_foreign f s3 = Inr (s3\<lparr>vs_mem := (vs_mem s3)(?r := (vs_mem s3 ?r)(257 := e), f := (vs_mem s3 f)(256 := e_assign f (vs_mem s3 f 256)))\<rparr>)"
    by auto
  let ?m4 = "(vs_mem s3)(?r := (vs_mem s3 ?r)(257 := e), f := (vs_mem s3 f)(256 := e_assign f (vs_mem s3 f 256)))"
  let ?s4 = "s3\<lparr>vs_mem := ?m4\<rparr>"
  have rec4: "recursive ?m4 ?r" "recursive ?m4 f" "e_present (?m4 ?r 257)" "e_frame (?m4 ?r 257) = f"
    using rec e ff(1,2) by (auto simp: recursive_def)
  define m5 where m5: "m5 = ?m4(f := (\<lambda>i. if i \<in> set [258..<512] then ?m4 ?r i else ?m4 f i))"
  let ?s5 = "s3\<lparr>vs_mem := m5\<rparr>"
  have a: "vs_mem ?s4 = ?m4" "vs_cr3 ?s4 = ?r" "?s4\<lparr>vs_mem := m\<rparr> = s3\<lparr>vs_mem := m\<rparr>" for m using s3(1) by simp_all
  have sub: "set [258..<512] \<subseteq> {258..<512}" by (simp only: set_upt order_refl)
  have cp: "copy_entries [258..<512] ?s4 = Inr ?s5"
    using copy_entries_run [of ?s4 f "[258..<512]", unfolded a, OF rec4(1,3,4,2) ff(2) sub] unfolding m5 .
  have m5': "m5 = ?m4(f := (\<lambda>i. if 258 \<le> i \<and> i < 512 then ?m4 ?r i else ?m4 f i))"
    unfolding m5 by (simp only: set_upt atLeastLessThan_iff)
  have run: "clone_kernel pop give s = Inr (f, ?s5)"
    unfolding clone_kernel_def s0(1) pop_frame_def
    by (simp only: rbind.simps u(1) prod.case Let_def s0(5) step s4 cp)
  have kept: "tables_kept ?r (vs_mem s3) m5"
    unfolding tables_kept_def
  proof (intro allI impI)
    fix p g i
    assume p: "path_ok (p @ [i])" "length p \<le> 3" "walk (vs_mem s3) ?r p = Some g"
    with ff(3) [of p] have "g \<noteq> f" by auto
    with path_not_recursive [OF sep p] show "m5 g i = vs_mem s3 g i" unfolding m5' by auto
  qed
  have "recursive m5 ?r" using rec4(1) ff(2) by (simp add: recursive_def m5')
  then have "vas_ok m5 ?r" "unlocked m5 ?r" using tables_kept_ok [OF kept sep s3(3)] by (auto simp: vas_ok_def)
  moreover have "cloned m5 ?r f" using rec4(2) s3(4) ff(2) by (auto simp: cloned_def recursive_def m5')
  moreover have "translate m5 ?r v = translate (vs_mem s) ?r v" if "ordinary v" for v
    using tables_kept_translate [OF kept that] s3(6) [OF that] by simp
  moreover have "m5 h = vs_mem s h" if "h \<in> set ks" for h
  proof -
    have "walk (vs_mem s3) ?r [] \<noteq> Some h" "h \<noteq> f" using s3(9) that path_ok_Nil unfolding fresh_frames_def by fastforce+
    then show ?thesis using s3(10) [OF that] by (simp add: m5')
  qed
  ultimately show ?thesis
    using run s3(1,7,8) tables_kept_fresh [OF kept s3(9)] ff(2)
    by (intro exI [of _ ?s5] exI [of _ gs]) simp
qed

end

text \<open>
  C9. \<open>clone_kernel\<close> returns a new root. The current address space stays well formed and translates
  every address as before. The new root is the root of a well-formed address space with no entry
  locked, where the kernel half translates as in the current one and nothing of the user half is
  mapped.
\<close>

theorem clone_kernel_correct:
  assumes "clone_pre (pmm_avail i) f fs s"
  shows "\<exists>s'. clone_kernel (pmm_pop i) give s = Inr (f, s') \<and> vs_cr3 s' = vs_cr3 s \<and>
    vas_ok (vs_mem s') (vs_cr3 s) \<and> unlocked (vs_mem s') (vs_cr3 s) \<and> vas_ok (vs_mem s') f \<and> unlocked (vs_mem s') f \<and>
    (\<forall>v. ordinary v \<longrightarrow> translate (vs_mem s') (vs_cr3 s) v = translate (vs_mem s) (vs_cr3 s) v \<and>
       translate (vs_mem s') f v = (if 258 \<le> index_of 39 v then translate (vs_mem s) (vs_cr3 s) v else None))"
proof -
  have "3 + 0 \<le> length fs" using assms by (simp add: clone_pre_def)
  moreover have "fresh_frames (vs_mem s) (vs_cr3 s) (f # fs @ [])" using assms by (simp add: clone_pre_def)
  ultimately obtain s' gs where
    s': "clone_kernel (pmm_pop i) give s = Inr (f, s')" "vs_cr3 s' = vs_cr3 s" "vas_ok (vs_mem s') (vs_cr3 s)"
    "unlocked (vs_mem s') (vs_cr3 s)" "cloned (vs_mem s') (vs_cr3 s) f"
    "\<forall>v. ordinary v \<longrightarrow> translate (vs_mem s') (vs_cr3 s) v = translate (vs_mem s) (vs_cr3 s) v"
    "fresh_frames (vs_mem s') (vs_cr3 s) (f # gs @ [])"
    using frames.clone_kernel_run [OF assms] by blast
  have "separate (vs_mem s') (vs_cr3 s)" using s'(3) by (simp add: vas_ok_def)
  from cloned_ok [OF s'(5) this s'(4)] s'(7) have "vas_ok (vs_mem s') f" "unlocked (vs_mem s') f"
    by (auto simp: fresh_frames_def)
  with s' cloned_translate [OF s'(5)] show ?thesis by auto
qed

theorem clone_kernel_correct_witness:
  "\<exists>s'. clone_kernel (pmm_pop 0) (\<lambda>f m. Inr m) demo_vas = Inr (0x200000, s') \<and> vas_ok (vs_mem s') 0x200000 \<and>
    translate (vs_mem s') 0x200000 0xFFFFFFFF7FFFF000 = None"
proof -
  have p: "vas_ok (vs_mem demo_vas) 0x1000" "unlocked (vs_mem demo_vas) 0x1000" "pmm_avail 0 demo_pmm (boot_frames demo_pmm)"
    "fresh_frames (vs_mem demo_vas) 0x1000 (boot_frames demo_pmm)"
    using demo_pre by (simp_all add: map_pre_def demo_vas_def)
  have t: "temp_page demo_vas = 0xFFFFFFFF7FFFF000" by (simp add: temp_page_def demo_vas_def)
  have o: "ordinary 0xFFFFFFFF7FFFF000" by (simp add: ordinary_def index_of_def)
  have d: "vs_cr3 demo_vas = 0x1000" "vs_supply demo_vas = demo_pmm" by (simp_all add: demo_vas_def)
  have "clone_pre (pmm_avail 0) 0x200000 [0x201000, 0x202000, 0x203000, 0x204000, 0x205000, 0x206000, 0x207000] demo_vas"
    using p demo_translate [OF o] unfolding clone_pre_def t d demo_frames
    by (simp add: demo_mem e_present_def)
  from clone_kernel_correct [OF this, of "\<lambda>f m. Inr m"] obtain s' where
    "clone_kernel (pmm_pop 0) (\<lambda>f m. Inr m) demo_vas = Inr (0x200000, s')" "vas_ok (vs_mem s') 0x200000"
    "\<forall>v. ordinary v \<longrightarrow> translate (vs_mem s') 0x200000 v =
      (if 258 \<le> index_of 39 v then translate (vs_mem demo_vas) 0x1000 v else None)" by (auto simp: d)
  with o demo_translate [OF o] show ?thesis by auto
qed

end
