(* ===== verification/User_Memory.thy ===== *)
theory User_Memory
  imports Address_Spaces
begin

text \<open>
  The user half of an address space: mapping a range of pages with a frame of its own for each
  (\<open>vm::map\<close> of a range, \<open>kernel/memory/vm.h\<close>), and reading, writing and copying bytes through the
  translation of the processor (\<open>copy<uint8_t>\<close> of \<open>kernel/memory/memory.h\<close>).
\<close>

section \<open>Mapping a range\<close>

lemma user_page:
  fixes p :: nat
  assumes "p < 256 * (512 * 512 * 512)"
  defines "t \<equiv> (of_nat (4096 * p) :: u64)"
  shows "unat t = 4096 * p" "t + 4096 = of_nat (4096 * Suc p)" "page_floor t = t" "page_ceil (t + 4096) = t + 4096"
    "t < t + 4096" "vpage t = p" "vpage (t + 4096) = Suc p" "t < 0xFFFF800000000000"
proof -
  show u: "unat t = 4096 * p" unfolding t_def by (rule unat_of_nat_u64) (use assms(1) in simp)
  show n: "t + 4096 = of_nat (4096 * Suc p)" by (simp add: t_def)
  have u': "unat (t + 4096) = 4096 * Suc p" unfolding n by (rule unat_of_nat_u64) (use assms(1) in simp)
  show "page_floor t = t" unfolding word_unat_eq_iff by (simp add: unat_page_floor u)
  show "page_ceil (t + 4096) = t + 4096"
    unfolding word_unat_eq_iff using u' assms(1) by (simp add: unat_page_ceil)
  show "t < t + 4096" "t < 0xFFFF800000000000" using u u' assms(1) by (simp_all add: word_less_nat_alt)
  show "vpage t = p" "vpage (t + 4096) = Suc p" using assms(1) by (simp_all add: vpage_eq u u')
qed

text \<open>
  \<open>user_range root m0 p gs ks m\<close>: in the memory \<open>m\<close> the pages from \<open>p\<close> on are mapped to the frames \<open>gs\<close>,
  and compared with \<open>m0\<close> no other translation, no frame of \<open>ks\<close> and no entry of the kernel half changed.
\<close>

definition user_range :: "u64 \<Rightarrow> frames \<Rightarrow> nat \<Rightarrow> u64 list \<Rightarrow> u64 list \<Rightarrow> frames \<Rightarrow> bool" where
  "user_range root m0 p gs ks m \<longleftrightarrow> vas_ok m root \<and> unlocked m root \<and>
     (\<forall>v. ordinary v \<longrightarrow> translate m root v =
        (if p \<le> vpage v \<and> vpage v < p + length gs then Some (gs ! (vpage v - p)) else translate m0 root v)) \<and>
     (\<forall>h\<in>set ks. m h = m0 h) \<and> m root 257 = m0 root 257 \<and>
     (\<forall>q. path_ok q \<longrightarrow> q \<noteq> [] \<longrightarrow> length q \<le> 4 \<longrightarrow> \<not> hd q < 256 \<longrightarrow> entry m root q = entry m0 root q)"

context frame_supply
begin

lemma vm_map_page_run:
  assumes p: "p < 256 * (512 * 512 * 512)"
    and s: "vas_ok (vs_mem s) (vs_cr3 s)" "unlocked (vs_mem s) (vs_cr3 s)"
    and free: "\<And>v. ordinary v \<Longrightarrow> vpage v = p \<Longrightarrow> translate (vs_mem s) (vs_cr3 s) v = None"
    and fs: "avail (vs_supply s) (g # fs)" "fresh_frames (vs_mem s) (vs_cr3 s) (g # fs @ ks)" "3 + k \<le> length fs"
  shows "\<exists>s' gs. vm_map_page pop (of_nat (4096 * p)) vm_user s = Inr s' \<and> avail (vs_supply s') gs \<and> k \<le> length gs \<and>
    fresh_frames (vs_mem s') (vs_cr3 s) (gs @ g # ks) \<and>
    map_inv avail (g # ks) True (vs_cr3 s) (vs_mem s) p g True True {} (Suc p) 0 s'"
proof -
  note K = user_page [OF p]
  let ?t = "of_nat (4096 * p) :: u64"
  from pop_law [OF fs(1)] obtain u where u: "pop (vs_supply s) = Inr (g, u)" "avail u fs" by blast
  let ?s = "s\<lparr>vs_supply := u\<rparr>"
  have t3: "tables_touched p (Suc p) = 3" by (simp add: tables_touched_def tables_left_def)
  have fr: "fresh_frames (vs_mem s) (vs_cr3 s) fs" "fresh_frames (vs_mem s) (vs_cr3 s) (fs @ g # ks)"
    using fs(2) by (auto simp: fresh_frames_def)
  have pre: "map_pre avail ?t (?t + 4096) fs ?s"
    using s u(2) fr(1) fs(3) K p free t3 unfolding map_pre_def by (simp add: le_Suc_eq del: of_nat_mult of_nat_numeral)
  have "tables_touched (vpage (page_floor ?t)) (vpage (page_ceil (?t + 4096))) + k \<le> length fs"
    unfolding K(3,4,6,7) t3 by (rule fs(3))
  from x64_map_inv_rest [OF pre _ this, of vm_user "g # ks" g] fr(2) obtain s' where
    s': "x64_map pop ?t (?t + 4096) g vm_user ?s = Inr s'"
    "map_inv avail (g # ks) True (vs_cr3 s) (vs_mem s) p g True True {} (Suc p) k s'"
    unfolding K(3,4,6,7) using p by (auto simp: vm_user_def)
  from map_invD(4) [OF s'(2)] obtain gs where "avail (vs_supply s') gs" "k \<le> length gs"
    "fresh_frames (vs_mem s') (vs_cr3 s) (gs @ g # ks)" by blast
  moreover have "vm_map_page pop ?t vm_user s = Inr s'"
    unfolding vm_map_page_def pop_frame_def u(1) rbind.simps prod.case by (rule s'(1))
  ultimately show ?thesis using map_inv_less [OF s'(2), of 0] by blast
qed

lemma vm_map_range_run:
  assumes "p + m \<le> 256 * (512 * 512 * 512)" "h \<le> 4096 * (p + m)" "m = 0 \<or> 4096 * (p + m - 1) < h" "m < fuel"
    and "vas_ok (vs_mem s) (vs_cr3 s)" "unlocked (vs_mem s) (vs_cr3 s)"
    and "\<And>v. ordinary v \<Longrightarrow> p \<le> vpage v \<Longrightarrow> vpage v < p + m \<Longrightarrow> translate (vs_mem s) (vs_cr3 s) v = None"
    and "avail (vs_supply s) fs" "fresh_frames (vs_mem s) (vs_cr3 s) (fs @ ks)" "4 * m + k \<le> length fs"
  shows "\<exists>s' gs rest. vm_map_range fuel pop (of_nat (4096 * p)) (of_nat h) vm_user s = Inr s' \<and> vs_cr3 s' = vs_cr3 s \<and>
    length gs = m \<and> user_range (vs_cr3 s) (vs_mem s) p gs ks (vs_mem s') \<and>
    avail (vs_supply s') rest \<and> k \<le> length rest \<and> fresh_frames (vs_mem s') (vs_cr3 s) (rest @ gs @ ks)"
  using assms
proof (induction m arbitrary: p s fs ks fuel)
  case 0
  then obtain fuel' where f: "fuel = Suc fuel'" by (cases fuel) auto
  have "\<not> (of_nat (4096 * p) :: u64) < of_nat h"
    using 0(1,2) unat_of_nat_u64 [of "4096 * p"] unat_of_nat_u64 [of h] by (simp add: word_less_nat_alt del: of_nat_mult)
  then show ?case
    using 0 unfolding f
    by - (rule exI [of _ s], rule exI [of _ "[]"], rule exI [of _ fs], auto simp: user_range_def)
next
  case (Suc m)
  let ?r = "vs_cr3 s" and ?t = "of_nat (4096 * p) :: u64"
  from Suc.prems(4) obtain fuel' where f: "fuel = Suc fuel'" "m < fuel'" by (cases fuel) auto
  from Suc.prems(10) obtain g fs' where fs: "fs = g # fs'" "4 * m + k + 3 \<le> length fs'" by (cases fs) auto
  have p: "p < 256 * (512 * 512 * 512)" using Suc.prems(1) by simp
  note K = user_page [OF p]
  have free: "translate (vs_mem s) ?r v = None" if "ordinary v" "vpage v = p" for v
    using Suc.prems(7) [OF that(1)] that(2) by simp
  from vm_map_page_run [OF p Suc.prems(5,6) free, of g fs' ks "4 * m + k"] Suc.prems(8,9) fs obtain s1 hs where
    s1: "vm_map_page pop ?t vm_user s = Inr s1" "avail (vs_supply s1) hs" "4 * m + k \<le> length hs"
      "fresh_frames (vs_mem s1) ?r (hs @ g # ks)"
      "map_inv avail (g # ks) True ?r (vs_mem s) p g True True {} (Suc p) 0 s1" by auto
  note D = map_invD [OF s1(5)]
  have g: "e_frame g = g" using s1(4) by (simp add: fresh_frames_def)
  have T: "translate (vs_mem s1) ?r v = (if vpage v = p then Some g else translate (vs_mem s) ?r v)" if "ordinary v" for v
    using map_inv_translate [OF s1(5) that] g by (auto simp: less_Suc_eq_le)
  have free1: "translate (vs_mem s1) ?r v = None" if "ordinary v" "Suc p \<le> vpage v" "vpage v < Suc p + m" for v
    using T [OF that(1)] Suc.prems(7) [OF that(1)] that(2,3) by simp
  have un: "unlocked (vs_mem s1) ?r" using D(3) by (auto simp: unlocked_def)
  from Suc.IH [of "Suc p" fuel' s1 hs "g # ks"] Suc.prems(1-3) f(2) D(1,2) un free1 s1(2-4) obtain s' gs rest where
    s': "vm_map_range fuel' pop (of_nat (4096 * Suc p)) (of_nat h) vm_user s1 = Inr s'" "vs_cr3 s' = ?r"
      "length gs = m" "user_range ?r (vs_mem s1) (Suc p) gs (g # ks) (vs_mem s')" "avail (vs_supply s') rest"
      "k \<le> length rest" "fresh_frames (vs_mem s') ?r (rest @ gs @ g # ks)" by auto
  have "unat (of_nat h :: u64) = h" by (rule unat_of_nat_u64) (use Suc.prems(1,2) in simp)
  then have "?t < of_nat h" using Suc.prems(3) K(1) by (simp add: word_less_nat_alt del: of_nat_mult)
  then have run: "vm_map_range fuel pop ?t (of_nat h) vm_user s = Inr s'"
    using s1(1) s'(1) unfolding f(1) vm_map_range.simps K(2) by simp
  have "user_range ?r (vs_mem s) p (g # gs) ks (vs_mem s')"
    using s'(3,4) T D(7,8,9) unfolding user_range_def
    by (auto simp: nth_Cons' Suc_diff_Suc le_eq_less_or_eq)
  moreover have "fresh_frames (vs_mem s') ?r (rest @ (g # gs) @ ks)" using s'(7) by (auto simp: fresh_frames_def)
  ultimately show ?case using run s'(2,3,5,6) 
    by - (rule exI [of _ s'], rule exI [of _ "g # gs"], rule exI [of _ rest], simp)
qed

end

section \<open>Bytes\<close>

definition get_byte :: "nat \<Rightarrow> u64 \<Rightarrow> u8" where
  "get_byte k w = ucast (drop_bit (8 * k) w)"

definition put_byte :: "nat \<Rightarrow> u8 \<Rightarrow> u64 \<Rightarrow> u64" where
  "put_byte k b w = (w AND NOT (push_bit (8 * k) (mask 8))) OR push_bit (8 * k) (ucast b)"

lemma get_put_byte:
  assumes "j < 8" "k < 8"
  shows "get_byte j (put_byte k b w) = (if j = k then b else get_byte j w)"
proof (rule bit_word_eqI)
  fix n assume n: "n < LENGTH(8)"
  have "j = k" if "8 * k \<le> 8 * j + n" "8 * j + n - 8 * k < 8" using that n by simp
  then show "bit (get_byte j (put_byte k b w)) n = bit (if j = k then b else get_byte j w) n"
    using n assms by (auto simp: get_byte_def put_byte_def bit_simps dest: bit_imp_le_length)
qed

text \<open>The byte a virtual address translates to, and its place in memory.\<close>

definition offset_of :: "u64 \<Rightarrow> nat" where
  "offset_of v = unat v mod 4096"

definition byte_in :: "(nat \<Rightarrow> u64) \<Rightarrow> nat \<Rightarrow> u8" where
  "byte_in page i = get_byte (i mod 8) (page (i div 8))"

definition byte_at :: "frames \<Rightarrow> u64 \<Rightarrow> u64 \<Rightarrow> u8 option" where
  "byte_at mem root v = (case translate mem root v of None \<Rightarrow> None | Some f \<Rightarrow> Some (byte_in (mem f) (offset_of v)))"

definition load_byte :: "u64 \<Rightarrow> 's vas \<Rightarrow> u8 result" where
  "load_byte v s = (case byte_at (vs_mem s) (vs_cr3 s) v of None \<Rightarrow> Inl Page_Fault | Some b \<Rightarrow> Inr b)"

definition store_byte :: "u64 \<Rightarrow> u8 \<Rightarrow> 's vas \<Rightarrow> 's vas result" where
  "store_byte v b s = (case translate (vs_mem s) (vs_cr3 s) v of None \<Rightarrow> Inl Page_Fault
     | Some f \<Rightarrow> let i = offset_of v div 8 in
         Inr (s\<lparr>vs_mem := (vs_mem s)(f := (vs_mem s f)(i := put_byte (offset_of v mod 8) b (vs_mem s f i)))\<rparr>))"

lemma byte_in_put:
  "byte_in (page(i div 8 := put_byte (i mod 8) b (page (i div 8)))) j = (if j = i then b else byte_in page j)"
proof (cases "j div 8 = i div 8")
  case True
  then have "j mod 8 = i mod 8 \<longleftrightarrow> j = i" by (metis div_mult_mod_eq)
  with True show ?thesis by (simp add: byte_in_def get_put_byte)
next
  case False
  then show ?thesis by (auto simp: byte_in_def)
qed

section \<open>Copying\<close>

fun load_bytes :: "nat \<Rightarrow> u64 \<Rightarrow> 's vas \<Rightarrow> u8 list result" where
  "load_bytes 0 v s = Inr []"
| "load_bytes (Suc n) v s = rbind (load_byte v s) (\<lambda>b. rbind (load_bytes n (v + 1) s) (\<lambda>bs. Inr (b # bs)))"

fun store_bytes :: "u8 list \<Rightarrow> u64 \<Rightarrow> 's vas \<Rightarrow> 's vas result" where
  "store_bytes [] v s = Inr s"
| "store_bytes (b # bs) v s = rbind (store_byte v b s) (store_bytes bs (v + 1))"

text \<open>\<open>n\<close> moves of \<open>w\<close> bytes each; a move reads all its bytes before it writes.\<close>

fun copy_units :: "nat \<Rightarrow> nat \<Rightarrow> u64 \<Rightarrow> u64 \<Rightarrow> 's vas \<Rightarrow> 's vas result" where
  "copy_units w 0 src dest s = Inr s"
| "copy_units w (Suc n) src dest s =
     rbind (load_bytes w src s) (\<lambda>bs. rbind (store_bytes bs dest s) (copy_units w n (src + of_nat w) (dest + of_nat w)))"

text \<open>\<open>copy<uint8_t>\<close> as the processor runs it: words, then the bytes that are left.\<close>

definition vm_copy :: "u64 \<Rightarrow> u64 \<Rightarrow> nat \<Rightarrow> 's vas \<Rightarrow> 's vas result" where
  "vm_copy src dest n s =
     rbind (copy_units 8 (n div 8) src dest s)
       (copy_units 1 (n mod 8) (src + of_nat (n - n mod 8)) (dest + of_nat (n - n mod 8)))"

text \<open>
  The frames \<open>D\<close> of the destination are no tables and not those of the source, and no two addresses of
  the destination are the same byte.
\<close>

definition copy_pre :: "frames \<Rightarrow> u64 \<Rightarrow> u64 set \<Rightarrow> u64 \<Rightarrow> u64 \<Rightarrow> nat \<Rightarrow> bool" where
  "copy_pre m root D src dest n \<longleftrightarrow>
     (\<forall>h\<in>D. \<forall>p. path_ok p \<longrightarrow> length p \<le> 3 \<longrightarrow> walk m root p \<noteq> Some h) \<and>
     (\<forall>j<n. ordinary (src + of_nat j) \<and> (\<exists>g. translate m root (src + of_nat j) = Some g \<and> g \<notin> D)) \<and>
     (\<forall>j<n. ordinary (dest + of_nat j) \<and> (\<exists>g\<in>D. translate m root (dest + of_nat j) = Some g)) \<and>
     (\<forall>i<n. \<forall>j<n. translate m root (dest + of_nat i) = translate m root (dest + of_nat j) \<longrightarrow>
        offset_of (dest + of_nat i) = offset_of (dest + of_nat j) \<longrightarrow> i = j)"

definition copied_upto :: "frames \<Rightarrow> u64 \<Rightarrow> u64 set \<Rightarrow> u64 \<Rightarrow> u64 \<Rightarrow> nat \<Rightarrow> frames \<Rightarrow> bool" where
  "copied_upto m0 root D src dest k m \<longleftrightarrow> (\<forall>h. h \<notin> D \<longrightarrow> m h = m0 h) \<and>
     (\<forall>j<k. byte_at m root (dest + of_nat j) = byte_at m0 root (src + of_nat j))"

lemma copied_kept:
  assumes "copy_pre m0 root D src dest n" "\<forall>h. h \<notin> D \<longrightarrow> m h = m0 h"
  shows "tables_kept root m0 m"
  using assms by (auto simp: tables_kept_def copy_pre_def)

lemma copy_load:
  assumes pre: "copy_pre m0 root D src dest n" and c: "copied_upto m0 root D src dest k (vs_mem s)" "vs_cr3 s = root"
    and l: "i + w \<le> n"
  shows "load_bytes w (src + of_nat i) s = Inr (map (\<lambda>j. the (byte_at m0 root (src + of_nat j))) [i..<i + w])"
  using l
proof (induction w arbitrary: i)
  case (Suc w)
  have "i < n" using Suc.prems by simp
  with pre obtain g where g: "ordinary (src + of_nat i)" "translate m0 root (src + of_nat i) = Some g" "g \<notin> D"
    unfolding copy_pre_def by blast
  have "translate (vs_mem s) root (src + of_nat i) = Some g"
    using tables_kept_translate [OF copied_kept [OF pre] g(1)] c g(2) by (auto simp: copied_upto_def)
  then have "load_byte (src + of_nat i) s = Inr (the (byte_at m0 root (src + of_nat i)))"
    using g(2,3) c by (simp add: load_byte_def byte_at_def copied_upto_def)
  moreover have "src + of_nat i + 1 = src + of_nat (Suc i)" by simp
  moreover have "[i..<i + Suc w] = i # [Suc i..<Suc i + w]" by (simp add: upt_conv_Cons del: upt_Suc)
  moreover have "load_bytes w (src + of_nat (Suc i)) s = Inr (map (\<lambda>j. the (byte_at m0 root (src + of_nat j))) [Suc i..<Suc i + w])"
    using Suc.prems by (intro Suc.IH) simp
  ultimately show ?case by (simp only: load_bytes.simps rbind.simps list.map)
qed simp

lemma copy_store_byte:
  assumes pre: "copy_pre m0 root D src dest n" and c: "copied_upto m0 root D src dest k (vs_mem s)" "vs_cr3 s = root"
    and k: "k < n"
  shows "\<exists>s'. store_byte (dest + of_nat k) (the (byte_at m0 root (src + of_nat k))) s = Inr s' \<and> vs_cr3 s' = root \<and>
    vs_supply s' = vs_supply s \<and> copied_upto m0 root D src dest (Suc k) (vs_mem s')"
proof -
  let ?v = "dest + of_nat k" and ?b = "the (byte_at m0 root (src + of_nat k))"
  have T: "translate m root (dest + of_nat j) = translate m0 root (dest + of_nat j)"
    if "j < n" "\<forall>h. h \<notin> D \<longrightarrow> m h = m0 h" for j m
    using tables_kept_translate [OF copied_kept [OF pre that(2)]] pre that(1) by (auto simp: copy_pre_def)
  have out: "\<forall>h. h \<notin> D \<longrightarrow> vs_mem s h = m0 h" using c(1) by (simp add: copied_upto_def)
  from pre k obtain g where g: "g \<in> D" "translate m0 root ?v = Some g" by (auto simp: copy_pre_def)
  define m where m: "m = (vs_mem s)(g := (vs_mem s g)(offset_of ?v div 8 := put_byte (offset_of ?v mod 8) ?b (vs_mem s g (offset_of ?v div 8))))"
  have out': "\<forall>h. h \<notin> D \<longrightarrow> m h = m0 h" using out g(1) by (auto simp: m)
  have page: "byte_in (m h) i = (if h = g \<and> i = offset_of ?v then ?b else byte_in (vs_mem s h) i)" for h i
    by (simp add: m byte_in_put)
  have B: "byte_at m root (dest + of_nat j) = (if j = k then Some ?b else byte_at (vs_mem s) root (dest + of_nat j))"
    if j: "j \<le> k" for j
  proof -
    have jn: "j < n" using j k by simp
    with pre obtain h where h: "translate m0 root (dest + of_nat j) = Some h" unfolding copy_pre_def by blast
    have "h = g \<and> offset_of (dest + of_nat j) = offset_of ?v \<longleftrightarrow> j = k"
      using pre jn k h g(2) unfolding copy_pre_def by (metis option.inject)
    then show ?thesis using T [OF jn out] T [OF jn out'] h by (simp add: byte_at_def page)
  qed
  have "\<exists>h. translate m0 root (src + of_nat k) = Some h" using pre k unfolding copy_pre_def by blast
  then have "byte_at m0 root (src + of_nat k) = Some ?b" by (auto simp: byte_at_def)
  then have "copied_upto m0 root D src dest (Suc k) m"
    using B out' c(1) by (auto simp: copied_upto_def less_Suc_eq)
  moreover have "store_byte ?v ?b s = Inr (s\<lparr>vs_mem := m\<rparr>)"
    using T [OF k out] g(2) c(2) by (simp add: store_byte_def Let_def m)
  ultimately show ?thesis using c(2) by (intro exI [of _ "s\<lparr>vs_mem := m\<rparr>"]) simp
qed

lemma copy_store:
  assumes pre: "copy_pre m0 root D src dest n" and c: "copied_upto m0 root D src dest k (vs_mem s)" "vs_cr3 s = root"
    and l: "k + w \<le> n"
  shows "\<exists>s'. store_bytes (map (\<lambda>j. the (byte_at m0 root (src + of_nat j))) [k..<k + w]) (dest + of_nat k) s = Inr s' \<and>
    vs_cr3 s' = root \<and> vs_supply s' = vs_supply s \<and> copied_upto m0 root D src dest (k + w) (vs_mem s')"
  using c l
proof (induction w arbitrary: k s)
  case (Suc w)
  from copy_store_byte [OF pre Suc.prems(1,2)] Suc.prems(3) obtain s1 where
    s1: "store_byte (dest + of_nat k) (the (byte_at m0 root (src + of_nat k))) s = Inr s1" "vs_cr3 s1 = root"
      "vs_supply s1 = vs_supply s" "copied_upto m0 root D src dest (Suc k) (vs_mem s1)" by auto
  have "dest + of_nat k + 1 = dest + of_nat (Suc k)" by simp
  moreover have "[k..<k + Suc w] = k # [Suc k..<Suc k + w]" by (simp add: upt_conv_Cons del: upt_Suc)
  moreover have "k + Suc w = Suc k + w" "Suc k + w \<le> n" using Suc.prems(3) by simp_all
  ultimately show ?case
    using Suc.IH [OF s1(4,2)] s1(1,3) by (simp only: store_bytes.simps rbind.simps list.map)
qed auto

lemma copy_units_run:
  assumes pre: "copy_pre m0 root D src dest n" and c: "copied_upto m0 root D src dest k (vs_mem s)" "vs_cr3 s = root"
    and l: "k + w * u \<le> n"
  shows "\<exists>s'. copy_units w u (src + of_nat k) (dest + of_nat k) s = Inr s' \<and>
    vs_cr3 s' = root \<and> vs_supply s' = vs_supply s \<and> copied_upto m0 root D src dest (k + w * u) (vs_mem s')"
  using c l
proof (induction u arbitrary: k s)
  case (Suc u)
  then have l: "k + w \<le> n" "k + w + w * u \<le> n" by simp_all
  from copy_store [OF pre Suc.prems(1,2) l(1)] obtain s1 where
    s1: "store_bytes (map (\<lambda>j. the (byte_at m0 root (src + of_nat j))) [k..<k + w]) (dest + of_nat k) s = Inr s1"
      "vs_cr3 s1 = root" "vs_supply s1 = vs_supply s" "copied_upto m0 root D src dest (k + w) (vs_mem s1)" by blast
  have "a + of_nat k + of_nat w = a + of_nat (k + w)" for a :: u64 by simp
  moreover have "k + w * Suc u = k + w + w * u" by simp
  ultimately show ?case
    using Suc.IH [OF s1(4,2) l(2)] copy_load [OF pre Suc.prems(1,2) l(1)] s1(1,3)
    by (simp only: copy_units.simps rbind.simps)
qed simp

text \<open>The copy is complete, and only the frames of the destination change.\<close>

lemma vm_copy_run:
  assumes pre: "copy_pre (vs_mem s) (vs_cr3 s) D src dest n"
  shows "\<exists>s'. vm_copy src dest n s = Inr s' \<and> vs_cr3 s' = vs_cr3 s \<and> vs_supply s' = vs_supply s \<and>
    copied_upto (vs_mem s) (vs_cr3 s) D src dest n (vs_mem s')"
proof -
  let ?c = "copied_upto (vs_mem s) (vs_cr3 s) D src dest"
  have start: "?c 0 (vs_mem s)" by (simp add: copied_upto_def)
  have l: "0 + 8 * (n div 8) \<le> n" "n - n mod 8 + 1 * (n mod 8) \<le> n" by simp_all
  have e: "0 + 8 * (n div 8) = n - n mod 8" "n - n mod 8 + 1 * (n mod 8) = n"
    using div_mult_mod_eq [of n 8] by linarith+
  from copy_units_run [OF pre start refl l(1)] obtain s1 where
    s1: "copy_units 8 (n div 8) src dest s = Inr s1" "vs_cr3 s1 = vs_cr3 s" "vs_supply s1 = vs_supply s"
      "?c (n - n mod 8) (vs_mem s1)" unfolding e by auto
  from copy_units_run [OF pre s1(4,2) l(2)] s1(1,3) show ?thesis unfolding e by (auto simp: vm_copy_def)
qed

section \<open>The address space a root was cloned from\<close>

text \<open>The tables of the address space at \<open>root\<close> that a clone does not share: the root and those of the user half.\<close>

definition own_tables :: "frames \<Rightarrow> u64 \<Rightarrow> u64 set" where
  "own_tables mem root = {h. \<exists>p. path_ok p \<and> length p \<le> 3 \<and> (p = [] \<or> hd p < 256) \<and> walk mem root p = Some h}"

lemma own_tables_list:
  assumes ok: "vas_ok mem root" and c: "cloned mem root f" and fr: "fresh_frames mem root (f # fs)"
  shows "\<exists>ks. set ks = own_tables mem root \<and> fresh_frames mem f (fs @ ks)"
proof -
  have sep: "separate mem root" and rec: "recursive mem root" using ok by (auto simp: vas_ok_def)
  have "{p. set p \<subseteq> {..<512} \<and> length p \<le> 3} = {p :: nat list. (\<forall>i\<in>set p. i < 512) \<and> length p \<le> 3}" by auto
  then have "finite {p :: nat list. (\<forall>i\<in>set p. i < 512) \<and> length p \<le> 3}"
    using finite_lists_length_le [of "{..<512 :: nat}" 3] by simp
  then have "finite ((\<lambda>p. the (walk mem root p)) ` {p. (\<forall>i\<in>set p. i < 512) \<and> length p \<le> 3})" by (rule finite_imageI)
  moreover have "own_tables mem root \<subseteq> (\<lambda>p. the (walk mem root p)) ` {p. (\<forall>i\<in>set p. i < 512) \<and> length p \<le> 3}"
  proof
    fix h assume "h \<in> own_tables mem root"
    then obtain p where p: "path_ok p" "length p \<le> 3" "walk mem root p = Some h" by (auto simp: own_tables_def)
    have "h = the (walk mem root p)" by (simp add: p(3))
    moreover have "p \<in> {p. (\<forall>i\<in>set p. i < 512) \<and> length p \<le> 3}" using p(1,2) by (simp add: path_ok_def)
    ultimately show "h \<in> (\<lambda>p. the (walk mem root p)) ` {p. (\<forall>i\<in>set p. i < 512) \<and> length p \<le> 3}" by (rule image_eqI)
  qed
  ultimately have "finite (own_tables mem root)" by (rule rev_finite_subset)
  then obtain ks where ks: "set ks = own_tables mem root" "distinct ks" using finite_distinct_list by blast
  have ff: "fresh_frames mem f fs" by (rule cloned_fresh [OF c fr])
  have "e_frame h = h \<and> (\<forall>q. path_ok q \<longrightarrow> length q \<le> 3 \<longrightarrow> walk mem f q \<noteq> Some h) \<and> h \<notin> set fs" if h: "h \<in> own_tables mem root" for h
  proof -
    from h obtain p where p: "path_ok p" "length p \<le> 3" "p = [] \<or> hd p < 256" "walk mem root p = Some h"
      by (auto simp: own_tables_def)
    have "e_frame h = h"
    proof (cases p rule: rev_cases)
      case Nil
      with p(4) rec show ?thesis by (metis e_frame_frame option.inject recursive_def walk.simps(1))
    next
      case (snoc q i)
      with p(4) show ?thesis by (auto simp: walk_append walk.simps split: option.splits if_splits)
    qed
    moreover have "walk mem f q \<noteq> Some h" if q: "path_ok q" "length q \<le> 3" for q
    proof
      assume w: "walk mem f q = Some h"
      show False
      proof (cases q)
        case Nil
        with w p fr show False by (auto simp: fresh_frames_def)
      next
        case (Cons a js)
        with w cloned_walk [OF c] q(1) have "258 \<le> a" "walk mem root q = Some h" by (auto split: if_splits)
        with separateD [OF sep p(1) q(1) p(2) q(2) p(4)] Cons p(3) show False by auto
      qed
    qed
    moreover have "h \<notin> set fs" using fr p by (auto simp: fresh_frames_def)
    ultimately show ?thesis by blast
  qed
  then have "fresh_frames mem f (fs @ ks)" using ff ks by (auto simp: fresh_frames_def)
  with ks(1) show ?thesis by blast
qed

text \<open>Mapping pages in the user half of the clone and writing to them leaves the other address space alone.\<close>

lemma clone_keeps_root:
  assumes c: "cloned m0 root f" and u: "user_range f m0 p gs ks m" and ks: "own_tables m0 root \<subseteq> set ks"
    and fr: "fresh_frames m f (gs @ ks)" and w: "\<And>h. h \<notin> set gs \<Longrightarrow> m' h = m h"
  shows "tables_kept root m0 m'"
  unfolding tables_kept_def
proof (intro allI impI)
  fix q h i
  assume q: "path_ok (q @ [i])" "length q \<le> 3" "walk m0 root q = Some h"
  have pq: "path_ok q" using q(1) by simp
  show "m' h i = m0 h i"
  proof (cases "q = [] \<or> hd q < 256")
    case True
    then have "h \<in> set ks" using ks q pq by (auto simp: own_tables_def)
    moreover have "h \<notin> set gs" using calculation fr by (auto simp: fresh_frames_def)
    ultimately show ?thesis using u w by (simp add: user_range_def)
  next
    case False
    then have half: "q \<noteq> []" "\<not> hd q < 256" "\<not> hd (q @ [i]) < 256" by auto
    have E: "entry m f r = entry m0 f r" if "path_ok r" "r \<noteq> []" "length r \<le> 4" "\<not> hd r < 256" for r
      using u that by (simp add: user_range_def)
    have "walk m0 f q = Some h" using cloned_walk [OF c, of "hd q" "tl q"] half pq q(3) by (auto simp: path_ok_def)
    moreover from this have "walk m f q = Some h"
      using walk_entry [OF half(1), of m f] walk_entry [OF half(1), of m0 f] E [OF pq half(1) _ half(2)] q(2) by simp
    moreover have "entry m f (q @ [i]) = entry m0 f (q @ [i])" using q half(3) by (intro E) simp_all
    ultimately have "m h i = m0 h i" "h \<notin> set gs" using fr pq q(2) by (auto simp: fresh_frames_def)
    then show ?thesis using w by simp
  qed
qed

end
