(* ===== verification/Queue.thy ===== *)
theory Queue
  imports Priority_List_Order
begin

text \<open>
  The queue of the scheduler, \<open>utils::variable_frequency_queue\<close> (\<open>kernel/utils/vfq.h\<close>): a priority list
  whose elements move back by an amount that falls with their priority each time they are popped. The
  values are pointers to threads; the null pointer is 0.
\<close>

section \<open>The queue as the code has it\<close>

type_synonym pointer = nat

record vfq_element =
  ve_priority :: u64
  ve_data :: u64
  ve_value :: pointer

definition vfq_before :: "vfq_element \<Rightarrow> vfq_element \<Rightarrow> bool" where
  "vfq_before a b \<longleftrightarrow> ve_data a < ve_data b"

definition null_element :: vfq_element where
  "null_element = \<lparr>ve_priority = 0, ve_data = 0, ve_value = 0\<rparr>"

record vfq =
  vq_list :: "vfq_element pseq"
  vq_current :: vfq_element
  vq_valid_current :: bool
  vq_load :: u64

definition empty_vfq :: vfq where
  "empty_vfq = \<lparr>vq_list = empty_pseq, vq_current = null_element, vq_valid_current = False, vq_load = 0\<rparr>"

definition vfq_size :: "vfq \<Rightarrow> u64" where
  "vfq_size q = ps_size (vq_list q)"

definition vfq_pop :: "u64 \<Rightarrow> vfq \<Rightarrow> (pointer \<times> vfq) result" where
  "vfq_pop levels q =
     (if vq_load q = 0 then Inl (Panic ''called `pop()` on empty variable frequency queue'')
      else let l = (if vq_valid_current q then ps_insert vfq_before (vq_current q) (vq_list q) else vq_list q) in
        rbind (ps_pop l) (\<lambda>(e, l).
        let e = e\<lparr>ve_data := ve_data e + (levels - ve_priority e)\<rparr> in
        Inr (ve_value e, q\<lparr>vq_list := ps_insert vfq_before e l, vq_current := e\<rparr>)))"

definition vfq_push :: "u64 \<Rightarrow> pointer \<Rightarrow> vfq \<Rightarrow> vfq result" where
  "vfq_push priority v q =
     rbind (if ps_size (vq_list q) \<noteq> 0
            then case ps_top (vq_list q) of Some e \<Rightarrow> Inr (ve_data e) | None \<Rightarrow> Inl Null_Deref
            else Inr 0) (\<lambda>d.
     Inr (q\<lparr>vq_list := ps_insert vfq_before \<lparr>ve_priority = priority, ve_data = d, ve_value = v\<rparr> (vq_list q),
            vq_load := vq_load q + priority\<rparr>))"

text \<open>\<open>remove\<close> of the list only ever clears the flag \<open>success\<close>, which starts out cleared here.\<close>

definition vfq_remove :: "pointer \<Rightarrow> vfq \<Rightarrow> vfq" where
  "vfq_remove v q =
     (let q = q\<lparr>vq_list := snd (ps_remove (\<lambda>e. ve_value e = v) (vq_list q))\<rparr>
      in if ve_value (vq_current q) = v then q\<lparr>vq_current := null_element, vq_valid_current := False\<rparr> else q)"

fun vfq_push_all :: "u64 \<Rightarrow> pointer list \<Rightarrow> vfq \<Rightarrow> vfq result" where
  "vfq_push_all p [] q = Inr q"
| "vfq_push_all p (v # vs) q = rbind (vfq_push p v q) (vfq_push_all p vs)"

fun vfq_pop_many :: "u64 \<Rightarrow> nat \<Rightarrow> vfq \<Rightarrow> (pointer list \<times> vfq) result" where
  "vfq_pop_many levels 0 q = Inr ([], q)"
| "vfq_pop_many levels (Suc k) q =
     rbind (vfq_pop levels q) (\<lambda>(v, q). rbind (vfq_pop_many levels k q) (\<lambda>(vs, q). Inr (v # vs, q)))"

section \<open>Round robin\<close>

lemma ps_pop_ok:
  assumes "ps_values t = v # vs" "ps_size t = of_nat (Suc (length vs))" "Suc (length vs) < 2 ^ 64"
  shows "\<exists>t'. ps_pop t = Inr (v, t') \<and> ps_values t' = vs \<and> ps_size t' = of_nat (length vs)"
proof -
  obtain b xs where items: "ps_items t = (v, b) # xs" "map fst xs = vs"
    using assms(1) by (cases "ps_items t") (auto simp: ps_values_def)
  have nz: "ps_size t \<noteq> 0" using assms(2,3) of_nat_u64_inject [of "Suc (length vs)" 0] by simp
  have sz: "ps_size t - 1 = of_nat (length vs)" using assms(2) by simp
  have "xs \<noteq> []" if "ps_size t - 1 \<noteq> 0" using that items(2) unfolding sz by auto
  then show ?thesis using items nz sz by (auto simp: ps_pop_def ps_values_def)
qed

lemma ps_insert_append:
  assumes "ps_values t = [] \<or> \<not> cmp v (hd (ps_values t)) \<and> \<not> cmp v (last (ps_values t))"
  shows "ps_values (ps_insert cmp v t) = ps_values t @ [v]"
proof (cases "ps_items t")
  case (Cons x xs)
  then have "hd (ps_values t) = fst x" "last (ps_values t) = fst (last (x # xs))"
    by (simp_all add: ps_values_def last_map)
  with assms Cons show ?thesis by (auto simp: ps_values_def ps_insert_def map_fst_place)
qed (simp add: ps_values_def ps_insert_def map_fst_place)

text \<open>
  The queue after \<open>k\<close> pops of \<open>n\<close> threads of one priority: position \<open>i\<close> belongs to thread \<open>i mod n\<close>,
  which has moved back \<open>i div n\<close> times by the distance \<open>s\<close>.
\<close>

definition turn :: "u64 \<Rightarrow> u64 \<Rightarrow> pointer list \<Rightarrow> nat \<Rightarrow> vfq_element" where
  "turn p s vs i = \<lparr>ve_priority = p, ve_data = of_nat (i div length vs) * s, ve_value = vs ! (i mod length vs)\<rparr>"

definition round :: "u64 \<Rightarrow> u64 \<Rightarrow> pointer list \<Rightarrow> nat \<Rightarrow> vfq \<Rightarrow> bool" where
  "round p s vs k q \<longleftrightarrow> ps_values (vq_list q) = map (turn p s vs) [k..<k + length vs] \<and>
     ps_size (vq_list q) = of_nat (length vs) \<and> \<not> vq_valid_current q \<and> vq_load q = of_nat (length vs) * p"

lemma turn_mono:
  assumes "i \<le> j" "(j div length vs) * unat s < 2 ^ 64"
  shows "\<not> vfq_before (turn p s vs j) (turn p s vs i)"
proof -
  have le: "i div length vs \<le> j div length vs" using assms(1) by (rule div_le_mono)
  have u: "unat (of_nat m * s) = m * unat s" if "m * unat s < 2 ^ 64" for m
  proof -
    have "of_nat m * s = of_nat (m * unat s)" by simp
    with that show ?thesis by (metis unat_of_nat_u64)
  qed
  have "i div length vs * unat s \<le> j div length vs * unat s" using le by (rule mult_le_mono1)
  moreover from this have "i div length vs * unat s < 2 ^ 64" using assms(2) by linarith
  ultimately show ?thesis using u [OF assms(2)] u [of "i div length vs"]
    using le by (auto simp: vfq_before_def turn_def word_less_nat_alt)
qed

lemma vfq_push_round:
  assumes "ps_values (vq_list q) = map (turn p s vs) [0..<k]" "ps_size (vq_list q) = of_nat k"
    "\<not> vq_valid_current q" "vq_load q = of_nat k * p" "k < length vs" "length vs < 2 ^ 64"
  shows "\<exists>q'. vfq_push p (vs ! k) q = Inr q' \<and> ps_values (vq_list q') = map (turn p s vs) [0..<Suc k] \<and>
    ps_size (vq_list q') = of_nat (Suc k) \<and> \<not> vq_valid_current q' \<and> vq_load q' = of_nat (Suc k) * p"
proof -
  let ?e = "turn p s vs k"
  have e: "?e = \<lparr>ve_priority = p, ve_data = 0, ve_value = vs ! k\<rparr>" using assms(5) by (simp add: turn_def)
  have "(if ps_size (vq_list q) \<noteq> 0
      then case ps_top (vq_list q) of Some e \<Rightarrow> Inr (ve_data e) | None \<Rightarrow> Inl Null_Deref else Inr 0) = Inr 0"
  proof (cases k)
    case 0
    then show ?thesis using assms(2) by simp
  next
    case (Suc k')
    have "map fst (ps_items (vq_list q)) = turn p s vs 0 # map (turn p s vs) [Suc 0..<k]"
      using assms(1) Suc by (simp add: ps_values_def upt_conv_Cons del: upt_Suc)
    then obtain b xs where "ps_items (vq_list q) = (turn p s vs 0, b) # xs" by auto
    then show ?thesis by (simp add: ps_top_def turn_def)
  qed
  then have "vfq_push p (vs ! k) q = Inr (q\<lparr>vq_list := ps_insert vfq_before ?e (vq_list q), vq_load := vq_load q + p\<rparr>)"
    by (simp add: vfq_push_def e)
  moreover have "ps_values (ps_insert vfq_before ?e (vq_list q)) = ps_values (vq_list q) @ [?e]"
  proof (rule ps_insert_append)
    have "\<not> vfq_before ?e (turn p s vs i)" if "i < length vs" for i
      using that unfolding e by (simp add: vfq_before_def turn_def)
    note nb = this
    show "ps_values (vq_list q) = [] \<or> \<not> vfq_before ?e (hd (ps_values (vq_list q))) \<and> \<not> vfq_before ?e (last (ps_values (vq_list q)))"
    proof (cases "k = 0")
      case False
      then have "hd (map (turn p s vs) [0..<k]) = turn p s vs 0" "last (map (turn p s vs) [0..<k]) = turn p s vs (k - 1)"
        by (simp_all add: hd_map last_map)
      moreover have "\<not> vfq_before ?e (turn p s vs 0)" "\<not> vfq_before ?e (turn p s vs (k - 1))"
        by (rule nb, use assms(5) in linarith)+
      ultimately show ?thesis unfolding assms(1) by simp
    qed (simp add: assms(1))
  qed
  ultimately show ?thesis using assms by (simp add: ps_insert_def algebra_simps)
qed

lemma vfq_push_all_round:
  assumes "ws = drop k vs" "ps_values (vq_list q) = map (turn p s vs) [0..<k]" "ps_size (vq_list q) = of_nat k"
    "\<not> vq_valid_current q" "vq_load q = of_nat k * p" "k \<le> length vs" "length vs < 2 ^ 64"
  shows "\<exists>q'. vfq_push_all p ws q = Inr q' \<and> round p s vs 0 q'"
  using assms
proof (induction ws arbitrary: k q)
  case Nil
  then have "k = length vs" by simp
  with Nil show ?case by (simp add: round_def)
next
  case (Cons w ws)
  then have k: "k < length vs" by (cases "k < length vs") auto
  then have w: "w = vs ! k" "ws = drop (Suc k) vs" using Cons.prems(1) by (simp_all add: Cons_nth_drop_Suc [symmetric])
  from vfq_push_round [OF Cons.prems(2-5) k Cons.prems(7)] obtain q' where q': "vfq_push p (vs ! k) q = Inr q'"
    "ps_values (vq_list q') = map (turn p s vs) [0..<Suc k]" "ps_size (vq_list q') = of_nat (Suc k)"
    "\<not> vq_valid_current q'" "vq_load q' = of_nat (Suc k) * p" by blast
  from Cons.IH [OF w(2) q'(2-5)] k Cons.prems(7) q'(1) w(1) show ?case by auto
qed

lemma vfq_pop_round:
  assumes "round p (levels - p) vs k q" "vs \<noteq> []" "length vs < 2 ^ 64" "of_nat (length vs) * p \<noteq> 0"
    "(k div length vs + 1) * unat (levels - p) < 2 ^ 64"
  shows "\<exists>q'. vfq_pop levels q = Inr (vs ! (k mod length vs), q') \<and> round p (levels - p) vs (Suc k) q'"
proof -
  let ?s = "levels - p" and ?n = "length vs"
  let ?rest = "map (turn p ?s vs) [Suc k..<k + ?n]" and ?e = "turn p ?s vs (k + ?n)"
  have n: "0 < ?n" using assms(2) by simp
  then have vals: "ps_values (vq_list q) = turn p ?s vs k # ?rest"
    using assms(1) by (simp add: round_def upt_conv_Cons)
  have len: "Suc (length ?rest) = ?n" using n by simp
  from ps_pop_ok [OF vals] len assms(1,3) obtain l where
    l: "ps_pop (vq_list q) = Inr (turn p ?s vs k, l)" "ps_values l = ?rest" "ps_size l = of_nat (length ?rest)"
    by (auto simp: round_def)
  have dv: "(k + ?n) div ?n = Suc (k div ?n)" using n by (subst div_add_self2) simp_all
  have e: "(turn p ?s vs k)\<lparr>ve_data := ve_data (turn p ?s vs k) + (levels - ve_priority (turn p ?s vs k))\<rparr> = ?e"
    using dv by (simp add: turn_def distrib_right)
  have pop: "vfq_pop levels q = Inr (vs ! (k mod ?n), q\<lparr>vq_list := ps_insert vfq_before ?e l, vq_current := ?e\<rparr>)"
  proof -
    have "ve_value ?e = vs ! (k mod ?n)" by (simp add: turn_def)
    then show ?thesis
      using l(1) assms(1,4) unfolding round_def vfq_pop_def by (simp only: Let_def rbind.simps prod.case e if_False)
  qed
  have "(k + ?n) div ?n * unat ?s < 2 ^ 64" using assms(5) unfolding dv by simp
  then have nb: "\<not> vfq_before ?e (turn p ?s vs i)" if "i \<le> k + ?n" for i using that by (intro turn_mono)
  have "ps_values (ps_insert vfq_before ?e l) = ?rest @ [?e]"
    unfolding l(2) [symmetric]
  proof (rule ps_insert_append)
    show "ps_values l = [] \<or> \<not> vfq_before ?e (hd (ps_values l)) \<and> \<not> vfq_before ?e (last (ps_values l))"
    proof (cases "[Suc k..<k + ?n] = []")
      case False
      then have "hd ?rest = turn p ?s vs (Suc k)" "last ?rest = turn p ?s vs (k + ?n - 1)"
        by (simp_all add: hd_map last_map)
      with False nb show ?thesis unfolding l(2) by simp
    qed (simp add: l(2))
  qed
  moreover have "?rest @ [?e] = map (turn p ?s vs) [Suc k..<Suc k + ?n]" using n by (simp add: Suc_le_eq)
  moreover have "of_nat (length ?rest) + 1 = (of_nat ?n :: u64)" using len by (metis of_nat_Suc add.commute)
  ultimately show ?thesis
    using pop assms(1) l(3) by (simp add: round_def ps_insert_def ps_values_def)
qed

lemma vfq_pop_many_round:
  assumes "round p (levels - p) vs k q" "vs \<noteq> []" "length vs < 2 ^ 64" "of_nat (length vs) * p \<noteq> 0"
    "((k + m) div length vs + 1) * unat (levels - p) < 2 ^ 64"
  shows "\<exists>q'. vfq_pop_many levels m q = Inr (map (\<lambda>i. vs ! (i mod length vs)) [k..<k + m], q') \<and>
    round p (levels - p) vs (k + m) q'"
  using assms
proof (induction m arbitrary: k q)
  case (Suc m)
  have "k div length vs \<le> (k + Suc m) div length vs" by (rule div_le_mono) simp
  then have "(k div length vs + 1) * unat (levels - p) \<le> ((k + Suc m) div length vs + 1) * unat (levels - p)"
    by (intro mult_le_mono1) simp
  then have "(k div length vs + 1) * unat (levels - p) < 2 ^ 64" using Suc.prems(5) by linarith
  from vfq_pop_round [OF Suc.prems(1-4) this] obtain q1 where
    q1: "vfq_pop levels q = Inr (vs ! (k mod length vs), q1)" "round p (levels - p) vs (Suc k) q1" by blast
  from Suc.IH [OF q1(2) Suc.prems(2-4)] Suc.prems(5) obtain q2 where
    "vfq_pop_many levels m q1 = Inr (map (\<lambda>i. vs ! (i mod length vs)) [Suc k..<Suc k + m], q2)"
    "round p (levels - p) vs (Suc k + m) q2" by auto
  with q1(1) show ?case by (simp add: upt_conv_Cons [of k "Suc (k + m)"] del: upt_Suc)
qed simp



text \<open>
  Removal does not lower the load, so that a pop from a queue emptied by removals gets past its test
  and fails in the list; a queue of threads of priority 0 only fails although it is not empty.
\<close>

lemma vfq_removed_load: "vq_load (vfq_remove v q) = vq_load q"
  by (simp add: vfq_remove_def Let_def)

lemma vfq_priority_zero:
  "rbind (vfq_push 0 v empty_vfq) (vfq_pop levels) = Inl (Panic ''called `pop()` on empty variable frequency queue'')"
  by (simp add: vfq_push_def vfq_pop_def empty_vfq_def empty_pseq_def)

end
