(* ===== verification/Context.thy ===== *)
theory Context
  imports Prelude
begin

text \<open>
  Saved processor contexts (\<open>kernel/processor/context.h\<close>, \<open>context.cpp\<close>) and the threads that own them
  (\<open>kernel/scheduler/thread.h\<close>): what an interrupt and a system call leave on the stack, the context of
  a thread, saving and loading.
\<close>

section \<open>Contexts\<close>

text \<open>The frame of an interrupt, the frame of a system call, and the saved context, field by field.\<close>

record isr_context =
  s_r15 :: u64
  s_r14 :: u64
  s_r13 :: u64
  s_r12 :: u64
  s_r11 :: u64
  s_r10 :: u64
  s_r9 :: u64
  s_r8 :: u64
  s_rbp :: u64
  s_rdi :: u64
  s_rsi :: u64
  s_rdx :: u64
  s_rcx :: u64
  s_rbx :: u64
  s_rax :: u64
  s_number :: u64
  s_error :: u64
  s_rip :: u64
  s_cs :: u64
  s_rflags :: u64
  s_rsp :: u64
  s_ss :: u64

record syscall_context =
  y_r15 :: u64
  y_r14 :: u64
  y_r13 :: u64
  y_r12 :: u64
  y_rflags :: u64
  y_r10 :: u64
  y_r9 :: u64
  y_r8 :: u64
  y_rbp :: u64
  y_rdi :: u64
  y_rsi :: u64
  y_user_rsp :: u64
  y_user_rip :: u64
  y_rbx :: u64
  y_syscall_number :: u64

record ctx =
  c_rax :: u64
  c_rbx :: u64
  c_rcx :: u64
  c_rdx :: u64
  c_rsi :: u64
  c_rdi :: u64
  c_rsp :: u64
  c_rbp :: u64
  c_r8 :: u64
  c_r9 :: u64
  c_r10 :: u64
  c_r11 :: u64
  c_r12 :: u64
  c_r13 :: u64
  c_r14 :: u64
  c_r15 :: u64
  c_cs :: u64
  c_ss :: u64
  c_rip :: u64
  c_rflags :: u64

definition new_context :: ctx where
  "new_context = \<lparr>c_rax = 0, c_rbx = 0, c_rcx = 0, c_rdx = 0, c_rsi = 0, c_rdi = 0, c_rsp = 0, c_rbp = 0,
     c_r8 = 0, c_r9 = 0, c_r10 = 0, c_r11 = 0, c_r12 = 0, c_r13 = 0, c_r14 = 0, c_r15 = 0,
     c_cs = 0x8, c_ss = 0x10, c_rip = 0, c_rflags = push_bit 9 1\<rparr>"

definition save_isr :: "isr_context \<Rightarrow> ctx \<Rightarrow> ctx" where
  "save_isr x c = c\<lparr>c_rax := s_rax x, c_rbx := s_rbx x, c_rcx := s_rcx x, c_rdx := s_rdx x, c_rsi := s_rsi x,
     c_rdi := s_rdi x, c_rsp := s_rsp x, c_rbp := s_rbp x, c_r8 := s_r8 x, c_r9 := s_r9 x,
     c_r10 := s_r10 x, c_r11 := s_r11 x, c_r12 := s_r12 x, c_r13 := s_r13 x, c_r14 := s_r14 x,
     c_r15 := s_r15 x, c_cs := s_cs x, c_ss := s_ss x, c_rip := s_rip x, c_rflags := s_rflags x\<rparr>"

definition load_isr :: "ctx \<Rightarrow> isr_context \<Rightarrow> isr_context" where
  "load_isr c x = x\<lparr>s_rax := c_rax c, s_rbx := c_rbx c, s_rcx := c_rcx c, s_rdx := c_rdx c, s_rsi := c_rsi c,
     s_rdi := c_rdi c, s_rsp := c_rsp c, s_rbp := c_rbp c, s_r8 := c_r8 c, s_r9 := c_r9 c,
     s_r10 := c_r10 c, s_r11 := c_r11 c, s_r12 := c_r12 c, s_r13 := c_r13 c, s_r14 := c_r14 c,
     s_r15 := c_r15 c, s_cs := c_cs c, s_ss := c_ss c, s_rip := c_rip c, s_rflags := c_rflags c\<rparr>"

definition save_syscall :: "syscall_context \<Rightarrow> ctx \<Rightarrow> ctx" where
  "save_syscall y c = c\<lparr>c_rax := y_syscall_number y, c_rbx := y_rbx y, c_rcx := 0, c_rdx := 0, c_rsi := y_rsi y,
     c_rdi := y_rdi y, c_rsp := y_user_rsp y, c_rbp := y_rbp y, c_r8 := y_r8 y, c_r9 := y_r9 y,
     c_r10 := y_r10 y, c_r11 := 0, c_r12 := y_r12 y, c_r13 := y_r13 y, c_r14 := y_r14 y,
     c_r15 := y_r15 y, c_cs := 0x1b, c_ss := 0x23, c_rip := y_user_rip y, c_rflags := y_rflags y\<rparr>"

definition load_syscall :: "ctx \<Rightarrow> syscall_context \<Rightarrow> syscall_context" where
  "load_syscall c y = y\<lparr>y_syscall_number := c_rax c, y_rbx := c_rbx c, y_rsi := c_rsi c, y_rdi := c_rdi c,
     y_user_rsp := c_rsp c, y_rbp := c_rbp c, y_r8 := c_r8 c, y_r9 := c_r9 c, y_r10 := c_r10 c,
     y_r12 := c_r12 c, y_r13 := c_r13 c, y_r14 := c_r14 c, y_r15 := c_r15 c, y_user_rip := c_rip c,
     y_rflags := c_rflags c\<rparr>"

section \<open>Threads\<close>

datatype thread_status =
    St_Invalid | St_Init | St_Running | St_Ready | St_Sleeping | St_Waiting_Ipc | St_Waiting_Mutex
  | St_Waiting_Semaphore | St_Zombie | St_Dead

definition thread_valid :: "thread_status option \<Rightarrow> bool" where
  "thread_valid t = (case t of None \<Rightarrow> False | Some st \<Rightarrow> st \<noteq> St_Invalid \<and> st \<noteq> St_Zombie \<and> st \<noteq> St_Dead)"

text \<open>\<open>thread::save\<close> makes a context if there is none; \<open>thread::load\<close> panics then.\<close>

definition thread_save :: "('f \<Rightarrow> ctx \<Rightarrow> ctx) \<Rightarrow> 'f \<Rightarrow> ctx option \<Rightarrow> ctx option" where
  "thread_save save x c = Some (save x (case c of Some c \<Rightarrow> c | None \<Rightarrow> new_context))"

definition thread_load :: "(ctx \<Rightarrow> 'f \<Rightarrow> 'f) \<Rightarrow> ctx option \<Rightarrow> 'f \<Rightarrow> 'f result" where
  "thread_load load c x =
     (case c of None \<Rightarrow> Inl (Panic ''tried to load non existent context!'') | Some c \<Rightarrow> Inr (load c x))"

section \<open>Round trips\<close>

lemmas context_defs = save_isr_def load_isr_def save_syscall_def load_syscall_def thread_save_def thread_load_def

text \<open>
  C14. A thread that was interrupted and is resumed by a later interrupt continues with every register,
  its instruction pointer, flags, stack and segments as they were, whatever context it had before; only
  the number and error code stay those of the later interrupt.
\<close>

theorem interrupt_round_trip:
  "thread_load load_isr (thread_save save_isr x c) x' = Inr (x\<lparr>s_number := s_number x', s_error := s_error x'\<rparr>)"
  by (cases c; cases x; cases x') (simp_all add: context_defs)

text \<open>
  A thread saved in a system call continues from the system call with the frame it had; resumed by
  an interrupt instead it returns to user space, to the instruction, stack and flags of the call, with
  \<open>rcx\<close>, \<open>rdx\<close> and \<open>r11\<close> cleared.
\<close>

theorem syscall_round_trip:
  "thread_load load_syscall (thread_save save_syscall y c) y' = Inr y \<and>
   (\<exists>x'. thread_load load_isr (thread_save save_syscall y c) x = Inr x' \<and>
     s_rip x' = y_user_rip y \<and> s_rsp x' = y_user_rsp y \<and> s_rflags x' = y_rflags y \<and>
     s_cs x' AND 3 = 3 \<and> s_ss x' AND 3 = 3 \<and> s_rcx x' = 0 \<and> s_rdx x' = 0 \<and> s_r11 x' = 0 \<and>
     s_rax x' = y_syscall_number y \<and> s_rbx x' = y_rbx y \<and> s_rdi x' = y_rdi y)"
  by (cases y; cases y'; cases x) (simp add: context_defs)

end
