(* ===== verification/Scheduler.thy ===== *)
theory Scheduler
  imports Queue Context
begin

text \<open>
  The scheduler: the queues of a processor and its choice of the next thread
  (\<open>kernel/scheduler/local.cpp\<close>), the change of the current thread (\<open>kernel/processor/thread.cpp\<close>), the
  choice of a processor for a thread and the creation of threads (\<open>kernel/scheduler/scheduler.cpp\<close>).
  Threads and processes are named by their addresses.
\<close>

section \<open>Threads and processes\<close>

datatype scheduling_policy = Normal_Policy | Top_Policy | Background_Policy | Idle_Policy

record tcb =
  th_id :: u64
  th_parent :: "pointer option"
  th_next_sibling :: "pointer option"
  th_address_space :: u64
  th_context :: "ctx option"
  th_status :: thread_status
  th_last_core :: "nat option"
  th_current_core :: "nat option"
  th_policy :: scheduling_policy
  th_priority :: u8

type_synonym threads = "pointer \<Rightarrow> tcb option"

definition new_tcb :: "u64 \<Rightarrow> tcb" where
  "new_tcb i = \<lparr>th_id = i, th_parent = None, th_next_sibling = None, th_address_space = 0, th_context = None,
     th_status = St_Init, th_last_core = None, th_current_core = None, th_policy = Normal_Policy, th_priority = 128\<rparr>"

record pcb =
  pr_main_thread :: "pointer option"
  pr_address_space :: u64
  pr_policy :: scheduling_policy
  pr_priority :: u8
  pr_service :: bool

definition get_thread :: "threads \<Rightarrow> pointer \<Rightarrow> tcb result" where
  "get_thread th t = (if t = 0 then Inl Null_Deref else case th t of None \<Rightarrow> Inl Page_Fault | Some x \<Rightarrow> Inr x)"

section \<open>The queues of a processor\<close>

record local_scheduler =
  lc_core :: nat
  lc_top :: vfq
  lc_normal :: vfq
  lc_background :: vfq
  lc_idle :: pointer
  lc_timer :: bool

text \<open>The constructor leaves \<open>_idle\<close> alone: \<open>garbage\<close> is what the memory held.\<close>

definition new_local :: "nat \<Rightarrow> pointer \<Rightarrow> local_scheduler" where
  "new_local core garbage = \<lparr>lc_core = core, lc_top = empty_vfq, lc_normal = empty_vfq, lc_background = empty_vfq,
     lc_idle = garbage, lc_timer = False\<rparr>"

definition local_load :: "local_scheduler \<Rightarrow> u64" where
  "local_load s = 4 * vq_load (lc_top s) + 2 * vq_load (lc_normal s) + vq_load (lc_background s)"

definition next_thread :: "local_scheduler \<Rightarrow> (pointer \<times> local_scheduler) result" where
  "next_thread s =
     (if vfq_size (lc_top s) \<noteq> 0 then rbind (vfq_pop 256 (lc_top s)) (\<lambda>(t, q). Inr (t, s\<lparr>lc_top := q\<rparr>))
      else if vfq_size (lc_normal s) \<noteq> 0 then rbind (vfq_pop 256 (lc_normal s)) (\<lambda>(t, q). Inr (t, s\<lparr>lc_normal := q\<rparr>))
      else if vfq_size (lc_background s) \<noteq> 0
        then rbind (vfq_pop 256 (lc_background s)) (\<lambda>(t, q). Inr (t, s\<lparr>lc_background := q\<rparr>))
      else Inr (lc_idle s, s))"

text \<open>
  What a switch does: nothing before the scheduler is ready; on the processor of the queues, inside an
  interrupt handler, cancel a running time slice, set a new one if there is something to share, and
  make a thread the current one; else ask the processor to do it.
\<close>

datatype switch_action = No_Switch | Switch_To bool bool pointer | Ask_Processor nat

definition needs_slice :: "local_scheduler \<Rightarrow> bool" where
  "needs_slice s \<longleftrightarrow> 1 < vfq_size (lc_top s) \<or> vfq_size (lc_top s) = 0 \<and> 1 < vfq_size (lc_normal s) \<or>
     vfq_size (lc_top s) = 0 \<and> vfq_size (lc_normal s) = 0 \<and> 1 < vfq_size (lc_background s)"

definition do_switch :: "bool \<Rightarrow> nat \<Rightarrow> bool \<Rightarrow> local_scheduler \<Rightarrow> (switch_action \<times> local_scheduler) result" where
  "do_switch ready core in_interrupt s =
     (if \<not> ready then Inr (No_Switch, s)
      else if lc_core s = core \<and> in_interrupt
      then rbind (next_thread (s\<lparr>lc_timer := needs_slice s\<rparr>)) (\<lambda>(t, s').
           Inr (Switch_To (lc_timer s) (needs_slice s) t, s'))
      else Inr (Ask_Processor (lc_core s), s))"

definition local_push :: "bool \<Rightarrow> nat \<Rightarrow> bool \<Rightarrow> pointer \<Rightarrow> tcb \<Rightarrow> local_scheduler \<Rightarrow>
    (switch_action \<times> local_scheduler) result" where
  "local_push ready core in_interrupt t x s =
     (case th_policy x of
        Top_Policy \<Rightarrow> rbind (vfq_push (ucast (th_priority x)) t (lc_top s)) (\<lambda>q.
          do_switch ready core in_interrupt (s\<lparr>lc_top := q\<rparr>))
      | Normal_Policy \<Rightarrow> rbind (vfq_push (ucast (th_priority x)) t (lc_normal s)) (\<lambda>q.
          let s = s\<lparr>lc_normal := q\<rparr> in
          if vfq_size (lc_top s) = 0 then do_switch ready core in_interrupt s else Inr (No_Switch, s))
      | Background_Policy \<Rightarrow> rbind (vfq_push (ucast (th_priority x)) t (lc_background s)) (\<lambda>q.
          let s = s\<lparr>lc_background := q\<rparr> in
          if vfq_size (lc_top s) = 0 \<and> vfq_size (lc_normal s) = 0 then do_switch ready core in_interrupt s
          else Inr (No_Switch, s))
      | Idle_Policy \<Rightarrow> Inr (No_Switch, s))"

definition local_remove :: "bool \<Rightarrow> nat \<Rightarrow> bool \<Rightarrow> pointer \<Rightarrow> pointer \<Rightarrow> tcb \<Rightarrow> local_scheduler \<Rightarrow>
    (switch_action \<times> local_scheduler) result" where
  "local_remove ready core in_interrupt current t x s =
     (case th_policy x of
        Top_Policy \<Rightarrow> Inr (No_Switch, s\<lparr>lc_top := vfq_remove t (lc_top s)\<rparr>)
      | Normal_Policy \<Rightarrow> Inr (No_Switch, s\<lparr>lc_normal := vfq_remove t (lc_normal s)\<rparr>)
      | Background_Policy \<Rightarrow> Inr (No_Switch, s\<lparr>lc_background := vfq_remove t (lc_background s)\<rparr>)
      | Idle_Policy \<Rightarrow> if t = current then do_switch ready core in_interrupt s else Inr (No_Switch, s))"

section \<open>The current thread\<close>

record processors =
  ps_threads :: threads
  ps_running :: "nat \<Rightarrow> pointer option"
  ps_asid :: "nat \<Rightarrow> u64"

definition leave_current :: "nat \<Rightarrow> nat \<Rightarrow> pointer \<Rightarrow> processors \<Rightarrow> (nat option \<times> threads) result" where
  "leave_current this ncores t s =
     (case ps_running s this of
        Some p \<Rightarrow> rbind (get_thread (ps_threads s) p) (\<lambda>x.
          Inr (th_current_core x, (ps_threads s)(p \<mapsto> x\<lparr>th_current_core := None, th_last_core := th_current_core x\<rparr>)))
      | None \<Rightarrow> rbind (get_thread (ps_threads s) t) (\<lambda>x.
          if of_nat ncores < th_id x then Inl (Panic ''no previous thread after scheduler initialization.'')
          else Inr (Some this, ps_threads s)))"

text \<open>A thread that has not run yet gets the stack of the processor.\<close>

definition first_stack :: "u64 \<Rightarrow> tcb \<Rightarrow> tcb result" where
  "first_stack rsp x =
     (if th_status x = St_Init
      then case th_context x of None \<Rightarrow> Inl Null_Deref | Some y \<Rightarrow> Inr (x\<lparr>th_context := Some (y\<lparr>c_rsp := rsp\<rparr>)\<rparr>)
      else Inr x)"

definition current_thread :: "nat \<Rightarrow> nat \<Rightarrow> (nat \<Rightarrow> u64) \<Rightarrow> pointer \<Rightarrow> processors \<Rightarrow> processors result" where
  "current_thread this ncores rsp0 t s =
     rbind (leave_current this ncores t s) (\<lambda>(core, th).
     case core of None \<Rightarrow> Inl (Panic ''core = nullptr'')
     | Some c \<Rightarrow>
       rbind (get_thread th t) (\<lambda>x.
       rbind (first_stack (rsp0 c) x) (\<lambda>x.
       Inr (s\<lparr>ps_threads := th(t \<mapsto> x\<lparr>th_status := St_Running, th_current_core := Some c\<rparr>),
              ps_running := (ps_running s)(c \<mapsto> t), ps_asid := (ps_asid s)(this := th_address_space x)\<rparr>))))"

section \<open>The choice of a processor\<close>

text \<open>What \<open>_score\<close> looks at; the score is a signed number computed in 64 bits.\<close>

record processor_view =
  pv_last :: bool
  pv_load :: u64
  pv_current :: bool
  pv_same_space :: bool

definition score :: "processor_view \<Rightarrow> u64" where
  "score v = 1024 + (if pv_last v then 1024 else 0) - pv_load v - (if pv_current v then 128 else 0) +
     (if pv_same_space v then 256 else 0)"

fun best_core :: "(nat \<Rightarrow> u64) \<Rightarrow> nat list \<Rightarrow> nat \<Rightarrow> u64 \<Rightarrow> nat" where
  "best_core sc [] best best_score = best"
| "best_core sc (i # is) best best_score =
     (if sint best_score < sint (sc i) then best_core sc is i (sc i) else best_core sc is best best_score)"

definition schedule_on :: "nat \<Rightarrow> (nat \<Rightarrow> processor_view) \<Rightarrow> nat" where
  "schedule_on ncores view = best_core (\<lambda>i. score (view i)) [1..<ncores] 0 (score (view 0))"

section \<open>New threads\<close>

text \<open>\<open>ap_initialize\<close>: the thread the processor is running, which is pushed with the idle policy.\<close>

definition kernel_thread :: "nat \<Rightarrow> u64 \<Rightarrow> u64 \<Rightarrow> tcb" where
  "kernel_thread core asid i = (new_tcb i)\<lparr>th_last_core := Some core, th_address_space := asid,
     th_status := St_Running, th_policy := Idle_Policy\<rparr>"

definition ap_initialize :: "bool \<Rightarrow> nat \<Rightarrow> nat \<Rightarrow> (nat \<Rightarrow> u64) \<Rightarrow> pointer \<Rightarrow> u64 \<Rightarrow> pointer \<Rightarrow> processors \<Rightarrow>
    (local_scheduler \<times> processors) result" where
  "ap_initialize ready core ncores rsp0 t i garbage s =
     (let x = kernel_thread core (ps_asid s core) i in
      rbind (local_push ready core False t x (new_local core garbage)) (\<lambda>(_, l).
      rbind (current_thread core ncores rsp0 t (s\<lparr>ps_threads := (ps_threads s)(t \<mapsto> x)\<rparr>)) (\<lambda>s. Inr (l, s))))"

fun last_sibling :: "nat \<Rightarrow> threads \<Rightarrow> pointer \<Rightarrow> pointer result" where
  "last_sibling 0 th t = Inl Spins_Forever"
| "last_sibling (Suc k) th t =
     rbind (get_thread th t) (\<lambda>x. case th_next_sibling x of None \<Rightarrow> Inr t | Some u \<Rightarrow> last_sibling k th u)"

definition start_context :: "u64 \<Rightarrow> u64 \<Rightarrow> ctx" where
  "start_context start data = new_context\<lparr>c_cs := 0x8, c_ss := 0x10, c_rdi := data, c_rip := start\<rparr>"

text \<open>The new thread is \<open>t\<close> with the number \<open>i\<close>; \<open>parent\<close> is the address of a process and the process.\<close>

definition create_thread :: "nat \<Rightarrow> u64 \<Rightarrow> u64 \<Rightarrow> u64 \<Rightarrow> (pointer \<times> pcb) option \<Rightarrow> pointer \<Rightarrow> u64 \<Rightarrow> threads \<Rightarrow>
    (pcb option \<times> threads) result" where
  "create_thread k asid start data parent t i th =
     (let x = new_tcb i in
      rbind (case parent of
          None \<Rightarrow> Inr (None, th(t \<mapsto> x\<lparr>th_address_space := asid, th_policy := Normal_Policy, th_priority := 128\<rparr>))
        | Some (a, p) \<Rightarrow>
            let x = x\<lparr>th_parent := Some a, th_address_space := pr_address_space p, th_policy := pr_policy p,
                  th_priority := pr_priority p\<rparr>;
                th = th(t \<mapsto> x)
            in case pr_main_thread p of
                None \<Rightarrow> Inr (Some (p\<lparr>pr_main_thread := Some t\<rparr>), th)
              | Some m \<Rightarrow> rbind (last_sibling k th m) (\<lambda>u.
                  rbind (get_thread th u) (\<lambda>y. Inr (Some p, th(u \<mapsto> y\<lparr>th_next_sibling := Some t\<rparr>))))) (\<lambda>(p, th).
      rbind (get_thread th t) (\<lambda>x.
      Inr (p, th(t \<mapsto> x\<lparr>th_context := Some (start_context start data)\<rparr>)))))"

section \<open>Properties\<close>

lemma best_core_ge: "sint (sc b) \<le> sint (sc (best_core sc is b (sc b)))"
proof (induction "is" arbitrary: b)
  case (Cons i "is")
  from Cons [of b] Cons [of i] show ?case by (cases "sint (sc b) < sint (sc i)") simp_all
qed simp

lemma best_core_mem: "best_core sc is b bs \<in> insert b (set is)"
  by (induction "is" arbitrary: b bs) auto

lemma best_core_max: "j \<in> insert b (set is) \<Longrightarrow> sint (sc j) \<le> sint (sc (best_core sc is b (sc b)))"
proof (induction "is" arbitrary: b)
  case (Cons i "is")
  show ?case
  proof (cases "sint (sc b) < sint (sc i)")
    case True
    have "sint (sc j) \<le> sint (sc (best_core sc is i (sc i)))"
    proof (cases "j = b")
      case True
      with best_core_ge [of sc i "is"] \<open>sint (sc b) < sint (sc i)\<close> show ?thesis by simp
    next
      case False
      with Cons.prems show ?thesis by (intro Cons.IH) auto
    qed
    with True show ?thesis by simp
  next
    case False
    have "sint (sc j) \<le> sint (sc (best_core sc is b (sc b)))"
    proof (cases "j = i")
      case True
      with best_core_ge [of sc b "is"] False show ?thesis by simp
    next
      case False
      with Cons.prems show ?thesis by (intro Cons.IH) auto
    qed
    with False show ?thesis by simp
  qed
qed simp

lemma best_core_first:
  "sorted_wrt (<) (b # is) \<Longrightarrow> j \<in> insert b (set is) \<Longrightarrow> j < best_core sc is b (sc b) \<Longrightarrow>
    sint (sc j) < sint (sc (best_core sc is b (sc b)))"
proof (induction "is" arbitrary: b j)
  case (Cons i "is")
  show ?case
  proof (cases "sint (sc b) < sint (sc i)")
    case True
    show ?thesis
    proof (cases "j = b")
      case True
      with \<open>sint (sc b) < sint (sc i)\<close> best_core_ge [of sc i "is"] show ?thesis by simp
    next
      case False
      with \<open>sint (sc b) < sint (sc i)\<close> Cons.prems Cons.IH [of i j] show ?thesis by auto
    qed
  next
    case False
    let ?r = "best_core sc is b (sc b)"
    have lt: "j < ?r" "sorted_wrt (<) (b # is)" using Cons.prems False by auto
    have "sint (sc j) < sint (sc ?r)"
    proof (cases "j = i")
      case True
      have "b < ?r" using lt(1) Cons.prems(1) True by simp
      with Cons.IH [of b b] lt(2) have "sint (sc b) < sint (sc ?r)" by simp
      with True False show ?thesis by simp
    next
      case False
      with Cons.prems(2) lt show ?thesis by (intro Cons.IH) auto
    qed
    with False show ?thesis by simp
  qed
qed simp

text \<open>
  A thread goes to a processor with the highest score, the first one of them.
\<close>

theorem schedule_on_best:
  assumes "0 < ncores"
  shows "schedule_on ncores view < ncores \<and>
    (\<forall>j<ncores. sint (score (view j)) \<le> sint (score (view (schedule_on ncores view)))) \<and>
    (\<forall>j < schedule_on ncores view. sint (score (view j)) < sint (score (view (schedule_on ncores view))))"
proof -
  let ?sc = "\<lambda>i. score (view i)" and ?b = "schedule_on ncores view"
  have set: "insert 0 (set [1..<ncores]) = {..<ncores}" using assms by auto
  have b: "?b \<in> {..<ncores}" unfolding set [symmetric] schedule_on_def by (rule best_core_mem)
  moreover have "sint (?sc j) \<le> sint (?sc ?b)" if "j < ncores" for j
    unfolding schedule_on_def by (rule best_core_max [where sc = ?sc]) (use that set in auto)
  moreover have "sint (?sc j) < sint (?sc ?b)" if "j < ?b" for j
    unfolding schedule_on_def
  proof (rule best_core_first [where sc = ?sc])
    show "j \<in> insert 0 (set [1..<ncores])" using that b unfolding set by simp
    show "j < best_core ?sc [1..<ncores] 0 (?sc 0)" using that by (simp add: schedule_on_def)
    show "sorted_wrt (<) (0 # [1..<ncores])" by simp
  qed
  ultimately show ?thesis by blast
qed

lemma schedule_on_best_witness:
  "schedule_on 3 (\<lambda>i. \<lparr>pv_last = False, pv_load = (if i = 1 then 0 else 500), pv_current = i = 0, pv_same_space = False\<rparr>) < 3"
  using schedule_on_best [of 3 "\<lambda>i. \<lparr>pv_last = False, pv_load = (if i = 1 then 0 else 500), pv_current = i = 0, pv_same_space = False\<rparr>"]
  by simp

text \<open>
  The invariant of the processors: the thread a processor runs knows it, has the status of a running
  thread, and its address space is the one in use; and a thread with a processor is the one it runs.
\<close>

definition running_inv :: "processors \<Rightarrow> bool" where
  "running_inv s \<longleftrightarrow>
     (\<forall>c t. ps_running s c = Some t \<longrightarrow> t \<noteq> 0 \<and> (\<exists>x. ps_threads s t = Some x \<and> th_current_core x = Some c \<and>
        th_status x = St_Running \<and> ps_asid s c = th_address_space x)) \<and>
     (\<forall>t x c. ps_threads s t = Some x \<and> th_current_core x = Some c \<longrightarrow> ps_running s c = Some t)"

lemma first_stack_ok:
  assumes "th_status x = St_Init \<longrightarrow> th_context x \<noteq> None"
  obtains x' where "first_stack r x = Inr x'" "th_address_space x' = th_address_space x"
    "th_last_core x' = th_last_core x"
proof (cases "th_status x = St_Init")
  case True
  with assms obtain y where "th_context x = Some y" by auto
  with True that [of "x\<lparr>th_context := Some (y\<lparr>c_rsp := r\<rparr>)\<rparr>"] show ?thesis by (simp add: first_stack_def)
qed (use that [of x] in \<open>simp add: first_stack_def\<close>)

text \<open>
  C20. Making a thread the current one, when it is runnable and not the current one of another
  processor: it succeeds, keeps the invariant, changes only what this processor runs, and the thread
  that ran before remembers the processor.
\<close>

theorem current_thread_inv:
  assumes inv: "running_inv s" and t: "t \<noteq> 0" "ps_threads s t = Some x" "th_current_core x \<in> {None, Some this}"
    "th_status x = St_Init \<longrightarrow> th_context x \<noteq> None"
    and first: "ps_running s this = None \<longrightarrow> th_id x \<le> of_nat ncores"
  shows "\<exists>s'. current_thread this ncores rsp0 t s = Inr s' \<and> running_inv s' \<and>
    ps_running s' = (ps_running s)(this \<mapsto> t) \<and>
    (\<forall>p. ps_running s this = Some p \<longrightarrow> (\<exists>y. ps_threads s' p = Some y \<and> th_last_core y = Some this))"
proof (cases "ps_running s this")
  case None
  then have "th_current_core x = None" using inv t(2,3) unfolding running_inv_def by (metis insertE option.distinct(1) singletonD)
  moreover have "leave_current this ncores t s = Inr (Some this, ps_threads s)"
    using None t first by (auto simp: leave_current_def get_thread_def not_less)
  moreover from calculation have "ps_running s c \<noteq> Some t" for c
    using inv t(2) unfolding running_inv_def by fastforce
  moreover from first_stack_ok [OF t(4), of "rsp0 this"] obtain z where "first_stack (rsp0 this) x = Inr z" by blast
  ultimately show ?thesis
    using None inv t by (auto simp: current_thread_def get_thread_def running_inv_def)
next
  case (Some p)
  from inv Some obtain y where y: "p \<noteq> 0" "ps_threads s p = Some y" "th_current_core y = Some this"
    unfolding running_inv_def by blast
  let ?th = "(ps_threads s)(p \<mapsto> y\<lparr>th_current_core := None, th_last_core := Some this\<rparr>)"
  have lv: "leave_current this ncores t s = Inr (Some this, ?th)"
    using Some y by (simp add: leave_current_def get_thread_def)
  have uniq: "q = p" if "ps_threads s q = Some z" "th_current_core z = Some this" for q z
    using inv that Some unfolding running_inv_def by (metis option.inject)
  have other: "ps_running s c \<noteq> Some t" if "c \<noteq> this" for c
    using inv t(2,3) that unfolding running_inv_def by (metis insertE option.distinct(1) option.inject singletonD)
  have otherp: "ps_running s c \<noteq> Some p" if "c \<noteq> this" for c
    using inv y(2,3) that unfolding running_inv_def by (metis option.inject)
  obtain x' where x': "?th t = Some x'" "th_status x' = th_status x" "th_context x' = th_context x"
    "t = p \<longrightarrow> th_last_core x' = Some this"
    using t(2) y(2) by (cases "t = p") auto
  from first_stack_ok [of x' "rsp0 this"] x'(2,3) t(4) obtain z where
    z: "first_stack (rsp0 this) x' = Inr z" "th_last_core z = th_last_core x'" by auto
  define x'' where "x'' = z\<lparr>th_status := St_Running, th_current_core := Some this\<rparr>"
  have x'': "current_thread this ncores rsp0 t s = Inr (s\<lparr>ps_threads := ?th(t \<mapsto> x''), ps_running := (ps_running s)(this \<mapsto> t),
      ps_asid := (ps_asid s)(this := th_address_space x'')\<rparr>)"
    "th_status x'' = St_Running" "th_current_core x'' = Some this" "th_last_core x'' = th_last_core x'"
    using lv x'(1) t(1) z by (simp_all add: current_thread_def get_thread_def x''_def del: fun_upd_apply)
  let ?s = "s\<lparr>ps_threads := ?th(t \<mapsto> x''), ps_running := (ps_running s)(this \<mapsto> t),
      ps_asid := (ps_asid s)(this := th_address_space x'')\<rparr>"
  have "running_inv ?s"
    unfolding running_inv_def
  proof (intro conjI allI impI)
    fix c u
    assume "ps_running ?s c = Some u"
    then show "u \<noteq> 0" "\<exists>z. ps_threads ?s u = Some z \<and> th_current_core z = Some c \<and> th_status z = St_Running \<and> ps_asid ?s c = th_address_space z"
      using inv t(1) x'' other otherp unfolding running_inv_def by (cases "c = this"; fastforce)+
  next
    fix u z c
    assume "ps_threads ?s u = Some z \<and> th_current_core z = Some c"
    then show "ps_running ?s c = Some u"
      using inv x'' uniq unfolding running_inv_def by (cases "u = t"; cases "u = p"; fastforce)
  qed
  with x'' x' Some show ?thesis by (cases "t = p") auto
qed

text \<open>Processor 0 changes from thread 16 to a new thread 32, while processor 1 runs thread 48.\<close>

definition two_processors :: processors where
  "two_processors = \<lparr>
     ps_threads = [16 \<mapsto> (kernel_thread 0 0x1000 1)\<lparr>th_current_core := Some 0\<rparr>,
       32 \<mapsto> (new_tcb 3)\<lparr>th_context := Some (start_context 0x8000 7), th_address_space := 0x2000\<rparr>,
       48 \<mapsto> (kernel_thread 1 0x1000 2)\<lparr>th_current_core := Some 1\<rparr>],
     ps_running = [0 \<mapsto> 16, 1 \<mapsto> 48], ps_asid = (\<lambda>_. 0x1000)\<rparr>"

lemma current_thread_inv_witness:
  "running_inv two_processors \<and> (\<exists>s'. current_thread 0 2 (\<lambda>_. 0x9000) 32 two_processors = Inr s' \<and> running_inv s' \<and>
    ps_running s' = (ps_running two_processors)(0 \<mapsto> 32))"
proof -
  have inv: "running_inv two_processors"
    by (auto simp: running_inv_def two_processors_def kernel_thread_def new_tcb_def split: if_splits)
  from current_thread_inv [OF inv, of 32 "(new_tcb 3)\<lparr>th_context := Some (start_context 0x8000 7), th_address_space := 0x2000\<rparr>" 0 2 "\<lambda>_. 0x9000"]
  have "\<exists>s'. current_thread 0 2 (\<lambda>_. 0x9000) 32 two_processors = Inr s' \<and> running_inv s' \<and>
      ps_running s' = (ps_running two_processors)(0 \<mapsto> 32)"
    by (auto simp: two_processors_def new_tcb_def)
  with inv show ?thesis by simp
qed

text \<open>The threads of a process, in the order of their sibling links.\<close>

fun siblings :: "threads \<Rightarrow> pointer option \<Rightarrow> pointer list \<Rightarrow> bool" where
  "siblings th p [] \<longleftrightarrow> p = None"
| "siblings th p (t # ts) \<longleftrightarrow> p = Some t \<and> t \<noteq> 0 \<and> (\<exists>x. th t = Some x \<and> siblings th (th_next_sibling x) ts)"

lemma siblings_frame: "(\<And>t. t \<in> set ts \<Longrightarrow> th' t = th t) \<Longrightarrow> siblings th' p ts = siblings th p ts"
  by (induction ts arbitrary: p) auto

lemma last_sibling_last:
  "siblings th (Some m) ts \<Longrightarrow> length ts \<le> k \<Longrightarrow> last_sibling k th m = Inr (last ts) \<and> ts \<noteq> [] \<and> last ts \<noteq> 0 \<and>
    (\<exists>x. th (last ts) = Some x \<and> th_next_sibling x = None)"
proof (induction ts arbitrary: m k)
  case (Cons t ts)
  then obtain x k' where x: "t = m" "m \<noteq> 0" "th m = Some x" "siblings th (th_next_sibling x) ts" "k = Suc k'"
    by (cases k) auto
  show ?case
  proof (cases ts)
    case Nil
    with x show ?thesis by (simp add: get_thread_def)
  next
    case (Cons u us)
    with x(4) have "th_next_sibling x = Some u" by simp
    with Cons.IH [of u k'] x Cons Cons.prems(2) show ?thesis by (simp add: get_thread_def)
  qed
qed simp

lemma siblings_snoc:
  assumes "siblings th p ts" "ts \<noteq> []" "distinct ts" "t \<notin> set ts" "t \<noteq> 0" "th (last ts) = Some x"
    "th t = Some y" "th_next_sibling y = None"
  shows "siblings (th(last ts \<mapsto> x\<lparr>th_next_sibling := Some t\<rparr>)) p (ts @ [t])"
  using assms
proof (induction ts arbitrary: p)
  case (Cons u us)
  show ?case
  proof (cases us)
    case Nil
    with Cons.prems show ?thesis by auto
  next
    case (Cons v vs)
    with Cons.prems have ne: "last us \<noteq> u" by auto
    from Cons.prems obtain z where z: "p = Some u" "u \<noteq> 0" "th u = Some z" "siblings th (th_next_sibling z) us" by auto
    have "us \<noteq> []" "distinct us" "t \<notin> set us" "th (last us) = Some x" using Cons.prems Cons by auto
    with Cons.IH [OF z(4)] Cons.prems(5,7,8)
    have "siblings (th(last us \<mapsto> x\<lparr>th_next_sibling := Some t\<rparr>)) (th_next_sibling z) (us @ [t])" by blast
    moreover have l: "last (u # us) = last us" using Cons by simp
    ultimately show ?thesis unfolding l append_Cons siblings.simps(2) using z(1-3) ne by auto
  qed
qed simp

lemma siblings_set_context:
  assumes "siblings th p ts" "th t = Some x"
  shows "siblings (th(t \<mapsto> x\<lparr>th_context := c\<rparr>)) p ts"
  using assms by (induction ts arbitrary: p) auto

text \<open>
  A new thread of a process becomes the last of its siblings and takes its address space, policy and
  priority; its context starts it in the kernel at the given address with the given parameter.
\<close>

theorem create_thread_siblings:
  assumes "siblings th (pr_main_thread p) ts" "distinct ts" "t \<notin> set ts" "t \<noteq> 0" "length ts \<le> k"
  shows "\<exists>p' th' x. create_thread k asid start data (Some (a, p)) t i th = Inr (Some p', th') \<and>
    siblings th' (pr_main_thread p') (ts @ [t]) \<and> th' t = Some x \<and> th_id x = i \<and> th_status x = St_Init \<and>
    th_address_space x = pr_address_space p \<and> th_policy x = pr_policy p \<and> th_priority x = pr_priority p \<and>
    th_context x = Some (start_context start data)"
proof -
  let ?x = "(new_tcb i)\<lparr>th_parent := Some a, th_address_space := pr_address_space p, th_policy := pr_policy p,
    th_priority := pr_priority p\<rparr>"
  let ?y = "?x\<lparr>th_context := Some (start_context start data)\<rparr>" and ?th = "th(t \<mapsto> ?x)"
  have "siblings ?th (pr_main_thread p) ts = siblings th (pr_main_thread p) ts"
    by (rule siblings_frame) (use assms(3) in auto)
  with assms(1) have s: "siblings ?th (pr_main_thread p) ts" by simp
  show ?thesis
  proof (cases "pr_main_thread p")
    case None
    then have "ts = []" using assms(1) by (cases ts) auto
    moreover have "create_thread k asid start data (Some (a, p)) t i th =
        Inr (Some (p\<lparr>pr_main_thread := Some t\<rparr>), th(t \<mapsto> ?y))"
      using None assms(4) by (simp add: create_thread_def get_thread_def)
    ultimately show ?thesis using assms(4) by (simp add: new_tcb_def)
  next
    case (Some m)
    from last_sibling_last [of ?th m ts k] s Some assms(5) obtain z where
      z: "last_sibling k ?th m = Inr (last ts)" "ts \<noteq> []" "last ts \<noteq> 0" "?th (last ts) = Some z" by auto
    let ?th2 = "?th(last ts \<mapsto> z\<lparr>th_next_sibling := Some t\<rparr>)"
    have ne: "last ts \<noteq> t" using assms(3) z(2) by auto
    have "siblings ?th2 (pr_main_thread p) (ts @ [t])"
      by (rule siblings_snoc [OF s z(2) assms(2-4) z(4), of ?x]) (simp_all add: new_tcb_def)
    moreover have "?th2 t = Some ?x" using ne by simp
    ultimately have "siblings (?th2(t \<mapsto> ?y)) (pr_main_thread p) (ts @ [t])" by (rule siblings_set_context)
    moreover have "create_thread k asid start data (Some (a, p)) t i th = Inr (Some p, ?th2(t \<mapsto> ?y))"
      using Some z ne assms(4) by (simp add: create_thread_def Let_def get_thread_def)
    ultimately show ?thesis by (simp add: new_tcb_def)
  qed
qed

lemma create_thread_siblings_witness:
  "\<exists>p' th' x. create_thread 1 0 0x8000 7 (Some (0x500, \<lparr>pr_main_thread = Some 16, pr_address_space = 0x3000,
      pr_policy = Top_Policy, pr_priority = 9, pr_service = False\<rparr>)) 32 4 [16 \<mapsto> new_tcb 3] = Inr (Some p', th') \<and>
    siblings th' (pr_main_thread p') [16, 32] \<and> th' 32 = Some x \<and> th_policy x = Top_Policy"
  using create_thread_siblings [where th = "[16 \<mapsto> new_tcb 3]" and p = "\<lparr>pr_main_thread = Some 16, pr_address_space = 0x3000,
      pr_policy = Top_Policy, pr_priority = 9, pr_service = False\<rparr>" and ts = "[16]" and t = 32 and k = 1 and asid = 0 and start = "0x8000" and data = 7
      and a = "0x500" and i = 4] by (fastforce simp: new_tcb_def)

text \<open>
  Removing a thread that is running does not make the processor switch, unless its policy is the idle
  one: the other cases return before the test. And the thread pushed for the processor itself goes
  into no queue and not into \<open>_idle\<close>.
\<close>

lemma remove_running_no_switch:
  "th_policy x \<noteq> Idle_Policy \<Longrightarrow> \<exists>s'. local_remove ready core in_interrupt t t x s = Inr (No_Switch, s')"
  by (cases "th_policy x") (auto simp: local_remove_def)

lemma idle_never_set: "local_push ready core in_interrupt t (kernel_thread core asid i) s = Inr (No_Switch, s)"
  by (simp add: local_push_def kernel_thread_def)

end
