(* ===== verification/Processes.thy ===== *)
theory Processes
  imports User_Memory Scheduler Priority_List_Order
begin

text \<open>
  New processes (\<open>create_process\<close> and \<open>schedule\<close> of \<open>kernel/scheduler/scheduler.cpp\<close>, \<open>enter_userspace\<close> of
  \<open>kernel/processor/thread.cpp\<close>): a clone of the address space, the image mapped and copied into its
  user half, the main thread created and handed to a processor.
\<close>

section \<open>Scheduling a thread\<close>

text \<open>The address space of the thread a processor runs.\<close>

definition core_space :: "processors \<Rightarrow> nat \<Rightarrow> u64 result" where
  "core_space s c = (case ps_running s c of None \<Rightarrow> Inl Null_Deref
     | Some u \<Rightarrow> rbind (get_thread (ps_threads s) u) (\<lambda>y. Inr (th_address_space y)))"

fun core_spaces :: "processors \<Rightarrow> nat list \<Rightarrow> u64 list result" where
  "core_spaces s [] = Inr []"
| "core_spaces s (c # cs) = rbind (core_space s c) (\<lambda>a. rbind (core_spaces s cs) (\<lambda>as. Inr (a # as)))"

definition view_of :: "nat \<Rightarrow> (nat \<Rightarrow> local_scheduler) \<Rightarrow> u64 list \<Rightarrow> tcb \<Rightarrow> nat \<Rightarrow> processor_view" where
  "view_of this loc spaces x c = \<lparr>pv_last = (th_last_core x = Some c), pv_load = local_load (loc c),
     pv_current = (c = this), pv_same_space = (spaces ! c = th_address_space x)\<rparr>"

definition schedule :: "bool \<Rightarrow> nat \<Rightarrow> bool \<Rightarrow> nat \<Rightarrow> pointer \<Rightarrow> processors \<Rightarrow> (nat \<Rightarrow> local_scheduler) \<Rightarrow>
    (nat \<times> switch_action \<times> (nat \<Rightarrow> local_scheduler)) result" where
  "schedule ready this in_interrupt ncores t s loc =
     rbind (get_thread (ps_threads s) t) (\<lambda>x.
     rbind (core_spaces s (0 # [1..<ncores])) (\<lambda>spaces.
     let c = schedule_on ncores (view_of this loc spaces x) in
     rbind (local_push ready this in_interrupt t x (loc c)) (\<lambda>(act, l). Inr (c, act, loc(c := l)))))"

section \<open>Creating a process\<close>

definition new_pcb :: pcb where
  "new_pcb = \<lparr>pr_main_thread = None, pr_address_space = 0, pr_policy = Normal_Policy, pr_priority = 128, pr_service = False\<rparr>"

text \<open>
  The image in the address space of a new process: cloned, released, switched to, mapped, copied, and
  switched back. The result is the root of the new address space.
\<close>

definition load_image :: "nat \<Rightarrow> ('s \<Rightarrow> (u64 \<times> 's) result) \<Rightarrow> (u64 \<Rightarrow> 's \<Rightarrow> 's result) \<Rightarrow> u64 \<Rightarrow> u64 \<Rightarrow> 's vas \<Rightarrow>
    (u64 \<times> 's vas) result" where
  "load_image fuel pop give image_begin image_end s =
     rbind (clone_kernel pop give s) (\<lambda>(f, s).
     rbind (release_foreign s) (\<lambda>s.
     let old_asid = vs_cr3 s in
     rbind (vm_map_range fuel pop 0x100000 (0x100000 + (image_end - image_begin)) vm_user (s\<lparr>vs_cr3 := f\<rparr>)) (\<lambda>s.
     rbind (vm_copy image_begin 0x100000 (unat (image_end - image_begin)) s) (\<lambda>s.
     Inr (f, s\<lparr>vs_cr3 := old_asid\<rparr>)))))"

record 's machine =
  ma_vas :: "'s vas"
  ma_processors :: processors
  ma_local :: "nat \<Rightarrow> local_scheduler"

text \<open>
  The process is at \<open>a\<close> and its thread \<open>t\<close> has the number \<open>i\<close>: what the two managers return. \<open>entry\<close> is
  the address of \<open>enter_userspace\<close>. The arguments \<open>parent\<close> and \<open>start\<close> of the code are not used by it.
\<close>

definition create_process :: "nat \<Rightarrow> ('s \<Rightarrow> (u64 \<times> 's) result) \<Rightarrow> (u64 \<Rightarrow> 's \<Rightarrow> 's result) \<Rightarrow> bool \<Rightarrow> nat \<Rightarrow> bool \<Rightarrow> nat \<Rightarrow> u64 \<Rightarrow>
    pointer \<Rightarrow> pointer \<Rightarrow> u64 \<Rightarrow> u64 \<Rightarrow> u64 \<Rightarrow> bool \<Rightarrow> 's machine \<Rightarrow> (pcb \<times> nat \<times> switch_action \<times> 's machine) result" where
  "create_process fuel pop give ready this in_interrupt ncores entry_point a t i image_begin image_end service m =
     rbind (load_image fuel pop give image_begin image_end (ma_vas m)) (\<lambda>(f, s).
     let p = new_pcb\<lparr>pr_address_space := f, pr_service := service\<rparr> in
     rbind (create_thread 1 (vs_cr3 s) entry_point 0x100000 (Some (a, p)) t i (ps_threads (ma_processors m))) (\<lambda>(p, th).
     let q = (ma_processors m)\<lparr>ps_threads := th\<rparr> in
     rbind (schedule ready this in_interrupt ncores t q (ma_local m)) (\<lambda>(c, act, loc).
     Inr (the p, c, act, m\<lparr>ma_vas := s, ma_processors := q, ma_local := loc\<rparr>))))"

text \<open>\<open>enter_userspace\<close>: a stack for the thread, and the frame for the return to user mode.\<close>

definition enter_userspace :: "nat \<Rightarrow> ('s \<Rightarrow> (u64 \<times> 's) result) \<Rightarrow> u64 \<Rightarrow> 's vas \<Rightarrow> (u64 list \<times> 's vas) result" where
  "enter_userspace fuel pop destination s =
     rbind (vm_map_range fuel pop 0x10000 0x20000 vm_user s) (\<lambda>s.
     Inr ([destination, 0x1b, 0x200, 0x20000, 0x23], s))"

section \<open>The image\<close>

definition pages_of :: "nat \<Rightarrow> nat" where
  "pages_of n = (n + 4095) div 4096"

lemma image_address:
  fixes j :: nat
  assumes "j < 2 ^ 47 - 0x100000"
  shows "vpage (0x100000 + of_nat j) = 0x100 + j div 4096" "offset_of (0x100000 + of_nat j) = j mod 4096"
    "ordinary (0x100000 + of_nat j)" "index_of 39 (0x100000 + of_nat j) < 256"
proof -
  let ?v = "0x100000 + of_nat j :: u64"
  have "?v = of_nat (0x100000 + j)" by simp
  then have u: "unat ?v = 0x100000 + j" by (simp only:) (rule unat_of_nat_u64, use assms in simp)
  have "(0x100000 + j) div 4096 = 0x100 + j div 4096" "(0x100000 + j) mod 4096 = j mod 4096"
    using mod_mult_self3 [of 256 4096 j] by simp_all
  moreover from calculation have "(0x100000 + j) div 4096 < 2 ^ 35" using assms by (simp add: div_less_iff_less_mult)
  ultimately show v: "vpage ?v = 0x100 + j div 4096" and "offset_of ?v = j mod 4096"
    by (simp_all add: vpage_eq offset_of_def u)
  have "vpage ?v < 256 * (512 * 512 * 512)" using assms unfolding v by (simp add: div_less_iff_less_mult)
  then show "index_of 39 ?v < 256" by (simp add: index_of_vpage)
  then show "ordinary ?v" by (simp add: ordinary_def)
qed

text \<open>The image is mapped in the kernel half, on the frames \<open>is\<close>.\<close>

definition image_at :: "frames \<Rightarrow> u64 \<Rightarrow> u64 list \<Rightarrow> u64 \<Rightarrow> nat \<Rightarrow> bool" where
  "image_at mem root is a n \<longleftrightarrow> (\<forall>j<n. 258 \<le> index_of 39 (a + of_nat j) \<and>
     (\<exists>g\<in>set is. translate mem root (a + of_nat j) = Some g))"

lemma image_copy_pre:
  assumes u: "user_range f m0 0x100 gs ks m" and fr: "fresh_frames m f gs" and im: "image_at m0 f is a n"
    and d: "set gs \<inter> set is = {}" and n: "n \<le> 4096 * length gs" "n \<le> 2 ^ 47 - 0x100000" "length gs \<le> 2 ^ 35 - 0x100"
  shows "copy_pre m f (set gs) a 0x100000 n"
proof -
  have U: "translate m f v = (if 0x100 \<le> vpage v \<and> vpage v < 0x100 + length gs then Some (gs ! (vpage v - 0x100)) else translate m0 f v)"
    if "ordinary v" for v using u that unfolding user_range_def by blast
  have D: "translate m f (0x100000 + of_nat j) = Some (gs ! (j div 4096)) \<and> j div 4096 < length gs \<and>
      ordinary (0x100000 + of_nat j) \<and> offset_of (0x100000 + of_nat j) = j mod 4096" if "j < n" for j
  proof -
    have "j < 2 ^ 47 - 0x100000" "j div 4096 < length gs" using that n by (simp_all add: div_less_iff_less_mult)
    with image_address [of j] U show ?thesis by simp
  qed
  have "ordinary v \<and> translate m f v = translate m0 f v" if "258 \<le> index_of 39 v" for v
  proof -
    have o: "ordinary v" using that by (simp add: ordinary_def)
    have "\<not> vpage v < 0x100 + length gs" using that n(3) unfolding index_of_vpage by (auto simp: div_less_iff_less_mult not_less dest: less_le_trans)
    with U [OF o] o show ?thesis by simp
  qed
  then have "ordinary (a + of_nat j) \<and> (\<exists>g. translate m f (a + of_nat j) = Some g \<and> g \<notin> set gs)" if "j < n" for j
    using im d that unfolding image_at_def by fastforce
  moreover have "i = j" if "i < n" "j < n" "gs ! (i div 4096) = gs ! (j div 4096)" "i mod 4096 = j mod 4096" for i j
  proof -
    have "i div 4096 = j div 4096"
      using that(3) D [OF that(1)] D [OF that(2)] fr by (simp add: fresh_frames_def nth_eq_iff_index_eq)
    with that(4) show ?thesis by (metis div_mult_mod_eq)
  qed
  ultimately show ?thesis
    unfolding copy_pre_def using D fr by (auto simp: fresh_frames_def)
qed

text \<open>What the image of \<open>n\<close> bytes at \<open>a\<close> is loaded from: a current address space that can be cloned, in whose
  kernel half the image is mapped, and frames for the clone, the pages and their tables.\<close>

definition load_pre :: "('s \<Rightarrow> u64 list \<Rightarrow> bool) \<Rightarrow> u64 \<Rightarrow> u64 list \<Rightarrow> u64 list \<Rightarrow> u64 \<Rightarrow> nat \<Rightarrow> 's vas \<Rightarrow> bool" where
  "load_pre avail f fs is a n s \<longleftrightarrow>
     clone_pre avail f fs s \<and> fresh_frames (vs_mem s) (vs_cr3 s) (f # fs @ is) \<and> 3 + 4 * pages_of n \<le> length fs \<and>
     n \<le> 2 ^ 47 - 0x100000 \<and> image_at (vs_mem s) (vs_cr3 s) is a n"

text \<open>What holds of the memory \<open>m\<close> afterwards.\<close>

definition image_loaded :: "frames \<Rightarrow> u64 \<Rightarrow> u64 \<Rightarrow> u64 \<Rightarrow> nat \<Rightarrow> frames \<Rightarrow> bool" where
  "image_loaded m0 root f a n m \<longleftrightarrow>
     vas_ok m root \<and> unlocked m root \<and> \<not> e_present (m root 257) \<and> vas_ok m f \<and> unlocked m f \<and>
     (\<forall>v. ordinary v \<longrightarrow> translate m root v = translate m0 root v) \<and>
     (\<forall>v. ordinary v \<longrightarrow> 258 \<le> index_of 39 v \<longrightarrow> translate m f v = translate m0 root v) \<and>
     (\<forall>v. index_of 39 v < 256 \<longrightarrow> (translate m f v \<noteq> None \<longleftrightarrow> 0x100 \<le> vpage v \<and> vpage v < 0x100 + pages_of n)) \<and>
     (\<forall>j<n. byte_at m f (0x100000 + of_nat j) = byte_at m0 root (a + of_nat j))"

context frame_supply
begin

lemma load_image_run:
  assumes pre: "load_pre avail f fs is a n s" and fuel: "pages_of n < fuel"
  shows "\<exists>s'. load_image fuel pop give a (a + of_nat n) s = Inr (f, s') \<and> vs_cr3 s' = vs_cr3 s \<and>
    image_loaded (vs_mem s) (vs_cr3 s) f a n (vs_mem s')"
proof -
  let ?r = "vs_cr3 s" and ?m = "pages_of n"
  have cp: "clone_pre avail f fs s" "fresh_frames (vs_mem s) ?r (f # fs @ is)" "3 + 4 * ?m \<le> length fs"
    "n \<le> 2 ^ 47 - 0x100000" and im: "image_at (vs_mem s) ?r is a n" using pre by (auto simp: load_pre_def)
  have lim: "?m \<le> 2 ^ 35 - 0x100" "n \<le> 4096 * ?m" "?m = 0 \<or> 4096 * (?m - 1) < n" using cp(4) by (auto simp: pages_of_def)
  from clone_kernel_run [OF cp(1,3,2)] obtain s1 gs where
    s1: "clone_kernel pop give s = Inr (f, s1)" "vs_cr3 s1 = ?r" "vas_ok (vs_mem s1) ?r" "unlocked (vs_mem s1) ?r"
      "cloned (vs_mem s1) ?r f" "f \<noteq> ?r" "\<And>v. ordinary v \<Longrightarrow> translate (vs_mem s1) ?r v = translate (vs_mem s) ?r v"
      "avail (vs_supply s1) gs" "4 * ?m \<le> length gs" "fresh_frames (vs_mem s1) ?r (f # gs @ is)"
      "\<And>h. h \<in> set is \<Longrightarrow> vs_mem s1 h = vs_mem s h" by blast
  have "recursive (vs_mem s1) (vs_cr3 s1)" using s1(2,3) by (simp add: vas_ok_def)
  from release_foreign_run [OF this] s1(2) obtain e where
    e: "\<not> e_present e" "release_foreign s1 = Inr (s1\<lparr>vs_mem := set_entry (vs_mem s1) ?r 257 e\<rparr>)" by auto
  define m2 where m2: "m2 = set_entry (vs_mem s1) ?r 257 e"
  have sep1: "separate (vs_mem s1) ?r" using s1(3) by (simp add: vas_ok_def)
  have k1: "tables_kept ?r (vs_mem s1) m2"
    unfolding tables_kept_def
  proof (intro allI impI)
    fix p g i
    assume "path_ok (p @ [i])" "length p \<le> 3" "walk (vs_mem s1) ?r p = Some g"
    from path_not_recursive [OF sep1 this] show "m2 g i = vs_mem s1 g i" by (auto simp: m2)
  qed
  have r2: "vas_ok m2 ?r" "unlocked m2 ?r"
    using tables_kept_ok [OF k1 sep1 s1(4)] s1(3) by (auto simp: vas_ok_def recursive_def m2)
  have c2: "cloned m2 ?r f" using s1(5,6) by (auto simp: cloned_def recursive_def m2)
  have fr2: "fresh_frames m2 ?r (f # gs @ is)" by (rule tables_kept_fresh [OF k1 s1(10)])
  have T2: "translate m2 ?r v = translate (vs_mem s) ?r v" if "ordinary v" for v
    using tables_kept_translate [OF k1 that] s1(7) [OF that] by simp
  have sep2: "separate m2 ?r" using r2(1) by (simp add: vas_ok_def)
  have "\<And>p. path_ok p \<Longrightarrow> length p \<le> 3 \<Longrightarrow> walk m2 ?r p \<noteq> Some f" using fr2 by (simp add: fresh_frames_def)
  note f2 = cloned_ok [OF c2 sep2 r2(2) this]
  from own_tables_list [OF r2(1) c2 fr2] obtain ks where ks: "set ks = own_tables m2 ?r" "fresh_frames m2 f ((gs @ is) @ ks)" by blast
  let ?s2 = "s1\<lparr>vs_mem := m2, vs_cr3 := f\<rparr>"
  have half: "index_of 39 v < 256" if "vpage v < 0x100 + ?m" for v
    using that lim(1) unfolding index_of_vpage by (simp add: div_less_iff_less_mult)
  have free: "translate m2 f v = None" if "ordinary v" "vpage v < 0x100 + ?m" for v
    using cloned_translate [OF c2 that(1)] half [OF that(2)] by simp
  define hi :: u64 where "hi = of_nat (0x100000 + n)"
  have hi: "0x100000 + of_nat n = hi" by (simp add: hi_def)
  have lo: "of_nat (4096 * 0x100) = (0x100000 :: u64)" by simp
  have "0x100 + ?m \<le> 256 * (512 * 512 * 512)" "0x100000 + n \<le> 4096 * (0x100 + ?m)"
    "?m = 0 \<or> 4096 * (0x100 + ?m - 1) < 0x100000 + n" using lim by auto
  from vm_map_range_run [OF this fuel, of ?s2 gs "is @ ks" 0, folded hi_def, unfolded lo] f2 free s1(8,9) ks(2)
  obtain s4 ds rest where s4: "vm_map_range fuel pop 0x100000 hi vm_user ?s2 = Inr s4" "vs_cr3 s4 = f"
    "length ds = ?m" "user_range f m2 0x100 ds (is @ ks) (vs_mem s4)" "fresh_frames (vs_mem s4) f (rest @ ds @ is @ ks)"
    by auto
  have im2: "image_at m2 f is a n"
    unfolding image_at_def
  proof (intro allI impI)
    fix j assume "j < n"
    with im have v: "258 \<le> index_of 39 (a + of_nat j)" "\<exists>g\<in>set is. translate (vs_mem s) ?r (a + of_nat j) = Some g"
      by (auto simp: image_at_def)
    then have "ordinary (a + of_nat j)" by (simp add: ordinary_def)
    with v T2 cloned_translate [OF c2] show "258 \<le> index_of 39 (a + of_nat j) \<and>
        (\<exists>g\<in>set is. translate m2 f (a + of_nat j) = Some g)" by simp
  qed
  have "fresh_frames (vs_mem s4) f ds" "set ds \<inter> set is = {}" using s4(5) by (auto simp: fresh_frames_def)
  with image_copy_pre [OF s4(4) _ im2] s4(3) lim cp(4) have "copy_pre (vs_mem s4) (vs_cr3 s4) (set ds) a 0x100000 n"
    by (simp add: s4(2))
  from vm_copy_run [OF this] s4(2) obtain s5 where s5: "vm_copy a 0x100000 n s4 = Inr s5" "vs_cr3 s5 = f"
    "copied_upto (vs_mem s4) f (set ds) a 0x100000 n (vs_mem s5)" by auto
  have out: "vs_mem s5 h = vs_mem s4 h" if "h \<notin> set ds" for h using s5(3) that by (simp add: copied_upto_def)
  have "unat (a + of_nat n - a) = n" using unat_of_nat_u64 [of n] cp(4) by simp
  then have run: "load_image fuel pop give a (a + of_nat n) s = Inr (f, s5\<lparr>vs_cr3 := ?r\<rparr>)"
    using s1(1) e(2) s4(1) s5(1) s1(2) by (simp add: load_image_def hi m2)
  let ?m5 = "vs_mem s5"
  have U: "vas_ok (vs_mem s4) f" "unlocked (vs_mem s4) f" "\<And>h. h \<in> set (is @ ks) \<Longrightarrow> vs_mem s4 h = m2 h"
    "\<And>v. ordinary v \<Longrightarrow> translate (vs_mem s4) f v =
       (if 0x100 \<le> vpage v \<and> vpage v < 0x100 + ?m then Some (ds ! (vpage v - 0x100)) else translate m2 f v)"
    using s4(4) unfolding user_range_def s4(3) by blast+
  have fr4: "fresh_frames (vs_mem s4) f (ds @ is @ ks)" using s4(5) by (auto simp: fresh_frames_def)
  have kr: "tables_kept ?r m2 ?m5" by (rule clone_keeps_root [OF c2 s4(4) _ fr4 out]) (use ks(1) in simp_all)
  have "?r \<in> set ks" unfolding ks(1) own_tables_def by (simp add: exI [of _ "[]"])
  then have "?r \<notin> set ds" "vs_mem s4 ?r = m2 ?r" using fr4 U(3) by (auto simp: fresh_frames_def)
  then have mr: "?m5 ?r = m2 ?r" using out by simp
  have "walk (vs_mem s4) f [] = Some f" by simp
  then have "f \<notin> set ds" using fr4 path_ok_Nil unfolding fresh_frames_def by fastforce
  then have mf: "?m5 f = vs_mem s4 f" by (rule out)
  have kf: "tables_kept f (vs_mem s4) ?m5"
    using fr4 out unfolding tables_kept_def fresh_frames_def by (metis UnCI path_ok_snoc set_append)
  have T4: "translate (vs_mem s4) f v = translate (vs_mem s) ?r v" if "258 \<le> index_of 39 v" for v
  proof -
    have o: "ordinary v" using that by (simp add: ordinary_def)
    have "\<not> vpage v < 0x100 + ?m" using half [of v] that by auto
    with U(4) [OF o] T2 [OF o] cloned_translate [OF c2 o] that show ?thesis by simp
  qed
  have "image_loaded (vs_mem s) ?r f a n ?m5"
    unfolding image_loaded_def
  proof (intro conjI allI impI)
    have "separate (vs_mem s4) f" "recursive (vs_mem s4) f" using U(1) by (auto simp: vas_ok_def)
    with tables_kept_ok [OF kf _ U(2)] mf show "vas_ok ?m5 f" "unlocked ?m5 f" by (auto simp: vas_ok_def recursive_def)
    show "vas_ok ?m5 ?r" "unlocked ?m5 ?r"
      using tables_kept_ok [OF kr sep2 r2(2)] r2(1) mr by (auto simp: vas_ok_def recursive_def)
    show "\<not> e_present (?m5 ?r 257)" using e(1) by (simp add: mr m2)
    show "translate ?m5 ?r v = translate (vs_mem s) ?r v" if "ordinary v" for v
      using tables_kept_translate [OF kr that] T2 [OF that] by simp
    show "translate ?m5 f v = translate (vs_mem s) ?r v" if "ordinary v" "258 \<le> index_of 39 v" for v
      using tables_kept_translate [OF kf that(1)] T4 [OF that(2)] by simp
    show "(translate ?m5 f v \<noteq> None) = (0x100 \<le> vpage v \<and> vpage v < 0x100 + ?m)" if "index_of 39 v < 256" for v
    proof -
      have o: "ordinary v" using that by (simp add: ordinary_def)
      show ?thesis using tables_kept_translate [OF kf o] U(4) [OF o] cloned_translate [OF c2 o] that by auto
    qed
    show "byte_at ?m5 f (0x100000 + of_nat j) = byte_at (vs_mem s) ?r (a + of_nat j)" if j: "j < n" for j
    proof -
      from im j obtain g where g: "258 \<le> index_of 39 (a + of_nat j)" "g \<in> set is"
        "translate (vs_mem s) ?r (a + of_nat j) = Some g" by (auto simp: image_at_def)
      have "g \<noteq> ?r" using cp(2) g(2) path_ok_Nil unfolding fresh_frames_def by fastforce
      then have "vs_mem s4 g = vs_mem s g" using U(3) [of g] s1(11) [OF g(2)] g(2) by (simp add: m2)
      then have "byte_at (vs_mem s4) f (a + of_nat j) = byte_at (vs_mem s) ?r (a + of_nat j)"
        using T4 [OF g(1)] g(3) by (simp add: byte_at_def)
      with s5(3) j show ?thesis by (simp add: copied_upto_def)
    qed
  qed
  with run show ?thesis by (intro exI [of _ "s5\<lparr>vs_cr3 := ?r\<rparr>"]) simp
qed

end

section \<open>The thread\<close>

lemma core_spaces_total:
  assumes "\<And>c. c \<in> set cs \<Longrightarrow> \<exists>u y. ps_running s c = Some u \<and> u \<noteq> 0 \<and> ps_threads s u = Some y"
  shows "\<exists>as. core_spaces s cs = Inr as"
  using assms
proof (induction cs)
  case (Cons c cs)
  from Cons.prems [of c] obtain u y where "ps_running s c = Some u" "u \<noteq> 0" "ps_threads s u = Some y" by auto
  moreover from Cons obtain as where "core_spaces s cs = Inr as" by auto
  ultimately show ?case by (simp add: core_space_def get_thread_def)
qed simp

text \<open>A queue that is not empty has a first element.\<close>

definition queue_ok :: "vfq \<Rightarrow> bool" where
  "queue_ok q \<longleftrightarrow> (ps_size (vq_list q) \<noteq> 0 \<longrightarrow> ps_top (vq_list q) \<noteq> None)"

definition queued :: "pointer \<Rightarrow> vfq \<Rightarrow> bool" where
  "queued t q \<longleftrightarrow> t \<in> ve_value ` set (ps_values (vq_list q))"

lemma vfq_push_queued:
  assumes "queue_ok q"
  shows "\<exists>q'. vfq_push p t q = Inr q' \<and> queued t q'"
proof -
  have "\<exists>d. (if ps_size (vq_list q) \<noteq> 0
      then case ps_top (vq_list q) of Some e \<Rightarrow> Inr (ve_data e) | None \<Rightarrow> Inl Null_Deref else Inr 0) = Inr d"
    using assms unfolding queue_ok_def by (cases "ps_size (vq_list q) = 0"; cases "ps_top (vq_list q)") simp_all
  then obtain d where d: "(if ps_size (vq_list q) \<noteq> 0
      then case ps_top (vq_list q) of Some e \<Rightarrow> Inr (ve_data e) | None \<Rightarrow> Inl Null_Deref else Inr 0) = Inr d" by blast
  let ?e = "\<lparr>ve_priority = p, ve_data = d, ve_value = t\<rparr>"
  have "?e \<in># mset (ps_values (ps_insert vfq_before ?e (vq_list q)))" unfolding ps_insert_values by simp
  then have "?e \<in> set (ps_values (ps_insert vfq_before ?e (vq_list q)))" by simp
  then have "t \<in> ve_value ` set (ps_values (ps_insert vfq_before ?e (vq_list q)))" by (rule rev_image_eqI) simp
  then show ?thesis using d by (simp add: vfq_push_def queued_def)
qed

text \<open>Outside an interrupt handler a thread of the normal policy ends up in the queue of the chosen processor.\<close>

lemma schedule_queued:
  assumes "0 < ncores" "t \<noteq> 0" "ps_threads s t = Some x" "th_policy x = Normal_Policy"
    and "\<And>c. c < ncores \<Longrightarrow> \<exists>u y. ps_running s c = Some u \<and> u \<noteq> 0 \<and> ps_threads s u = Some y"
    and "\<And>c. c < ncores \<Longrightarrow> queue_ok (lc_normal (loc c))"
  shows "\<exists>c act l. schedule ready this False ncores t s loc = Inr (c, act, loc(c := l)) \<and> c < ncores \<and> queued t (lc_normal l)"
proof -
  have "\<And>c. c \<in> set (0 # [1..<ncores]) \<Longrightarrow> c < ncores" using assms(1) by auto
  then obtain as where as: "core_spaces s (0 # [1..<ncores]) = Inr as" using core_spaces_total [of "0 # [1..<ncores]" s] assms(5) by blast
  let ?c = "schedule_on ncores (view_of this loc as x)"
  have c: "?c < ncores" using schedule_on_best [OF assms(1)] by blast
  from vfq_push_queued [OF assms(6) [OF c]] obtain q where
    q: "vfq_push (ucast (th_priority x)) t (lc_normal (loc ?c)) = Inr q" "queued t q" by blast
  have "\<exists>act l. local_push ready this False t x (loc ?c) = Inr (act, l) \<and> queued t (lc_normal l)"
    using q assms(4) by (auto simp: local_push_def do_switch_def Let_def)
  then obtain act l where l: "local_push ready this False t x (loc ?c) = Inr (act, l)" "queued t (lc_normal l)" by blast
  have "get_thread (ps_threads s) t = Inr x" using assms(2,3) by (simp add: get_thread_def)
  with as l have "schedule ready this False ncores t s loc = Inr (?c, act, loc(?c := l))"
    unfolding schedule_def by (simp only: rbind.simps Let_def prod.case)
  with c l(2) show ?thesis by blast
qed

text \<open>
  C2. \<open>create_process\<close> returns. The process has an address space of its own: its kernel half is the one
  of the caller, its user half holds exactly the pages of the image, and every byte there is the byte of
  the image. The caller is back in its own address space, which translates every address as before. The
  main thread of the process will start \<open>enter_userspace\<close> with the address of the image, in the address
  space of the process, and waits in the queue of one of the processors.
\<close>

theorem create_process_correct:
  assumes pre: "load_pre (pmm_avail i) f fs is a n (ma_vas m)" "pages_of n < fuel"
    and cores: "0 < ncores" "\<And>c. c < ncores \<Longrightarrow> queue_ok (lc_normal (ma_local m c))"
      "\<And>c. c < ncores \<Longrightarrow> \<exists>u y. ps_running (ma_processors m) c = Some u \<and> u \<noteq> 0 \<and> ps_threads (ma_processors m) u = Some y"
    and t: "t \<noteq> 0"
  shows "\<exists>p c act m' x. create_process fuel (pmm_pop i) give ready this False ncores entry_point b t j a (a + of_nat n) service m =
      Inr (p, c, act, m') \<and> vs_cr3 (ma_vas m') = vs_cr3 (ma_vas m) \<and>
    image_loaded (vs_mem (ma_vas m)) (vs_cr3 (ma_vas m)) f a n (vs_mem (ma_vas m')) \<and>
    pr_address_space p = f \<and> pr_main_thread p = Some t \<and> pr_service p = service \<and>
    ps_threads (ma_processors m') t = Some x \<and> th_address_space x = f \<and> th_status x = St_Init \<and>
    th_context x = Some (start_context entry_point 0x100000) \<and> c < ncores \<and> queued t (lc_normal (ma_local m' c))"
proof -
  from frames.load_image_run [OF pre] obtain s' where
    s': "load_image fuel (pmm_pop i) give a (a + of_nat n) (ma_vas m) = Inr (f, s')" "vs_cr3 s' = vs_cr3 (ma_vas m)"
      "image_loaded (vs_mem (ma_vas m)) (vs_cr3 (ma_vas m)) f a n (vs_mem s')" by blast
  let ?p = "new_pcb\<lparr>pr_address_space := f, pr_service := service\<rparr>"
  let ?x = "(new_tcb j)\<lparr>th_parent := Some b, th_address_space := f, th_policy := Normal_Policy, th_priority := 128,
    th_context := Some (start_context entry_point 0x100000)\<rparr>"
  let ?q = "(ma_processors m)\<lparr>ps_threads := (ps_threads (ma_processors m))(t \<mapsto> ?x)\<rparr>"
  have th: "create_thread 1 (vs_cr3 s') entry_point 0x100000 (Some (b, ?p)) t j (ps_threads (ma_processors m)) =
      Inr (Some (?p\<lparr>pr_main_thread := Some t\<rparr>), ps_threads ?q)"
    using t by (simp add: create_thread_def new_pcb_def get_thread_def)
  have "\<exists>u y. ps_running ?q c = Some u \<and> u \<noteq> 0 \<and> ps_threads ?q u = Some y" if "c < ncores" for c
    using cores(3) [OF that] by auto
  with schedule_queued [of ncores t ?q ?x "ma_local m" ready this] cores(1,2) t obtain c act l where
    sc: "schedule ready this False ncores t ?q (ma_local m) = Inr (c, act, (ma_local m)(c := l))" "c < ncores" "queued t (lc_normal l)"
    by auto
  have "create_process fuel (pmm_pop i) give ready this False ncores entry_point b t j a (a + of_nat n) service m =
      Inr (?p\<lparr>pr_main_thread := Some t\<rparr>, c, act, m\<lparr>ma_vas := s', ma_processors := ?q, ma_local := (ma_local m)(c := l)\<rparr>)"
    unfolding create_process_def s'(1) rbind.simps prod.case Let_def th by (simp add: sc(1))
  with s'(2,3) sc(2,3) show ?thesis by (simp add: new_tcb_def)
qed

section \<open>Entering user mode\<close>

text \<open>
  \<open>enter_userspace\<close> in a process that has nothing mapped at its stack: the sixteen pages of the stack are
  mapped to frames of their own, the frames \<open>ks\<close>, such as those of the image, keep their content, and the
  return goes to user mode with the stack pointer at the end of the stack.
\<close>

theorem enter_userspace_correct:
  assumes "vas_ok (vs_mem s) (vs_cr3 s)" "unlocked (vs_mem s) (vs_cr3 s)"
    and "\<And>v. ordinary v \<Longrightarrow> 0x10 \<le> vpage v \<Longrightarrow> vpage v < 0x20 \<Longrightarrow> translate (vs_mem s) (vs_cr3 s) v = None"
    and "pmm_avail i (vs_supply s) fs" "fresh_frames (vs_mem s) (vs_cr3 s) (fs @ ks)" "64 \<le> length fs" "16 < fuel"
  shows "\<exists>s' gs. enter_userspace fuel (pmm_pop i) dest s = Inr ([dest, 0x1b, 0x200, 0x20000, 0x23], s') \<and>
    vs_cr3 s' = vs_cr3 s \<and> length gs = 16 \<and> user_range (vs_cr3 s) (vs_mem s) 0x10 gs ks (vs_mem s')"
proof -
  have nums: "of_nat (4096 * 0x10) = (0x10000 :: u64)" "of_nat 0x20000 = (0x20000 :: u64)" by simp_all
  have "(0x10 :: nat) + 16 \<le> 256 * (512 * 512 * 512)" "(0x20000 :: nat) \<le> 4096 * (0x10 + 16)"
    "(16 :: nat) = 0 \<or> 4096 * (0x10 + 16 - 1) < (0x20000 :: nat)" by simp_all
  from frames.vm_map_range_run [OF this assms(7,1,2) _ assms(4,5), of 0, unfolded nums] assms(3,6) show ?thesis
    by (auto simp: enter_userspace_def)
qed

text \<open>
  A concrete kernel: the page \<open>0xFFFFFFFF80000000\<close> is mapped to the frame \<open>0x900000\<close>, whose first word
  holds an image; one processor runs thread 16.
\<close>

definition image_memory :: frames where
  "image_memory f i = (if f = 0x1000 \<and> i = 256 then 0x1001 else if f = 0x1000 \<and> i = 511 then 0x2003
     else if f = 0x2000 \<and> i = 510 then 0x4003 else if f = 0x4000 \<and> i = 0 then 0x5003
     else if f = 0x5000 \<and> i = 0 then 0x900003 else if f = 0x900000 \<and> i = 0 then 0x2211 else 0)"

definition image_machine :: "pmm machine" where
  "image_machine = \<lparr>ma_vas = demo_vas\<lparr>vs_mem := image_memory\<rparr>,
     ma_processors = \<lparr>ps_threads = [16 \<mapsto> (kernel_thread 0 0x1000 1)\<lparr>th_current_core := Some 0\<rparr>],
       ps_running = [0 \<mapsto> 16], ps_asid = (\<lambda>_. 0x1000)\<rparr>,
     ma_local = (\<lambda>c. new_local c 0)\<rparr>"

lemma image_frames: "e_frame 0x2003 = 0x2000" "e_frame 0x4003 = 0x4000" "e_frame 0x5003 = 0x5000" "e_frame 0x900003 = 0x900000"
  "e_frame 0x1001 = 0x1000" "e_frame 0x900000 = 0x900000"
  by (simp_all add: e_frame_def mask_eq_exp_minus_1)

lemma image_walk:
  assumes "path_ok q" "length q \<le> 4"
  shows "walk image_memory 0x1000 q = (if q = [] then Some 0x1000 else if q = [511] then Some 0x2000
    else if q = [511, 510] then Some 0x4000 else if q = [511, 510, 0] then Some 0x5000
    else if q = [511, 510, 0, 0] then Some 0x900000 else None)"
proof -
  have none: "walk image_memory 0x1000 (a # r) = None" if "a \<noteq> 511" "a \<noteq> 256" for a r
    using that by (simp add: walk.simps image_memory_def e_present_def)
  consider "q = []" | a r where "q = a # r" "a \<noteq> 511" "a \<noteq> 256" | "q = [511]" | b where "q = [511, b]" | b c where "q = [511, b, c]"
    | b c d where "q = [511, b, c, d]"
    using assms by (cases q; cases "tl q"; cases "tl (tl q)"; cases "tl (tl (tl q))") (auto simp: path_ok_def)
  then show ?thesis
    by cases (simp_all add: none walk.simps image_memory_def e_present_def image_frames)
qed

lemma image_indices: "indices 0xFFFFFFFF80000000 = [511, 510, 0, 0]" "indices 0xFFFFFFFF80000001 = [511, 510, 0, 0]"
  "indices 0xFFFFFFFF7FFFF000 = [511, 509, 511, 511]"
  by (simp_all add: indices_def index_of_def)

lemma image_ok: "vas_ok image_memory 0x1000" "unlocked image_memory 0x1000"
proof -
  have "recursive image_memory 0x1000" by (simp add: recursive_def image_memory_def e_present_def image_frames)
  then show "vas_ok image_memory 0x1000" by (auto simp: vas_ok_def separate_def image_walk split: if_splits)
  have b: "\<not> bit (image_memory f j) 9" if "f \<noteq> 0x900000" for f j
    using that by (simp add: image_memory_def)
  have w: "walk image_memory 0x1000 p \<noteq> Some 0x900000" if "path_ok p" "length p \<le> 3" for p
    using image_walk [of p] that by (auto split: if_splits)
  show "unlocked image_memory 0x1000"
    unfolding unlocked_def
  proof (intro allI impI)
    fix q e
    assume q: "path_ok q" "q \<noteq> []" "length q \<le> 4" "entry image_memory 0x1000 q = Some e"
    obtain p j where pj: "q = p @ [j]" using q(2) by (cases q rule: rev_cases) auto
    with q obtain f where f: "walk image_memory 0x1000 p = Some f" "e = image_memory f j" by (auto split: option.splits)
    have "f \<noteq> 0x900000" using w [of p] f(1) q pj by auto
    then show "\<not> bit e 9" unfolding f(2) by (rule b)
  qed
qed

lemma image_load_pre:
  "load_pre (pmm_avail 0) 0x200000 [0x201000, 0x202000, 0x203000, 0x204000, 0x205000, 0x206000, 0x207000] [0x900000]
    0xFFFFFFFF80000000 2 (ma_vas image_machine)"
proof -
  let ?fs = "[0x201000, 0x202000, 0x203000, 0x204000, 0x205000, 0x206000, 0x207000] :: u64 list"
  let ?s = "ma_vas image_machine"
  have s: "vs_mem ?s = image_memory" "vs_cr3 ?s = 0x1000" "vs_supply ?s = demo_pmm" "temp_page ?s = 0xFFFFFFFF7FFFF000"
    by (simp_all add: image_machine_def demo_vas_def temp_page_def)
  have fr: "fresh_frames image_memory 0x1000 (0x200000 # ?fs @ [0x900000])"
    unfolding fresh_frames_def by (auto simp: image_walk e_frame_def mask_eq_exp_minus_1 split: if_splits)
  have "image_at image_memory 0x1000 [0x900000] 0xFFFFFFFF80000000 2"
    using image_walk [of "[511, 510, 0, 0]"]
    by (auto simp: image_at_def less_2_cases_iff translate_def image_indices path_ok_def index_of_def)
  moreover have "translate image_memory 0x1000 0xFFFFFFFF7FFFF000 = None"
    using image_walk [of "[511, 509, 511, 511]"] by (simp add: translate_def image_indices path_ok_def)
  moreover have "fresh_frames image_memory 0x1000 (0x200000 # ?fs)" using fr by (auto simp: fresh_frames_def)
  moreover have "\<not> e_present (image_memory 0x1000 257)" by (simp add: image_memory_def e_present_def)
  ultimately show ?thesis
    using image_ok fr demo_avail unfolding load_pre_def clone_pre_def s demo_frames by (simp add: pages_of_def)
qed

theorem create_process_correct_witness:
  "\<exists>p c act m'. create_process 2 (pmm_pop 0) (\<lambda>f u. Inr u) False 0 False 1 0x8000 0x700 32 4 0xFFFFFFFF80000000 0xFFFFFFFF80000002 True
      image_machine = Inr (p, c, act, m') \<and> c = 0 \<and> pr_address_space p = 0x200000 \<and>
    byte_at (vs_mem (ma_vas m')) 0x200000 0x100001 = Some 0x22"
proof -
  let ?m = image_machine
  have q: "queue_ok (lc_normal (ma_local ?m c))" for c
    by (simp add: image_machine_def queue_ok_def new_local_def empty_vfq_def empty_pseq_def)
  have r: "\<exists>u y. ps_running (ma_processors ?m) c = Some u \<and> u \<noteq> 0 \<and> ps_threads (ma_processors ?m) u = Some y" if "c < 1" for c
    using that by (simp add: image_machine_def)
  have "pages_of 2 < 2" by (simp add: pages_of_def)
  from create_process_correct [OF image_load_pre this, of 1 32 "\<lambda>f u. Inr u" False 0 "0x8000" "0x700" 4 True] q r obtain p c act m' where
    p: "create_process 2 (pmm_pop 0) (\<lambda>f u. Inr u) False 0 False 1 0x8000 0x700 32 4 0xFFFFFFFF80000000 0xFFFFFFFF80000002 True
      ?m = Inr (p, c, act, m')" "c = 0" "pr_address_space p = 0x200000"
    "image_loaded image_memory 0x1000 0x200000 0xFFFFFFFF80000000 2 (vs_mem (ma_vas m'))"
    by (auto simp: image_machine_def demo_vas_def)
  have "byte_at (vs_mem (ma_vas m')) 0x200000 (0x100000 + of_nat 1) = byte_at image_memory 0x1000 (0xFFFFFFFF80000000 + of_nat 1)"
    using p(4) unfolding image_loaded_def by (elim conjE) (drule spec [of _ "1 :: nat"], simp)
  moreover have "byte_at image_memory 0x1000 0xFFFFFFFF80000001 = Some 0x22"
    using image_walk [of "[511, 510, 0, 0]"]
    by (simp add: byte_at_def translate_def image_indices path_ok_def byte_in_def offset_of_def get_byte_def image_memory_def)
  ultimately show ?thesis using p(1-3) by simp
qed

end
