(* ===== verification/Memory_Ops.thy ===== *)
theory Memory_Ops
  imports Prelude
begin

text \<open>
  Clearing, copying and filling memory (\<open>kernel/memory/memory.h\<close>): the templates, which work element by
  element, and their specialisations for bytes, which work eight bytes at a time. Memory is a function
  from addresses to bytes; addresses wrap around at 64 bits. An array of another type is a function from
  element numbers to elements.
\<close>

section \<open>Arrays of any type\<close>

fun zero_elems :: "'a \<Rightarrow> nat \<Rightarrow> nat \<Rightarrow> (nat \<Rightarrow> 'a) \<Rightarrow> nat \<Rightarrow> 'a" where
  "zero_elems z src 0 m = m"
| "zero_elems z src (Suc count) m = zero_elems z (Suc src) count (m(src := z))"

fun copy_elems :: "nat \<Rightarrow> nat \<Rightarrow> nat \<Rightarrow> (nat \<Rightarrow> 'a) \<Rightarrow> nat \<Rightarrow> 'a" where
  "copy_elems src dest 0 m = m"
| "copy_elems src dest (Suc count) m = copy_elems (Suc src) (Suc dest) count (m(dest := m src))"

fun set_elems :: "nat \<Rightarrow> 'a \<Rightarrow> nat \<Rightarrow> (nat \<Rightarrow> 'a) \<Rightarrow> nat \<Rightarrow> 'a" where
  "set_elems dest v 0 m = m"
| "set_elems dest v (Suc count) m = set_elems (Suc dest) v count (m(dest := v))"

section \<open>Bytes\<close>

type_synonym memory = "u64 \<Rightarrow> u8"

text \<open>Eight bytes at once: an access through a \<open>uint64_t *\<close>.\<close>

definition clear8 :: "u64 \<Rightarrow> memory \<Rightarrow> memory" where
  "clear8 a m = (\<lambda>x. if x - a < 8 then 0 else m x)"

definition copy8 :: "u64 \<Rightarrow> u64 \<Rightarrow> memory \<Rightarrow> memory" where
  "copy8 src dest m = (\<lambda>x. if x - dest < 8 then m (src + (x - dest)) else m x)"

definition zero_words :: "nat \<Rightarrow> u64 \<Rightarrow> memory \<Rightarrow> memory" where
  "zero_words n src m = fold (\<lambda>i. clear8 (src + of_nat (8 * i))) [0..<n] m"

text \<open>
  \<open>zero<uint8_t>\<close>. In the loop over the remaining bytes \<open>srcl\<close> is a pointer to 64-bit words that the
  first loop moved on, so its offsets count words.
\<close>

definition zero_bytes :: "u64 \<Rightarrow> nat \<Rightarrow> memory \<Rightarrow> memory" where
  "zero_bytes src count m =
     (let srcl = src + of_nat (8 * (count div 8)) in
      fold (\<lambda>i. clear8 (srcl + of_nat (8 * (count - count mod 8 + i)))) [0..<count mod 8]
        (zero_words (count div 8) src m))"

definition copy_words :: "nat \<Rightarrow> u64 \<Rightarrow> u64 \<Rightarrow> memory \<Rightarrow> memory" where
  "copy_words n src dest m = fold (\<lambda>i. copy8 (src + of_nat (8 * i)) (dest + of_nat (8 * i))) [0..<n] m"

definition copy1 :: "u64 \<Rightarrow> u64 \<Rightarrow> memory \<Rightarrow> memory" where
  "copy1 src dest m = m(dest := m src)"

definition copy_bytes :: "u64 \<Rightarrow> u64 \<Rightarrow> nat \<Rightarrow> memory \<Rightarrow> memory" where
  "copy_bytes src dest count m =
     fold (\<lambda>i. copy1 (src + of_nat (count - count mod 8 + i)) (dest + of_nat (count - count mod 8 + i))) [0..<count mod 8]
       (copy_words (count div 8) src dest m)"

section \<open>Element arrays\<close>

lemma zero_elems_set: "zero_elems z src count m = set_elems src z count m"
  by (induction count arbitrary: src m) auto

lemma set_elems_eq: "set_elems dest v count m = (\<lambda>i. if dest \<le> i \<and> i < dest + count then v else m i)"
  by (induction count arbitrary: dest m) (auto simp: fun_eq_iff)

text \<open>
  Copying elements forwards is right whenever the destination does not start inside the part of the
  source still to be read.
\<close>

theorem copy_elems_correct:
  assumes "dest \<le> src \<or> src + count \<le> dest"
  shows "copy_elems src dest count m = (\<lambda>i. if dest \<le> i \<and> i < dest + count then m (src + (i - dest)) else m i)"
  using assms
proof (induction count arbitrary: src dest m)
  case (Suc count)
  from Suc.prems have p: "Suc dest \<le> Suc src \<or> Suc src + count \<le> Suc dest" by auto
  show ?case
  proof
    fix i
    have "copy_elems src dest (Suc count) m i =
      (if Suc dest \<le> i \<and> i < Suc dest + count then (m(dest := m src)) (Suc src + (i - Suc dest)) else (m(dest := m src)) i)"
      by (simp add: Suc.IH [OF p])
    moreover have "(m(dest := m src)) (Suc src + (i - Suc dest)) = m (src + (i - dest))"
      if "Suc dest \<le> i" "i < Suc dest + count"
      using that Suc.prems by (auto simp: Suc_diff_Suc)
    ultimately show "copy_elems src dest (Suc count) m i =
      (if dest \<le> i \<and> i < dest + Suc count then m (src + (i - dest)) else m i)"
      by auto
  qed
qed (auto simp: fun_eq_iff)

section \<open>Bytes\<close>

text \<open>The first \<open>k\<close> bytes copied.\<close>

definition copied :: "'a::len word \<Rightarrow> 'a word \<Rightarrow> nat \<Rightarrow> ('a word \<Rightarrow> u8) \<Rightarrow> 'a word \<Rightarrow> u8" where
  "copied src dest k m = (\<lambda>x. if unat (x - dest) < k then m (src + (x - dest)) else m x)"

lemma unat_offset_len:
  fixes x d :: "'a::len word"
  assumes "k + n \<le> 2 ^ LENGTH('a)" "0 < n"
  shows "unat (x - (d + of_nat k)) < n \<longleftrightarrow> k \<le> unat (x - d) \<and> unat (x - d) < k + n"
proof -
  have k: "unat (of_nat k :: 'a word) = k" using assms by (intro unat_of_nat_len) simp
  define y where "y = x - d"
  have e: "x - (d + of_nat k) = y - of_nat k" by (simp add: y_def)
  show ?thesis
  proof (cases "k \<le> unat y")
    case True
    then have "unat (y - of_nat k) = unat y - k" by (metis k unat_sub word_le_nat_alt)
    with True show ?thesis unfolding e y_def [symmetric] by auto
  next
    case False
    then have "unat (y - of_nat k) = unat y + 2 ^ LENGTH('a) - k"
      using False by (simp add: unat_sub_if_size word_size k)
    with False assms show ?thesis unfolding e y_def [symmetric] by auto
  qed
qed

lemma unat_offset:
  "unat (x - (d + of_nat k) :: u64) < n \<longleftrightarrow> k \<le> unat (x - d) \<and> unat (x - d) < k + n"
  if "k + n \<le> 2 ^ 64" "0 < n" for x d :: u64
  using that by (intro unat_offset_len) simp_all

lemma copied_untouched:
  fixes s d :: "'a::len word"
  assumes "j < count" "k \<le> j" "count \<le> unat (d - s)"
  shows "copied s d k m (s + of_nat j) = m (s + of_nat j)"
proof -
  have "\<not> unat (s + of_nat j - d) < k"
  proof
    assume a: "unat (s + of_nat j - d) < k"
    let ?t = "s + of_nat j - d"
    have e: "of_nat j - ?t = d - s" by simp
    have j: "unat (of_nat j :: 'a word) = j" using assms unat_less_len [of "d - s"] by (intro unat_of_nat_len) linarith
    have "?t \<le> of_nat j" using a assms(2) by (simp add: word_le_nat_alt j)
    then have "unat (of_nat j - ?t) = j - unat ?t" by (metis unat_sub j)
    then have "unat (d - s) = j - unat ?t" unfolding e .
    with assms show False by linarith
  qed
  then show ?thesis by (simp add: copied_def)
qed

lemma copied_step:
  fixes s d :: "'a::len word"
  assumes n: "0 < n" and c: "k + n \<le> unat (d - s)"
  shows "(\<lambda>x. if unat (x - (d + of_nat k)) < n then copied s d k m ((s + of_nat k) + (x - (d + of_nat k)))
     else copied s d k m x) = copied s d (k + n) m"
proof
  fix x
  have kn: "k + n \<le> 2 ^ LENGTH('a)" using c unat_less_len [of "d - s"] by linarith
  let ?t = "x - (d + of_nat k)"
  have w: "unat ?t < n \<longleftrightarrow> k \<le> unat (x - d) \<and> unat (x - d) < k + n" by (rule unat_offset_len [OF kn n])
  show "(if unat ?t < n then copied s d k m ((s + of_nat k) + ?t) else copied s d k m x) = copied s d (k + n) m x"
  proof (cases "unat ?t < n")
    case True
    have e: "(s + of_nat k) + ?t = s + of_nat (unat (x - d))" by simp
    have "copied s d k m ((s + of_nat k) + ?t) = m ((s + of_nat k) + ?t)"
      unfolding e using True w c by (intro copied_untouched [where count = "k + n"]) simp_all
    with True w show ?thesis by (simp add: copied_def)
  next
    case False
    with w show ?thesis by (auto simp: copied_def)
  qed
qed

lemma copy8_copied: "k + 8 \<le> unat (d - s) \<Longrightarrow> copy8 (s + of_nat k) (d + of_nat k) (copied s d k m) = copied s d (k + 8) m"
  using copied_step [of 8 k d s m] by (simp add: copy8_def word_less_nat_alt)

lemma copy1_copied:
  assumes "k + 1 \<le> unat (d - s)"
  shows "copy1 (s + of_nat k) (d + of_nat k) (copied s d k m) = copied s d (k + 1) m"
proof -
  have e: "unat (x - (d + of_nat k)) < 1 \<longleftrightarrow> x = d + of_nat k" for x by (simp add: unat_eq_0 less_Suc0)
  have "copied s d (k + 1) m = (\<lambda>x. if x = d + of_nat k then copied s d k m (s + of_nat k) else copied s d k m x)"
    unfolding copied_step [of 1 k d s m, OF zero_less_one assms, symmetric] e by auto
  then show ?thesis by (simp add: copy1_def fun_upd_def)
qed


lemma copy_words_copied: "8 * n \<le> unat (d - s) \<Longrightarrow> copy_words n s d m = copied s d (8 * n) m"
proof (induction n)
  case 0
  show ?case by (simp add: copy_words_def copied_def)
next
  case (Suc n)
  then have "copy_words n s d m = copied s d (8 * n) m" by simp
  with copy8_copied [of "8 * n" d s m] Suc(2) show ?case
    by (simp add: copy_words_def add.commute del: of_nat_mult)
qed

text \<open>
  \<open>copy<uint8_t>\<close> copies: for any number of bytes, the destination holds what the source held
  before, and nothing else changes, as long as the destination does not start inside the source. A
  destination that overlaps the source from below, as when the screen scrolls, is fine.
\<close>

lemma copy_bytes_correct:
  assumes "count \<le> unat (dest - src)"
  shows "copy_bytes src dest count m x = (if unat (x - dest) < count then m (src + (x - dest)) else m x)"
proof -
  let ?n = "count - count mod 8"
  have n: "8 * (count div 8) = ?n" by (simp add: minus_mod_eq_mult_div)
  let ?step = "\<lambda>i. copy1 (src + of_nat (?n + i)) (dest + of_nat (?n + i))"
  have "fold ?step [0..<j] (copied src dest ?n m) = copied src dest (?n + j) m" if "?n + j \<le> count" for j
    using that
  proof (induction j)
    case (Suc j)
    then have "?n + j + 1 \<le> unat (dest - src)" using assms by linarith
    from copy1_copied [OF this, of m] Suc show ?case by (simp del: of_nat_add of_nat_diff)
  qed simp
  from this [of "count mod 8"] have "fold ?step [0..<count mod 8] (copied src dest ?n m) = copied src dest count m"
    by simp
  moreover have "copy_words (count div 8) src dest m = copied src dest ?n m"
    using copy_words_copied [of "count div 8" dest src m] assms n by simp
  ultimately show ?thesis by (simp add: copy_bytes_def copied_def)
qed

lemma copy_bytes_correct_witness:
  "copy_bytes 0x2010 0x2000 21 (\<lambda>x. ucast (x * 3)) 0x2014 = (ucast ((0x2024 :: u64) * 3) :: u8)"
  using copy_bytes_correct [where count = 21 and dest = "0x2000" and src = "0x2010" and x = "0x2014"] by simp

lemma copy_elems_correct_witness: "copy_elems 4 2 3 (\<lambda>i. 10 * i) 3 = (50 :: nat)"
  using copy_elems_correct [of 2 4 3 "\<lambda>i. 10 * i"] by simp

lemma clear_run:
  assumes "k + 8 * n \<le> 2 ^ 64"
  shows "fold (\<lambda>i. clear8 (src + of_nat (k + 8 * i))) [0..<n] m x =
    (if k \<le> unat (x - src) \<and> unat (x - src) < k + 8 * n then 0 else m x)"
  using assms
proof (induction n)
  case (Suc n)
  have "unat (x - (src + of_nat (k + 8 * n))) < 8 \<longleftrightarrow> k + 8 * n \<le> unat (x - src) \<and> unat (x - src) < k + 8 * n + 8"
    using Suc(2) by (intro unat_offset) simp_all
  then have "fold (\<lambda>i. clear8 (src + of_nat (k + 8 * i))) [0..<Suc n] m x =
    (if k + 8 * n \<le> unat (x - src) \<and> unat (x - src) < k + 8 * n + 8 then 0
     else fold (\<lambda>i. clear8 (src + of_nat (k + 8 * i))) [0..<n] m x)"
    by (simp add: clear8_def word_less_nat_alt del: of_nat_add of_nat_mult)
  with Suc show ?case by simp
qed auto

text \<open>
  What \<open>zero<uint8_t>\<close> clears: the loop over the remaining bytes misses them and clears words beyond the range.
\<close>

lemma zero_bytes_result:
  assumes "9 * count + 64 \<le> 2 ^ 64"
  shows "zero_bytes src count m x =
    (let r = count mod 8; d = unat (x - src) in
     if d < count - r \<or> 9 * (count - r) \<le> d \<and> d < 9 * (count - r) + 8 * r then 0 else m x)"
proof -
  let ?r = "count mod 8"
  let ?n = "count - ?r"
  have n: "8 * (count div 8) = ?n" by (simp add: minus_mod_eq_mult_div)
  have r: "?r < 8" by simp
  have le: "?n \<le> count" by simp
  have b: "9 * ?n + 8 * ?r \<le> 2 ^ 64" using assms r le by linarith
  have e: "src + of_nat (8 * (count div 8)) + of_nat (8 * (?n + i)) = src + of_nat (9 * ?n + 8 * i)" for i
  proof -
    have "of_nat (8 * (count div 8)) + of_nat (8 * (?n + i)) = (of_nat (8 * (count div 8) + 8 * (?n + i)) :: u64)"
      by (simp only: of_nat_add)
    also have "8 * (count div 8) + 8 * (?n + i) = 9 * ?n + 8 * i" unfolding n by presburger
    finally show ?thesis by (simp only: add.assoc)
  qed
  have w: "zero_words (count div 8) src m y = (if unat (y - src) < ?n then 0 else m y)" for y
    using clear_run [of 0 "count div 8" src m y] b n by (simp add: zero_words_def)
  show ?thesis
    unfolding zero_bytes_def Let_def e clear_run [OF b] w by auto
qed

lemma zero_bytes_multiple:
  assumes "8 dvd count" "9 * count + 64 \<le> 2 ^ 64"
  shows "zero_bytes src count m x = (if unat (x - src) < count then 0 else m x)"
  using zero_bytes_result [OF assms(2), of src m x] assms(1) by (simp add: Let_def dvd_eq_mod_eq_0)

text \<open>
  \<open>zero<uint8_t>\<close> clears what it should, and nothing else, exactly when the number of bytes is a
  multiple of 8.
\<close>

theorem zero_bytes_clears:
  assumes "9 * count + 64 \<le> 2 ^ 64"
  shows "(\<forall>m x. zero_bytes src count m x = (if unat (x - src) < count then 0 else m x)) \<longleftrightarrow> 8 dvd count"
proof
  assume a: "\<forall>m x. zero_bytes src count m x = (if unat (x - src) < count then 0 else m x)"
  show "8 dvd count"
  proof (rule ccontr)
    assume "\<not> 8 dvd count"
    then have r: "0 < count mod 8" by (simp add: dvd_eq_mod_eq_0)
    let ?r = "count mod 8"
    let ?o = "9 * (count - ?r) + 8 * ?r - 1"
    have o: "count \<le> ?o" "9 * (count - ?r) \<le> ?o" "?o < 9 * (count - ?r) + 8 * ?r" "?o < 2 ^ 64"
      using r assms mod_less_eq_dividend [of count 8] by linarith+
    then have u: "unat (src + of_nat ?o - src) = ?o" by (simp only: add_diff_cancel_left' unat_of_nat_u64)
    have "zero_bytes src count (\<lambda>_. 1) (src + of_nat ?o) = 1"
      using a [rule_format, of "\<lambda>_. 1" "src + of_nat ?o"] o(1) unfolding u by simp
    then show False
      using zero_bytes_result [OF assms, of src "\<lambda>_. 1" "src + of_nat ?o"] o(2,3) unfolding u Let_def by simp
  qed
qed (simp add: zero_bytes_multiple [OF _ assms])

theorem zero_bytes_clears_witness:
  "(\<forall>m x. zero_bytes 0x1000 16 m x = (if unat (x - 0x1000) < 16 then 0 else m x)) \<and>
   \<not> (\<forall>m x. zero_bytes 0x1000 12 m x = (if unat (x - 0x1000) < 12 then 0 else m x))"
  using zero_bytes_clears [of 16 "0x1000"] zero_bytes_clears [of 12 "0x1000"] by simp

end
