(* ===== verification/Descriptors.thy ===== *)
theory Descriptors
  imports Paging
begin

text \<open>
  Segment and interrupt descriptors (\<open>kernel/processor/gdt.cpp\<close>, \<open>idt.cpp\<close> and their headers): the
  entries as records of bit fields of their widths, the layout in memory as 64-bit words, the set-up
  routines, and the task state segment with its stacks.
\<close>

section \<open>Segment descriptors\<close>

record gdt_entry =
  g_limit_low :: "16 word"
  g_base_low :: "24 word"
  g_accessed :: "1 word"
  g_read_write :: "1 word"
  g_conforming :: "1 word"
  g_code :: "1 word"
  g_normal :: "1 word"
  g_dpl :: "2 word"
  g_present :: "1 word"
  g_limit_high :: "4 word"
  g_available :: "1 word"
  g_long_mode :: "1 word"
  g_big :: "1 word"
  g_granularity :: "1 word"
  g_base_high :: "8 word"

definition null_entry :: gdt_entry where
  "null_entry = \<lparr>g_limit_low = 0, g_base_low = 0, g_accessed = 0, g_read_write = 0, g_conforming = 0,
     g_code = 0, g_normal = 0, g_dpl = 0, g_present = 0, g_limit_high = 0, g_available = 0,
     g_long_mode = 0, g_big = 0, g_granularity = 0, g_base_high = 0\<rparr>"

text \<open>The packed layout.\<close>

definition gdt_word :: "gdt_entry \<Rightarrow> u64" where
  "gdt_word e = ucast (g_limit_low e) OR push_bit 16 (ucast (g_base_low e)) OR
     push_bit 40 (ucast (g_accessed e)) OR push_bit 41 (ucast (g_read_write e)) OR
     push_bit 42 (ucast (g_conforming e)) OR push_bit 43 (ucast (g_code e)) OR
     push_bit 44 (ucast (g_normal e)) OR push_bit 45 (ucast (g_dpl e)) OR
     push_bit 47 (ucast (g_present e)) OR push_bit 48 (ucast (g_limit_high e)) OR
     push_bit 52 (ucast (g_available e)) OR push_bit 53 (ucast (g_long_mode e)) OR
     push_bit 54 (ucast (g_big e)) OR push_bit 55 (ucast (g_granularity e)) OR
     push_bit 56 (ucast (g_base_high e))"

record gdtr =
  r_limit :: u16
  r_address :: u64

definition setup_gdte :: "nat \<Rightarrow> bool \<Rightarrow> bool \<Rightarrow> gdt_entry list \<Rightarrow> gdt_entry list" where
  "setup_gdte i code user start =
     start[i := (start ! i)\<lparr>g_normal := 1, g_code := (if code then 1 else 0),
       g_dpl := (if user then 3 else 0), g_long_mode := 1, g_present := 1, g_read_write := 1\<rparr>]"

section \<open>The task state segment\<close>

record tss =
  t_rsp0 :: u64
  t_rsp1 :: u64
  t_rsp2 :: u64
  t_ist1 :: u64
  t_ist2 :: u64
  t_ist3 :: u64
  t_ist4 :: u64
  t_ist5 :: u64
  t_ist6 :: u64
  t_ist7 :: u64
  t_iomap :: u16

definition zero_tss :: tss where
  "zero_tss = \<lparr>t_rsp0 = 0, t_rsp1 = 0, t_rsp2 = 0, t_ist1 = 0, t_ist2 = 0, t_ist3 = 0, t_ist4 = 0,
     t_ist5 = 0, t_ist6 = 0, t_ist7 = 0, t_iomap = 0\<rparr>"

text \<open>\<open>sizeof(processor::gdt::tss)\<close>: a 32-bit field, twelve of 64 bits and two of 16.\<close>

definition tss_size :: u64 where
  "tss_size = 4 + 12 * 8 + 2 * 2"

text \<open>A 32-bit store to the first four bytes of an entry: the limit and sixteen bits of the base.\<close>

definition put_low32 :: "u32 \<Rightarrow> gdt_entry \<Rightarrow> gdt_entry" where
  "put_low32 w e = e\<lparr>g_limit_low := ucast w,
     g_base_low := (g_base_low e AND NOT (mask 16)) OR ucast (drop_bit 16 w)\<rparr>"

definition tss_entries :: "nat \<Rightarrow> u64 \<Rightarrow> gdt_entry list \<Rightarrow> gdt_entry list" where
  "tss_entries i a start =
     (let start = start[i := (start ! i)\<lparr>g_base_low := ucast (a AND 0xFFFFFF), g_base_high := ucast (drop_bit 24 a AND 0xFF)\<rparr>];
          start = start[i + 1 := put_low32 (ucast (drop_bit 32 a AND 0xFFFFFFFF)) (start ! (i + 1))]
      in start[i := (start ! i)\<lparr>g_limit_low := ucast ((tss_size AND 0xFFFF) - 1), g_limit_high := ucast (drop_bit 16 tss_size),
           g_accessed := 1, g_code := 1, g_present := 1, g_dpl := 3\<rparr>])"

text \<open>
  The stacks of the task state segment: three of one page each for the interrupt stack table, in a
  range of six pages, and one of a page in a range of two. \<open>ist_pages\<close> and \<open>rsp0_page\<close> are the pages the
  code maps.
\<close>

definition ist_pages :: "u64 \<Rightarrow> u64 list" where
  "ist_pages stacks = [stacks + 4096, stacks + 3 * 4096, stacks + 5 * 4096]"

definition tss_stacks :: "u64 \<Rightarrow> u64 \<Rightarrow> tss" where
  "tss_stacks stacks range0 = zero_tss\<lparr>t_iomap := ucast tss_size, t_ist1 := stacks + 2 * 4096,
     t_ist2 := stacks + 4 * 4096, t_ist3 := stacks + 6 * 4096, t_rsp0 := range0 + 2 * 4096\<rparr>"

definition rsp0_page :: "tss \<Rightarrow> u64" where
  "rsp0_page t = t_rsp0 t - 4096"

fun map_pages :: "('s \<Rightarrow> (u64 \<times> 's) result) \<Rightarrow> u64 list \<Rightarrow> 's vas \<Rightarrow> 's vas result" where
  "map_pages pop [] s = Inr s"
| "map_pages pop (a # as) s = rbind (vm_map_page pop a vm_system s) (map_pages pop as)"

definition setup_tss :: "('s \<Rightarrow> (u64 \<times> 's) result) \<Rightarrow> nat \<Rightarrow> u64 \<Rightarrow> gdt_entry list \<Rightarrow> u64 option \<Rightarrow> 's vas \<Rightarrow>
    ((gdt_entry list \<times> tss \<times> u64 option) \<times> 's vas) result" where
  "setup_tss pop i a start core_stack s =
     rbind (allocate_address_range (6 * 4096) s) (\<lambda>(stacks, s).
     rbind (map_pages pop (ist_pages stacks) s) (\<lambda>s.
     rbind (allocate_address_range (2 * 4096) s) (\<lambda>(range0, s).
     let t = tss_stacks stacks range0 in
     rbind (vm_map_page pop (rsp0_page t) vm_system s) (\<lambda>s.
     Inr ((tss_entries i a start, t, map_option (\<lambda>_. t_rsp0 t) core_stack), s)))))"

text \<open>\<open>core_stack\<close> is the field \<open>kernel_stack\<close> of the current core, absent until the cores are known.
  \<open>gdt::initialize\<close> for the table at \<open>g\<close> and the task state segment at \<open>a\<close>; the other processors get
  tables of their own in the same way, and the boot processor keeps the first one.\<close>

definition flat_entries :: "gdt_entry list" where
  "flat_entries = setup_gdte 4 False True (setup_gdte 3 True True
     (setup_gdte 2 False False (setup_gdte 1 True False (replicate 7 null_entry))))"

definition gdt_initialize :: "('s \<Rightarrow> (u64 \<times> 's) result) \<Rightarrow> u64 \<Rightarrow> u64 \<Rightarrow> u64 option \<Rightarrow> 's vas \<Rightarrow>
    ((gdtr \<times> gdt_entry list \<times> tss \<times> u64 option) \<times> 's vas) result" where
  "gdt_initialize pop g a core_stack s =
     rbind (setup_tss pop 5 a flat_entries core_stack s) (\<lambda>((es, t, ks), s).
     Inr ((\<lparr>r_limit = 8 * 7 - 1, r_address = g\<rparr>, es, t, ks), s))"

definition gdt_ap_initialize ::
  "('s \<Rightarrow> (u64 \<times> 's) result) \<Rightarrow> bool \<Rightarrow> u64 \<Rightarrow> tss \<Rightarrow> u64 \<Rightarrow> u64 \<Rightarrow> gdt_entry list \<Rightarrow> tss \<Rightarrow>
    u64 option \<Rightarrow> 's vas \<Rightarrow> ((gdtr \<times> gdt_entry list \<times> tss \<times> u64 option) \<times> 's vas) result" where
  "gdt_ap_initialize pop is_bsp bsp_gdt bsp_tss core_gdt core_tss es t core_stack s =
     (if is_bsp then Inr ((\<lparr>r_limit = 8 * 7 - 1, r_address = bsp_gdt\<rparr>, es, t\<lparr>t_rsp0 := t_rsp0 bsp_tss\<rparr>, core_stack), s)
      else gdt_initialize pop core_gdt core_tss core_stack s)"

section \<open>Interrupt gates\<close>

record idt_entry =
  i_offset_low :: u16
  i_selector :: u16
  i_ist :: "3 word"
  i_zero :: "5 word"
  i_type :: "4 word"
  i_zero1 :: "1 word"
  i_dpl :: "2 word"
  i_present :: "1 word"
  i_offset_middle :: u16
  i_offset_high :: u32
  i_zero2 :: u32

definition setup_idte :: "nat \<Rightarrow> u64 \<Rightarrow> u16 \<Rightarrow> bool \<Rightarrow> u8 \<Rightarrow> u8 \<Rightarrow> u8 \<Rightarrow> idt_entry list \<Rightarrow> idt_entry list" where
  "setup_idte i address selector present dpl typ ist table =
     table[i := (table ! i)\<lparr>i_zero := 0, i_zero1 := 0, i_zero2 := 0,
       i_offset_low := ucast (address AND 0xffff), i_offset_middle := ucast (drop_bit 16 address AND 0xffff),
       i_offset_high := ucast (drop_bit 32 address AND 0xffffffff), i_selector := selector,
       i_present := (if present then 1 else 0), i_dpl := ucast dpl, i_type := ucast typ, i_ist := ucast ist\<rparr>]"

text \<open>\<open>_setup_isr<I>\<close> and its three specialisations, which use the interrupt stack table.\<close>

definition setup_isr :: "(nat \<Rightarrow> u64) \<Rightarrow> nat \<Rightarrow> idt_entry list \<Rightarrow> idt_entry list" where
  "setup_isr isr i =
     (if i = 2 then setup_idte 2 (isr 2) 8 True 0 0xE 1
      else if i = 8 then setup_idte 8 (isr 8) 8 True 0 0xE 2
      else if i = 14 then setup_idte 14 (isr 14) 8 True 0 0xE 3
      else setup_idte i (isr i) 8 True 0 0xE 0)"

record idtr =
  d_limit :: u16
  d_address :: u64

definition idt_initialize :: "(nat \<Rightarrow> u64) \<Rightarrow> u64 \<Rightarrow> idt_entry list \<Rightarrow> idtr \<times> idt_entry list" where
  "idt_initialize isr a table = (\<lparr>d_limit = 256 * 16 - 1, d_address = a\<rparr>, fold (setup_isr isr) [0..<256] table)"

text \<open>The stub of a vector pushes a zero in place of the error code that the processor does not push.\<close>

definition has_error_code :: "nat \<Rightarrow> bool" where
  "has_error_code i \<longleftrightarrow> i = 8 \<or> 10 \<le> i \<and> i \<le> 14 \<or> i = 17"

definition isr_stub :: "nat \<Rightarrow> u64 list \<Rightarrow> u64 list" where
  "isr_stub i stack = of_nat i # (if has_error_code i then stack else 0 # stack)"

section \<open>What the processor reads\<close>

definition gate_offset :: "idt_entry \<Rightarrow> u64" where
  "gate_offset e = ucast (i_offset_low e) OR push_bit 16 (ucast (i_offset_middle e)) OR push_bit 32 (ucast (i_offset_high e))"

text \<open>The base of a system segment in the words \<open>lo\<close> and \<open>hi\<close> of its descriptor.\<close>

definition system_base :: "u64 \<Rightarrow> u64 \<Rightarrow> u64" where
  "system_base lo hi = (drop_bit 16 lo AND mask 24) OR push_bit 24 (drop_bit 56 lo AND mask 8) OR push_bit 32 (hi AND mask 32)"

definition gate_ok :: "u64 \<Rightarrow> 3 word \<Rightarrow> idt_entry \<Rightarrow> bool" where
  "gate_ok a ist e \<longleftrightarrow> gate_offset e = a \<and> i_selector e = 8 \<and> i_present e = 1 \<and> i_type e = 14 \<and>
     i_dpl e = 0 \<and> i_ist e = ist \<and> i_zero e = 0 \<and> i_zero1 e = 0 \<and> i_zero2 e = 0"

definition ist_of :: "nat \<Rightarrow> 3 word" where
  "ist_of i = (if i = 2 then 1 else if i = 8 then 2 else if i = 14 then 3 else 0)"

lemma gate_offset_split:
  "ucast (ucast (a AND 0xffff) :: u16) OR push_bit 16 (ucast (ucast (drop_bit 16 a AND 0xffff) :: u16)) OR
   push_bit 32 (ucast (ucast (drop_bit 32 a AND 0xffffffff) :: u32)) = (a :: u64)"
proof -
  have m: "(0xffff :: u64) = mask 16" "(0xffffffff :: u64) = mask 32" by (simp_all add: mask_eq_exp_minus_1)
  show ?thesis unfolding m
  proof (rule bit_word_eqI)
    fix n assume n: "n < LENGTH(64)"
    consider "n < 16" | "16 \<le> n" "n < 32" | "32 \<le> n" by linarith
    then show "bit (ucast (ucast (a AND mask 16) :: u16) OR push_bit 16 (ucast (ucast (drop_bit 16 a AND mask 16) :: u16)) OR
        push_bit 32 (ucast (ucast (drop_bit 32 a AND mask 32) :: u32)) :: u64) n = bit a n"
      by cases (use n in \<open>auto simp: bit_simps\<close>)
  qed
qed

lemma setup_isr_gate: "i < length t \<Longrightarrow> gate_ok (isr i) (ist_of i) (setup_isr isr i t ! i)"
  by (auto simp: gate_ok_def setup_isr_def setup_idte_def gate_offset_def gate_offset_split ist_of_def)

lemma setup_isr_other: "i \<noteq> j \<Longrightarrow> setup_isr isr j t ! i = t ! i"
  by (auto simp: setup_isr_def setup_idte_def)

lemma length_setup_isr [simp]: "length (setup_isr isr j t) = length t"
  by (simp add: setup_isr_def setup_idte_def)

lemma setup_isrs:
  "n \<le> length t \<Longrightarrow> i < n \<Longrightarrow> gate_ok (isr i) (ist_of i) (fold (setup_isr isr) [0..<n] t ! i)"
proof (induction n)
  case (Suc n)
  have l: "length (fold (setup_isr isr) [0..<n] t) = length t"
    by (rule fold_invariant [where Q = "\<lambda>_. True" and P = "\<lambda>u. length u = length t"]) auto
  show ?case
  proof (cases "i = n")
    case True
    with Suc.prems l setup_isr_gate [of n "fold (setup_isr isr) [0..<n] t" isr] show ?thesis by simp
  next
    case False
    with Suc setup_isr_other [of i n isr] show ?thesis by simp
  qed
qed simp

text \<open>
  Whatever the table held, every one of the 256 gates leads to the stub of its vector, in the
  kernel code segment, as a present interrupt gate of privilege level 0; the non-maskable interrupt,
  the double fault and the page fault use the stacks 1, 2 and 3 of the task state segment and the others
  stay on the current stack.
\<close>

theorem idt_gates:
  assumes "length table = 256" "i < 256"
  shows "gate_ok (isr i) (ist_of i) (snd (idt_initialize isr a table) ! i)"
  using setup_isrs [of 256 table i isr] assms by (simp add: idt_initialize_def)

definition demo_gate :: idt_entry where
  "demo_gate = \<lparr>i_offset_low = 1, i_selector = 2, i_ist = 7, i_zero = 3, i_type = 4, i_zero1 = 1, i_dpl = 3,
     i_present = 0, i_offset_middle = 5, i_offset_high = 6, i_zero2 = 7\<rparr>"

lemma idt_gates_witness:
  "gate_ok 0xFFFFFFFF80123456 3 (snd (idt_initialize (\<lambda>i. 0xFFFFFFFF80123448 + of_nat i) 0 (replicate 256 demo_gate)) ! 14)"
  using idt_gates [of "replicate 256 demo_gate" 14 "\<lambda>i. 0xFFFFFFFF80123448 + of_nat i" 0] by (simp add: ist_of_def)

text \<open>The fields of a descriptor read back from its layout.\<close>

lemma bit_width: "LENGTH('a) \<le> n \<Longrightarrow> \<not> bit (w :: 'a :: len word) n"
  by (auto dest: bit_imp_le_length)

lemma bits_beyond [field_simps_hw]:
  "16 \<le> n \<Longrightarrow> \<not> bit (x :: 16 word) n" "24 \<le> n \<Longrightarrow> \<not> bit (y :: 24 word) n"
  "8 \<le> n \<Longrightarrow> \<not> bit (z :: 8 word) n" "4 \<le> n \<Longrightarrow> \<not> bit (v :: 4 word) n"
  "2 \<le> n \<Longrightarrow> \<not> bit (u :: 2 word) n" "1 \<le> n \<Longrightarrow> \<not> bit (w :: 1 word) n"
  by (rule bit_width, simp)+

lemma gdt_word_base_low: "n < 24 \<Longrightarrow> bit (gdt_word e) (16 + n) = bit (g_base_low e) n"
  by (simp add: gdt_word_def bit_simps field_simps_hw)

lemma gdt_word_base_high: "n < 8 \<Longrightarrow> bit (gdt_word e) (56 + n) = bit (g_base_high e) n"
  by (simp add: gdt_word_def bit_simps field_simps_hw)

lemma gdt_word_limit: "n < 16 \<Longrightarrow> bit (gdt_word e) n = bit (g_limit_low e) n"
  by (simp add: gdt_word_def bit_simps field_simps_hw)

lemma tss_words:
  assumes "length start = 7"
  shows "g_base_low (tss_entries 5 a start ! 5) = ucast (a AND mask 24)"
    "g_base_high (tss_entries 5 a start ! 5) = ucast (drop_bit 24 a AND mask 8)"
    "g_limit_low (tss_entries 5 a start ! 5) = 103" "g_limit_high (tss_entries 5 a start ! 5) = 0"
    "tss_entries 5 a start ! 6 = put_low32 (ucast (drop_bit 32 a AND mask 32)) (start ! 6)"
    "take 5 (tss_entries 5 a start) = take 5 start"
  using assms by (simp_all add: tss_entries_def Let_def tss_size_def mask_eq_exp_minus_1)

lemma put_low32_word: "n < 32 \<Longrightarrow> bit (gdt_word (put_low32 w e)) n = bit w n"
proof -
  assume n: "n < 32"
  consider "n < 16" | m where "n = 16 + m" "m < 16"
    using n by (metis add_diff_inverse_nat less_diff_conv2 linorder_not_less nat_add_left_cancel_less numeral_Bit0)
  then show ?thesis
  proof cases
    case 1
    then show ?thesis by (simp add: gdt_word_limit put_low32_def bit_simps)
  next
    case 2
    then show ?thesis by (simp add: gdt_word_base_low put_low32_def bit_simps)
  qed
qed

lemma system_base_tss:
  assumes "length start = 7"
  shows "system_base (gdt_word (tss_entries 5 a start ! 5)) (gdt_word (tss_entries 5 a start ! 6)) = a"
proof (rule bit_word_eqI)
  let ?lo = "gdt_word (tss_entries 5 a start ! 5)"
  let ?hi = "gdt_word (tss_entries 5 a start ! 6)"
  note w = tss_words [OF assms, of a]
  have lo: "bit ?lo (16 + n) = bit a n" if "n < 24" for n
    using that by (simp add: gdt_word_base_low w bit_simps)
  have mid: "bit ?lo (56 + n) = bit a (24 + n)" if "n < 8" for n
    using that by (simp add: gdt_word_base_high w bit_simps)
  have hi: "bit ?hi n = bit a (32 + n)" if "n < 32" for n
    using that by (simp add: put_low32_word w(5) bit_simps)
  fix n assume n: "n < LENGTH(64)"
  consider "n < 24" | "24 \<le> n" "n < 32" | "32 \<le> n" by linarith
  then show "bit (system_base ?lo ?hi) n = bit a n"
    by cases (use n lo [of n] mid [of "n - 24"] hi [of "n - 32"] in \<open>auto simp: system_base_def bit_simps\<close>)
qed

text \<open>
  The segment table: the null descriptor, then 64-bit code and data segments of the kernel and of
  user space in the layout the processor expects, and a task state segment descriptor whose base,
  scattered over two entries, is the address of the segment and whose limit is its last byte. Each
  stack of the segment begins right above a page the code maps, with an unmapped page below it.
\<close>

theorem gdt_contents:
  "map gdt_word (take 5 (tss_entries 5 a flat_entries)) =
     [0, 0x00209A0000000000, 0x0020920000000000, 0x0020FA0000000000, 0x0020F20000000000] \<and>
   system_base (gdt_word (tss_entries 5 a flat_entries ! 5)) (gdt_word (tss_entries 5 a flat_entries ! 6)) = a \<and>
   g_limit_low (tss_entries 5 a flat_entries ! 5) = 103 \<and> g_limit_high (tss_entries 5 a flat_entries ! 5) = 0 \<and>
   [t_ist1 (tss_stacks st r0), t_ist2 (tss_stacks st r0), t_ist3 (tss_stacks st r0)] = map ((+) 4096) (ist_pages st) \<and>
   t_rsp0 (tss_stacks st r0) = rsp0_page (tss_stacks st r0) + 4096 \<and>
   list_all (\<lambda>p. p - 4096 \<notin> set (ist_pages st)) (ist_pages st)"
proof -
  have l: "length flat_entries = 7" by (simp add: flat_entries_def setup_gdte_def)
  have "take 5 flat_entries = [null_entry, setup_gdte 1 True False (replicate 7 null_entry) ! 1,
      setup_gdte 2 False False (replicate 7 null_entry) ! 2, setup_gdte 3 True True (replicate 7 null_entry) ! 3,
      setup_gdte 4 False True (replicate 7 null_entry) ! 4]"
    by (simp add: flat_entries_def setup_gdte_def eval_nat_numeral)
  moreover have "map gdt_word \<dots> =
      [0, 0x00209A0000000000, 0x0020920000000000, 0x0020FA0000000000, 0x0020F20000000000]"
    by (simp add: setup_gdte_def null_entry_def gdt_word_def)
  ultimately have "map gdt_word (take 5 (tss_entries 5 a flat_entries)) =
      [0, 0x00209A0000000000, 0x0020920000000000, 0x0020FA0000000000, 0x0020F20000000000]"
    by (simp only: tss_words [OF l])
  moreover have "[t_ist1 (tss_stacks st r0), t_ist2 (tss_stacks st r0), t_ist3 (tss_stacks st r0)] = map ((+) 4096) (ist_pages st)"
    "t_rsp0 (tss_stacks st r0) = rsp0_page (tss_stacks st r0) + 4096"
    "list_all (\<lambda>p. p - 4096 \<notin> set (ist_pages st)) (ist_pages st)"
    by (simp_all add: tss_stacks_def ist_pages_def rsp0_page_def)
  ultimately show ?thesis using system_base_tss [OF l] tss_words(3,4) [OF l] by blast
qed

end
