(* ===== verification/Parallel.thy ===== *)
theory Parallel
  imports Prelude
begin

text \<open>
  Running a function on other processors (\<open>kernel/processor/ipi.cpp\<close>): one slot, the call that uses it
  and the interrupt handlers of the other processors as a step relation. A processor has the interrupt
  of the slot pending at most once, as the hardware keeps one bit for it.
\<close>

section \<open>Slots\<close>

datatype policy = All_Cores | All_No_Wait | Other_Cores | Others_No_Wait | Specific | Specific_No_Wait

text \<open>Where the caller is: about to run the function itself, done with it, waiting, or back.\<close>

datatype call_place = Own_Run | Own_Finish | Waiting | Returned

record 'f slot =
  sl_function :: "('f \<times> u64) option"
  sl_unfinished :: u64
  sl_pending :: "nat set"
  sl_running :: "nat set"
  sl_log :: "(nat \<times> 'f \<times> u64) list"
  sl_place :: call_place

definition quiet_slot :: "'f slot" where
  "quiet_slot = \<lparr>sl_function = None, sl_unfinished = 0, sl_pending = {}, sl_running = {}, sl_log = [], sl_place = Returned\<rparr>"

text \<open>The slots are used in turn, by a counter that wraps around.\<close>

definition take_slot :: "u64 \<Rightarrow> nat \<times> u64" where
  "take_slot next_slot = (unat next_slot mod 8, next_slot + 1)"

fun waits :: "policy \<Rightarrow> bool" where
  "waits All_Cores = True" | "waits Other_Cores = True" | "waits Specific = True"
| "waits All_No_Wait = False" | "waits Others_No_Wait = False" | "waits Specific_No_Wait = False"

definition others :: "nat \<Rightarrow> nat \<Rightarrow> nat set" where
  "others n me = {..<n} - {me}"

text \<open>\<open>parallel_execute\<close> up to the interrupts it sends, on processor \<open>me\<close> of \<open>n\<close>.\<close>

definition start_call :: "nat \<Rightarrow> nat \<Rightarrow> policy \<Rightarrow> 'f \<Rightarrow> u64 \<Rightarrow> nat \<Rightarrow> 'f slot \<Rightarrow> 'f slot" where
  "start_call n me p f d target s =
     (let s = s\<lparr>sl_function := Some (f, d)\<rparr>;
          send = (\<lambda>cs u w s. s\<lparr>sl_unfinished := u, sl_pending := sl_pending s \<union> cs, sl_place := w\<rparr>)
      in case p of
         All_No_Wait \<Rightarrow> send (others n me) 0 Own_Run s
       | All_Cores \<Rightarrow> send (others n me) (of_nat n) Own_Run s
       | Other_Cores \<Rightarrow> send (others n me) (of_nat (n - 1)) Waiting s
       | Others_No_Wait \<Rightarrow> send (others n me) 0 Returned s
       | Specific \<Rightarrow> send {target} 1 Waiting s
       | Specific_No_Wait \<Rightarrow> send {target} 0 Returned s)"

text \<open>
  The steps: a processor enters the handler and runs the function; it counts itself off; the caller
  runs the function, counts itself off, and leaves once the count is zero.
\<close>

inductive slot_step :: "nat \<Rightarrow> policy \<Rightarrow> 'f slot \<Rightarrow> 'f slot \<Rightarrow> bool" for me p where
  enter: "c \<in> sl_pending s \<Longrightarrow> sl_function s = Some (f, d) \<Longrightarrow>
    slot_step me p s (s\<lparr>sl_pending := sl_pending s - {c}, sl_running := insert c (sl_running s), sl_log := (c, f, d) # sl_log s\<rparr>)"
| count: "c \<in> sl_running s \<Longrightarrow>
    slot_step me p s (s\<lparr>sl_running := sl_running s - {c}, sl_unfinished := sl_unfinished s - 1\<rparr>)"
| own_run: "sl_place s = Own_Run \<Longrightarrow> sl_function s = Some (f, d) \<Longrightarrow>
    slot_step me p s (s\<lparr>sl_log := (me, f, d) # sl_log s, sl_place := (if waits p then Own_Finish else Returned)\<rparr>)"
| own_finish: "sl_place s = Own_Finish \<Longrightarrow>
    slot_step me p s (s\<lparr>sl_unfinished := sl_unfinished s - 1, sl_place := Waiting\<rparr>)"
| leave: "sl_place s = Waiting \<Longrightarrow> sl_unfinished s = 0 \<Longrightarrow>
    slot_step me p s (s\<lparr>sl_function := None, sl_place := Returned\<rparr>)"

section \<open>The invariant of a waiting call\<close>

definition expected :: "nat \<Rightarrow> nat \<Rightarrow> policy \<Rightarrow> nat \<Rightarrow> nat set" where
  "expected n me p target =
     (case p of All_Cores \<Rightarrow> {..<n} | Other_Cores \<Rightarrow> others n me | Specific \<Rightarrow> {target}
      | All_No_Wait \<Rightarrow> {..<n} | Others_No_Wait \<Rightarrow> others n me | Specific_No_Wait \<Rightarrow> {target})"

definition own_todo :: "nat \<Rightarrow> 'f slot \<Rightarrow> nat set" where
  "own_todo me s = (if sl_place s = Own_Run then {me} else {})"

definition to_count :: "'f slot \<Rightarrow> nat" where
  "to_count s = card (sl_pending s) + card (sl_running s) + (if sl_place s = Own_Run \<or> sl_place s = Own_Finish then 1 else 0)"

definition call_inv :: "nat set \<Rightarrow> nat \<Rightarrow> 'f \<Rightarrow> u64 \<Rightarrow> 'f slot \<Rightarrow> bool" where
  "call_inv E me f d s \<longleftrightarrow> finite E \<and> finite (sl_pending s) \<and> finite (sl_running s) \<and> to_count s < 2 ^ 64 \<and>
     sl_unfinished s = of_nat (to_count s) \<and>
     sl_pending s \<inter> own_todo me s = {} \<and> sl_pending s \<inter> sl_running s = {} \<and>
     distinct (map fst (sl_log s)) \<and> fst ` set (sl_log s) = E - sl_pending s - own_todo me s \<and>
     sl_pending s \<union> own_todo me s \<subseteq> E \<and> snd ` set (sl_log s) \<subseteq> {(f, d)} \<and>
     (if sl_place s = Returned then to_count s = 0 else sl_function s = Some (f, d))"

lemma start_inv:
  assumes "waits p" "me < n" "n < 2 ^ 64"
  shows "call_inv (expected n me p target) me f d (start_call n me p f d target quiet_slot)"
proof -
  have c: "card (others n me) = n - 1" "finite (others n me)" "me \<notin> others n me"
    using assms(2) by (auto simp: others_def)
  have i: "insert me (others n me) = {..<n}" using assms(2) by (auto simp: others_def)
  show ?thesis
    using assms c i
    by (cases p) (auto simp: call_inv_def start_call_def quiet_slot_def Let_def expected_def to_count_def own_todo_def)
qed

lemma word_pred_of_nat: "0 < m \<Longrightarrow> (of_nat m :: u64) - 1 = of_nat (m - 1)"
  by (cases m) auto

lemma call_inv_step:
  assumes "call_inv E me f d s" "slot_step me p s s'" "waits p"
  shows "call_inv E me f d s' \<and> to_count s' + card (sl_pending s') + (if sl_place s' = Own_Run then 1 else 0) + (if sl_place s' = Returned then 0 else 1)
    < to_count s + card (sl_pending s) + (if sl_place s = Own_Run then 1 else 0) + (if sl_place s = Returned then 0 else (1 :: nat))"
  using assms(2)
proof cases
  case (enter c f' d')
  have r: "c \<notin> sl_running s" "finite (sl_pending s)" "finite (sl_running s)" "card (sl_pending s) \<noteq> 0"
    using assms(1) enter by (auto simp: call_inv_def)
  have k: "Suc (card (sl_pending s - {c})) = card (sl_pending s)" using card_Suc_Diff1 [OF r(2)] enter by simp
  then have t: "to_count s' = to_count s" using enter(1) r(1-3) by (simp add: to_count_def)
  have "sl_place s \<noteq> Returned" using assms(1) enter r(4) by (auto simp: call_inv_def to_count_def split: if_splits)
  then have f: "f' = f" "d' = d" using assms(1) enter by (auto simp: call_inv_def)
  have c: "c \<in> E" "c \<notin> fst ` set (sl_log s)" "c \<notin> own_todo me s" using assms(1) enter by (auto simp: call_inv_def)
  note inv = assms(1) [unfolded call_inv_def]
  have o: "own_todo me s' = own_todo me s" using enter(1) by (simp add: own_todo_def)
  have "sl_pending s' \<inter> own_todo me s = {}" "sl_pending s' \<inter> sl_running s' = {}" "sl_pending s' \<union> own_todo me s \<subseteq> E"
    using inv enter(1) by auto
  moreover have "distinct (map fst (sl_log s'))" "snd ` set (sl_log s') \<subseteq> {(f, d)}" using inv enter(1) c f by simp_all
  moreover have "fst ` set (sl_log s') = insert c (E - sl_pending s - own_todo me s)" using inv enter(1) by simp
  then have "fst ` set (sl_log s') = E - sl_pending s' - own_todo me s" using c enter(1) by auto
  moreover have "finite (sl_pending s')" "finite (sl_running s')" "sl_unfinished s' = of_nat (to_count s)"
      "sl_function s' = Some (f, d)" "sl_place s' \<noteq> Returned"
    using inv enter r f \<open>sl_place s \<noteq> Returned\<close> by simp_all
  ultimately have "call_inv E me f d s'" using inv t o by (simp add: call_inv_def)
  moreover have "card (sl_pending s') < card (sl_pending s)" "sl_place s' = sl_place s" using k enter by simp_all
  ultimately show ?thesis using t by simp
next
  case (count c)
  have r: "finite (sl_running s)" "card (sl_running s) \<noteq> 0" using assms(1) count by (auto simp: call_inv_def)
  have "Suc (card (sl_running s - {c})) = card (sl_running s)" using card_Suc_Diff1 [OF r(1)] count by simp
  then have t: "Suc (to_count s') = to_count s" using count by (simp add: to_count_def)
  then have "sl_unfinished s - 1 = of_nat (to_count s')" using assms(1) word_pred_of_nat [of "to_count s"]
    by (simp add: call_inv_def flip: t)
  moreover have "sl_place s \<noteq> Returned" using assms(1) t by (auto simp: call_inv_def)
  ultimately show ?thesis using assms(1) count t by (auto simp: call_inv_def own_todo_def)
next
  case (own_run f' d')
  then show ?thesis using assms(1,3) by (auto simp: call_inv_def own_todo_def to_count_def)
next
  case own_finish
  then have t: "Suc (to_count s') = to_count s" by (simp add: to_count_def)
  then have "sl_unfinished s - 1 = of_nat (to_count s')" using assms(1) word_pred_of_nat [of "to_count s"]
    by (simp add: call_inv_def flip: t)
  then show ?thesis using assms(1) own_finish t by (auto simp: call_inv_def own_todo_def)
next
  case leave
  then have "to_count s = 0" using assms(1) unat_of_nat_u64 [of "to_count s"] by (auto simp: call_inv_def)
  then show ?thesis using assms(1) leave by (auto simp: call_inv_def own_todo_def to_count_def)
qed

text \<open>What can be reached from a call on a quiet slot.\<close>

definition slot_run :: "nat \<Rightarrow> nat \<Rightarrow> policy \<Rightarrow> 'f \<Rightarrow> u64 \<Rightarrow> nat \<Rightarrow> 'f slot \<Rightarrow> bool" where
  "slot_run n me p f d target s \<longleftrightarrow> (slot_step me p)\<^sup>*\<^sup>* (start_call n me p f d target quiet_slot) s"

lemma slot_run_inv:
  assumes "waits p" "me < n" "n < 2 ^ 64" "slot_run n me p f d target s"
  shows "call_inv (expected n me p target) me f d s"
  using assms(4) unfolding slot_run_def
proof (induction rule: rtranclp_induct)
  case base
  show ?case using start_inv assms(1-3) .
next
  case (step s s')
  with call_inv_step [OF step.IH step.hyps(2) assms(1)] show ?case by simp
qed

text \<open>
  C12. A call that waits, on a slot with no interrupt of an earlier call outstanding: when it has
  returned, every processor it is meant for has run the function with the argument, exactly once and
  to its end, and no other has, in whatever order the interrupts came.
\<close>

theorem parallel_execute_safe:
  assumes "waits p" "me < n" "n < 2 ^ 64" "slot_run n me p f d target s" "sl_place s = Returned"
  shows "distinct (map fst (sl_log s)) \<and> fst ` set (sl_log s) = expected n me p target \<and>
    snd ` set (sl_log s) \<subseteq> {(f, d)} \<and> sl_pending s = {} \<and> sl_running s = {}"
  using slot_run_inv [OF assms(1-4)] assms(5)
  by (auto simp: call_inv_def own_todo_def to_count_def)

definition distance :: "'f slot \<Rightarrow> nat" where
  "distance s = to_count s + card (sl_pending s) + (if sl_place s = Own_Run then 1 else 0) + (if sl_place s = Returned then 0 else 1)"


section \<open>Concrete runs\<close>

lemma slot_steps3:
  "slot_step me p a b \<Longrightarrow> slot_step me p b c \<Longrightarrow> slot_step me p c d \<Longrightarrow> (slot_step me p)\<^sup>*\<^sup>* a d"
  by (meson converse_rtranclp_into_rtranclp rtranclp.rtrancl_refl)

lemma two_processors_run:
  "slot_run 2 0 Other_Cores f d 0
     \<lparr>sl_function = None, sl_unfinished = 0, sl_pending = {}, sl_running = {}, sl_log = [(1, f, d)], sl_place = Returned\<rparr>"
proof -
  let ?s = "start_call 2 0 Other_Cores f d 0 quiet_slot"
  have s: "?s = \<lparr>sl_function = Some (f, d), sl_unfinished = 1, sl_pending = {1}, sl_running = {}, sl_log = [], sl_place = Waiting\<rparr>"
    by (auto simp: start_call_def quiet_slot_def others_def Let_def)
  have 1: "slot_step 0 Other_Cores ?s
      \<lparr>sl_function = Some (f, d), sl_unfinished = 1, sl_pending = {}, sl_running = {1}, sl_log = [(1, f, d)], sl_place = Waiting\<rparr>"
    (is "slot_step _ _ _ ?a") using slot_step.enter [of 1 ?s f d 0 Other_Cores] by (simp add: s)
  have 2: "slot_step 0 Other_Cores ?a
      \<lparr>sl_function = Some (f, d), sl_unfinished = 0, sl_pending = {}, sl_running = {}, sl_log = [(1, f, d)], sl_place = Waiting\<rparr>"
    (is "slot_step _ _ _ ?b") using slot_step.count [of 1 ?a 0 Other_Cores] by simp
  have 3: "slot_step 0 Other_Cores ?b
      \<lparr>sl_function = None, sl_unfinished = 0, sl_pending = {}, sl_running = {}, sl_log = [(1, f, d)], sl_place = Returned\<rparr>"
    using slot_step.leave [of ?b 0 Other_Cores] by simp
  from slot_steps3 [OF 1 2 3] show ?thesis unfolding slot_run_def .
qed

lemma parallel_execute_safe_witness: "fst ` set [(1 :: nat, CHR ''f'', 7 :: u64)] = expected 2 0 Other_Cores 0"
  using parallel_execute_safe [OF _ _ _ two_processors_run [of "CHR ''f''" 7]] by simp


text \<open>
  A call that does not wait gives its slot back while its interrupt is still on the way. The next
  call to use the slot can then return before its own target has run anything: the processor of the
  first call runs the function of the second one in its place and counts itself off, its own function
  is lost, and the target of the second call finds no function left.
\<close>

theorem parallel_no_wait_hazard:
  "\<exists>s. (slot_step 0 Specific)\<^sup>*\<^sup>* (start_call 3 0 Specific f2 d2 2 (start_call 3 0 Specific_No_Wait f1 d1 1 quiet_slot)) s \<and>
     sl_place s = Returned \<and> sl_log s = [(1, f2, d2)] \<and> 2 \<in> sl_pending s \<and> sl_function s = None"
proof -
  define t where "t = start_call 3 0 Specific f2 d2 2 (start_call 3 0 Specific_No_Wait f1 d1 1 quiet_slot)"
  have s: "t = \<lparr>sl_function = Some (f2, d2), sl_unfinished = 1, sl_pending = {1, 2}, sl_running = {}, sl_log = [], sl_place = Waiting\<rparr>"
    by (auto simp: t_def start_call_def quiet_slot_def Let_def)
  have d: "{1, 2} - {1} = {2 :: nat}" by auto
  have 1: "slot_step 0 Specific t
      \<lparr>sl_function = Some (f2, d2), sl_unfinished = 1, sl_pending = {2}, sl_running = {1}, sl_log = [(1, f2, d2)], sl_place = Waiting\<rparr>"
    (is "slot_step _ _ _ ?a") using slot_step.enter [of 1 t f2 d2 0 Specific] by (simp add: s d)
  have 2: "slot_step 0 Specific ?a
      \<lparr>sl_function = Some (f2, d2), sl_unfinished = 0, sl_pending = {2}, sl_running = {}, sl_log = [(1, f2, d2)], sl_place = Waiting\<rparr>"
    (is "slot_step _ _ _ ?b") using slot_step.count [of 1 ?a 0 Specific] by simp
  have 3: "slot_step 0 Specific ?b
      \<lparr>sl_function = None, sl_unfinished = 0, sl_pending = {2}, sl_running = {}, sl_log = [(1, f2, d2)], sl_place = Returned\<rparr>"
    (is "slot_step _ _ _ ?c") using slot_step.leave [of ?b 0 Specific] by simp
  from slot_steps3 [OF 1 2 3] show ?thesis unfolding t_def by (intro exI [of _ ?c]) simp
qed

end
