(* ===== verification/Handlers.thy ===== *)
theory Handlers
  imports Prelude
begin

text \<open>
  Interrupt vectors and handlers (\<open>kernel/processor/handlers.cpp\<close>): the allocation of vectors to
  devices, the registration of handlers, and the common handler of all interrupts. The parameters
  \<open>'d\<close> and \<open>'h\<close> stand for device and function pointers.
\<close>

section \<open>State\<close>

record ('d, 'h) vectors =
  vt_handlers :: "'h option list"
  vt_contexts :: "u64 list"
  vt_allocated :: "bool list"
  vt_owners :: "'d option list"
  vt_lock :: bool

definition empty_vectors :: "('d, 'h) vectors" where
  "empty_vectors = \<lparr>vt_handlers = replicate 256 None, vt_contexts = replicate 256 0,
     vt_allocated = replicate 224 False, vt_owners = replicate 224 None, vt_lock = False\<rparr>"

definition vectors_ok :: "('d, 'h) vectors \<Rightarrow> bool" where
  "vectors_ok s \<longleftrightarrow> length (vt_handlers s) = 256 \<and> length (vt_contexts s) = 256 \<and>
     length (vt_allocated s) = 224 \<and> length (vt_owners s) = 224"

section \<open>Allocating vectors\<close>

text \<open>The loop over the vectors \<open>ret\<close>, \<open>ret + 1\<close>, ... that stops at an allocated one.\<close>

fun block_free :: "bool list \<Rightarrow> nat \<Rightarrow> nat \<Rightarrow> bool result" where
  "block_free vs r 0 = Inr True"
| "block_free vs r (Suc n) =
     (if 224 \<le> r then Inl Out_Of_Bounds else if vs ! r then Inr False else block_free vs (Suc r) n)"

definition take_block :: "nat \<Rightarrow> nat \<Rightarrow> 'd option \<Rightarrow> ('d, 'h) vectors \<Rightarrow> ('d, 'h) vectors" where
  "take_block r n owner s = s\<lparr>
     vt_allocated := map (\<lambda>j. if r \<le> j \<and> j < r + n then True else vt_allocated s ! j) [0..<224],
     vt_owners := map (\<lambda>j. if r \<le> j \<and> j < r + n then owner else vt_owners s ! j) [0..<224]\<rparr>"

text \<open>The first aligned block at or below the one of the priority.\<close>

definition first_block :: "u8 \<Rightarrow> u8 \<Rightarrow> u8" where
  "first_block priority count = (priority * 16 + count - 1) AND NOT (count - 1)"

text \<open>
  The two searches, downwards to zero and then upwards. The counter is 8 bits wide, so after 256
  steps it has been everywhere it ever gets.
\<close>

fun scan_down :: "nat \<Rightarrow> bool list \<Rightarrow> u8 \<Rightarrow> u8 \<Rightarrow> u8 option result" where
  "scan_down 0 vs count ret = Inl Spins_Forever"
| "scan_down (Suc k) vs count ret =
     rbind (block_free vs (unat ret) (unat count)) (\<lambda>good.
     if good then Inr (Some ret) else if ret = 0 then Inr None else scan_down k vs count (ret - count))"

fun scan_up :: "nat \<Rightarrow> bool list \<Rightarrow> u8 \<Rightarrow> u8 \<Rightarrow> u8 option result" where
  "scan_up 0 vs count ret = Inl Spins_Forever"
| "scan_up (Suc k) vs count ret =
     (if ret < 224 then rbind (block_free vs (unat ret) (unat count)) (\<lambda>good.
        if good then Inr (Some ret) else scan_up k vs count (ret + count))
      else Inr None)"

text \<open>
  \<open>LOCK(_lock)\<close> with the plain spinlock: it spins on a lock that is taken. Operations of other cores
  are sequentialised, so a lock found taken is one that this very call chain holds and never returns to
  release.
\<close>

definition with_lock :: "(('d, 'h) vectors \<Rightarrow> ('a \<times> ('d, 'h) vectors) result) \<Rightarrow> ('d, 'h) vectors \<Rightarrow> ('a \<times> ('d, 'h) vectors) result" where
  "with_lock f s =
     (if vt_lock s then Inl Spins_Forever
      else rbind (f (s\<lparr>vt_lock := True\<rparr>)) (\<lambda>(x, s'). Inr (x, s'\<lparr>vt_lock := False\<rparr>)))"

lemma with_lock_cong [fundef_cong]:
  "s = s' \<Longrightarrow> (\<not> vt_lock s' \<Longrightarrow> f (s'\<lparr>vt_lock := True\<rparr>) = g (s'\<lparr>vt_lock := True\<rparr>)) \<Longrightarrow> with_lock f s = with_lock g s'"
  by (simp add: with_lock_def)

text \<open>\<open>allocate_isr\<close>: the first vector and the number of vectors allocated. The retry with half the
  number does not pass the owner on, and it is called with the lock held.\<close>

function allocate_isr :: "u8 \<Rightarrow> u8 \<Rightarrow> 'd option \<Rightarrow> ('d, 'h) vectors \<Rightarrow> ((u8 \<times> u8) \<times> ('d, 'h) vectors) result" where
  "allocate_isr priority count owner s =
     (if count = 0 then Inl (Panic ''Invalid request to allocate 0 interrupt numbers.'')
      else with_lock (\<lambda>s.
        rbind (scan_down 256 (vt_allocated s) count (first_block priority count)) (\<lambda>d.
        case d of Some ret \<Rightarrow> Inr ((ret + 32, count), take_block (unat ret) (unat count) owner s)
        | None \<Rightarrow> rbind (scan_up 256 (vt_allocated s) count (first_block priority count)) (\<lambda>u.
            case u of Some ret \<Rightarrow> Inr ((ret + 32, count), take_block (unat ret) (unat count) owner s)
            | None \<Rightarrow> if count \<noteq> 1 then allocate_isr priority (count div 2) None s
                      else Inl (Panic ''Interrupt allocation failed.'')))) s)"
  by pat_completeness auto
termination
proof (relation "measure (\<lambda>(_, count, _, _). unat count)")
  fix count :: u8 assume "count \<noteq> 0"
  then have "0 < unat count" by (simp add: unat_gt_0)
  then show "((priority, count div 2, None, s), (priority, count, owner, s')) \<in> measure (\<lambda>(_, count, _, _). unat count)"
    for priority :: u8 and owner :: "'d option" and s s' :: "('d, 'h) vectors"
    by (simp add: unat_div_distrib)
qed simp

declare allocate_isr.simps [simp del]

definition free_isr :: "u8 \<Rightarrow> ('d, 'h) vectors \<Rightarrow> (unit \<times> ('d, 'h) vectors) result" where
  "free_isr number = with_lock (\<lambda>s.
     if number < 32 then Inl Out_Of_Bounds
     else let i = unat number - 32 in
       if \<not> vt_allocated s ! i then Inl (Panic ''Tried to free a non-allocated interrupt number.'')
       else Inr ((), s\<lparr>vt_allocated := (vt_allocated s)[i := False], vt_owners := (vt_owners s)[i := None]\<rparr>))"

section \<open>Handlers\<close>

definition register_handler :: "u8 \<Rightarrow> 'h \<Rightarrow> u64 \<Rightarrow> ('d, 'h) vectors \<Rightarrow> (unit \<times> ('d, 'h) vectors) result" where
  "register_handler number handler ctx = with_lock (\<lambda>s.
     if vt_handlers s ! unat number \<noteq> None
     then Inl (Panic ''Tried to register handler for already registered interrupt handler.'')
     else Inr ((), s\<lparr>vt_handlers := (vt_handlers s)[unat number := Some handler],
                 vt_contexts := (vt_contexts s)[unat number := ctx]\<rparr>))"

definition unregister_handler :: "u8 \<Rightarrow> ('d, 'h) vectors \<Rightarrow> (unit \<times> ('d, 'h) vectors) result" where
  "unregister_handler number = with_lock (\<lambda>s.
     if vt_handlers s ! unat number = None
     then Inl (Panic ''Tried to unregister not registered interrupt handler.'')
     else Inr ((), s\<lparr>vt_handlers := (vt_handlers s)[unat number := None],
                 vt_contexts := (vt_contexts s)[unat number := 0]\<rparr>))"

definition initialize_exceptions :: "'h \<Rightarrow> ('d, 'h) vectors \<Rightarrow> ('d, 'h) vectors" where
  "initialize_exceptions page_fault s = s\<lparr>vt_handlers := (vt_handlers s)[14 := Some page_fault]\<rparr>"

section \<open>The common handler\<close>

text \<open>
  \<open>handle\<close> as the list of what it does, in order. What the handlers change shows in the parameter
  \<open>after\<close>: the thread that is current once the handler and the acknowledgement are over, and whether
  the interrupted one is still valid. \<open>before\<close> is the current thread with its number, absent until the
  scheduler is ready.
\<close>

datatype ('d, 'h, 't) irq_action =
    Swap_Gs
  | In_Interrupt bool
  | Run_Handler 'h u64
  | Mask_Vector 'd u64
  | Eoi u8
  | Save_Thread 't
  | Load_Thread 't

definition from_user :: "u64 \<Rightarrow> bool" where
  "from_user cs \<longleftrightarrow> cs AND 3 = 3"

definition gs_swap :: "u64 \<Rightarrow> ('d, 'h, 't) irq_action list" where
  "gs_swap cs = (if from_user cs then [Swap_Gs] else [])"

definition acknowledge :: "u64 \<Rightarrow> ('d, 'h) vectors \<Rightarrow> ('d, 'h, 't) irq_action list" where
  "acknowledge number s =
     (case vt_owners s ! (unat number - 32) of Some d \<Rightarrow> [Mask_Vector d number] | None \<Rightarrow> []) @ [Eoi (ucast number)]"

definition switch_thread :: "('t \<times> u64) option \<Rightarrow> 't \<times> u64 \<Rightarrow> bool \<Rightarrow> ('d, 'h, 't) irq_action list" where
  "switch_thread before after valid =
     (case before of None \<Rightarrow> []
      | Some (t, tid) \<Rightarrow>
          if tid \<noteq> 0 \<and> snd after \<noteq> tid then (if valid then [Save_Thread t] else []) @ [Load_Thread (fst after)] else [])"

definition handle :: "u64 \<Rightarrow> u64 \<Rightarrow> ('t \<times> u64) option \<Rightarrow> 't \<times> u64 \<Rightarrow> bool \<Rightarrow> ('d, 'h) vectors \<Rightarrow> ('d, 'h, 't) irq_action list result" where
  "handle number cs before after valid s =
     (if 256 \<le> number then Inl Out_Of_Bounds
      else let handler = vt_handlers s ! unat number in
        if number < 32 \<and> cs AND 3 = 0 \<and> handler = None then Inl (Panic ''Unhandled CPU exception.'')
        else Inr (gs_swap cs @ [In_Interrupt True] @
          (case handler of Some h \<Rightarrow> [Run_Handler h (vt_contexts s ! unat number)] | None \<Rightarrow> []) @
          (if 32 \<le> number then acknowledge number s else []) @
          switch_thread before after valid @ [In_Interrupt False] @ gs_swap cs))"

section \<open>The search for a block\<close>

text \<open>Block \<open>i\<close> of \<open>c\<close> vectors is free.\<close>

definition is_free :: "bool list \<Rightarrow> nat \<Rightarrow> nat \<Rightarrow> bool" where
  "is_free vs c i \<longleftrightarrow> list_all (\<lambda>j. \<not> vs ! j) [i * c..<i * c + c]"

lemma block_free_iff: "r + n \<le> 224 \<Longrightarrow> block_free vs r n = Inr (list_all (\<lambda>j. \<not> vs ! j) [r..<r + n])"
  by (induction n arbitrary: r) (auto simp del: upt_Suc simp: upt_conv_Cons)

lemma block_free_sound:
  "block_free vs r n = Inr True \<Longrightarrow> (n = 0 \<or> r + n \<le> 224) \<and> list_all (\<lambda>j. \<not> vs ! j) [r..<r + n]"
proof (induction n arbitrary: r)
  case (Suc n)
  then have r: "r < 224" "\<not> vs ! r" "block_free vs (Suc r) n = Inr True" by (auto split: if_splits)
  from Suc.IH [OF r(3)] r(1,2) show ?case by (auto simp del: upt_Suc simp: upt_conv_Cons)
qed simp

lemma scan_down_sound: "scan_down k vs count ret = Inr (Some r) \<Longrightarrow> block_free vs (unat r) (unat count) = Inr True"
  by (induction k arbitrary: ret) (auto split: if_splits)

lemma scan_up_sound: "scan_up k vs count ret = Inr (Some r) \<Longrightarrow> block_free vs (unat r) (unat count) = Inr True"
  by (induction k arbitrary: ret) (auto split: if_splits)

lemma find_append: "find P (xs @ ys) = (case find P xs of Some x \<Rightarrow> Some x | None \<Rightarrow> find P ys)"
  by (induction xs) auto

lemma unat_of_nat_u8: "m < 256 \<Longrightarrow> unat (of_nat m :: u8) = m"
  by (simp add: unsigned_of_nat take_bit_nat_eq_self)

lemma scan_down_find:
  assumes c: "unat count = c" "0 < c" and m: "m * c + c \<le> 224" and k: "m < k"
  shows "scan_down k vs count (of_nat (m * c)) =
    Inr (map_option (\<lambda>i. of_nat (i * c)) (find (is_free vs c) (rev [0..<Suc m])))"
  using m k
proof (induction m arbitrary: k)
  case 0
  then obtain k' where k': "k = Suc k'" by (cases k) auto
  from 0 show ?case by (simp add: k' c(1) block_free_iff is_free_def)
next
  case (Suc m)
  from Suc(3) obtain k' where k': "k = Suc k'" "m < k'" by (cases k) auto
  have l: "Suc m * c < 256" using Suc(2) by simp
  then have z: "of_nat (Suc m * c) \<noteq> (0 :: u8)" using c(2) unat_of_nat_u8 [OF l] by (auto simp del: mult_Suc)
  have count: "count = of_nat c" using c(1) by auto
  have IH: "scan_down k' vs count (of_nat (m * c)) = Inr (map_option (\<lambda>i. of_nat (i * c)) (find (is_free vs c) (rev [0..<Suc m])))"
    using Suc.IH [of k'] Suc(2) k'(2) by simp
  have sub: "of_nat (Suc m * c) - count = of_nat (m * c)" by (simp add: count)
  have "block_free vs (Suc m * c) c = Inr (is_free vs c (Suc m))"
    using Suc(2) by (simp only: block_free_iff is_free_def)
  then show ?case using IH z sub unat_of_nat_u8 [OF l] by (simp add: k'(1) c(1) del: mult_Suc of_nat_mult)
qed

lemma scan_up_find:
  assumes c: "unat count = c" "0 < c" and N: "N * c = 224" and m: "m + d = N" and k: "d < k"
  shows "scan_up k vs count (of_nat (m * c)) =
    Inr (map_option (\<lambda>i. of_nat (i * c)) (find (is_free vs c) [m..<N]))"
  using m k
proof (induction d arbitrary: m k)
  case 0
  then obtain k' where k': "k = Suc k'" by (cases k) auto
  from 0 N have m: "m * c = 224" by simp
  have "\<not> (224 :: u8) < 224" by simp
  with 0 show ?case unfolding m by (simp add: k')
next
  case (Suc d)
  from Suc(3) obtain k' where k': "k = Suc k'" "d < k'" by (cases k) auto
  from Suc(2) have "Suc m * c \<le> N * c" by (intro mult_le_mono1) simp
  then have m: "m * c + c \<le> 224" using N by simp
  then have l: "m * c < 224" using c(2) by linarith
  then have l8: "m * c < 256" by simp
  have u: "unat (of_nat (m * c) :: u8) = m * c" by (rule unat_of_nat_u8 [OF l8])
  with l have lt: "(of_nat (m * c) :: u8) < 224" by (simp add: word_less_nat_alt del: of_nat_mult)
  have count: "count = of_nat c" using c(1) by auto
  have sum: "of_nat (m * c) + count = of_nat (Suc m * c)" by (simp add: count)
  have IH: "scan_up k' vs count (of_nat (Suc m * c)) = Inr (map_option (\<lambda>i. of_nat (i * c)) (find (is_free vs c) [Suc m..<N]))"
    using Suc.IH [of "Suc m" k'] Suc(2) k'(2) by simp
  have "block_free vs (m * c) c = Inr (is_free vs c m)" using m by (simp only: block_free_iff is_free_def)
  moreover have "[m..<N] = m # [Suc m..<N]" using Suc(2) by (simp add: upt_conv_Cons)
  ultimately show ?case using IH lt u sum by (simp add: k'(1) c(1) del: mult_Suc of_nat_mult)
qed

lemma u8_cases_14: "(p :: u8) \<le> 13 \<Longrightarrow> p \<in> {0, 1, 2, 3, 4, 5, 6, 7, 8, 9, 10, 11, 12, 13}"
proof -
  assume "p \<le> 13"
  then have "unat p \<le> 13" by (simp add: word_le_nat_alt)
  then have "unat p \<in> {0, 1, 2, 3, 4, 5, 6, 7, 8, 9, 10, 11, 12, 13}" unfolding insert_iff empty_iff by presburger
  then show ?thesis by (auto simp: word_unat_eq_iff)
qed

lemma first_block_aligned:
  assumes "p \<le> 13" "count \<in> {1, 2, 4, 8, 16}"
  shows "first_block p count = of_nat ((16 * unat p div unat count) * unat count) \<and> 16 * unat p div unat count * unat count \<le> 208"
  using u8_cases_14 [OF assms(1)] assms(2) unfolding first_block_def by auto

section \<open>What an allocation returns\<close>

lemma with_lock_Inr: "with_lock f s = Inr (x, s') \<longleftrightarrow>
    \<not> vt_lock s \<and> (\<exists>s1. f (s\<lparr>vt_lock := True\<rparr>) = Inr (x, s1) \<and> s' = s1\<lparr>vt_lock := False\<rparr>)"
  by (auto simp: with_lock_def split: prod.splits)

lemma allocate_isr_locked: "vt_lock s \<Longrightarrow> count \<noteq> 0 \<Longrightarrow> allocate_isr priority count owner s = Inl Spins_Forever"
  by (subst allocate_isr.simps, subst with_lock_def) (simp only: if_True if_False)

lemma allocate_isr_zero:
  "allocate_isr priority 0 owner s = Inl (Panic ''Invalid request to allocate 0 interrupt numbers.'')"
  by (subst allocate_isr.simps) simp

lemma half_nonzero: "(count :: u8) \<noteq> 0 \<Longrightarrow> count \<noteq> 1 \<Longrightarrow> count div 2 \<noteq> 0"
proof
  assume c: "count \<noteq> 0" "count \<noteq> 1" and z: "count div 2 = 0"
  have "unat (count div 2) = unat count div 2" by (simp add: unat_div_distrib)
  then have "unat count < 2" using z by simp
  then have "unat count = unat (0 :: u8) \<or> unat count = unat (1 :: u8)" by auto
  with c show False unfolding word_unat_eq_iff by blast
qed

lemma allocate_isr_unlocked:
  assumes nl: "\<not> vt_lock s" and nz: "count \<noteq> 0"
  shows "allocate_isr priority count owner s =
     rbind (scan_down 256 (vt_allocated s) count (first_block priority count)) (\<lambda>d.
       case d of Some ret \<Rightarrow> Inr ((ret + 32, count), take_block (unat ret) (unat count) owner s)
       | None \<Rightarrow> rbind (scan_up 256 (vt_allocated s) count (first_block priority count)) (\<lambda>u.
           case u of Some ret \<Rightarrow> Inr ((ret + 32, count), take_block (unat ret) (unat count) owner s)
           | None \<Rightarrow> if count = 1 then Inl (Panic ''Interrupt allocation failed.'') else Inl Spins_Forever))"
proof -
  let ?l = "s\<lparr>vt_lock := True\<rparr>"
  have unlock: "(take_block a b owner ?l)\<lparr>vt_lock := False\<rparr> = take_block a b owner s" for a b
    using nl by (simp add: take_block_def)
  have retry: "allocate_isr priority (count div 2) None ?l = Inl Spins_Forever" if "count \<noteq> 1"
    using half_nonzero [OF nz that] by (simp add: allocate_isr_locked)
  let ?d = "scan_down 256 (vt_allocated s) count (first_block priority count)"
  let ?u = "scan_up 256 (vt_allocated s) count (first_block priority count)"
  note e = allocate_isr.simps [of priority count owner s]
  show ?thesis
  proof (cases ?d)
    case (Inr d)
    show ?thesis
    proof (cases d)
      case None
      show ?thesis
      proof (cases ?u)
        case (Inr u)
        with \<open>?d = Inr d\<close> None nl nz retry show ?thesis
          by (cases u) (simp_all add: e with_lock_def unlock)
      qed (use \<open>?d = Inr d\<close> None nl nz in \<open>simp add: e with_lock_def\<close>)
    qed (use Inr nl nz in \<open>simp add: e with_lock_def unlock\<close>)
  qed (use nl nz in \<open>simp add: e with_lock_def\<close>)
qed

lemma allocate_isr_cases:
  assumes "allocate_isr priority count owner s = Inr ((v, n), s')"
  obtains r where "\<not> vt_lock s" "count \<noteq> 0" "n = count" "v = r + 32"
    "block_free (vt_allocated s) (unat r) (unat count) = Inr True"
    "s' = take_block (unat r) (unat count) owner s"
proof -
  have nz: "count \<noteq> 0" using assms by (cases "count = 0") (simp_all add: allocate_isr_zero)
  have nl: "\<not> vt_lock s" using assms allocate_isr_locked [OF _ nz, of s priority owner] by auto
  let ?b = "\<lambda>d. \<exists>r. d = Some r \<and> block_free (vt_allocated s) (unat r) (unat count) = Inr True \<and>
    n = count \<and> v = r + 32 \<and> s' = take_block (unat r) (unat count) owner s"
  from assms obtain d where d: "scan_down 256 (vt_allocated s) count (first_block priority count) = Inr d"
    and rest: "(case d of Some ret \<Rightarrow> Inr ((ret + 32, count), take_block (unat ret) (unat count) owner s)
       | None \<Rightarrow> rbind (scan_up 256 (vt_allocated s) count (first_block priority count)) (\<lambda>u.
           case u of Some ret \<Rightarrow> Inr ((ret + 32, count), take_block (unat ret) (unat count) owner s)
           | None \<Rightarrow> if count = 1 then Inl (Panic ''Interrupt allocation failed.'') else Inl Spins_Forever)) = Inr ((v, n), s')"
    unfolding allocate_isr_unlocked [OF nl nz] rbind_Inr_iff by blast
  have "\<exists>d. ?b d"
  proof (cases d)
    case (Some r)
    with rest scan_down_sound [of 256 "vt_allocated s" count _ r] d have "?b d" by auto
    then show ?thesis ..
  next
    case None
    with rest obtain u where u: "scan_up 256 (vt_allocated s) count (first_block priority count) = Inr u"
      and rest': "(case u of Some ret \<Rightarrow> Inr ((ret + 32, count), take_block (unat ret) (unat count) owner s)
           | None \<Rightarrow> if count = 1 then Inl (Panic ''Interrupt allocation failed.'') else Inl Spins_Forever) = Inr ((v, n), s')"
      by (auto simp: None)
    then have "?b u" by (cases u) (auto split: if_splits dest: scan_up_sound)
    then show ?thesis ..
  qed
  with nz nl that show thesis by blast
qed

text \<open>What a successful allocation did: \<open>n\<close> vectors from \<open>r\<close> on, free before, belong to \<open>owner\<close> now.\<close>

definition allocated_block :: "nat \<Rightarrow> nat \<Rightarrow> 'd option \<Rightarrow> ('d, 'h) vectors \<Rightarrow> ('d, 'h) vectors \<Rightarrow> bool" where
  "allocated_block r n owner s s' \<longleftrightarrow> r + n \<le> 224 \<and>
     list_all (\<lambda>j. if r \<le> j \<and> j < r + n
        then \<not> vt_allocated s ! j \<and> vt_allocated s' ! j \<and> vt_owners s' ! j = owner
        else vt_allocated s' ! j = vt_allocated s ! j \<and> vt_owners s' ! j = vt_owners s ! j) [0..<224]"

lemma take_block_allocates:
  assumes f: "block_free (vt_allocated s) r n = Inr True" and n: "n \<noteq> 0"
  shows "allocated_block r n owner s (take_block r n owner s)"
proof -
  from block_free_sound [OF f] n have b: "r + n \<le> 224" "\<And>j. r \<le> j \<Longrightarrow> j < r + n \<Longrightarrow> \<not> vt_allocated s ! j"
    by (auto simp: list_all_iff)
  then show ?thesis
    unfolding allocated_block_def take_block_def by (simp add: list_all_iff)
qed

text \<open>
  C11. Whatever priority, number and state: if \<open>allocate_isr\<close> returns, it got exactly the number of
  vectors asked for; they lie inside the table, were free, and are now allocated to the owner, and all
  other vectors are as before. The retry with fewer vectors never succeeds.
\<close>

theorem allocate_isr_sound:
  assumes "allocate_isr priority count owner s = Inr ((v, n), s')"
  shows "n = count \<and> n \<noteq> 0 \<and> 32 \<le> v \<and> allocated_block (unat v - 32) (unat n) owner s s' \<and>
    vt_handlers s' = vt_handlers s \<and> vt_contexts s' = vt_contexts s \<and> \<not> vt_lock s'"
proof -
  from assms obtain r where r: "\<not> vt_lock s" "count \<noteq> 0" "n = count" "v = r + 32"
    "block_free (vt_allocated s) (unat r) (unat count) = Inr True" "s' = take_block (unat r) (unat count) owner s"
    by (rule allocate_isr_cases)
  then have c: "unat count \<noteq> 0" by (simp add: unat_eq_0)
  then have "unat r + unat count \<le> 224" using block_free_sound [OF r(5)] by simp
  then have v: "unat v = unat r + 32" using c by (simp add: r(4) unat_word_ariths)
  with take_block_allocates [OF r(5) c, of owner] r(1-3,6) show ?thesis
    by (simp add: word_le_nat_alt take_block_def)
qed

lemma empty_vectors_free:
  "i * c + c \<le> 224 \<Longrightarrow> is_free (vt_allocated empty_vectors) c i"
  by (auto simp: is_free_def empty_vectors_def list_all_iff)

lemma allocate_isr_empty:
  "allocate_isr 1 2 owner empty_vectors = Inr ((48, 2), take_block 16 2 owner empty_vectors)"
proof -
  have f: "first_block 1 2 = of_nat (8 * 2)" by (simp add: first_block_def)
  have e: "is_free (vt_allocated (empty_vectors :: ('a, 'b) vectors)) 2 8" by (rule empty_vectors_free) simp
  have "find (is_free (vt_allocated (empty_vectors :: ('a, 'b) vectors)) 2) (rev [0..<Suc 8]) = Some 8"
    using e by (simp only: upt_Suc_append rev_append find.simps rev.simps append.simps le0 if_True)
  then have "scan_down 256 (vt_allocated (empty_vectors :: ('a, 'b) vectors)) (2 :: u8) (of_nat (8 * 2)) = Inr (Some 16)"
    by (subst scan_down_find [where c = 2]) (simp_all del: upt_Suc)
  then show ?thesis
    by (subst allocate_isr_unlocked) (simp_all add: f, simp add: empty_vectors_def)
qed

lemma allocate_isr_sound_witness:
  "\<exists>s'. allocate_isr 1 2 (Some CHR ''n'') (empty_vectors :: (char, nat) vectors) = Inr ((48, 2), s') \<and>
     allocated_block 16 2 (Some CHR ''n'') empty_vectors s'"
  using allocate_isr_sound [OF allocate_isr_empty [of "Some CHR ''n''", where 'b = nat]]
    allocate_isr_empty [of "Some CHR ''n''", where 'b = nat] by auto

text \<open>
  For a power of two up to 16, a priority up to 13 and a free lock, the outcome is determined: the
  block searched for first is the one of the priority, then the ones below it downwards, then the ones
  above it upwards, and the first free one is returned. If no block is free, a request for one vector
  panics, and any other one spins forever, because the retry with half the number takes the lock the
  call already holds.
\<close>

theorem allocate_isr_outcome:
  assumes "count \<in> {1, 2, 4, 8, 16}" "priority \<le> 13" "\<not> vt_lock s"
  shows "allocate_isr priority count owner s =
    (let c = unat count; m = 16 * unat priority div c
     in case find (is_free (vt_allocated s) c) (rev [0..<Suc m] @ [m..<224 div c]) of
       Some i \<Rightarrow> Inr ((of_nat (i * c) + 32, count), take_block (unat (of_nat (i * c) :: u8)) c owner s)
     | None \<Rightarrow> if count = 1 then Inl (Panic ''Interrupt allocation failed.'') else Inl Spins_Forever)"
proof -
  define c where "c = unat count"
  define m where "m = 16 * unat priority div c"
  let ?f = "is_free (vt_allocated s) c"
  from assms(1) have c: "unat count = c" "0 < c" "c \<le> 16" "224 div c * c = 224" "count \<noteq> 0" by (auto simp: c_def)
  from first_block_aligned [OF assms(2,1)] have fb: "first_block priority count = of_nat (m * c)" and mc: "m * c \<le> 208"
    by (auto simp: m_def c_def)
  from mc c(3) have mc': "m * c + c \<le> 224" by linarith
  have "m * 1 \<le> m * c" using c(2) by (intro mult_le_mono2) simp
  then have m: "m < 256" using mc by linarith
  have mN: "m \<le> 224 div c" using mc' c(2) by (simp add: less_eq_div_iff_mult_less_eq)
  have N: "224 div c - m < 256" by (rule le_less_trans [OF diff_le_self le_less_trans [OF div_le_dividend]]) simp
  note down = scan_down_find [OF c(1,2) mc' m, of "vt_allocated s"]
  note up = scan_up_find [OF c(1,2,4) le_add_diff_inverse [OF mN] N, of "vt_allocated s"]
  have "allocate_isr priority count owner s =
    (case find ?f (rev [0..<Suc m] @ [m..<224 div c]) of
       Some i \<Rightarrow> Inr ((of_nat (i * c) + 32, count), take_block (unat (of_nat (i * c) :: u8)) c owner s)
     | None \<Rightarrow> if count = 1 then Inl (Panic ''Interrupt allocation failed.'') else Inl Spins_Forever)"
    unfolding allocate_isr_unlocked [OF assms(3) c(5)] fb down up c(1)
    by (simp add: find_append del: of_nat_mult upt_Suc split: option.split)
  then show ?thesis by (simp only: Let_def c_def [symmetric] m_def [symmetric])
qed

text \<open>Every vector taken.\<close>

definition full_vectors :: "(char, nat) vectors" where
  "full_vectors = empty_vectors\<lparr>vt_allocated := replicate 224 True\<rparr>"

lemma allocate_isr_outcome_witness: "allocate_isr 2 4 (Some CHR ''n'') full_vectors = Inl Spins_Forever"
proof -
  have f: "\<not> is_free (vt_allocated full_vectors) 4 i" if "i < 56" for i
    using that by (auto simp: is_free_def full_vectors_def list_all_iff intro!: bexI [of _ "i * 4"])
  then have n: "find (is_free (vt_allocated full_vectors) (unat (4 :: u8))) (rev [0..<Suc (16 * unat (2 :: u8) div unat (4 :: u8))] @
      [16 * unat (2 :: u8) div unat (4 :: u8)..<224 div unat (4 :: u8)]) = None"
    by (auto simp: find_None_iff simp del: upt_Suc)
  have "\<not> vt_lock full_vectors" by (simp add: full_vectors_def empty_vectors_def)
  from allocate_isr_outcome [of 4 2 full_vectors "Some CHR ''n''", OF _ _ this] show ?thesis
    unfolding Let_def n by simp
qed

section \<open>Every operation keeps the tables consistent\<close>

text \<open>A vector that is not allocated has no owner, and one without a handler has no context.\<close>

definition vectors_inv :: "('d, 'h) vectors \<Rightarrow> bool" where
  "vectors_inv s \<longleftrightarrow> vectors_ok s \<and> \<not> vt_lock s \<and>
     (\<forall>j<224. \<not> vt_allocated s ! j \<longrightarrow> vt_owners s ! j = None) \<and>
     (\<forall>j<256. vt_handlers s ! j = None \<longrightarrow> vt_contexts s ! j = 0)"

datatype ('d, 'h) vector_op =
    Allocate u8 u8 "'d option"
  | Free_Isr u8
  | Register u8 'h u64
  | Unregister u8

fun vector_step :: "('d, 'h) vector_op \<Rightarrow> ('d, 'h) vectors \<Rightarrow> ('d, 'h) vectors result" where
  "vector_step (Allocate p n d) s = rbind (allocate_isr p n d s) (\<lambda>(_, s'). Inr s')"
| "vector_step (Free_Isr v) s = rbind (free_isr v s) (\<lambda>(_, s'). Inr s')"
| "vector_step (Register v h c) s = rbind (register_handler v h c s) (\<lambda>(_, s'). Inr s')"
| "vector_step (Unregister v) s = rbind (unregister_handler v s) (\<lambda>(_, s'). Inr s')"

lemma nth_update_at: "j < length xs \<Longrightarrow> xs[i := x] ! j = (if i = j then x else xs ! j)"
  by (cases "i = j") auto

lemma free_isr_Inr: "free_isr v s = Inr (x, s') \<longleftrightarrow> \<not> vt_lock s \<and> 32 \<le> v \<and> vt_allocated s ! (unat v - 32) \<and>
    s' = s\<lparr>vt_allocated := (vt_allocated s)[unat v - 32 := False], vt_owners := (vt_owners s)[unat v - 32 := None]\<rparr>"
  by (auto simp: free_isr_def with_lock_Inr Let_def)

lemma register_Inr: "register_handler v h c s = Inr (x, s') \<longleftrightarrow> \<not> vt_lock s \<and> vt_handlers s ! unat v = None \<and>
    s' = s\<lparr>vt_handlers := (vt_handlers s)[unat v := Some h], vt_contexts := (vt_contexts s)[unat v := c]\<rparr>"
  by (auto simp: register_handler_def with_lock_Inr)

lemma unregister_Inr: "unregister_handler v s = Inr (x, s') \<longleftrightarrow> \<not> vt_lock s \<and> vt_handlers s ! unat v \<noteq> None \<and>
    s' = s\<lparr>vt_handlers := (vt_handlers s)[unat v := None], vt_contexts := (vt_contexts s)[unat v := 0]\<rparr>"
  by (auto simp: unregister_handler_def with_lock_Inr)

lemma take_block_inv: "vectors_inv s \<Longrightarrow> vectors_inv (take_block r n owner s)"
  by (auto simp: vectors_inv_def vectors_ok_def take_block_def)

lemma vector_step_inv: "vectors_inv s \<Longrightarrow> vector_step a s = Inr s' \<Longrightarrow> vectors_inv s'"
proof (cases a)
  case (Allocate p n d)
  assume "vectors_inv s" "vector_step a s = Inr s'"
  with Allocate obtain v m where "allocate_isr p n d s = Inr ((v, m), s')" by auto
  then obtain r c where "s' = take_block r c d s" by (rule allocate_isr_cases) blast
  with \<open>vectors_inv s\<close> show ?thesis by (simp add: take_block_inv)
qed (auto simp: vectors_inv_def vectors_ok_def free_isr_Inr register_Inr unregister_Inr nth_update_at split: if_splits)

text \<open>
  What the initial state satisfies and every operation keeps: the tables have their lengths, the
  lock is free, free vectors have no owner and unused handler slots no context.
\<close>

theorem vectors_inv_run:
  "vectors_inv (empty_vectors :: ('d, 'h) vectors) \<and>
   (vectors_inv (s :: ('d, 'h) vectors) \<longrightarrow> vector_step a s = Inr s' \<longrightarrow> vectors_inv s')"
proof
  show "vectors_inv (empty_vectors :: ('d, 'h) vectors)"
    by (simp add: vectors_inv_def vectors_ok_def empty_vectors_def)
qed (blast intro: vector_step_inv)

lemma vectors_inv_run_witness:
  "vectors_inv (take_block 16 2 (Some CHR ''n'') (empty_vectors :: (char, nat) vectors))"
proof -
  let ?e = "empty_vectors :: (char, nat) vectors"
  have "vector_step (Allocate 1 2 (Some CHR ''n'')) ?e = Inr (take_block 16 2 (Some CHR ''n'') ?e)"
    by (simp add: allocate_isr_empty)
  then show ?thesis
    using vectors_inv_run [of ?e "Allocate 1 2 (Some CHR ''n'')"] by blast
qed

lemma free_taken:
  assumes ok: "vectors_ok s" "\<not> vt_lock s" "\<forall>j<224. \<not> vt_allocated s ! j \<longrightarrow> vt_owners s ! j = None"
    and f: "block_free (vt_allocated s) (unat r) 1 = Inr True"
  shows "free_isr (r + 32) (take_block (unat r) 1 d s) = Inr ((), s)"
proof -
  from block_free_sound [OF f] have b: "unat r < 224" "\<not> vt_allocated s ! unat r" by auto
  then have v: "unat (r + 32) = unat r + 32" by (simp add: unat_word_ariths)
  note l = ok(1) [unfolded vectors_ok_def]
  let ?t = "take_block (unat r) 1 d s"
  have "(vt_allocated ?t)[unat r := False] = vt_allocated s" "(vt_owners ?t)[unat r := None] = vt_owners s"
    using b l ok(3) by (auto simp: take_block_def nth_update_at le_antisym less_Suc_eq_le split: if_splits intro!: nth_equalityI)
  moreover have "vt_allocated ?t ! unat r" using b by (simp add: take_block_def)
  ultimately show ?thesis
    using ok(2) v by (simp add: free_isr_Inr word_le_nat_alt) (simp add: take_block_def)
qed

text \<open>
  Giving back what was taken restores the tables: unregistering right after registering, and
  freeing the vector right after allocating a single one.
\<close>

theorem vectors_round_trip:
  assumes "vectors_inv s"
  shows "(register_handler v h c s = Inr ((), s1) \<longrightarrow> unregister_handler v s1 = Inr ((), s)) \<and>
    (allocate_isr p 1 d s = Inr ((w, n), s2) \<longrightarrow> free_isr w s2 = Inr ((), s))"
proof (intro conjI impI)
  note inv = assms [unfolded vectors_inv_def vectors_ok_def]
  assume "register_handler v h c s = Inr ((), s1)"
  then have s1: "vt_handlers s ! unat v = None"
    "s1 = s\<lparr>vt_handlers := (vt_handlers s)[unat v := Some h], vt_contexts := (vt_contexts s)[unat v := c]\<rparr>"
    by (simp_all add: register_Inr)
  moreover have "vt_contexts s ! unat v = 0" "unat v < 256" using inv s1(1) unat_u8_less [of v] by simp_all
  ultimately show "unregister_handler v s1 = Inr ((), s)"
    using inv list_update_id [of "vt_handlers s" "unat v"] list_update_id [of "vt_contexts s" "unat v"]
    by (simp add: unregister_Inr)
next
  assume "allocate_isr p 1 d s = Inr ((w, n), s2)"
  then obtain r where r: "w = r + 32" "block_free (vt_allocated s) (unat r) 1 = Inr True" "s2 = take_block (unat r) 1 d s"
    by (rule allocate_isr_cases) simp
  from assms have "vectors_ok s" "\<not> vt_lock s" "\<forall>j<224. \<not> vt_allocated s ! j \<longrightarrow> vt_owners s ! j = None"
    by (simp_all add: vectors_inv_def)
  then show "free_isr w s2 = Inr ((), s)" unfolding r(1,3) using r(2) by (rule free_taken)
qed

lemma vectors_round_trip_witness:
  "\<exists>s1 :: (char, nat) vectors. register_handler 33 7 5 empty_vectors = Inr ((), s1) \<and>
     unregister_handler 33 s1 = Inr ((), empty_vectors)"
proof -
  let ?e = "empty_vectors :: (char, nat) vectors"
  have "vectors_inv ?e" by (simp add: vectors_inv_def vectors_ok_def empty_vectors_def)
  moreover have "\<exists>s1. register_handler 33 7 5 ?e = Inr ((), s1)" by (simp add: register_Inr empty_vectors_def)
  ultimately show ?thesis using vectors_round_trip [of ?e] by blast
qed

end
