(* ===== verification/Apic.thy ===== *)
theory Apic
  imports Handlers
begin

text \<open>
  The local interrupt controllers in their two modes (\<open>kernel/processor/xapic.cpp\<close>, \<open>x2apic.cpp\<close>,
  \<open>lapic.cpp\<close>). The registers are a function from register numbers to values together with the list of
  the writes, newest first: a write sets the register, and commands take effect by being written.
\<close>

section \<open>Registers\<close>

record 'w registers =
  reg_value :: "u64 \<Rightarrow> 'w"
  reg_writes :: "(u64 \<times> 'w) list"

definition reg_read :: "u64 \<Rightarrow> 'w registers \<Rightarrow> 'w" where
  "reg_read r s = reg_value s r"

definition reg_write :: "u64 \<Rightarrow> 'w \<Rightarrow> 'w registers \<Rightarrow> 'w registers" where
  "reg_write r v s = s\<lparr>reg_value := (reg_value s)(r := v), reg_writes := (r, v) # reg_writes s\<rparr>"

datatype ipis = Ipi_Init | Ipi_Sipi | Ipi_Generic

datatype broadcasts = To_Self | To_All | To_Others

section \<open>Memory-mapped mode\<close>

text \<open>The local vector table is masked, the corrected machine check entry only where there is one.\<close>

definition xapic_mask :: "u32 registers \<Rightarrow> u32 registers" where
  "xapic_mask s =
     (let s = reg_write 0xE0 (reg_read 0xE0 s AND 0xF0000000) s;
          s = reg_write 0xD0 0xFF000000 s;
          s = (if drop_bit 16 (reg_read 0x30 s) AND 0xFF = 6 then reg_write 0x2F0 0x10000 s else s);
          s = reg_write 0x370 0x10000 s;
          s = reg_write 0x350 0x10000 s;
          s = reg_write 0x360 0x10000 s;
          s = reg_write 0x340 0x10000 s;
          s = reg_write 0x330 0x10000 s
      in reg_write 0x320 0x10000 s)"

text \<open>The constructor: the vectors of the timer and of spurious interrupts are allocated first come.\<close>

definition xapic_construct :: "u32 registers \<Rightarrow> ('d, 'h) vectors \<Rightarrow> ((u8 \<times> u8 \<times> u32 registers) \<times> ('d, 'h) vectors) result" where
  "xapic_construct s v =
     rbind (allocate_isr 0 1 None v) (\<lambda>((timer, _), v).
     rbind (allocate_isr 13 1 None v) (\<lambda>((spurious, _), v).
     Inr ((timer, spurious, reg_write 0xF0 (ucast spurious OR 0x100) (xapic_mask s)), v)))"

definition xapic_ap_initialize :: "u8 \<Rightarrow> u32 registers \<Rightarrow> u32 registers" where
  "xapic_ap_initialize spurious s = reg_write 0xF0 (ucast spurious OR 0x100) (xapic_mask s)"

definition xapic_eoi :: "u8 \<Rightarrow> u8 \<Rightarrow> u32 registers \<Rightarrow> u32 registers" where
  "xapic_eoi spurious v s = (if v \<noteq> spurious then reg_write 0xB0 0 s else s)"

definition xapic_current_count :: "u32 registers \<Rightarrow> u32" where
  "xapic_current_count s = reg_read 0x390 s"

definition xapic_initial_count :: "u32 registers \<Rightarrow> u32" where
  "xapic_initial_count s = reg_read 0x380 s"

definition xapic_set_initial_count :: "u32 \<Rightarrow> u32 registers \<Rightarrow> u32 registers" where
  "xapic_set_initial_count n s = reg_write 0x380 n s"

definition xapic_divisor :: "u32 registers \<Rightarrow> u8" where
  "xapic_divisor s =
     (let r = reg_read 0x3E0 s AND 0xB;
          r = push_bit (unat (((r AND 3) OR drop_bit 1 (r AND 8)) + 1)) 1 :: u32
      in if r = 256 then ucast r else 1)"

text \<open>The value written for a divisor; the same in both modes.\<close>

definition divisor_code :: "u8 \<Rightarrow> u8" where
  "divisor_code n =
     (if n = 1 then 0xB else if n = 16 then 8 else if n = 32 then 8
      else drop_bit (2 + unat (n div 64)) n OR drop_bit 6 n)"

definition xapic_set_divisor :: "u8 \<Rightarrow> u32 registers \<Rightarrow> u32 registers" where
  "xapic_set_divisor n s = reg_write 0x3E0 (ucast (divisor_code n)) s"

definition xapic_set_timer :: "u8 \<Rightarrow> bool \<Rightarrow> u32 registers \<Rightarrow> u32 registers" where
  "xapic_set_timer timer periodic s = reg_write 0x320 (ucast timer OR (if periodic then push_bit 17 1 else 0)) s"

definition ipi_command :: "ipis \<Rightarrow> u8 \<Rightarrow> u64" where
  "ipi_command t d = (case t of Ipi_Init \<Rightarrow> push_bit 8 5 | Ipi_Sipi \<Rightarrow> push_bit 8 6 OR ucast d | Ipi_Generic \<Rightarrow> ucast d)"

text \<open>The destination is written first, which sends nothing; the command goes to the lower half.\<close>

definition xapic_ipi :: "u64 \<Rightarrow> ipis \<Rightarrow> u8 \<Rightarrow> u32 registers \<Rightarrow> u32 registers" where
  "xapic_ipi apic_id t d s = reg_write 0x300 (ucast (ipi_command t d)) (reg_write 0x310 (ucast (push_bit 24 apic_id)) s)"

definition broadcast_code :: "broadcasts \<Rightarrow> u64" where
  "broadcast_code b = (case b of To_Self \<Rightarrow> 1 | To_All \<Rightarrow> 2 | To_Others \<Rightarrow> 3)"

definition broadcast_command :: "broadcasts \<Rightarrow> ipis \<Rightarrow> u8 \<Rightarrow> u64 result" where
  "broadcast_command b t d =
     (if t = Ipi_Generic then Inr (push_bit 18 (broadcast_code b) OR ucast d)
      else Inl (Panic ''Issued unimplemented broadcast.''))"

definition xapic_broadcast :: "broadcasts \<Rightarrow> ipis \<Rightarrow> u8 \<Rightarrow> u32 registers \<Rightarrow> u32 registers result" where
  "xapic_broadcast b t d s = rbind (broadcast_command b t d) (\<lambda>c. Inr (reg_write 0x300 (ucast c) s))"

definition xapic_id :: "u32 registers \<Rightarrow> u64" where
  "xapic_id s = ucast (reg_read 0x20 s)"

section \<open>Model-specific register mode\<close>

definition x2apic_mask :: "u64 registers \<Rightarrow> u64 registers" where
  "x2apic_mask s =
     (let s = reg_write 0x01B (reg_read 0x01B s OR push_bit 10 1) s;
          s = (if drop_bit 16 (reg_read 0x803 s) AND 0xFF = 6 then reg_write 0x82F 0x10000 s else s);
          s = reg_write 0x837 0x10000 s;
          s = reg_write 0x835 0x10000 s;
          s = reg_write 0x836 0x10000 s;
          s = reg_write 0x834 0x10000 s;
          s = reg_write 0x833 0x10000 s
      in reg_write 0x832 0x10000 s)"

definition x2apic_construct :: "u64 registers \<Rightarrow> ('d, 'h) vectors \<Rightarrow> ((u8 \<times> u8 \<times> u64 registers) \<times> ('d, 'h) vectors) result" where
  "x2apic_construct s v =
     rbind (allocate_isr 0 1 None v) (\<lambda>((timer, _), v).
     rbind (allocate_isr 13 1 None v) (\<lambda>((spurious, _), v).
     Inr ((timer, spurious, reg_write 0x80F (ucast spurious OR 0x100) (x2apic_mask s)), v)))"

definition x2apic_ap_initialize :: "u8 \<Rightarrow> u64 registers \<Rightarrow> u64 registers" where
  "x2apic_ap_initialize spurious s = reg_write 0x80F (ucast spurious OR 0x100) (x2apic_mask s)"

definition x2apic_eoi :: "u8 \<Rightarrow> u8 \<Rightarrow> u64 registers \<Rightarrow> u64 registers" where
  "x2apic_eoi spurious v s = (if v \<noteq> spurious then reg_write 0x80B 0 s else s)"

definition x2apic_current_count :: "u64 registers \<Rightarrow> u32" where
  "x2apic_current_count s = ucast (reg_read 0x839 s)"

definition x2apic_initial_count :: "u64 registers \<Rightarrow> u32" where
  "x2apic_initial_count s = ucast (reg_read 0x838 s)"

definition x2apic_set_initial_count :: "u32 \<Rightarrow> u64 registers \<Rightarrow> u64 registers" where
  "x2apic_set_initial_count n s = reg_write 0x838 (ucast n) s"

definition x2apic_divisor :: "u64 registers \<Rightarrow> u8" where
  "x2apic_divisor s =
     (let r = ucast (reg_read 0x83E s) AND 0xB :: u32;
          r = push_bit (unat (((r AND 3) OR drop_bit 1 (r AND 8)) + 1)) 1 :: u32
      in if r = 256 then 1 else ucast r)"

definition x2apic_set_divisor :: "u8 \<Rightarrow> u64 registers \<Rightarrow> u64 registers" where
  "x2apic_set_divisor n s = reg_write 0x83E (ucast (divisor_code n)) s"

definition x2apic_set_timer :: "u8 \<Rightarrow> bool \<Rightarrow> u64 registers \<Rightarrow> u64 registers" where
  "x2apic_set_timer timer periodic s = reg_write 0x832 (ucast timer OR (if periodic then push_bit 17 1 else 0)) s"

definition x2apic_ipi :: "u64 \<Rightarrow> ipis \<Rightarrow> u8 \<Rightarrow> u64 registers \<Rightarrow> u64 registers" where
  "x2apic_ipi apic_id t d s = reg_write 0x830 (push_bit 32 apic_id OR ipi_command t d) s"

definition x2apic_broadcast :: "broadcasts \<Rightarrow> ipis \<Rightarrow> u8 \<Rightarrow> u64 registers \<Rightarrow> u64 registers result" where
  "x2apic_broadcast b t d s = rbind (broadcast_command b t d) (\<lambda>c. Inr (reg_write 0x830 c s))"

definition x2apic_id :: "u64 registers \<Rightarrow> u64" where
  "x2apic_id s = reg_read 0x802 s"

section \<open>Choosing the mode\<close>

text \<open>Interrupt remapping is never enabled.\<close>

datatype lapic_mode = X2apic_Mode | Xapic_Mode

definition lapic_initialize :: "bool \<Rightarrow> u64 \<Rightarrow> lapic_mode result" where
  "lapic_initialize capable initial_id =
     (if capable \<and> initial_id < 256 then Inr X2apic_Mode
      else if \<not> capable then Inr Xapic_Mode
      else Inl (Panic (''Interrupt remapping has not been enabled, but BSP APIC ID >= 256. Please file a bug report with full''
        @ '' specification of your machine.'')))"

section \<open>Properties\<close>

lemmas reg_simps = reg_read_def reg_write_def

text \<open>
  Setting the timer divisor and reading it back in the mode with model-specific registers gives the
  divisor, for every power of two the hardware knows but 16, which becomes 32.
\<close>

theorem x2apic_divisor_round_trip:
  "map (\<lambda>n. x2apic_divisor (x2apic_set_divisor n s)) [1, 2, 4, 8, 16, 32, 64, 128] = [1, 2, 4, 8, 32, 32, 64, 128]"
  by (simp add: x2apic_divisor_def x2apic_set_divisor_def divisor_code_def reg_simps Let_def)

text \<open>The memory-mapped mode loses the divisor altogether: its test is the other way round.\<close>

lemma xapic_divisor_lost: "map (\<lambda>n. xapic_divisor (xapic_set_divisor n s)) [1, 2, 4, 8, 16, 32, 64, 128] = [0, 1, 1, 1, 1, 1, 1, 1]"
  by (simp add: xapic_divisor_def xapic_set_divisor_def divisor_code_def reg_simps Let_def)

lemma ipi_command_small: "take_bit 32 (ipi_command t d) = ipi_command t d"
proof -
  have "take_bit 32 (ucast d :: u64) = ucast d"
  proof (rule bit_word_eqI)
    show "bit (take_bit 32 (ucast d :: u64)) n = bit (ucast d :: u64) n" for n
      using bit_imp_le_length [of d n] by (auto simp: bit_simps)
  qed
  then show ?thesis by (cases t) (simp_all add: ipi_command_def take_bit_or)
qed



end
