(* ===== verification/Ioapic.thy ===== *)
theory Ioapic
  imports Apic Paging
begin

text \<open>
  Routing of external interrupts and the tables of processors (\<open>kernel/processor/interrupt_entry.h\<close>,
  \<open>ioapic.h\<close>, \<open>processor.cpp\<close>, \<open>core.h\<close>): overrides of the legacy interrupt lines, the registers of the
  input/output controllers behind their index window, and the searches of \<open>processor.cpp\<close>.
\<close>

section \<open>Overrides\<close>

record interrupt_entry =
  ie_source :: u8
  ie_global_vector :: u32
  ie_flags :: u16
  ie_valid :: bool

definition ie_set :: "u8 \<Rightarrow> u32 \<Rightarrow> u16 \<Rightarrow> interrupt_entry" where
  "ie_set source global flags = \<lparr>ie_source = source, ie_global_vector = global, ie_flags = flags, ie_valid = True\<rparr>"

definition standard_polarity :: "interrupt_entry \<Rightarrow> bool" where
  "standard_polarity e \<longleftrightarrow> ie_flags e AND 3 = 0"

definition active_low :: "interrupt_entry \<Rightarrow> bool" where
  "active_low e \<longleftrightarrow> ie_flags e AND 3 = 3"

definition standard_trigger :: "interrupt_entry \<Rightarrow> bool" where
  "standard_trigger e \<longleftrightarrow> drop_bit 2 (ie_flags e) AND 3 = 0"

definition level_triggered :: "interrupt_entry \<Rightarrow> bool" where
  "level_triggered e \<longleftrightarrow> drop_bit 2 (ie_flags e) AND 3 = 3"

text \<open>\<open>_sources\<close> has 128 elements, its index any of 256 values.\<close>

definition translate_isa :: "interrupt_entry list \<Rightarrow> u8 \<Rightarrow> u8 result" where
  "translate_isa sources irq =
     (if length sources \<le> unat irq then Inl Out_Of_Bounds
      else let e = sources ! unat irq in Inr (if ie_valid e then ucast (ie_global_vector e) else irq))"

section \<open>Controllers\<close>

record ioapic =
  io_apic_id :: u32
  io_base :: u32
  io_size :: u32
  io_address :: u64
  io_global_nmi_vector :: u32
  io_global_nmi_flags :: u32
  io_valid :: bool
  io_nmi_valid :: bool
  io_select :: u32
  io_regs :: "u8 \<Rightarrow> u32"

text \<open>A register is reached by writing its number to the index window; \<open>io_regs\<close> are the registers of
  the device.\<close>

definition io_read :: "u8 \<Rightarrow> ioapic \<Rightarrow> u32 \<times> ioapic" where
  "io_read r s = (io_regs s r, s\<lparr>io_select := ucast r\<rparr>)"

definition io_write :: "u8 \<Rightarrow> u32 \<Rightarrow> ioapic \<Rightarrow> ioapic" where
  "io_write r v s = s\<lparr>io_select := ucast r, io_regs := (io_regs s)(r := v)\<rparr>"

definition new_ioapic ::
  "('s \<Rightarrow> (u64 \<times> 's) result) \<Rightarrow> u32 \<Rightarrow> u32 \<Rightarrow> u64 \<Rightarrow> (u8 \<Rightarrow> u32) \<Rightarrow> 's vas \<Rightarrow> (ioapic \<times> 's vas) result" where
  "new_ioapic pop apic_id base phys regs s =
     rbind (allocate_address_range 4096 s) (\<lambda>(address, s).
     rbind (vm_map_at pop address phys vm_system s) (\<lambda>s.
     let d = \<lparr>io_apic_id = apic_id, io_base = base, io_size = 0, io_address = address, io_global_nmi_vector = 0,
           io_global_nmi_flags = 0, io_valid = True, io_nmi_valid = False, io_select = 0, io_regs = regs\<rparr>;
         (v, d) = io_read 1 d
     in Inr (d\<lparr>io_size := (drop_bit 16 v AND (NOT (push_bit 8 1) AND 0xFF)) + 1\<rparr>, s)))"

definition set_global_nmi :: "u32 \<Rightarrow> u32 \<Rightarrow> ioapic \<Rightarrow> bool \<times> ioapic" where
  "set_global_nmi vector flags s =
     (let s = (if io_base s \<le> vector \<and> vector < io_base s + io_size s
        then s\<lparr>io_global_nmi_vector := vector, io_global_nmi_flags := flags, io_nmi_valid := True\<rparr> else s)
      in (io_nmi_valid s, s))"

definition mask_input :: "nat \<Rightarrow> ioapic \<Rightarrow> ioapic" where
  "mask_input i s =
     (let (v, s) = io_read (of_nat (0x10 + 2 * i)) s in io_write (of_nat (0x10 + 2 * i)) (v OR push_bit 16 1) s)"

definition ioapic_initialize :: "ioapic \<Rightarrow> ioapic" where
  "ioapic_initialize s = fold mask_input [0..<unat (io_size s)] s"

definition io_begin :: "ioapic \<Rightarrow> u32" where
  "io_begin s = io_base s"

definition io_end :: "ioapic \<Rightarrow> u32" where
  "io_end s = io_base s + io_size s"

text \<open>\<open>b << k\<close> for a truth value.\<close>

definition flag :: "nat \<Rightarrow> bool \<Rightarrow> u64" where
  "flag k b = push_bit k (if b then 1 else 0)"

text \<open>The two halves of the entry for an input. The register depends on the global number of the
  interrupt, not on the first one of the controller.\<close>

definition route_word :: "lapic_mode \<Rightarrow> u64 \<Rightarrow> interrupt_entry \<Rightarrow> u8 \<Rightarrow> u64" where
  "route_word mode cpu e local_input =
     (let low = ie_valid e \<and> \<not> standard_polarity e \<and> active_low e;
          level = ie_valid e \<and> \<not> standard_trigger e \<and> level_triggered e;
          w = ucast local_input OR flag 13 low OR flag 15 level
      in case mode of X2apic_Mode \<Rightarrow> w OR push_bit 56 cpu
         | Xapic_Mode \<Rightarrow> w OR flag 11 True OR push_bit 56 (mask 8) OR flag 8 True)"

definition route_interrupt :: "lapic_mode \<Rightarrow> u64 \<Rightarrow> interrupt_entry list \<Rightarrow> u8 \<Rightarrow> u8 \<Rightarrow> ioapic \<Rightarrow> ioapic result" where
  "route_interrupt mode cpu sources input local_input s =
     rbind (translate_isa sources input) (\<lambda>g.
       let w = route_word mode cpu (sources ! unat input) local_input;
           s = io_write (0x10 + g * 2) (ucast (w AND 0xFFFFFFFF)) s
       in Inr (io_write (0x10 + g * 2 + 1) (ucast (drop_bit 32 w AND 0xFFFFFFFF)) s))"

section \<open>Processors and controllers of the machine\<close>

record core =
  co_acpi_id :: u32
  co_apic_id :: u32
  co_lapic :: bool
  co_nmi_vector :: u32
  co_nmi_flags :: u32
  co_valid :: bool
  co_nmi_valid :: bool
  co_started :: "u64 option"

definition new_core :: "u32 \<Rightarrow> u32 \<Rightarrow> bool \<Rightarrow> core" where
  "new_core apic_id acpi_id is_lapic = \<lparr>co_acpi_id = acpi_id, co_apic_id = apic_id, co_lapic = is_lapic,
     co_nmi_vector = 0, co_nmi_flags = 0, co_valid = True, co_nmi_valid = False, co_started = None\<rparr>"

text \<open>The assignment operator copies all but the last of these fields.\<close>

definition core_assign :: "core \<Rightarrow> core \<Rightarrow> core" where
  "core_assign self rhs = rhs\<lparr>co_started := co_started self\<rparr>"

definition core_set_nmi :: "u32 \<Rightarrow> u32 \<Rightarrow> core \<Rightarrow> core" where
  "core_set_nmi vector flags c = c\<lparr>co_nmi_vector := vector, co_nmi_flags := flags, co_nmi_valid := True\<rparr>"

text \<open>\<open>get_ioapic\<close> and \<open>get_core\<close> return the number of the element found.\<close>

definition in_range :: "u8 \<Rightarrow> ioapic \<Rightarrow> bool" where
  "in_range input a \<longleftrightarrow> io_begin a \<le> ucast input \<and> ucast input < io_end a"

definition get_ioapic :: "u8 \<Rightarrow> ioapic list \<Rightarrow> nat option" where
  "get_ioapic input as = find (\<lambda>i. in_range input (as ! i)) [0..<length as]"

definition get_core :: "u64 \<Rightarrow> core list \<Rightarrow> nat result" where
  "get_core apic_id cs =
     (case find (\<lambda>i. ucast (co_apic_id (cs ! i)) = apic_id) [0..<length cs] of
        Some i \<Rightarrow> Inr i | None \<Rightarrow> Inl (Panic ''requested core with unknown APIC ID!''))"

text \<open>\<open>set_isa_irq_int_vector\<close> of \<open>handlers.cpp\<close>.\<close>

definition set_isa_irq_int_vector ::
  "lapic_mode \<Rightarrow> u64 \<Rightarrow> interrupt_entry list \<Rightarrow> u8 \<Rightarrow> u8 \<Rightarrow> ioapic list \<Rightarrow> ioapic list result" where
  "set_isa_irq_int_vector mode cpu sources isa handler as =
     rbind (translate_isa sources isa) (\<lambda>g.
     case get_ioapic g as of None \<Rightarrow> Inl Null_Deref
     | Some i \<Rightarrow> rbind (route_interrupt mode cpu sources isa handler (as ! i)) (\<lambda>a. Inr (as[i := a])))"

text \<open>The loop of \<open>processor::initialize\<close> over the controllers, with the largest input; it takes the end
  of the first controller.\<close>

fun initialize_ioapics :: "u32 \<Rightarrow> ioapic list \<Rightarrow> u8 \<Rightarrow> ioapic list \<times> u8" where
  "initialize_ioapics first_end [] m = ([], m)"
| "initialize_ioapics first_end (a # as) m =
     (let m = (if ucast m < io_end a then ucast (first_end - 1) else m);
          (as, m) = initialize_ioapics first_end as m
      in (ioapic_initialize a # as, m))"

section \<open>Routing\<close>

lemma bit_flag: "bit (flag k b) n \<longleftrightarrow> b \<and> n = k \<and> k < 64"
  by (auto simp: flag_def bit_simps)

lemma route_word_bits:
  "n < 32 \<Longrightarrow> bit (route_word mode cpu e h) n \<longleftrightarrow> bit h n \<or> n = 13 \<and> ie_valid e \<and> active_low e \<or>
     n = 15 \<and> ie_valid e \<and> level_triggered e \<or> mode = Xapic_Mode \<and> (n = 8 \<or> n = 11)"
  by (cases mode)
    (auto simp: route_word_def Let_def bit_simps bit_flag standard_polarity_def active_low_def
      standard_trigger_def level_triggered_def)

lemma route_word_high:
  "drop_bit 32 (route_word mode cpu e h) = (case mode of X2apic_Mode \<Rightarrow> push_bit 24 (take_bit 8 cpu) | Xapic_Mode \<Rightarrow> push_bit 24 (mask 8))"
proof (rule bit_word_eqI)
  fix n assume n: "n < LENGTH(64)"
  have "\<not> bit h (32 + n)" using bit_imp_le_length [of h "32 + n"] by auto
  then show "bit (drop_bit 32 (route_word mode cpu e h)) n =
    bit (case mode of X2apic_Mode \<Rightarrow> push_bit 24 (take_bit 8 cpu) | Xapic_Mode \<Rightarrow> push_bit 24 (mask 8)) n"
    using n by (cases mode) (auto simp: route_word_def Let_def bit_simps bit_flag)
qed

text \<open>What the controller does with an input: its vector, mask, polarity, trigger and destination.\<close>

definition routed_to :: "lapic_mode \<Rightarrow> u64 \<Rightarrow> interrupt_entry \<Rightarrow> u8 \<Rightarrow> u32 \<Rightarrow> u32 \<Rightarrow> bool" where
  "routed_to mode cpu e h lo hi \<longleftrightarrow>
     ucast lo = h \<and> \<not> bit lo 16 \<and>
     bit lo 13 = (ie_valid e \<and> active_low e) \<and> bit lo 15 = (ie_valid e \<and> level_triggered e) \<and>
     bit lo 11 = (mode = Xapic_Mode) \<and>
     drop_bit 24 hi = (case mode of X2apic_Mode \<Rightarrow> take_bit 8 (ucast cpu) | Xapic_Mode \<Rightarrow> mask 8)"

lemma routed_halves:
  "routed_to mode cpu e h (ucast (route_word mode cpu e h AND 0xFFFFFFFF)) (ucast (drop_bit 32 (route_word mode cpu e h) AND 0xFFFFFFFF))"
proof -
  have m: "(0xFFFFFFFF :: u64) = mask 32" by (simp add: mask_eq_exp_minus_1)
  define lo where "lo = (ucast (route_word mode cpu e h AND 0xFFFFFFFF) :: u32)"
  define hi where "hi = (ucast (drop_bit 32 (route_word mode cpu e h) AND 0xFFFFFFFF) :: u32)"
  have lo: "bit lo n \<longleftrightarrow> bit (route_word mode cpu e h) n" if "n < 32" for n
    using that by (auto simp: lo_def m bit_simps)
  have hi: "bit hi n \<longleftrightarrow> bit (case mode of X2apic_Mode \<Rightarrow> push_bit 24 (take_bit 8 cpu) | Xapic_Mode \<Rightarrow> push_bit 24 (mask 8)) n"
    if "n < 32" for n
    using that unfolding hi_def m route_word_high by (auto simp: bit_simps)
  have high: "\<not> bit h n" if "8 \<le> n" for n using bit_imp_le_length [of h n] that by auto
  have "ucast lo = h"
    by (rule bit_word_eqI) (auto simp: bit_simps lo route_word_bits)
  moreover have "drop_bit 24 hi = (case mode of X2apic_Mode \<Rightarrow> take_bit 8 (ucast cpu) | Xapic_Mode \<Rightarrow> mask 8)"
  proof (rule bit_word_eqI)
    fix n assume n: "n < LENGTH(32)"
    show "bit (drop_bit 24 hi) n = bit (case mode of X2apic_Mode \<Rightarrow> take_bit 8 (ucast cpu) | Xapic_Mode \<Rightarrow> (mask 8 :: u32)) n"
    proof (cases "n < 8")
      case True
      then show ?thesis using hi [of "24 + n"] by (cases mode) (auto simp: bit_simps)
    next
      case False
      then have "\<not> bit hi (24 + n)" using bit_imp_le_length [of hi "24 + n"] by auto
      with False show ?thesis by (cases mode) (auto simp: bit_simps)
    qed
  qed
  ultimately have "routed_to mode cpu e h lo hi"
    by (simp add: routed_to_def lo route_word_bits high)
  then show ?thesis by (simp only: lo_def hi_def)
qed

text \<open>
  Routing a legacy line: when its override names an input of some controller, exactly the entry for
  that input is changed, in the first controller in whose range it is; the entry leads to the vector
  asked for, is not masked, has the polarity and the trigger mode of the override, and goes to the
  requested processor in one mode and by lowest priority to all of them in the other.
\<close>

theorem isa_routing:
  assumes "isa < 128" "length sources = 128" "translate_isa sources isa = Inr g"
    and "get_ioapic g as = Some i" "g \<le> 119"
  shows "\<exists>a. set_isa_irq_int_vector mode cpu sources isa h as = Inr (as[i := a]) \<and> i < length as \<and>
    routed_to mode cpu (sources ! unat isa) h (io_regs a (16 + 2 * g)) (io_regs a (17 + 2 * g)) \<and>
    (\<forall>r. r \<noteq> 16 + 2 * g \<longrightarrow> r \<noteq> 17 + 2 * g \<longrightarrow> io_regs a r = io_regs (as ! i) r)"
proof -
  let ?w = "route_word mode cpu (sources ! unat isa) h"
  let ?a = "io_write (0x10 + g * 2 + 1) (ucast (drop_bit 32 ?w AND 0xFFFFFFFF)) (io_write (0x10 + g * 2) (ucast (?w AND 0xFFFFFFFF)) (as ! i))"
  have "i < length as" using assms(4) by (auto simp: get_ioapic_def find_Some_iff)
  moreover have "set_isa_irq_int_vector mode cpu sources isa h as = Inr (as[i := ?a])"
    using assms(3,4) by (simp add: set_isa_irq_int_vector_def route_interrupt_def Let_def)
  moreover have "routed_to mode cpu (sources ! unat isa) h (io_regs ?a (16 + 2 * g)) (io_regs ?a (17 + 2 * g))"
    using routed_halves by (simp add: io_write_def ac_simps)
  moreover have "\<forall>r. r \<noteq> 16 + 2 * g \<longrightarrow> r \<noteq> 17 + 2 * g \<longrightarrow> io_regs ?a r = io_regs (as ! i) r"
    by (simp add: io_write_def ac_simps)
  ultimately show ?thesis by blast
qed

text \<open>Two controllers of 24 inputs; the timer line 0 is input 2, with standard polarity and trigger.\<close>

definition demo_ioapic :: "u32 \<Rightarrow> ioapic" where
  "demo_ioapic base = \<lparr>io_apic_id = 0, io_base = base, io_size = 24, io_address = 0, io_global_nmi_vector = 0,
     io_global_nmi_flags = 0, io_valid = True, io_nmi_valid = False, io_select = 0, io_regs = (\<lambda>_. 0x10000)\<rparr>"

definition demo_sources :: "interrupt_entry list" where
  "demo_sources = (replicate 128 ((ie_set 0 0 0)\<lparr>ie_valid := False\<rparr>))[9 := ie_set 9 30 0xF]"

lemma isa_routing_witness:
  "\<exists>a. set_isa_irq_int_vector Xapic_Mode 0 demo_sources 9 0x41 [demo_ioapic 0, demo_ioapic 24] = Inr [demo_ioapic 0, a] \<and>
     ucast (io_regs a 76) = (0x41 :: u8) \<and> bit (io_regs a 76) 13 \<and> io_regs a 16 = 0x10000"
proof -
  have t: "translate_isa demo_sources 9 = Inr 30" by (simp add: translate_isa_def demo_sources_def ie_set_def)
  have g: "get_ioapic 30 [demo_ioapic 0, demo_ioapic 24] = Some 1"
    by (simp add: get_ioapic_def in_range_def io_begin_def io_end_def demo_ioapic_def upt_rec)
  have l: "length demo_sources = 128" by (simp add: demo_sources_def)
  have e: "demo_sources ! 9 = ie_set 9 30 0xF" by (simp add: demo_sources_def)
  from isa_routing [OF _ l t g, of Xapic_Mode 0 "0x41"] obtain a where
    "set_isa_irq_int_vector Xapic_Mode 0 demo_sources 9 0x41 [demo_ioapic 0, demo_ioapic 24] = Inr ([demo_ioapic 0, demo_ioapic 24][1 := a])"
    "routed_to Xapic_Mode 0 (ie_set 9 30 0xF) 0x41 (io_regs a 76) (io_regs a 77)"
    "\<forall>r. r \<noteq> 76 \<longrightarrow> r \<noteq> 77 \<longrightarrow> io_regs a r = io_regs (demo_ioapic 24) r"
    by (auto simp: e)
  then show ?thesis by (auto simp: routed_to_def ie_set_def active_low_def demo_ioapic_def)
qed

end
