(* ===== verification/Smp.thy ===== *)
theory Smp
  imports Ioapic
begin

text \<open>
  Starting the other processors (\<open>kernel/processor/smp.cpp\<close>): where the trampolines go, the interrupts
  that start the processors, and the pass over a batch that drops the processors that did not start.
\<close>

section \<open>Batches\<close>

definition trampoline_pages :: "u64 \<Rightarrow> u64" where
  "trampoline_pages bytes = page_ceil bytes"

definition boot_at_once :: "u64 \<Rightarrow> u64" where
  "boot_at_once tsize = 0x7F000 div tsize"

definition trampoline_at :: "u64 \<Rightarrow> u64 \<Rightarrow> u64" where
  "trampoline_at tsize k = 0x1000 + tsize * k"

text \<open>The start-up interrupt carries the page number of the trampoline, cut to eight bits.\<close>

definition sipi_data :: "u64 \<Rightarrow> u64 \<Rightarrow> u8" where
  "sipi_data tsize k = ucast (drop_bit 12 (0x1000 + tsize * k))"

text \<open>The processors of a batch: the loops run while \<open>i < booted + boot_at_once && i < num_cores\<close>.\<close>

definition batch :: "u64 \<Rightarrow> u64 \<Rightarrow> nat \<Rightarrow> nat list" where
  "batch booted once num = [unat booted..<min (unat (booted + once)) num]"

text \<open>What is written into the trampoline of the processor, besides the code: the root of the page
  tables at 12 and the top of its stack at 20. The flag at 11 is set by the processor when it runs.\<close>

definition prepare_core :: "u64 \<Rightarrow> u64 \<Rightarrow> u64 \<Rightarrow> nat \<Rightarrow> core list \<Rightarrow> core list" where
  "prepare_core tsize booted stack i cores =
     cores[i := (cores ! i)\<lparr>co_started := Some (trampoline_at tsize (of_nat i - booted) + 11)\<rparr>]"

definition trampoline_writes :: "u64 \<Rightarrow> u64 \<Rightarrow> u64 \<Rightarrow> u64 \<Rightarrow> nat \<Rightarrow> (u64 \<times> u64) list" where
  "trampoline_writes tsize booted asid stack i =
     [(trampoline_at tsize (of_nat i - booted) + 12, asid), (trampoline_at tsize (of_nat i - booted) + 20, stack + 8192)]"

definition sipi_targets :: "u64 \<Rightarrow> u64 \<Rightarrow> nat list \<Rightarrow> core list \<Rightarrow> (u32 \<times> u8) list" where
  "sipi_targets tsize booted is cores = map (\<lambda>i. (co_apic_id (cores ! i), sipi_data tsize (of_nat i - booted))) is"

definition init_targets :: "core list \<Rightarrow> u32 list" where
  "init_targets cores = map co_apic_id cores"

section \<open>Dropping the processors that did not start\<close>

definition is_started :: "(u64 \<Rightarrow> bool) \<Rightarrow> core \<Rightarrow> bool" where
  "is_started up c = (case co_started c of Some a \<Rightarrow> up a | None \<Rightarrow> False)"

text \<open>The second start-up interrupt goes to those that have not started yet.\<close>

definition second_sipi :: "(u64 \<Rightarrow> bool) \<Rightarrow> u64 \<Rightarrow> u64 \<Rightarrow> nat list \<Rightarrow> core list \<Rightarrow> (u32 \<times> u8) list" where
  "second_sipi up tsize booted is cores = sipi_targets tsize booted (filter (\<lambda>i. \<not> is_started up (cores ! i)) is) cores"

text \<open>Moving the later processors forward by one; the assignment leaves the flag address in place.\<close>

definition shift_cores :: "nat \<Rightarrow> nat \<Rightarrow> core list \<Rightarrow> core list" where
  "shift_cores i num cores = fold (\<lambda>j cs. cs[j := core_assign (cs ! j) (cs ! (j + 1))]) [i..<num - 1] cores"

function check_batch :: "(u64 \<Rightarrow> bool) \<Rightarrow> u64 \<Rightarrow> nat \<Rightarrow> core list \<Rightarrow> nat \<Rightarrow> u64 \<Rightarrow> core list \<times> nat \<times> u64" where
  "check_batch up once i cores num booted =
     (if i < num \<and> i < unat (booted + once)
      then if is_started up (cores ! i) then check_batch up once (i + 1) cores num booted
           else check_batch up once i (shift_cores i num cores) (num - 1) (booted - 1)
      else (cores, num, booted))"
  by pat_completeness auto
termination
  by (relation "measure (\<lambda>(_, _, i, _, num, _). num - i)") auto

declare check_batch.simps [simp del]

section \<open>The pass over a batch\<close>

lemma length_shift_cores [simp]: "length (shift_cores i num cores) = length cores"
  unfolding shift_cores_def by (rule fold_invariant [where Q = "\<lambda>_. True" and P = "\<lambda>cs. length cs = length cores"]) auto

lemma shift_keeps_flags: "map co_started (shift_cores i num cores) = map co_started cores"
proof -
  have "map co_started (fold (\<lambda>j cs. cs[j := core_assign (cs ! j) (cs ! (j + 1))]) js cores) = map co_started cores" for js
    by (rule fold_invariant [where Q = "\<lambda>_. True" and P = "\<lambda>cs. map co_started cs = map co_started cores"])
      (auto simp: map_update core_assign_def list_update_same_conv nth_map, metis list_update_beyond list_update_id nth_map length_map not_le)
  then show ?thesis by (simp add: shift_cores_def)
qed

lemma shift_before: "k < i \<Longrightarrow> shift_cores i num cores ! k = cores ! k"
  unfolding shift_cores_def
  by (rule fold_invariant [where Q = "\<lambda>j. i \<le> j" and P = "\<lambda>cs. cs ! k = cores ! k"]) auto

lemma is_started_map: "map co_started cs = map co_started cs' \<Longrightarrow> i < length cs \<Longrightarrow> is_started up (cs ! i) = is_started up (cs' ! i)"
  by (metis is_started_def length_map nth_map)

lemma shift_started: "i < length cores \<Longrightarrow> is_started up (shift_cores j num cores ! i) = is_started up (cores ! i)"
  by (rule is_started_map) (simp_all add: shift_keeps_flags)

lemma shift_ids:
  assumes "i \<le> m" "m < length cores"
  shows "co_apic_id (fold (\<lambda>j cs. cs[j := core_assign (cs ! j) (cs ! (j + 1))]) [i..<m] cores ! j) =
    co_apic_id (cores ! (if i \<le> j \<and> j < m then j + 1 else j))"
  using assms
proof (induction m arbitrary: j rule: dec_induct)
  case (step m)
  let ?cs = "fold (\<lambda>j cs. cs[j := core_assign (cs ! j) (cs ! (j + 1))]) [i..<m] cores"
  have l: "length ?cs = length cores"
    by (rule fold_invariant [where Q = "\<lambda>_. True" and P = "\<lambda>cs. length cs = length cores"]) auto
  have IH: "co_apic_id (?cs ! j) = co_apic_id (cores ! (if i \<le> j \<and> j < m then j + 1 else j))" for j
    using step by simp
  have "fold (\<lambda>j cs. cs[j := core_assign (cs ! j) (cs ! (j + 1))]) [i..<Suc m] cores = ?cs[m := core_assign (?cs ! m) (?cs ! (m + 1))]"
    using step(1) by simp
  moreover have "co_apic_id (?cs[m := core_assign (?cs ! m) (?cs ! (m + 1))] ! j) =
    (if j = m then co_apic_id (?cs ! (m + 1)) else co_apic_id (?cs ! j))"
    using step.prems l by (simp only: core_assign_def nth_list_update_eq split: if_split) (simp add: core_assign_def nth_list_update)
  ultimately show ?case using step(1) IH [of "m + 1"] IH [of j] by auto
qed auto

lemma shift_cores_ids:
  "i < num \<Longrightarrow> num \<le> length cores \<Longrightarrow>
   co_apic_id (shift_cores i num cores ! j) = co_apic_id (cores ! (if i \<le> j \<and> j < num - 1 then j + 1 else j))"
  unfolding shift_cores_def by (rule shift_ids) auto

text \<open>From a processor that did not start, the pass drops the rest of the batch.\<close>

lemma check_batch_failing:
  assumes "\<not> is_started up (cores ! i)" "i < length cores" "num \<le> length cores" "i \<le> num"
    and "unat (booted + once) = i + k' " "k = min k' (num - i)"
  shows "\<exists>cs. check_batch up once i cores num booted = (cs, num - k, booted - of_nat k) \<and>
    (\<forall>j<num - k. co_apic_id (cs ! j) = co_apic_id (cores ! (if j < i then j else j + k)))"
  using assms
proof (induction k arbitrary: cores num booted k')
  case 0
  then have n: "\<not> (i < num \<and> i < unat (booted + once))" by (auto simp: min_def split: if_splits)
  then have "check_batch up once i cores num booted = (cores, num, booted)"
    by (subst check_batch.simps) (simp only: if_False)
  then show ?case by simp
next
  case (Suc k)
  let ?cs = "shift_cores i num cores"
  from Suc.prems have n: "i < num" "i < unat (booted + once)" by (auto simp: min_def split: if_splits)
  have u: "unat (booted - 1 + once) = i + (k' - 1)"
  proof -
    have "booted + once \<noteq> 0" using n(2) by auto
    then have "unat (booted + once - 1) = unat (booted + once) - 1" by (rule unat_minus_one)
    then show ?thesis using Suc.prems(5) n(2) by (simp add: algebra_simps)
  qed
  have "\<exists>cs. check_batch up once i ?cs (num - 1) (booted - 1) = (cs, num - 1 - k, booted - 1 - of_nat k) \<and>
    (\<forall>j<num - 1 - k. co_apic_id (cs ! j) = co_apic_id (?cs ! (if j < i then j else j + k)))"
  proof (rule Suc.IH)
    show "\<not> is_started up (?cs ! i)" using Suc.prems(1,2) by (simp add: shift_started)
    show "k = min (k' - 1) (num - 1 - i)" using Suc.prems(6) n by simp
  qed (use Suc.prems n u in simp_all)
  then obtain cs where cs: "check_batch up once i ?cs (num - 1) (booted - 1) = (cs, num - 1 - k, booted - 1 - of_nat k)"
    and ids: "\<And>j. j < num - 1 - k \<Longrightarrow> co_apic_id (cs ! j) = co_apic_id (?cs ! (if j < i then j else j + k))" by blast
  have "check_batch up once i cores num booted = check_batch up once i ?cs (num - 1) (booted - 1)"
    using Suc.prems(1) n by (subst check_batch.simps) simp
  moreover have "co_apic_id (cs ! j) = co_apic_id (cores ! (if j < i then j else j + Suc k))" if "j < num - Suc k" for j
  proof -
    have "j + k < num - 1" "j < num - 1 - k" using that by linarith+
    then show ?thesis using ids [of j] shift_cores_ids [OF n(1) Suc.prems(3)] n by auto
  qed
  ultimately show ?case using cs by (simp add: algebra_simps)
qed

lemma check_batch_prefix:
  assumes "\<And>j. i \<le> j \<Longrightarrow> j < m \<Longrightarrow> is_started up (cores ! j)" "i \<le> m" "m \<le> num" "m \<le> unat (booted + once)"
  shows "check_batch up once i cores num booted = check_batch up once m cores num booted"
  using assms(2,1,3,4)
proof (induction rule: inc_induct)
  case (step n)
  from step.prems(1) [of n] step.hyps step.prems(2,3)
  have "check_batch up once n cores num booted = check_batch up once (Suc n) cores num booted"
    by (subst check_batch.simps) simp
  with step show ?case by simp
qed simp

text \<open>
  One processor of a batch that does not start takes all later ones of the batch with it, started or
  not: the pass keeps the processors before it, drops \<open>k\<close> of them, that is the rest of the batch, moves
  the ones of the later batches into their places, and sets the counters back by the same number, so
  that those are booted next. The cause is that the flag address stays behind when a processor moves.
\<close>

theorem boot_failure_drops_batch:
  assumes "\<And>j. unat booted \<le> j \<Longrightarrow> j < i \<Longrightarrow> is_started up (cores ! j)" "\<not> is_started up (cores ! i)"
    and "unat booted \<le> i" "i < num" "num \<le> length cores" "i < unat (booted + once)"
    and "k = min (unat (booted + once)) num - i"
  shows "\<exists>cs. check_batch up once (unat booted) cores num booted = (cs, num - k, booted - of_nat k) \<and>
    (\<forall>j<num - k. co_apic_id (cs ! j) = co_apic_id (cores ! (if j < i then j else j + k)))"
proof -
  have "check_batch up once (unat booted) cores num booted = check_batch up once i cores num booted"
    using assms by (intro check_batch_prefix) auto
  moreover have "\<exists>cs. check_batch up once i cores num booted = (cs, num - k, booted - of_nat k) \<and>
      (\<forall>j<num - k. co_apic_id (cs ! j) = co_apic_id (cores ! (if j < i then j else j + k)))"
    using assms(2,4-7) by (intro check_batch_failing [where k' = "unat (booted + once) - i"]) (auto simp: min_def)
  ultimately show ?thesis by simp
qed

definition demo_core :: "u32 \<Rightarrow> core" where
  "demo_core a = (new_core a a True)\<lparr>co_started := Some (0x1000 + 0x1000 * ucast a)\<rparr>"

text \<open>Of the processors 0 to 4 in batches of three, number 1 does not start; number 2 is lost with it.\<close>

lemma boot_failure_drops_batch_witness:
  "\<exists>cs. check_batch (\<lambda>a. a \<noteq> 0x2000) 3 0 (map demo_core [0, 1, 2, 3, 4]) 5 0 = (cs, 3, - 2) \<and>
     map (\<lambda>j. co_apic_id (cs ! j)) [0, 1, 2] = [0, 3, 4]"
proof -
  let ?cores = "map demo_core [0, 1, 2, 3, 4]"
  let ?up = "\<lambda>a :: u64. a \<noteq> 0x2000"
  have 1: "is_started ?up (?cores ! j)" if "unat (0 :: u64) \<le> j" "j < 1" for j
    using that by (simp add: is_started_def demo_core_def)
  have 2: "\<not> is_started ?up (?cores ! 1)" by (simp add: is_started_def demo_core_def)
  have "\<exists>cs. check_batch ?up 3 (unat (0 :: u64)) ?cores 5 0 = (cs, 5 - 2, 0 - of_nat 2) \<and>
    (\<forall>j<5 - 2. co_apic_id (cs ! j) = co_apic_id (?cores ! (if j < 1 then j else j + 2)))"
  proof (rule boot_failure_drops_batch)
    show "\<And>j. unat (0 :: u64) \<le> j \<Longrightarrow> j < 1 \<Longrightarrow> is_started ?up (?cores ! j)" by (rule 1)
    show "\<not> is_started ?up (?cores ! 1)" by (rule 2)
  qed simp_all
  then obtain cs where "check_batch (\<lambda>a. a \<noteq> 0x2000) 3 0 (map demo_core [0, 1, 2, 3, 4]) 5 0 = (cs, 3, - 2)"
    and ids: "\<And>j. j < 3 \<Longrightarrow> co_apic_id (cs ! j) = co_apic_id (map demo_core [0, 1, 2, 3, 4] ! (if j < 1 then j else j + 2))"
    by auto
  moreover have "map (\<lambda>j. co_apic_id (cs ! j)) [0, 1, 2] = [0, 3, 4]"
    using ids [of 0] ids [of 1] ids [of 2] by (simp add: demo_core_def new_core_def)
  ultimately show ?thesis by (intro exI [of _ cs]) simp
qed

end
