(* ===== verification/Timer.thy ===== *)
theory Timer
  imports Priority_List_Order
begin

text \<open>
  Timers (\<open>kernel/time/timer.h\<close>, \<open>timer.cpp\<close>): events ordered by their time in a priority list, one
  hardware timer that is set for the next of them, and the handler that runs the events that are due.
  The list is the sequence form of \<open>priority_list\<close>. The kinds of hardware differ in their virtual
  functions: \<open>_one_shot\<close>, \<open>_periodic\<close> and \<open>_stop\<close> appear as commands in a log, \<open>_update_now\<close> is a
  parameter. What an event's handler does is a parameter as well. Where the code compares the node it
  set the hardware for with the top of the list, the model compares the numbers of the events.
\<close>

section \<open>State\<close>

record 'h event =
  ev_id :: u64
  ev_handler :: 'h
  ev_param :: u64
  ev_periodic :: bool
  ev_time :: u64
  ev_period :: u64

datatype capabilities = Periodic_Capable | One_Shot_Capable | Fixed_Frequency | Dynamic

datatype timer_command = One_Shot u64 | Periodic u64 | Stop

record 'h timer =
  tm_cap :: capabilities
  tm_is_periodic :: bool
  tm_usage :: u64
  tm_min :: u64
  tm_max :: u64
  tm_now :: u64
  tm_list :: "'h event pseq"
  tm_commands :: "timer_command list"

definition new_timer :: "capabilities \<Rightarrow> u64 \<Rightarrow> u64 \<Rightarrow> 'h timer" where
  "new_timer cap mn mx = \<lparr>tm_cap = cap, tm_is_periodic = False, tm_usage = 0, tm_min = mn, tm_max = mx,
     tm_now = 0, tm_list = empty_pseq, tm_commands = []\<rparr>"

definition earlier :: "'h event \<Rightarrow> 'h event \<Rightarrow> bool" where
  "earlier a b \<longleftrightarrow> ev_time a < ev_time b"

definition command :: "timer_command \<Rightarrow> 'h timer \<Rightarrow> 'h timer" where
  "command c s = s\<lparr>tm_commands := c # tm_commands s\<rparr>"

text \<open>The time to the event on top, brought into the range of the hardware.\<close>

definition clamp :: "'h timer \<Rightarrow> u64 \<Rightarrow> u64" where
  "clamp s t = (let t = (if tm_min s < t then t else tm_min s) in if t < tm_max s then t else tm_max s)"

definition first_event :: "'h timer \<Rightarrow> 'h event result" where
  "first_event s = (case ps_top (tm_list s) of Some e \<Rightarrow> Inr e | None \<Rightarrow> Inl Null_Deref)"

section \<open>Setting and cancelling\<close>

text \<open>\<open>update\<close> gives the current time; \<open>i\<close> is the next event number.\<close>

definition one_shot :: "('h timer \<Rightarrow> u64) \<Rightarrow> u64 \<Rightarrow> u64 \<Rightarrow> 'h \<Rightarrow> u64 \<Rightarrow> 'h timer \<Rightarrow> (u64 \<times> 'h timer) result" where
  "one_shot update i t h c s =
     (let s = s\<lparr>tm_now := update s\<rparr>;
          e = \<lparr>ev_id = i, ev_handler = h, ev_param = c, ev_periodic = False, ev_time = tm_now s + t, ev_period = 0\<rparr>;
          s = s\<lparr>tm_list := ps_insert earlier e (tm_list s), tm_usage := tm_usage s + 1, tm_is_periodic := False\<rparr>
      in rbind (first_event s) (\<lambda>first.
         let t = clamp s (ev_time first - tm_now s) in
         Inr (i, case tm_cap s of Dynamic \<Rightarrow> command (One_Shot t) s | One_Shot_Capable \<Rightarrow> command (One_Shot t) s
                 | Periodic_Capable \<Rightarrow> command (Periodic t) s | Fixed_Frequency \<Rightarrow> s)))"

definition periodic :: "('h timer \<Rightarrow> u64) \<Rightarrow> u64 \<Rightarrow> u64 \<Rightarrow> 'h \<Rightarrow> u64 \<Rightarrow> 'h timer \<Rightarrow> (u64 \<times> 'h timer) result" where
  "periodic update i p h c s =
     (let s = s\<lparr>tm_now := update s\<rparr>;
          e = \<lparr>ev_id = i, ev_handler = h, ev_param = c, ev_periodic = True, ev_time = tm_now s + p, ev_period = p\<rparr>;
          s = s\<lparr>tm_list := ps_insert earlier e (tm_list s), tm_usage := tm_usage s + 100\<rparr>
      in rbind (first_event s) (\<lambda>first.
         let t = clamp s (ev_time first - tm_now s) in
         if ps_size (tm_list s) = 1 \<and> (tm_cap s = Dynamic \<or> tm_cap s = Periodic_Capable)
         then Inr (i, command (One_Shot t) s)
         else Inr (i, command (One_Shot t) (s\<lparr>tm_is_periodic := False\<rparr>))))"

definition cancel :: "('h timer \<Rightarrow> 'h timer) \<Rightarrow> ('h timer \<Rightarrow> u64) \<Rightarrow> u64 \<Rightarrow> 'h timer \<Rightarrow> 'h timer result" where
  "cancel stop update i s =
     (case ps_remove (\<lambda>e. ev_id e = i) (tm_list s) of
        (None, _) \<Rightarrow> Inl (Panic ''Tried to cancel a not active timer.'')
      | (Some e, l) \<Rightarrow>
          let s = s\<lparr>tm_list := l, tm_usage := (if ev_periodic e then tm_usage s - 100 else tm_usage s - 1)\<rparr> in
          if ps_size l = 0 then Inr (stop s)
          else let s = s\<lparr>tm_now := update s\<rparr> in
            rbind (first_event s) (\<lambda>first.
            let t = (if tm_min s < ev_time first - tm_now s then ev_time first - tm_now s else tm_min s);
                s = (if (tm_cap s = Dynamic \<or> tm_cap s = Periodic_Capable) \<and> ps_size l = 1 \<and> ev_periodic first
                     then command (Periodic t) (s\<lparr>tm_is_periodic := True\<rparr>) else s)
            in Inr (if \<not> tm_is_periodic s \<and> (tm_cap s = Dynamic \<or> tm_cap s = One_Shot_Capable) \<and> ev_time e < ev_time first
                    then command (One_Shot t) s else s)))"

text \<open>\<open>_stop\<close> of the base class.\<close>

definition base_stop :: "'h timer \<Rightarrow> 'h timer" where
  "base_stop s = (if tm_cap s = Dynamic \<or> tm_cap s = One_Shot_Capable then command (One_Shot (tm_min s)) s else s)"

section \<open>The interrupt of the timer\<close>

text \<open>The first event that is not due, or else the last one, and whether it is the last one.\<close>

fun next_event :: "u64 \<Rightarrow> 'h event list \<Rightarrow> ('h event \<times> bool) option" where
  "next_event now [] = None"
| "next_event now [e] = Some (e, True)"
| "next_event now (e # f # es) = (if ev_time e \<le> now then next_event now (f # es) else Some (e, False))"

definition schedule_next :: "'h timer \<Rightarrow> (u64 option \<times> 'h timer) result" where
  "schedule_next s =
     (if ps_size (tm_list s) = 0 then Inr (None, s)
      else case next_event (tm_now s) (ps_values (tm_list s)) of None \<Rightarrow> Inl Null_Deref
      | Some (e, is_last) \<Rightarrow>
          let s = (if \<not> tm_is_periodic s \<and> is_last \<and> ev_periodic e \<and> (tm_cap s = Dynamic \<or> tm_cap s = Periodic_Capable)
                   then command (Periodic (ev_period e)) (s\<lparr>tm_is_periodic := True\<rparr>) else s);
              t = clamp s (ev_time e - tm_now s)
          in Inr (Some (ev_id e), case tm_cap s of
               Periodic_Capable \<Rightarrow> command (Periodic t) s
             | Dynamic \<Rightarrow> if tm_is_periodic s
                 then command (Periodic (if tm_min s < ev_period e then ev_period e else tm_min s)) s
                 else command (One_Shot t) s
             | One_Shot_Capable \<Rightarrow> command (One_Shot t) s
             | Fixed_Frequency \<Rightarrow> s))"

definition advance :: "'h timer \<Rightarrow> 'h event \<Rightarrow> u64" where
  "advance s first =
     (if tm_cap s = Fixed_Frequency then tm_now s + tm_min s
      else let tick = ev_time first - tm_now s;
               tick = (if tm_max s < tick then tm_max s else if tick < tm_min s then tm_min s else tick)
           in tm_now s + tick)"

definition bump :: "'h event \<Rightarrow> 'h event" where
  "bump e = e\<lparr>ev_time := ev_time e + ev_period e\<rparr>"

definition due :: "'h timer \<Rightarrow> 'h event \<Rightarrow> bool" where
  "due s e \<longleftrightarrow> ev_time e \<le> tm_now s"

text \<open>The loops run as often as there are due events; \<open>k\<close> bounds the number of events. In periodic mode every element matches the update, so it is the one on top.\<close>

fun run_periodic :: "('h \<Rightarrow> u64 \<Rightarrow> 'h timer \<Rightarrow> 'h timer) \<Rightarrow> nat \<Rightarrow> 'h timer \<Rightarrow> ('h event list \<times> 'h timer) result" where
  "run_periodic run 0 s = Inl Spins_Forever"
| "run_periodic run (Suc k) s =
     (if ps_size (tm_list s) = 0 then Inr ([], s)
      else rbind (first_event s) (\<lambda>e.
        if due s e
        then let s = run (ev_handler e) (ev_param e) s in
             rbind (run_periodic run k (s\<lparr>tm_list := ps_update earlier (\<lambda>_. True) bump (tm_list s)\<rparr>)) (\<lambda>(es, s).
             Inr (e # es, s))
        else Inr ([], s)))"

definition settle :: "'h event \<Rightarrow> 'h timer \<Rightarrow> 'h timer" where
  "settle e s =
     (if ev_periodic e then s\<lparr>tm_list := ps_insert earlier (bump e) (tm_list s)\<rparr> else s\<lparr>tm_usage := tm_usage s - 1\<rparr>)"

fun run_due :: "('h \<Rightarrow> u64 \<Rightarrow> 'h timer \<Rightarrow> 'h timer) \<Rightarrow> nat \<Rightarrow> 'h timer \<Rightarrow> ('h event list \<times> 'h timer) result" where
  "run_due run 0 s = Inl Spins_Forever"
| "run_due run (Suc k) s =
     (if ps_size (tm_list s) = 0 then Inr ([], s)
      else rbind (first_event s) (\<lambda>e.
        if due s e
        then rbind (ps_pop (tm_list s)) (\<lambda>(e, l).
             rbind (run_due run k (settle e (run (ev_handler e) (ev_param e) (s\<lparr>tm_list := l\<rparr>)))) (\<lambda>(es, s).
             Inr (e # es, s)))
        else Inr ([], s)))"

definition handle_timer :: "('h \<Rightarrow> u64 \<Rightarrow> 'h timer \<Rightarrow> 'h timer) \<Rightarrow> nat \<Rightarrow> 'h timer \<Rightarrow> ('h event list \<times> 'h timer) result" where
  "handle_timer run k s =
     (if ps_size (tm_list s) = 0 then Inr ([], s)
      else rbind (first_event s) (\<lambda>first.
        let s = s\<lparr>tm_now := advance s first\<rparr> in
        if tm_is_periodic s then run_periodic run k s
        else rbind (schedule_next s) (\<lambda>(scheduled, s).
          rbind (run_due run k s) (\<lambda>(es, s).
          if ps_size (tm_list s) = 0 then Inr (es, s)
          else rbind (first_event s) (\<lambda>first.
            if scheduled \<noteq> Some (ev_id first) then rbind (schedule_next s) (\<lambda>(_, s). Inr (es, s)) else Inr (es, s))))))"

section \<open>The list\<close>

definition tm_wf :: "'h timer \<Rightarrow> bool" where
  "tm_wf s \<longleftrightarrow> ps_size (tm_list s) = of_nat (length (ps_items (tm_list s))) \<and> length (ps_items (tm_list s)) < 2 ^ 64"

abbreviation events :: "'h timer \<Rightarrow> 'h event list" where
  "events s \<equiv> ps_values (tm_list s)"

lemma events_items [simp]: "events s = [] \<longleftrightarrow> ps_items (tm_list s) = []"
  by (simp add: ps_values_def)

lemma tm_wf_size: "tm_wf s \<Longrightarrow> ps_size (tm_list s) = 0 \<longleftrightarrow> events s = []"
  using of_nat_u64_inject [of "length (ps_items (tm_list s))" 0] by (auto simp: tm_wf_def ps_values_def)

lemma first_event_hd: "events s = e # es \<Longrightarrow> first_event s = Inr e"
  by (auto simp: first_event_def ps_top_def ps_values_def split: list.splits)

lemma ps_pop_wf:
  assumes "tm_wf s" "events s = e # es"
  shows "\<exists>l. ps_pop (tm_list s) = Inr (e, l) \<and> ps_values l = es \<and> tm_wf (s\<lparr>tm_list := l\<rparr>)"
proof -
  obtain b xs where i: "ps_items (tm_list s) = (e, b) # xs" "map fst xs = es"
    using assms(2) by (auto simp: ps_values_def)
  have n: "Suc (length xs) < 2 ^ 64" using assms(1) i by (simp add: tm_wf_def)
  have sz: "ps_size (tm_list s) - 1 = of_nat (length xs)" "ps_size (tm_list s) \<noteq> 0"
    using assms(1) i of_nat_u64_inject [OF n, of 0] by (simp_all add: tm_wf_def)
  then have "ps_pop (tm_list s) = Inr (e, \<lparr>ps_items = set_flag False xs, ps_size = of_nat (length xs)\<rparr>)"
    using i by (auto simp: ps_pop_def)
  moreover have "length (set_flag False xs) = length xs" by (cases xs) (auto simp: set_flag_def)
  ultimately show ?thesis using n i(2) by (simp add: ps_values_def tm_wf_def)
qed

lemma length_place [simp]: "length (place cmp v xs) = Suc (length xs)"
  using arg_cong [OF place_mset [of cmp v xs], of size] by simp

lemma ps_insert_wf: "tm_wf s \<Longrightarrow> Suc (length (ps_items (tm_list s))) < 2 ^ 64 \<Longrightarrow> tm_wf (s\<lparr>tm_list := ps_insert cmp e (tm_list s)\<rparr>)"
  by (simp add: tm_wf_def ps_insert_def)

lemma set_ps_insert: "set (ps_values (ps_insert cmp e t)) = insert e (set (ps_values t))"
  using arg_cong [OF ps_insert_values [of cmp e t], of set_mset] by simp

section \<open>Running what is due\<close>

definition weight :: "'h event \<Rightarrow> u64" where
  "weight e = (if ev_periodic e then 100 else 1)"

definition load :: "'h timer \<Rightarrow> u64" where
  "load s = sum_mset (image_mset weight (mset (events s)))"

definition one_shots :: "'h event list \<Rightarrow> 'h event multiset" where
  "one_shots es = filter_mset (\<lambda>e. \<not> ev_periodic e) (mset es)"

definition sane :: "u64 \<Rightarrow> 'h event \<Rightarrow> bool" where
  "sane now e \<longleftrightarrow> (ev_periodic e \<longrightarrow> 0 < ev_period e \<and> unat now + unat (ev_period e) < 2 ^ 64)"

definition backlog :: "u64 \<Rightarrow> 'h event multiset \<Rightarrow> nat" where
  "backlog now es = sum_mset (image_mset (\<lambda>e. if ev_time e \<le> now then unat now - unat (ev_time e) + 1 else 0) es)"

lemma bump_sane: "sane now (bump e) = sane now e"
  by (simp add: sane_def bump_def)

lemma bump_later:
  assumes "ev_time e \<le> now" "sane now e" "ev_periodic e"
  shows "backlog now {#bump e#} < backlog now {#e#}"
proof -
  have p: "0 < unat (ev_period e)" "unat now + unat (ev_period e) < 2 ^ 64"
    using assms(2,3) by (auto simp: sane_def unat_gt_0 word_neq_0_conv)
  have t: "unat (ev_time e) \<le> unat now" using assms(1) by (simp add: word_le_nat_alt)
  then have "unat (ev_time e + ev_period e) = unat (ev_time e) + unat (ev_period e)"
    using p(2) by (simp add: unat_word_ariths)
  with p t assms(1) show ?thesis by (auto simp: backlog_def bump_def word_le_nat_alt)
qed

lemma backlog_add: "backlog now (add_mset e es) = backlog now {#e#} + backlog now es"
  by (simp add: backlog_def)

abbreviation alone :: "'h \<Rightarrow> u64 \<Rightarrow> 'h timer \<Rightarrow> 'h timer" where
  "alone \<equiv> \<lambda>h c s. s"

text \<open>One event: what is left, its weight, its backlog.\<close>

lemma settle_event:
  assumes "tm_wf s" "events s = e # es" "due s e" "sane (tm_now s) e" "ps_pop (tm_list s) = Inr (e, l)"
  shows "let s' = settle e (s\<lparr>tm_list := l\<rparr>) in
    tm_wf s' \<and> tm_now s' = tm_now s \<and> set (events s') \<subseteq> set es \<union> {bump e} \<and> tm_usage s' - load s' = tm_usage s - load s \<and>
    one_shots (events s) = one_shots [e] + one_shots (events s') \<and>
    backlog (tm_now s) (mset (events s')) < backlog (tm_now s) (mset (events s)) \<and> tm_is_periodic s' = tm_is_periodic s"
proof -
  from ps_pop_wf [OF assms(1,2)] assms(5) have l: "ps_values l = es" "tm_wf (s\<lparr>tm_list := l\<rparr>)" by auto
  have len: "Suc (length (ps_items l)) < 2 ^ 64"
    using assms(1) arg_cong [OF assms(2), of length] arg_cong [OF l(1), of length]
    by (simp add: tm_wf_def ps_values_def)
  have pos: "0 < backlog (tm_now s) {#e#}" using assms(3) by (simp add: backlog_def due_def)
  show ?thesis
  proof (cases "ev_periodic e")
    case True
    have w: "tm_wf (s\<lparr>tm_list := ps_insert earlier (bump e) l\<rparr>)"
      using ps_insert_wf [of "s\<lparr>tm_list := l\<rparr>" earlier "bump e"] l(2) len by simp
    have "backlog (tm_now s) {#bump e#} < backlog (tm_now s) {#e#}"
      using bump_later [OF _ assms(4) True] assms(3) by (simp add: due_def)
    moreover have "ev_periodic (bump e) = ev_periodic e" "weight (bump e) = weight e" by (simp_all add: bump_def weight_def)
    ultimately show ?thesis
      using True w l(1) assms(2) backlog_add [of "tm_now s" "bump e" "mset es"] backlog_add [of "tm_now s" e "mset es"]
      by (auto simp: settle_def Let_def set_ps_insert load_def one_shots_def ps_insert_values)
  next
    case False
    then show ?thesis
      using l assms(2) pos backlog_add [of "tm_now s" e "mset es"]
      by (auto simp: settle_def Let_def load_def one_shots_def weight_def tm_wf_def)
  qed
qed

lemma run_due_ok:
  assumes "tm_wf s" "\<forall>e\<in>set (events s). sane (tm_now s) e" "backlog (tm_now s) (mset (events s)) < k"
  shows "\<exists>es s'. run_due alone k s = Inr (es, s') \<and> tm_wf s' \<and> tm_now s' = tm_now s \<and> list_all (due s) es \<and>
    (events s' = [] \<or> \<not> due s' (hd (events s'))) \<and> tm_usage s' - load s' = tm_usage s - load s \<and>
    one_shots (events s) = one_shots es + one_shots (events s')"
  using assms
proof (induction k arbitrary: s)
  case (Suc k)
  show ?case
  proof (cases "events s")
    case Nil
    with Suc.prems(1) show ?thesis by (simp add: tm_wf_size one_shots_def)
  next
    case (Cons e es)
    with Suc.prems(1) have nz: "ps_size (tm_list s) \<noteq> 0" by (simp add: tm_wf_size del: events_items)
    note fe = first_event_hd [OF Cons]
    show ?thesis
    proof (cases "due s e")
      case False
      with nz fe Cons Suc.prems(1) show ?thesis by (simp add: one_shots_def)
    next
      case True
      from ps_pop_wf [OF Suc.prems(1) Cons] obtain l where l: "ps_pop (tm_list s) = Inr (e, l)" by blast
      define s1 where "s1 = settle e (s\<lparr>tm_list := l\<rparr>)"
      have sane_e: "sane (tm_now s) e" using Suc.prems(2) Cons by simp
      note st = settle_event [OF Suc.prems(1) Cons True sane_e l, unfolded Let_def, folded s1_def]
      have "\<forall>f\<in>set (events s1). sane (tm_now s1) f"
        using st Suc.prems(2) Cons bump_sane [of "tm_now s" e] by auto
      with Suc.IH [of s1] st Suc.prems(3) obtain es' s' where r: "run_due alone k s1 = Inr (es', s')" "tm_wf s'"
        "tm_now s' = tm_now s1" "list_all (due s1) es'" "events s' = [] \<or> \<not> due s' (hd (events s'))"
        "tm_usage s' - load s' = tm_usage s1 - load s1" "one_shots (events s1) = one_shots es' + one_shots (events s')"
        by auto
      have "run_due alone (Suc k) s = Inr (e # es', s')" using nz fe True l r(1) by (simp add: s1_def)
      moreover have "one_shots (e # es') = one_shots [e] + one_shots es'" by (simp add: one_shots_def)
      moreover have "list_all (due s) es'" using r(4) st by (simp add: due_def [abs_def])
      ultimately show ?thesis using r st True by (simp add: add.assoc)
    qed
  qed
qed simp

lemma next_event_some: "es \<noteq> [] \<Longrightarrow> \<exists>e b. next_event now es = Some (e, b)"
  by (induction now es rule: next_event.induct) auto

lemma schedule_next_keeps:
  assumes "tm_wf s"
  shows "\<exists>i s'. schedule_next s = Inr (i, s') \<and> tm_list s' = tm_list s \<and> tm_now s' = tm_now s \<and> tm_usage s' = tm_usage s"
proof (cases "events s")
  case Nil
  with assms show ?thesis by (simp add: schedule_next_def tm_wf_size)
next
  case (Cons e es)
  with assms have nz: "ps_size (tm_list s) \<noteq> 0" by (simp add: tm_wf_size del: events_items)
  from next_event_some [of "events s" "tm_now s"] Cons obtain f b where "next_event (tm_now s) (events s) = Some (f, b)" by auto
  with nz show ?thesis
    by (cases "tm_cap s") (simp_all add: schedule_next_def Let_def command_def)
qed

lemma keeps_fields:
  "tm_list s' = tm_list s \<Longrightarrow> tm_now s' = tm_now s \<Longrightarrow>
   tm_wf s' = tm_wf s \<and> load s' = load s \<and> due s' = due s"
  by (simp add: tm_wf_def load_def due_def [abs_def])


text \<open>A one-shot event at 10, due twice over, and a periodic one at 20.\<close>

definition demo_event :: "u64 \<Rightarrow> bool \<Rightarrow> u64 \<Rightarrow> char event" where
  "demo_event i p t = \<lparr>ev_id = i, ev_handler = CHR ''h'', ev_param = 0, ev_periodic = p, ev_time = t, ev_period = (if p then 7 else 0)\<rparr>"

definition demo_timer :: "char timer" where
  "demo_timer = (new_timer Dynamic 1 1000)\<lparr>tm_usage := 101,
     tm_list := \<lparr>ps_items = [(demo_event 1 False 10, False), (demo_event 2 True 20, True)], ps_size = 2\<rparr>\<rparr>"


end
