(* ===== verification/Clocks.thy ===== *)
theory Clocks
  imports Timer Apic
begin

text \<open>
  The hardware behind the timers: the high precision event timer (\<open>kernel/time/hpet.cpp\<close>), the timer of
  the local interrupt controller (\<open>lapic.cpp\<close>) and the old interval timer (\<open>pit.cpp\<close>). Times are
  nanoseconds, periods femtoseconds; the products are the code's, in 64 bits.
\<close>

section \<open>High precision event timer\<close>

definition hpet_configuration :: "u8 \<Rightarrow> u64" where
  "hpet_configuration i = 0x100 + 0x20 * ucast i"

definition hpet_comparator :: "u8 \<Rightarrow> u64" where
  "hpet_comparator i = 0x108 + 0x20 * ucast i"

definition fsb_route :: "u8 \<Rightarrow> u64" where
  "fsb_route i = 0x110 + 0x20 * ucast i"

text \<open>The inputs that comparators may not use: \<open>present\<close> says which inputs have a controller.\<close>

definition used_interrupts :: "u8 \<Rightarrow> u8 \<Rightarrow> (nat \<Rightarrow> bool) \<Rightarrow> u32" where
  "used_interrupts isa0 isa8 present =
     (let u = 1 OR push_bit 9 1 OR push_bit 10 1 OR push_bit 11 1 OR push_bit 12 1 OR push_bit 13 1 OR push_bit 14 1 OR push_bit 15 1;
          u = u OR push_bit (unat isa0) 1 OR push_bit (unat isa8) 1
      in fold (\<lambda>i u. u OR push_bit i (if present i then 0 else 1)) [0..<32] u)"

record hpet =
  hp_size :: u8
  hp_count :: u8
  hp_min :: u16
  hp_max :: u64
  hp_period :: u64
  hp_frequency :: u64
  hp_regs :: "u64 registers"

text \<open>The constructor up to the comparators: the counter is enabled and its period read.\<close>

definition new_hpet :: "u8 \<Rightarrow> u8 \<Rightarrow> u16 \<Rightarrow> u64 registers \<Rightarrow> hpet result" where
  "new_hpet counter_size comparators min_tick r =
     (let r = reg_write 0x10 (reg_read 0x10 r OR 3) r;
          period = drop_bit 32 (reg_read 0 r);
          sz = ucast (32 + 32 * ucast counter_size :: u32);
          mx = (if sz = 32
                then let m = ucast (0xFFFFFFFF div 1000000 :: u32) * period in if m = 0 then - 1 else m
                else (0xFFFFFFFFFFFFFFFF div 1000000) * period)
      in if period = 0 then Inl (Panic ''division by zero'')
         else Inr \<lparr>hp_size = sz, hp_count = comparators, hp_min = min_tick, hp_max = mx, hp_period = period,
           hp_frequency = 1000000000000000 div period, hp_regs = r\<rparr>)"

definition hpet_now :: "hpet \<Rightarrow> u64" where
  "hpet_now h = (reg_read 0xF0 (hp_regs h) * hp_period h) div 1000000"

text \<open>The comparator with the fewest events, among the first and the valid ones.\<close>

record comparator =
  cm_valid :: bool
  cm_usage :: u64

fun least_used :: "comparator list \<Rightarrow> nat \<Rightarrow> nat \<Rightarrow> u64 \<Rightarrow> nat" where
  "least_used [] i min_i mn = min_i"
| "least_used (c # cs) i min_i mn =
     (if cm_valid c \<and> cm_usage c < mn then least_used cs (i + 1) i (cm_usage c) else least_used cs (i + 1) min_i mn)"

definition pick_comparator :: "comparator list \<Rightarrow> nat" where
  "pick_comparator cs = least_used (tl cs) 1 0 (cm_usage (hd cs))"

text \<open>A comparator beyond the second takes the first usable input.\<close>

definition possible_routes :: "u8 \<Rightarrow> hpet \<Rightarrow> u32" where
  "possible_routes i h = ucast (drop_bit 32 (reg_read (hpet_configuration i) (hp_regs h)))"

definition choose_input :: "u32 \<Rightarrow> u8 \<Rightarrow> u32 \<Rightarrow> nat option" where
  "choose_input routes max_input used =
     (if routes = 0xFFFFFFFF then None
      else find (\<lambda>i. bit routes i \<and> \<not> bit used i) [0..<min 32 (unat max_input)])"

definition hpet_one_shot :: "u8 \<Rightarrow> u8 \<Rightarrow> u64 \<Rightarrow> u64 \<Rightarrow> hpet \<Rightarrow> hpet" where
  "hpet_one_shot i input now t h =
     (let r = reg_write (hpet_configuration i) (push_bit 9 (ucast (input AND 31)) OR push_bit 2 1) (hp_regs h)
      in h\<lparr>hp_regs := reg_write (hpet_comparator i) (((now + t) * 1000000) div hp_period h) r\<rparr>)"

definition hpet_periodic :: "u8 \<Rightarrow> u8 \<Rightarrow> u64 \<Rightarrow> u64 \<Rightarrow> hpet \<Rightarrow> hpet" where
  "hpet_periodic i input now p h =
     (let r = reg_write (hpet_configuration i) (push_bit 9 (ucast (input AND 31)) OR push_bit 2 1 OR push_bit 3 1 OR push_bit 6 1) (hp_regs h);
          r = reg_write (hpet_comparator i) (((now + p) * 1000000) div hp_period h) r
      in h\<lparr>hp_regs := reg_write (hpet_comparator i) ((p * 1000000) div hp_period h) r\<rparr>)"

definition hpet_stop :: "u8 \<Rightarrow> hpet \<Rightarrow> hpet" where
  "hpet_stop i h = h\<lparr>hp_regs := reg_write (hpet_configuration i) (reg_read (hpet_configuration i) (hp_regs h) AND NOT (push_bit 2 1)) (hp_regs h)\<rparr>"

section \<open>Timer of the local interrupt controller\<close>

datatype lapic_unit = Xapic "u32 registers" | X2apic "u64 registers"

definition unit_divisor :: "lapic_unit \<Rightarrow> u8" where
  "unit_divisor u = (case u of Xapic r \<Rightarrow> xapic_divisor r | X2apic r \<Rightarrow> x2apic_divisor r)"

definition unit_set_divisor :: "u8 \<Rightarrow> lapic_unit \<Rightarrow> lapic_unit" where
  "unit_set_divisor d u = (case u of Xapic r \<Rightarrow> Xapic (xapic_set_divisor d r) | X2apic r \<Rightarrow> X2apic (x2apic_set_divisor d r))"

definition unit_current_count :: "lapic_unit \<Rightarrow> u32" where
  "unit_current_count u = (case u of Xapic r \<Rightarrow> xapic_current_count r | X2apic r \<Rightarrow> x2apic_current_count r)"

definition unit_set_initial_count :: "u32 \<Rightarrow> lapic_unit \<Rightarrow> lapic_unit" where
  "unit_set_initial_count n u =
     (case u of Xapic r \<Rightarrow> Xapic (xapic_set_initial_count n r) | X2apic r \<Rightarrow> X2apic (x2apic_set_initial_count n r))"

definition unit_set_timer :: "u8 \<Rightarrow> bool \<Rightarrow> lapic_unit \<Rightarrow> lapic_unit" where
  "unit_set_timer irq rep u =
     (case u of Xapic r \<Rightarrow> Xapic (xapic_set_timer irq rep r) | X2apic r \<Rightarrow> X2apic (x2apic_set_timer irq rep r))"

text \<open>The constructor, after the count has run for a millisecond from its largest value: the period
  and the limits of the timer.\<close>

definition lapic_calibrate :: "u32 \<Rightarrow> (u64 \<times> u64 \<times> u64) result" where
  "lapic_calibrate current =
     (let ticks = ucast (0xFFFFFFFF - current) :: u64 in
      if ticks = 0 then Inl (Panic ''division by zero'')
      else let period = (1000000 * 1000000) div ticks
        in Inr (period, period div 1000000, ucast (0xFFFFFFFF div 1000000 :: u32) * period * 128))"

text \<open>The loop over the divisors 1, 2, ... stops at 128 at the latest, so after seven doublings.\<close>

fun find_divisor :: "nat \<Rightarrow> u64 \<Rightarrow> u64 \<Rightarrow> u8 \<Rightarrow> u8" where
  "find_divisor 0 t period d = d"
| "find_divisor (Suc k) t period d =
     (if 0xFFFFFFFF < (t * 1000000) div (ucast d * period) then find_divisor k t period (d * 2) else d)"

definition lapic_count :: "u64 \<Rightarrow> u64 \<Rightarrow> u8 \<Rightarrow> u64" where
  "lapic_count t period d =
     (let c = (t * 1000000) div (ucast d * period) in if 0xFFFFFFFF < c then 0xFFFFFFFF else c)"

definition lapic_arm :: "bool \<Rightarrow> u8 \<Rightarrow> u64 \<Rightarrow> u64 \<Rightarrow> lapic_unit \<Rightarrow> lapic_unit result" where
  "lapic_arm is_periodic irq period t u =
     (if period = 0 then Inl (Panic ''division by zero'')
      else let d = find_divisor 7 t period 1 in
        Inr (unit_set_timer irq is_periodic (unit_set_initial_count (ucast (lapic_count t period d)) (unit_set_divisor d u))))"

definition lapic_one_shot :: "u8 \<Rightarrow> u64 \<Rightarrow> u64 \<Rightarrow> lapic_unit \<Rightarrow> lapic_unit result" where
  "lapic_one_shot = lapic_arm False"

definition lapic_periodic :: "u8 \<Rightarrow> u64 \<Rightarrow> u64 \<Rightarrow> lapic_unit \<Rightarrow> lapic_unit result" where
  "lapic_periodic = lapic_arm True"

definition lapic_stop :: "lapic_unit \<Rightarrow> lapic_unit" where
  "lapic_stop = unit_set_initial_count 0"

text \<open>\<open>_update_now\<close>: the time that has passed of the one set, read back through the divisor.\<close>

definition lapic_update_now :: "u64 \<Rightarrow> lapic_unit \<Rightarrow> 'h timer \<Rightarrow> 'h timer result" where
  "lapic_update_now period u s =
     (if ps_size (tm_list s) = 0 then Inr s
      else rbind (first_event s) (\<lambda>first.
        let d = unit_divisor u in
        if ucast d * period = 0 then Inl (Panic ''division by zero'')
        else let t = lapic_count (ev_time first - tm_now s) period d - ucast (unit_current_count u)
             in Inr (s\<lparr>tm_now := tm_now s + (t * ucast d * period) div 1000000\<rparr>)))"

section \<open>Interval timer\<close>

text \<open>The value for the counter, and the bytes sent to the ports \<open>0x43\<close> and \<open>0x40\<close>.\<close>

definition pit_limit :: u64 where
  "pit_limit = 1000000000 div 19"

definition pit_divisor :: "u64 \<Rightarrow> u16 result" where
  "pit_divisor t =
     (if t = 0 \<or> 1000000000 div t = 0 then Inl (Panic ''division by zero'') else Inr (ucast (1193180 div (1000000000 div t))))"

definition pit_command :: "u8 \<Rightarrow> u64 \<Rightarrow> (u16 \<times> u8) list result" where
  "pit_command mode t =
     rbind (pit_divisor (if pit_limit \<le> t then pit_limit else t)) (\<lambda>d.
     Inr [(0x43, mode), (0x40, ucast (d AND 0xFF)), (0x40, ucast (drop_bit 8 d AND 0xFF))])"

definition pit_one_shot :: "u64 \<Rightarrow> (u16 \<times> u8) list result" where
  "pit_one_shot = pit_command 0x30"

definition pit_periodic :: "u64 \<Rightarrow> (u16 \<times> u8) list result" where
  "pit_periodic = pit_command 0x34"

definition pit_update_now :: "u8 \<Rightarrow> u8 \<Rightarrow> 'h timer \<Rightarrow> 'h timer result" where
  "pit_update_now lo hi s =
     (if ps_size (tm_list s) = 0 then Inr s
      else rbind (first_event s) (\<lambda>first.
        let count = ucast lo OR push_bit 8 (ucast hi) :: u16;
            t = ev_time first - tm_now s;
            t = (if t < 200000 then 2000000 else if pit_limit < t then pit_limit else t)
        in rbind (pit_divisor t) (\<lambda>d. Inr (s\<lparr>tm_now := tm_now s + 838 * ucast (d - count)\<rparr>))))"

section \<open>What the hardware is told\<close>

lemma unat_ucast_8_64: "unat (ucast (d :: u8) :: u64) = unat d"
  using unat_u8_less [of d] by (simp add: unsigned_ucast_eq take_bit_nat_eq_self)

lemma count_nat:
  fixes t period :: u64 and d :: u8
  assumes "unat t * 1000000 < 2 ^ 64" "128 * unat period < 2 ^ 64" "d \<le> 128"
  shows "unat ((t * 1000000) div (ucast d * period)) = unat t * 1000000 div (unat d * unat period)"
proof -
  have d: "unat d \<le> 128" using assms(3) by (simp add: word_le_nat_alt)
  have "unat d * unat period < 2 ^ 64" using mult_le_mono1 [OF d, of "unat period"] assms(2) by linarith
  then have "unat (ucast d * period) = unat d * unat period" by (simp add: unat_word_ariths unat_ucast_8_64)
  moreover have "unat (t * 1000000) = unat t * 1000000" using assms(1) by (simp add: unat_word_ariths)
  ultimately show ?thesis by (simp add: unat_div_distrib)
qed

text \<open>The divisor found is the least of the powers of two from \<open>d\<close> on that makes the count fit.\<close>

lemma find_divisor_least:
  assumes "\<forall>j\<le>k. \<forall>n. n = 2 ^ j * unat d \<longrightarrow> n \<le> 128" "d \<noteq> 0"
    "\<And>n. n dvd 128 \<Longrightarrow> unat ((t * 1000000) div (of_nat n * period)) = T div (n * P)" "unat d dvd 128" "2 ^ k * unat d = 128"
  shows "\<exists>j\<le>k. unat (find_divisor k t period d) = 2 ^ j * unat d \<and>
    (j < k \<longrightarrow> T div (2 ^ j * unat d * P) \<le> 0xFFFFFFFF) \<and> (\<forall>i<j. 0xFFFFFFFF < T div (2 ^ i * unat d * P))"
  using assms
proof (induction k arbitrary: d)
  case (Suc k)
  have e: "unat ((t * 1000000) div (ucast d * period)) = T div (unat d * P)"
    using Suc.prems(3) [OF Suc.prems(4)] by (simp add: of_nat_unat)
  show ?case
  proof (cases "0xFFFFFFFF < (t * 1000000) div (ucast d * period)")
    case False
    then have "T div (unat d * P) \<le> 0xFFFFFFFF" using e by (simp add: word_less_nat_alt not_less)
    with False show ?thesis by (intro exI [of _ 0]) simp
  next
    case True
    have "2 * unat d \<le> 128"
      using Suc.prems(1) [rule_format, of 1 "2 * unat d"] by simp
    then have d2: "unat (d * 2) = 2 * unat d" by (simp add: unat_word_ariths)
    have p: "2 ^ k * unat (d * 2) = 128" using Suc.prems(5) by (simp add: d2 mult.left_commute)
    then have "unat (d * 2) dvd 128" by (metis dvd_triv_right)
    moreover have "d * 2 \<noteq> 0" using d2 Suc.prems(2) by (metis mult_eq_0_iff unat_0 unat_eq_0 zero_neq_numeral)
    moreover have "\<forall>j\<le>k. \<forall>n. n = 2 ^ j * unat (d * 2) \<longrightarrow> n \<le> 128"
      using Suc.prems(1) by (auto simp: d2)
    ultimately obtain j where j: "j \<le> k" "unat (find_divisor k t period (d * 2)) = 2 ^ j * unat (d * 2)"
      "j < k \<longrightarrow> T div (2 ^ j * unat (d * 2) * P) \<le> 0xFFFFFFFF" "\<forall>i<j. 0xFFFFFFFF < T div (2 ^ i * unat (d * 2) * P)"
      using Suc.IH [of "d * 2"] Suc.prems(3) p by blast
    have "0xFFFFFFFF < T div (2 ^ i * unat d * P)" if "i < Suc j" for i
    proof (cases i)
      case 0
      with True e show ?thesis by (simp add: word_less_nat_alt)
    next
      case (Suc i')
      with that j(4) have "0xFFFFFFFF < T div (2 ^ i' * unat (d * 2) * P)" by simp
      then show ?thesis by (simp add: Suc d2 ac_simps)
    qed
    with j True show ?thesis by (intro exI [of _ "Suc j"]) (simp add: d2 ac_simps)
  qed
qed simp

lemma power_two_upto:
  assumes "j \<le> (7 :: nat)"
  shows "j \<in> {0, 1, 2, 3, 4, 5, 6, 7}"
  using assms unfolding insert_iff empty_iff by presburger

text \<open>
  Setting the timer of the local interrupt controller for a time \<open>t\<close>, without overflow in the
  products: it takes the least divisor with which the count fits into 32 bits, or 128; the count is the
  time in units of the period times the divisor, rounded down, or the largest count if that still does
  not fit; and the hardware divides by the divisor chosen, except that for 16 it divides by 32, so that
  such an interrupt comes after twice the time.
\<close>

theorem lapic_one_shot_correct:
  assumes "0 < unat period" "128 * unat period < 2 ^ 64" "unat t * 1000000 < 2 ^ 64"
  shows "\<exists>r' j. lapic_one_shot irq period t (X2apic r) = Inr (X2apic r') \<and> j \<le> 7 \<and>
    (\<forall>i<j. 0xFFFFFFFF < unat t * 1000000 div (2 ^ i * unat period)) \<and>
    (j < 7 \<longrightarrow> unat t * 1000000 div (2 ^ j * unat period) \<le> 0xFFFFFFFF) \<and>
    unat (reg_read 0x838 r') = min (unat t * 1000000 div (2 ^ j * unat period)) 0xFFFFFFFF \<and>
    unat (x2apic_divisor r') = (if j = 4 then 32 else 2 ^ j) \<and> reg_read 0x832 r' = ucast irq"
proof -
  define d where "d = find_divisor 7 t period 1"
  have "\<exists>j\<le>7. unat (find_divisor 7 t period 1) = 2 ^ j * unat (1 :: u8) \<and>
    (j < 7 \<longrightarrow> unat t * 1000000 div (2 ^ j * unat (1 :: u8) * unat period) \<le> 0xFFFFFFFF) \<and>
    (\<forall>i<j. 0xFFFFFFFF < unat t * 1000000 div (2 ^ i * unat (1 :: u8) * unat period))"
  proof (rule find_divisor_least)
    have "(2 :: nat) ^ i \<le> 2 ^ 7" if "i \<le> 7" for i using that by (intro power_increasing) auto
    then show "\<forall>i\<le>7. \<forall>n. n = 2 ^ i * unat (1 :: u8) \<longrightarrow> n \<le> 128" by simp
    show "unat (t * 1000000 div (of_nat n * period)) = unat t * 1000000 div (n * unat period)" if "n dvd 128" for n
    proof -
      have n: "n \<le> 128" using that by (auto dest: dvd_imp_le)
      then have u: "unat (of_nat n :: u8) = n" by (intro unat_of_nat_u8) simp
      have "(of_nat n :: u8) \<le> 128" using n by (simp add: word_le_nat_alt u)
      moreover have "(ucast (of_nat n :: u8) :: u64) = of_nat n"
        using n by (simp add: word_unat_eq_iff unat_ucast_8_64 u unat_of_nat_u64)
      ultimately show ?thesis using count_nat [OF assms(3,2), of "of_nat n"] u by simp
    qed
  qed simp_all
  then obtain j where j: "j \<le> 7" "unat d = 2 ^ j" "j < 7 \<longrightarrow> unat t * 1000000 div (2 ^ j * unat period) \<le> 0xFFFFFFFF"
    "\<forall>i<j. 0xFFFFFFFF < unat t * 1000000 div (2 ^ i * unat period)"
    by (auto simp: d_def)
  have "d \<le> 128" using power_increasing [OF j(1), of "2 :: nat"] j(2) by (simp add: word_le_nat_alt)
  note c = count_nat [OF assms(3,2) this]
  have cnt: "unat (lapic_count t period d) = min (unat t * 1000000 div (2 ^ j * unat period)) 0xFFFFFFFF"
    using c j(2) by (simp add: lapic_count_def Let_def word_less_nat_alt min_def)
  then have "unat (lapic_count t period d) < 2 ^ 32" by simp
  then have small: "unat (ucast (ucast (lapic_count t period d) :: u32) :: u64) = unat (lapic_count t period d)"
    by (simp add: unsigned_ucast_eq unsigned_take_bit_eq take_bit_nat_eq_self)
  have dd: "d = of_nat (2 ^ j)" by (simp flip: j(2))
  define r' where "r' = x2apic_set_timer irq False (x2apic_set_initial_count (ucast (lapic_count t period d)) (x2apic_set_divisor d r))"
  have "period \<noteq> 0" using assms(1) by auto
  then have "lapic_one_shot irq period t (X2apic r) = Inr (X2apic r')"
    by (simp add: lapic_one_shot_def lapic_arm_def Let_def d_def [symmetric] r'_def unit_set_timer_def
      unit_set_initial_count_def unit_set_divisor_def)
  moreover have "unat (reg_read 0x838 r') = min (unat t * 1000000 div (2 ^ j * unat period)) 0xFFFFFFFF"
    using small cnt by (simp add: r'_def x2apic_set_timer_def x2apic_set_initial_count_def reg_simps)
  moreover have "x2apic_divisor r' = x2apic_divisor (x2apic_set_divisor d r)"
    by (simp add: r'_def x2apic_set_timer_def x2apic_set_initial_count_def x2apic_divisor_def reg_simps)
  moreover have "unat (x2apic_divisor (x2apic_set_divisor d r)) = (if j = 4 then 32 else 2 ^ j)"
    using power_two_upto [OF j(1)]
    by (auto simp: dd x2apic_divisor_def x2apic_set_divisor_def divisor_code_def reg_simps Let_def)
  moreover have "reg_read 0x832 r' = ucast irq" by (simp add: r'_def x2apic_set_timer_def reg_simps)
  ultimately show ?thesis using j by metis
qed

text \<open>Fifty milliseconds with a period of one picosecond: the divisor is 16, the hardware uses 32.\<close>

lemma lapic_one_shot_correct_witness:
  "\<exists>r'. lapic_one_shot 0x30 1000 50000000 (X2apic \<lparr>reg_value = (\<lambda>_. 0), reg_writes = []\<rparr>) = Inr (X2apic r') \<and>
     unat (reg_read 0x838 r') = 3125000000 \<and> unat (x2apic_divisor r') = 32"
proof -
  obtain r' j where r: "lapic_one_shot 0x30 1000 50000000 (X2apic \<lparr>reg_value = (\<lambda>_. 0), reg_writes = []\<rparr>) = Inr (X2apic r')"
    "j \<le> 7" "\<forall>i<j. 0xFFFFFFFF < 50000000 * 1000000 div (2 ^ i * (1000 :: nat))"
    "j < 7 \<longrightarrow> 50000000 * 1000000 div (2 ^ j * (1000 :: nat)) \<le> 0xFFFFFFFF"
    "unat (reg_read 0x838 r') = min (50000000 * 1000000 div (2 ^ j * 1000)) 0xFFFFFFFF"
    "unat (x2apic_divisor r') = (if j = 4 then 32 else 2 ^ j)"
    using lapic_one_shot_correct [of 1000 50000000 "0x30" "\<lparr>reg_value = (\<lambda>_. 0), reg_writes = []\<rparr>"] by auto
  have "\<not> 4 < j" using r(3) by (auto dest: spec [of _ 4])
  moreover have "j \<notin> {0, 1, 2, 3}" by (rule notI) (use r(4) in auto)
  ultimately have "j = 4" using r(2) by auto
  with r show ?thesis by auto
qed

text \<open>
  The clock of the high precision timer is right until the product of counter and period overflows;
  with the usual period of about 70 ns that is after about five hours. Then it jumps back.
\<close>

lemma hpet_now_value:
  "unat (hpet_now h) = unat (reg_read 0xF0 (hp_regs h)) * unat (hp_period h) mod 2 ^ 64 div 1000000"
  by (simp add: hpet_now_def unat_div_distrib unat_word_ariths)

end
