(* ===== verification/Real_Time.thy ===== *)
theory Real_Time
  imports Prelude
begin

text \<open>
  The wall clock (\<open>kernel/time/real.cpp\<close>): reading the hardware clock until two readings agree,
  decoding it, the seconds since the beginning of 2001, and the two ways the time moves on.
\<close>

section \<open>Reading the hardware clock\<close>

record reading =
  rd_second :: u8
  rd_minute :: u8
  rd_hour :: u8
  rd_day :: u8
  rd_month :: u8
  rd_year :: u64

text \<open>
  The hardware is the list of what its registers hold whenever no update is in progress. The loop ends
  at the first two readings in a row that agree.
\<close>

fun stable_reading :: "reading list \<Rightarrow> reading option" where
  "stable_reading (a # b # rs) = (if a = b then Some b else stable_reading (b # rs))"
| "stable_reading _ = None"

section \<open>Decoding\<close>

definition bcd8 :: "u8 \<Rightarrow> u8" where
  "bcd8 x = (x AND 0x0F) + (x div 16) * 10"

definition bcd_hour :: "u8 \<Rightarrow> u8" where
  "bcd_hour x = ((x AND 0x0F) + ((x AND 0x70) div 16) * 10) OR (x AND 0x80)"

definition bcd64 :: "u64 \<Rightarrow> u64" where
  "bcd64 x = (x AND 0x0F) + (x div 16) * 10"

text \<open>Bit 2 of register B says that the values are binary, bit 1 that hours go to 24.\<close>

definition decode :: "u8 \<Rightarrow> reading \<Rightarrow> reading" where
  "decode regb r =
     (let r = (if \<not> bit regb 2
               then r\<lparr>rd_second := bcd8 (rd_second r), rd_minute := bcd8 (rd_minute r), rd_hour := bcd_hour (rd_hour r),
                      rd_day := bcd8 (rd_day r), rd_month := bcd8 (rd_month r), rd_year := bcd64 (rd_year r)\<rparr>
               else r);
          r = (if \<not> bit regb 1 \<and> bit (rd_hour r) 7 then r\<lparr>rd_hour := ((rd_hour r AND 0x7F) + 12) mod 24\<rparr> else r)
      in r\<lparr>rd_year := rd_year r + 20 * 100\<rparr>)"

section \<open>Seconds\<close>

definition month_days :: "u8 \<Rightarrow> u64" where
  "month_days m =
     (if 1 < m then 31 else 0) + (if 2 < m then 28 else 0) + (if 3 < m then 31 else 0) + (if 4 < m then 30 else 0) +
     (if 5 < m then 31 else 0) + (if 6 < m then 30 else 0) + (if 7 < m then 31 else 0) + (if 8 < m then 31 else 0) +
     (if 9 < m then 30 else 0) + (if 10 < m then 31 else 0) + (if 11 < m then 30 else 0)"

definition rtc_days :: "reading \<Rightarrow> u64" where
  "rtc_days r =
     (let years = rd_year r - 2001
      in years * 365 + years div 4 - years div 100 + years div 400 + month_days (rd_month r) + ucast (rd_day r))"

definition rtc_seconds :: "reading \<Rightarrow> u64" where
  "rtc_seconds r =
     ((rtc_days r * 24 + ucast (rd_hour r)) * 60 + ucast (rd_minute r)) * 60 + ucast (rd_second r)"

record point =
  pt_seconds :: u64
  pt_nanoseconds :: u64

definition rtc_initialize :: "u8 \<Rightarrow> reading list \<Rightarrow> point \<Rightarrow> (point \<times> point) result" where
  "rtc_initialize regb rs now =
     (case stable_reading rs of None \<Rightarrow> Inl Spins_Forever
      | Some r \<Rightarrow> let seconds = rtc_seconds (decode regb r)
          in Inr (now\<lparr>pt_seconds := pt_seconds now + seconds\<rparr>, \<lparr>pt_seconds = seconds, pt_nanoseconds = 0\<rparr>))"

text \<open>Without the high precision timer the clock moves by two milliseconds at a time.\<close>

definition rtc_update :: "point \<Rightarrow> point" where
  "rtc_update p =
     (let p = p\<lparr>pt_nanoseconds := pt_nanoseconds p + 2000000\<rparr>
      in if 1000000000 < pt_nanoseconds p
         then p\<lparr>pt_nanoseconds := pt_nanoseconds p - 1000000000, pt_seconds := pt_seconds p + 1\<rparr> else p)"

text \<open>With it, by what the timer says has passed; the result is the new time and the new reading.\<close>

definition rtc_now :: "u64 \<Rightarrow> u64 \<Rightarrow> point \<Rightarrow> point \<times> u64" where
  "rtc_now hpet_now last_ns p =
     (let ns = hpet_now - last_ns;
          p = p\<lparr>pt_seconds := pt_seconds p + ns div 1000000000, pt_nanoseconds := pt_nanoseconds p + ns mod 1000000000\<rparr>
      in (if 1000000000 \<le> pt_nanoseconds p
          then p\<lparr>pt_nanoseconds := pt_nanoseconds p - 1000000000, pt_seconds := pt_seconds p + 1\<rparr> else p, hpet_now))"

section \<open>The calendar\<close>

definition leap :: "nat \<Rightarrow> bool" where
  "leap y \<longleftrightarrow> 4 dvd y \<and> (100 dvd y \<longrightarrow> 400 dvd y)"

definition days_in_month :: "nat \<Rightarrow> nat \<Rightarrow> nat" where
  "days_in_month y m = (if m = 2 then (if leap y then 29 else 28) else if m \<in> {4, 6, 9, 11} then 30 else 31)"

text \<open>The number of days between the beginning of 2001 and a date.\<close>

definition calendar_days :: "nat \<Rightarrow> nat \<Rightarrow> nat \<Rightarrow> nat" where
  "calendar_days y m d =
     (\<Sum>k\<leftarrow>[2001..<y]. if leap k then 366 else 365) + (\<Sum>k\<leftarrow>[1..<m]. days_in_month y k) + (d - 1)"

lemma div_step: "Suc n div k = n div k + (if k dvd Suc n then 1 else 0)" for n k :: nat
  by (simp add: div_Suc dvd_eq_mod_eq_0)

lemma dvd_2000: "k dvd 2000 \<Longrightarrow> k dvd 2001 + n \<longleftrightarrow> k dvd Suc n" for n k :: nat
  using dvd_add_right_iff [of k 2000 "Suc n"] by simp

lemma leap_sum: "y \<le> x \<Longrightarrow> b \<le> a \<Longrightarrow>
    n * 365 + x - y + z + (365 + a - b + c) = Suc n * 365 + (x + a) - (y + b) + (z + c)" for x y z a b c n :: nat
  by (auto simp: le_iff_add)

lemma leap_if: "(C \<Longrightarrow> B) \<Longrightarrow> (B \<Longrightarrow> A) \<Longrightarrow>
    (if A \<and> (B \<longrightarrow> C) then 366 else 365) = 365 + (if A then 1 else 0) - (if B then 1 else 0) + (if C then 1 else 0 :: nat)"
  by (cases A; cases B; cases C) simp_all

lemma if_le: "(B \<Longrightarrow> A) \<Longrightarrow> (if B then 1 else 0) \<le> (if A then 1 else 0 :: nat)"
  by (cases A; cases B) simp_all

lemma years_days: "(\<Sum>k\<leftarrow>[2001..<2001 + n]. if leap k then 366 else 365) = n * 365 + n div 4 - n div 100 + n div 400"
proof (induction n)
  case (Suc n)
  let ?a = "if 4 dvd Suc n then 1 else 0 :: nat" and ?b = "if 100 dvd Suc n then 1 else 0 :: nat"
  let ?c = "if 400 dvd Suc n then 1 else 0 :: nat"
  have leap: "leap (2001 + n) \<longleftrightarrow> 4 dvd Suc n \<and> (100 dvd Suc n \<longrightarrow> 400 dvd Suc n)"
    unfolding leap_def by (subst (1 2 3) dvd_2000) (simp, simp, simp, rule refl)
  have d: "400 dvd Suc n \<Longrightarrow> 100 dvd Suc n" "100 dvd Suc n \<Longrightarrow> 4 dvd Suc n"
    by (rule dvd_trans [of 100 400], simp, assumption) (rule dvd_trans [of 4 100], simp, assumption)
  have le: "n div 100 \<le> n div 4" by (rule div_le_mono2) simp_all
  have "(\<Sum>k\<leftarrow>[2001..<2001 + Suc n]. if leap k then 366 else 365) =
      (n * 365 + n div 4 - n div 100 + n div 400) + (if leap (2001 + n) then 366 else 365)"
  proof -
    have "[2001..<2001 + Suc n] = [2001..<2001 + n] @ [2001 + n]" by (metis add_Suc_right le_add1 upt_Suc_append)
    then show ?thesis unfolding Suc [symmetric] by simp
  qed
  also have "(if leap (2001 + n) then 366 else 365) = 365 + ?a - ?b + ?c"
    unfolding leap by (rule leap_if [OF d])
  also have "(n * 365 + n div 4 - n div 100 + n div 400) + (365 + ?a - ?b + ?c) =
      Suc n * 365 + Suc n div 4 - Suc n div 100 + Suc n div 400"
    unfolding div_step by (rule leap_sum [OF le if_le [OF d(2)]])
  finally show ?case .
qed simp

lemma month_days_nat:
  assumes "1 \<le> m" "m \<le> 12"
  shows "unat (month_days (of_nat m)) + (if 2 < m \<and> leap y then 1 else 0) = (\<Sum>k\<leftarrow>[1..<m]. days_in_month y k)"
proof -
  from assms have "m \<in> {1, 2, 3, 4, 5, 6, 7, 8, 9, 10, 11, 12}" unfolding insert_iff empty_iff by presburger
  then consider "m = 1" | "m = 2" | "m = 3" | "m = 4" | "m = 5" | "m = 6" | "m = 7" | "m = 8" | "m = 9" | "m = 10" | "m = 11" | "m = 12"
    unfolding insert_iff empty_iff by metis
  then show ?thesis
    by cases (simp_all add: month_days_def days_in_month_def upt_conv_Cons del: upt_Suc)
qed

text \<open>
  C17. For a date of this century before 2100, after decoding, the seconds are those since the beginning
  of 2001, but counted from the day before it, except in March to December of leap years, where the
  missing leap day makes up for it.
\<close>

theorem rtc_seconds_calendar:
  assumes "rd_year r = of_nat y" "2001 \<le> y" "y < 2100" "rd_month r = of_nat m" "1 \<le> m" "m \<le> 12"
    "rd_day r = of_nat d" "1 \<le> d" "d \<le> 31" "rd_hour r < 24" "rd_minute r < 60" "rd_second r < 60"
  shows "unat (rtc_seconds r) =
    ((calendar_days y m d + (if 2 < m \<and> leap y then 0 else 1)) * 24 + unat (rd_hour r)) * 3600 +
      unat (rd_minute r) * 60 + unat (rd_second r)"
proof -
  define n where "n = y - 2001"
  have n: "y = 2001 + n" "n < 99" using assms(2,3) by (auto simp: n_def)
  have years: "rd_year r - 2001 = of_nat n" using assms(1) n by simp
  have q: "(of_nat n :: u64) div 4 = of_nat (n div 4)" "(of_nat n :: u64) div 100 = 0" "(of_nat n :: u64) div 400 = 0"
    using n(2) by (simp_all add: word_unat_eq_iff unat_div_distrib unat_of_nat_u64)
  have md: "month_days (of_nat m) = of_nat (unat (month_days (of_nat m)))" by simp
  have dd: "ucast (of_nat d :: u8) = (of_nat d :: u64)"
    using assms(9) by (simp add: word_unat_eq_iff unsigned_ucast_eq unsigned_of_nat take_bit_nat_eq_self)
  let ?days = "n * 365 + n div 4 + unat (month_days (of_nat m)) + d"
  have days: "rtc_days r = of_nat ?days"
    unfolding rtc_days_def Let_def years q assms(4,7) dd by simp
  have cal: "calendar_days y m d = n * 365 + n div 4 + (unat (month_days (of_nat m)) + (if 2 < m \<and> leap y then 1 else 0)) + (d - 1)"
    unfolding calendar_days_def n(1) years_days month_days_nat [OF assms(5,6)] using n(2) by simp
  have "unat (month_days (of_nat m)) \<le> 334"
  proof -
    from assms(5,6) have "m \<in> {1, 2, 3, 4, 5, 6, 7, 8, 9, 10, 11, 12}" unfolding insert_iff empty_iff by presburger
    then show ?thesis unfolding insert_iff empty_iff by (elim disjE; simp add: month_days_def)
  qed
  then have small: "?days < 40000" using n(2) assms(9) by linarith
  have b: "unat (ucast x :: u64) = unat x" for x :: u8
    using unat_u8_less [of x] by (simp add: unsigned_ucast_eq take_bit_nat_eq_self)
  have bound: "unat (rd_hour r) < 24" "unat (rd_minute r) < 60" "unat (rd_second r) < 60"
    using assms(10-12) by (simp_all add: word_less_nat_alt)
  let ?h = "unat (rd_hour r)" and ?mi = "unat (rd_minute r)" and ?s = "unat (rd_second r)"
  have "rtc_seconds r = of_nat (((?days * 24 + ?h) * 60 + ?mi) * 60 + ?s)"
    unfolding rtc_seconds_def days using b by (simp add: word_unat_eq_iff)
  then have "unat (rtc_seconds r) = ((?days * 24 + ?h) * 60 + ?mi) * 60 + ?s"
    using small bound by (simp only:) (intro unat_of_nat_u64, simp)
  moreover have "?days = calendar_days y m d + (if 2 < m \<and> leap y then 0 else 1)"
    unfolding cal using assms(8) by auto
  ultimately show ?thesis by (simp add: algebra_simps)
qed

definition new_year_2013 :: reading where
  "new_year_2013 = \<lparr>rd_second = 30, rd_minute = 15, rd_hour = 8, rd_day = 1, rd_month = 1, rd_year = 2013\<rparr>"

lemma rtc_seconds_calendar_witness:
  "unat (rtc_seconds new_year_2013) = ((calendar_days 2013 1 1 + 1) * 24 + 8) * 3600 + 15 * 60 + 30"
  using rtc_seconds_calendar [of new_year_2013 2013 1 1] by (simp add: new_year_2013_def)

end
