(* ===== verification/Hash_Map.thy ===== *)
theory Hash_Map
  imports Priority_List_Run
begin

text \<open>
  The hash map (\<open>kernel/utils/hash_map.h\<close>) and the manager of threads and processes on top of it
  (\<open>kernel/scheduler/manager.h\<close>). A bucket is a doubly linked chain of objects that come from the
  allocator of the map; \<open>delete\<close> returns them to another one, the default allocator of their class.
\<close>

section \<open>The map as the code has it\<close>

record ('k, 'v, 's) hmap =
  hm_store :: "('k \<times> 'v) store"
  hm_table :: "nat \<Rightarrow> nat option"
  hm_size :: u64
  hm_alloc :: 's
  hm_default :: 's

definition new_hmap :: "('k \<times> 'v) store \<Rightarrow> 's \<Rightarrow> 's \<Rightarrow> ('k, 'v, 's) hmap" where
  "new_hmap st al dflt = \<lparr>hm_store = st, hm_table = (\<lambda>_. None), hm_size = 0, hm_alloc = al, hm_default = dflt\<rparr>"

definition dumb_int_hash :: "u64 \<Rightarrow> u64" where
  "dumb_int_hash t = t"

definition bucket :: "('k \<Rightarrow> u64) \<Rightarrow> nat \<Rightarrow> 'k \<Rightarrow> nat" where
  "bucket hash n k = unat (hash k) mod n"

text \<open>The loop over a bucket; \<open>j\<close> bounds its length, \<open>n\<close> is the size of the table.\<close>

definition hm_find :: "nat \<Rightarrow> ('k \<Rightarrow> u64) \<Rightarrow> nat \<Rightarrow> 'k \<Rightarrow> ('k, 'v, 's) hmap \<Rightarrow> nat option result" where
  "hm_find j hash n k m = pl_search j (hm_store m) (\<lambda>x. fst x = k) (hm_table m (bucket hash n k))"

definition set_value :: "('k \<times> 'v) store \<Rightarrow> nat option \<Rightarrow> 'v \<Rightarrow> ('k \<times> 'v) store result" where
  "set_value st p v = rbind (deref st p) (\<lambda>e. Inr (st(the p \<mapsto> e\<lparr>n_val := (fst (n_val e), v)\<rparr>)))"

definition hm_insert :: "(('k \<times> 'v) store \<Rightarrow> 's \<Rightarrow> (nat \<times> ('k \<times> 'v) store \<times> 's) result) \<Rightarrow> nat \<Rightarrow>
    ('k \<Rightarrow> u64) \<Rightarrow> nat \<Rightarrow> 'k \<Rightarrow> 'v \<Rightarrow> ('k, 'v, 's) hmap \<Rightarrow> ('k, 'v, 's) hmap result" where
  "hm_insert alloc j hash n k v m =
     (let h = bucket hash n k in
      if hm_table m h = None
      then rbind (alloc (hm_store m) (hm_alloc m)) (\<lambda>(p, st, al).
           Inr (m\<lparr>hm_size := hm_size m + 1, hm_alloc := al, hm_table := (hm_table m)(h := Some p),
             hm_store := st(p \<mapsto> \<lparr>n_next = None, n_prev = None, n_val = (k, v)\<rparr>)\<rparr>))
      else rbind (hm_find j hash n k m) (\<lambda>q.
           if q \<noteq> None
           then rbind (set_value (hm_store m) q v) (\<lambda>st. Inr (m\<lparr>hm_store := st\<rparr>))
           else rbind (alloc (hm_store m) (hm_alloc m)) (\<lambda>(p, st, al).
             let st = st(p \<mapsto> \<lparr>n_next = None, n_prev = None, n_val = (k, v)\<rparr>) in
             rbind (set_next st (Some p) (hm_table m h)) (\<lambda>st.
             rbind (set_prev st (hm_table m h) (Some p)) (\<lambda>st.
             Inr (m\<lparr>hm_size := hm_size m + 1, hm_alloc := al, hm_table := (hm_table m)(h := Some p), hm_store := st\<rparr>))))))"

definition hm_index :: "(('k \<times> 'v) store \<Rightarrow> 's \<Rightarrow> (nat \<times> ('k \<times> 'v) store \<times> 's) result) \<Rightarrow> nat \<Rightarrow>
    ('k \<Rightarrow> u64) \<Rightarrow> nat \<Rightarrow> 'v \<Rightarrow> 'k \<Rightarrow> ('k, 'v, 's) hmap \<Rightarrow> ('v \<times> ('k, 'v, 's) hmap) result" where
  "hm_index alloc j hash n dflt k m =
     rbind (hm_find j hash n k m) (\<lambda>p.
     rbind (if p \<noteq> None then Inr (p, m)
            else rbind (hm_insert alloc j hash n k dflt m) (\<lambda>m.
                 rbind (hm_find j hash n k m) (\<lambda>p. Inr (p, m)))) (\<lambda>(p, m).
     rbind (deref (hm_store m) p) (\<lambda>e. Inr (snd (n_val e), m))))"

definition hm_contains :: "nat \<Rightarrow> ('k \<Rightarrow> u64) \<Rightarrow> nat \<Rightarrow> 'k \<Rightarrow> ('k, 'v, 's) hmap \<Rightarrow> bool result" where
  "hm_contains j hash n k m = rbind (hm_find j hash n k m) (\<lambda>p. Inr (p \<noteq> None))"

definition hm_unlink :: "nat \<Rightarrow> nat option \<Rightarrow> ('k, 'v, 's) hmap \<Rightarrow> ('k, 'v, 's) hmap result" where
  "hm_unlink h p m =
     rbind (deref (hm_store m) p) (\<lambda>e.
     if n_next e \<noteq> None \<and> n_prev e \<noteq> None
     then rbind (set_prev (hm_store m) (n_next e) (n_prev e)) (\<lambda>st.
          rbind (set_next st (n_prev e) (n_next e)) (\<lambda>st. Inr (m\<lparr>hm_store := st\<rparr>)))
     else if n_prev e \<noteq> None
     then rbind (set_next (hm_store m) (n_prev e) None) (\<lambda>st. Inr (m\<lparr>hm_store := st\<rparr>))
     else Inr (m\<lparr>hm_table := (hm_table m)(h := n_next e)\<rparr>))"

definition hm_remove :: "(nat \<Rightarrow> ('k \<times> 'v) store \<Rightarrow> 's \<Rightarrow> (('k \<times> 'v) store \<times> 's) result) \<Rightarrow> nat \<Rightarrow>
    ('k \<Rightarrow> u64) \<Rightarrow> nat \<Rightarrow> 'k \<Rightarrow> ('k, 'v, 's) hmap \<Rightarrow> ('k, 'v, 's) hmap result" where
  "hm_remove free j hash n k m =
     rbind (hm_find j hash n k m) (\<lambda>p.
     rbind (if p \<noteq> None then hm_unlink (bucket hash n k) p m else Inr m) (\<lambda>m.
     let m = m\<lparr>hm_size := hm_size m - 1\<rparr> in
     if p = None then Inr m
     else rbind (free (the p) (hm_store m) (hm_default m)) (\<lambda>(st, al).
          Inr (m\<lparr>hm_store := st, hm_default := al\<rparr>))))"

section \<open>The manager\<close>

text \<open>An object is the pointer \<open>ptr\<close>; the counter of identifiers is the one of its class.\<close>

record 'm manager =
  mg_map :: 'm
  mg_next :: u64

definition mg_allocate :: "(u64 \<Rightarrow> 'p \<Rightarrow> 'm \<Rightarrow> 'm result) \<Rightarrow> 'p \<Rightarrow> 'm manager \<Rightarrow> (u64 \<times> 'm manager) result" where
  "mg_allocate put ptr s =
     (let (i, next) = allocate_id (mg_next s) in
      rbind (put i ptr (mg_map s)) (\<lambda>m. Inr (i, s\<lparr>mg_map := m, mg_next := next\<rparr>)))"

definition mg_get :: "(u64 \<Rightarrow> 'm \<Rightarrow> bool result) \<Rightarrow> (u64 \<Rightarrow> 'm \<Rightarrow> ('p \<times> 'm) result) \<Rightarrow> u64 \<Rightarrow> 'm manager \<Rightarrow>
    ('p option \<times> 'm manager) result" where
  "mg_get contains index i s =
     rbind (contains i (mg_map s)) (\<lambda>b.
     if \<not> b then Inr (None, s)
     else rbind (index i (mg_map s)) (\<lambda>(p, m). Inr (Some p, s\<lparr>mg_map := m\<rparr>)))"

section \<open>What a map promises its users\<close>

text \<open>\<open>view m r M\<close>: the map \<open>m\<close> holds the entries \<open>M\<close> and has room for \<open>r\<close> new ones.\<close>

locale key_map =
  fixes put :: "'k \<Rightarrow> 'v \<Rightarrow> 'm \<Rightarrow> 'm result" and contains :: "'k \<Rightarrow> 'm \<Rightarrow> bool result"
    and index :: "'k \<Rightarrow> 'm \<Rightarrow> ('v \<times> 'm) result" and view :: "'m \<Rightarrow> nat \<Rightarrow> ('k \<rightharpoonup> 'v) \<Rightarrow> bool"
  assumes put_law: "view m (Suc r) M \<Longrightarrow> \<exists>m'. put k v m = Inr m' \<and> view m' r (M(k \<mapsto> v))"
    and contains_law: "view m r M \<Longrightarrow> contains k m = Inr (M k \<noteq> None)"
    and index_law: "view m r M \<Longrightarrow> M k = Some v \<Longrightarrow> index k m = Inr (v, m)"

fun mg_allocate_all :: "(u64 \<Rightarrow> 'p \<Rightarrow> 'm \<Rightarrow> 'm result) \<Rightarrow> 'p list \<Rightarrow> 'm manager \<Rightarrow> (u64 list \<times> 'm manager) result" where
  "mg_allocate_all put [] s = Inr ([], s)"
| "mg_allocate_all put (p # ps) s =
     rbind (mg_allocate put p s) (\<lambda>(i, s). rbind (mg_allocate_all put ps s) (\<lambda>(is, s). Inr (i # is, s)))"

fun put_all :: "('k \<Rightarrow> 'v \<Rightarrow> 'm \<Rightarrow> 'm result) \<Rightarrow> ('k \<times> 'v) list \<Rightarrow> 'm \<Rightarrow> 'm result" where
  "put_all put [] m = Inr m"
| "put_all put (x # xs) m = rbind (put (fst x) (snd x) m) (put_all put xs)"

text \<open>The identifiers given out to the objects \<open>ps\<close> when the counter stands at \<open>i\<close>.\<close>

definition id_map :: "u64 \<Rightarrow> 'p list \<Rightarrow> (u64 \<rightharpoonup> 'p) \<Rightarrow> (u64 \<rightharpoonup> 'p)" where
  "id_map i ps M = M ++ map_of (zip (map (\<lambda>j. i + of_nat j) [0..<length ps]) ps)"

lemma id_map_Cons:
  assumes "length ps + 1 < 2 ^ 64"
  shows "id_map i (p # ps) M = id_map (i + 1) ps (M(i \<mapsto> p))"
proof -
  let ?ids = "map (\<lambda>j. (i + 1) + of_nat j) [0..<length ps] :: u64 list"
  have "map (\<lambda>j. i + of_nat j) [0..<length (p # ps)] = i # ?ids"
    by (subst upt_conv_Cons) (simp_all add: map_Suc_upt [symmetric] ac_simps del: upt_Suc)
  moreover have "i \<notin> set ?ids"
  proof
    assume "i \<in> set ?ids"
    then obtain j where "j < length ps" "i = (i + 1) + of_nat j" by auto
    then have "i = i + (1 + of_nat j)" by (simp only: add.assoc)
    then have "1 + of_nat j = (0 :: u64)" unfolding add_cancel_right_right .
    moreover have "unat (of_nat (Suc j) :: u64) = Suc j"
      using \<open>j < length ps\<close> assms by (intro unat_of_nat_u64) linarith
    ultimately show False by simp
  qed
  then have "i \<notin> dom (map_of (zip ?ids ps))" by (auto dest!: map_of_SomeD set_zip_leftD)
  then show ?thesis
    using calculation by (simp add: id_map_def map_add_upd_left del: upt_Suc)
qed

context key_map
begin

lemma put_all_view:
  "view m (length xs + r) M \<Longrightarrow> \<exists>m'. put_all put xs m = Inr m' \<and> view m' r (M ++ map_of (rev xs))"
proof (induction xs arbitrary: m M)
  case (Cons x xs)
  from put_law [of m "length xs + r" M "fst x" "snd x"] Cons.prems obtain m1 where
    m1: "put (fst x) (snd x) m = Inr m1" "view m1 (length xs + r) (M(fst x \<mapsto> snd x))" by auto
  moreover have "M ++ map_of (rev (x # xs)) = M(fst x \<mapsto> snd x) ++ map_of (rev xs)"
    by (cases x) (simp add: map_add_assoc)
  moreover from Cons.IH [OF m1(2)] obtain m' where "put_all put xs m1 = Inr m'"
    "view m' r (M(fst x \<mapsto> snd x) ++ map_of (rev xs))" by blast
  ultimately show ?case by (simp del: fun_upd_apply)
qed auto

end

text \<open>The same for maps whose keys are identifiers, which is what the manager is built on.\<close>

locale object_map = key_map put contains index view
  for put :: "u64 \<Rightarrow> 'v \<Rightarrow> 'm \<Rightarrow> 'm result" and contains index view

context object_map
begin

lemma mg_get_view: "view (mg_map s) r M \<Longrightarrow> mg_get contains index i s = Inr (M i, s)"
  using contains_law [of "mg_map s" r M i] index_law [of "mg_map s" r M i]
  by (cases "M i") (simp_all add: mg_get_def)

lemma mg_allocate_all_view:
  assumes "view (mg_map s) (length ps + r) M" "length ps < 2 ^ 64"
  shows "\<exists>s'. mg_allocate_all put ps s = Inr (map (\<lambda>j. mg_next s + of_nat j) [0..<length ps], s') \<and>
    view (mg_map s') r (id_map (mg_next s) ps M)"
  using assms
proof (induction ps arbitrary: s M)
  case Nil
  then show ?case by (simp add: id_map_def)
next
  case (Cons p ps)
  from put_law [of "mg_map s" "length ps + r" M "mg_next s" p] Cons.prems(1) obtain m1 where
    m1: "put (mg_next s) p (mg_map s) = Inr m1" "view m1 (length ps + r) (M(mg_next s \<mapsto> p))" by auto
  let ?s = "s\<lparr>mg_map := m1, mg_next := mg_next s + 1\<rparr>"
  have "mg_allocate put p s = Inr (mg_next s, ?s)" using m1(1) by (simp add: mg_allocate_def allocate_id_def)
  moreover from Cons.IH [of ?s "M(mg_next s \<mapsto> p)"] m1(2) Cons.prems(2) obtain s' where
    "mg_allocate_all put ps ?s = Inr (map (\<lambda>j. mg_next s + 1 + of_nat j) [0..<length ps], s')"
    "view (mg_map s') r (id_map (mg_next s + 1) ps (M(mg_next s \<mapsto> p)))" by (auto simp del: fun_upd_apply)
  moreover have "map (\<lambda>j. mg_next s + of_nat j) [0..<length (p # ps)] =
      mg_next s # map (\<lambda>j. mg_next s + 1 + of_nat j) [0..<length ps]"
    by (subst upt_conv_Cons) (simp_all add: map_Suc_upt [symmetric] ac_simps del: upt_Suc)
  ultimately show ?case
    using Cons.prems(2) by (simp add: id_map_Cons del: upt_Suc fun_upd_apply)
qed

end

section \<open>The hash map keeps the promise\<close>

text \<open>The items of a chain with every \<open>prev\<close> link set but the first.\<close>

definition linked :: "'a list \<Rightarrow> ('a \<times> bool) list" where
  "linked xs = set_flag False (map (\<lambda>x. (x, True)) xs)"

lemma linked_simps [simp]: "linked [] = []" "linked (x # xs) = (x, False) # map (\<lambda>x. (x, True)) xs"
  by (simp_all add: linked_def set_flag_def)

lemma set_flag_linked: "set_flag True (linked xs) = map (\<lambda>x. (x, True)) xs"
  by (cases xs) (simp_all add: set_flag_def)

lemma map_fst_linked [simp]: "map fst (linked xs) = xs"
  by (cases xs) (simp_all add: comp_def)

lemma linked_mid: "\<exists>ls b rs. length ls = length ys \<and> map fst ls = ys \<and> (\<forall>y. linked (ys @ y # zs) = ls @ (y, b) # rs)"
proof (cases ys)
  case Nil
  then show ?thesis by (intro exI [of _ "[]"] exI [of _ False] exI [of _ "map (\<lambda>x. (x, True)) zs"]) simp
next
  case (Cons z ys')
  then show ?thesis
    by (intro exI [of _ "(z, False) # map (\<lambda>x. (x, True)) ys'"] exI [of _ True] exI [of _ "map (\<lambda>x. (x, True)) zs"]) (simp add: comp_def)
qed

text \<open>
  The representation: chain \<open>A h\<close> of bucket \<open>h\<close> carries the entries \<open>B h\<close>; \<open>fs\<close> are the addresses the
  allocator will hand out next.
\<close>

definition hm_chains :: "('k \<times> 'v) store \<Rightarrow> (nat \<Rightarrow> nat option) \<Rightarrow> (nat \<Rightarrow> nat list) \<Rightarrow> (nat \<Rightarrow> ('k \<times> 'v) list) \<Rightarrow> bool" where
  "hm_chains st tb A B \<longleftrightarrow>
     (\<forall>h. plseg st None (tb h) (A h) (linked (B h)) None \<and> distinct (A h)) \<and>
     (\<forall>h g. h \<noteq> g \<longrightarrow> set (A h) \<inter> set (A g) = {})"

definition hm_entries :: "('k \<Rightarrow> u64) \<Rightarrow> nat \<Rightarrow> (nat \<Rightarrow> ('k \<times> 'v) list) \<Rightarrow> ('k \<rightharpoonup> 'v) \<Rightarrow> bool" where
  "hm_entries hash n B M \<longleftrightarrow>
     (\<forall>h. distinct (map fst (B h)) \<and> (\<forall>x\<in>set (B h). bucket hash n (fst x) = h)) \<and>
     M = (\<lambda>k. map_of (B (bucket hash n k)) k) \<and> finite (dom M)"

definition hmrep :: "(('k \<times> 'v) store \<Rightarrow> 's \<Rightarrow> nat list \<Rightarrow> bool) \<Rightarrow> nat \<Rightarrow> ('k \<Rightarrow> u64) \<Rightarrow> nat \<Rightarrow>
    ('k, 'v, 's) hmap \<Rightarrow> nat \<Rightarrow> ('k \<rightharpoonup> 'v) \<Rightarrow> bool" where
  "hmrep avail j hash n m r M \<longleftrightarrow> (\<exists>A B fs. hm_chains (hm_store m) (hm_table m) A B \<and> hm_entries hash n B M \<and>
     avail (hm_store m) (hm_alloc m) fs \<and> (\<forall>h. set (A h) \<inter> set fs = {} \<and> length (A h) + length fs < j) \<and>
     r \<le> length fs \<and> hm_size m = of_nat (card (dom M)))"

lemma search_linked:
  assumes "plseg st None p as (linked xs) None" "distinct (map fst xs)" "length as < j"
  shows "pl_search j st (\<lambda>x. fst x = k) p = Inr None \<and> map_of xs k = None \<or>
    (\<exists>bs a ds ys v zs. as = bs @ a # ds \<and> xs = ys @ (k, v) # zs \<and> length bs = length ys \<and>
      pl_search j st (\<lambda>x. fst x = k) p = Inr (Some a) \<and> map_of xs k = Some v)"
proof (cases "map_of xs k")
  case None
  have "\<forall>x\<in>set (linked xs). fst (fst x) \<noteq> k"
  proof
    fix x
    assume "x \<in> set (linked xs)"
    then have "fst x \<in> set xs" using imageI [of x "set (linked xs)" fst] unfolding set_map [symmetric] map_fst_linked by blast
    with None show "fst (fst x) \<noteq> k" by (auto simp: map_of_eq_None_iff)
  qed
  from pl_search_none [OF assms(1) this assms(3)] None show ?thesis by simp
next
  case (Some v)
  then obtain ys zs where xs: "xs = ys @ (k, v) # zs" by (meson map_of_SomeD split_list)
  have len: "length as = length xs" using plseg_length [OF assms(1)] by (metis length_map map_fst_linked)
  define bs a ds where "bs = take (length ys) as" and "a = as ! length ys" and "ds = drop (Suc (length ys)) as"
  have as: "as = bs @ a # ds" "length bs = length ys"
    using len xs by (auto simp: bs_def a_def ds_def id_take_nth_drop [symmetric])
  from linked_mid [of ys zs] obtain ls b rs where l0: "length ls = length ys" "map fst ls = ys"
    "\<forall>y. linked (ys @ y # zs) = ls @ (y, b) # rs" by blast
  then have l: "linked xs = ls @ ((k, v), b) # rs" "length ls = length ys" "map fst ls = ys" by (simp_all add: xs)
  have "\<forall>x\<in>set ls. fst (fst x) \<noteq> k"
  proof
    fix x
    assume "x \<in> set ls"
    then have "fst x \<in> set ys" using l(3) by auto
    moreover have "k \<notin> fst ` set ys" using assms(2) by (simp add: xs)
    ultimately show "fst (fst x) \<noteq> k" by blast
  qed
  with assms(1) have "pl_search j st (\<lambda>x. fst x = k) p = Inr (Some a)"
    unfolding l(1) as(1) using as(2) l(2) assms(3) as(1) by (intro pl_search_found [where y = "((k, v), b)"]) auto
  with Some xs as show ?thesis by blast
qed

text \<open>Storing a value into an object of a segment.\<close>

lemma plseg_set_val:
  assumes "plseg st pr p (bs @ a # ds) (ys @ (w, b) # zs) q" "length bs = length ys" "distinct (bs @ a # ds)"
  obtains e where "st a = Some e" "n_val e = w"
    "plseg (st(a \<mapsto> e\<lparr>n_val := w'\<rparr>)) pr p (bs @ a # ds) (ys @ (w', b) # zs) q"
proof -
  from assms(1,2) obtain e where e: "plseg st pr p bs ys (Some a)" "st a = Some e" "n_val e = w"
    "n_prev e = (if b then last_of pr bs else None)" "plseg st (Some a) (n_next e) ds zs q"
    by (auto simp: plseg_append)
  let ?st = "st(a \<mapsto> e\<lparr>n_val := w'\<rparr>)"
  have "plseg ?st pr p bs ys (Some a)" using e(1) assms(3) by (subst plseg_frame [where st = st]) auto
  moreover have "plseg ?st (Some a) (n_next e) ds zs q" using e(5) assms(3) by (subst plseg_frame [where st = st]) auto
  ultimately have "plseg ?st pr p (bs @ a # ds) (ys @ (w', b) # zs) q"
    using e(4) assms(2) by (simp add: plseg_append)
  with e(2,3) that show ?thesis by blast
qed

lemma new_node_chains:
  assumes "hm_chains st tb A B" "\<forall>g. f \<notin> set (A g)"
  obtains st' where
    "(if tb h \<noteq> None then set_prev (st(f \<mapsto> \<lparr>n_next = tb h, n_prev = None, n_val = x\<rparr>)) (tb h) (Some f)
      else Inr (st(f \<mapsto> \<lparr>n_next = tb h, n_prev = None, n_val = x\<rparr>))) = Inr st'"
    "hm_chains st' (tb(h \<mapsto> f)) (A(h := f # A h)) (B(h := x # B h))"
    "\<forall>y. y \<noteq> f \<and> y \<notin> set (A h) \<longrightarrow> st' y = st y"
proof -
  let ?e = "\<lparr>n_next = tb h, n_prev = None, n_val = x\<rparr>"
  have c: "plseg st None (tb g) (A g) (linked (B g)) None" "distinct (A g)" "g \<noteq> h \<longrightarrow> set (A h) \<inter> set (A g) = {}" for g
    using assms(1) by (auto simp: hm_chains_def)
  have "plseg (st(f \<mapsto> ?e)) None (tb h) (A h) (linked (B h)) None"
    using c(1) [of h] assms(2) by (subst plseg_frame [where st = st]) auto
  from plseg_relink [OF this c(2), of "Some f"] obtain st' where
    st': "(if tb h \<noteq> None then set_prev (st(f \<mapsto> ?e)) (tb h) (Some f) else Inr (st(f \<mapsto> ?e))) = Inr st'"
    "plseg st' (Some f) (tb h) (A h) (map (\<lambda>x. (x, True)) (B h)) None"
    "\<forall>y. y \<notin> set (A h) \<longrightarrow> st' y = (st(f \<mapsto> ?e)) y"
    by (auto simp: set_flag_linked)
  have "st' f = Some ?e" using st'(3) assms(2) by simp
  then have "plseg st' None (Some f) (f # A h) (linked (x # B h)) None" using st'(2) by simp
  moreover have "plseg st' None (tb g) (A g) (linked (B g)) None" if "g \<noteq> h" for g
  proof -
    have "st' a = st a" if "a \<in> set (A g)" for a
    proof -
      have "a \<noteq> f" "a \<notin> set (A h)" using that assms(2) c(3) [of g] \<open>g \<noteq> h\<close> by auto
      then show ?thesis using st'(3) by simp
    qed
    then show ?thesis using c(1) [of g] plseg_frame [of "A g" st' st] by blast
  qed
  ultimately have "hm_chains st' (tb(h \<mapsto> f)) (A(h := f # A h)) (B(h := x # B h))"
    using assms(1,2) by (auto simp: hm_chains_def)
  moreover have "\<forall>y. y \<noteq> f \<and> y \<notin> set (A h) \<longrightarrow> st' y = st y" using st'(3) by simp
  ultimately show ?thesis using st'(1) that by blast
qed

lemma hm_entries_upd:
  assumes "hm_entries hash n B M" "h = bucket hash n k" "distinct (map fst xs)" "\<forall>x\<in>set xs. bucket hash n (fst x) = h"
    "map_of xs = (map_of (B h))(k \<mapsto> v)"
  shows "hm_entries hash n (B(h := xs)) (M(k \<mapsto> v))"
  using assms by (auto simp: hm_entries_def fun_eq_iff)

lemma map_of_replace: "k \<notin> fst ` set ys \<Longrightarrow> map_of (ys @ (k, v) # zs) = (map_of (ys @ (k, w) # zs))(k \<mapsto> v)"
  by (induction ys) (auto simp: fun_eq_iff)

text \<open>The allocator of the map, by its interface: the objects carry a key and a value.\<close>

locale entry_supply = node_supply alloc free avail free_ok
  for alloc :: "('k \<times> 'v) store \<Rightarrow> 's \<Rightarrow> (nat \<times> ('k \<times> 'v) store \<times> 's) result" and free avail free_ok

context entry_supply
begin

text \<open>A new key: room is used up, the other chains stay.\<close>

lemma hm_insert_new:
  assumes c: "hm_chains (hm_store m) (hm_table m) A B" and e: "hm_entries hash n B M"
    and av: "avail (hm_store m) (hm_alloc m) (f # fs)"
    and d: "\<forall>h. set (A h) \<inter> set (f # fs) = {} \<and> length (A h) + length (f # fs) < j"
    and sz: "hm_size m = of_nat (card (dom M))" and new: "M k = None" and r: "r \<le> length fs"
  shows "\<exists>m'. hm_insert alloc j hash n k v m = Inr m' \<and> hmrep avail j hash n m' r (M(k \<mapsto> v))"
proof -
  define h where "h = bucket hash n k"
  from alloc_law [OF av] obtain st al where st: "alloc (hm_store m) (hm_alloc m) = Inr (f, st, al)"
    "avail st al fs" "\<forall>x. x \<notin> set (f # fs) \<longrightarrow> st x = hm_store m x" by auto
  have ffs: "f \<notin> set fs" using avail_distinct [OF av] by simp
  have "hm_chains st (hm_table m) A B"
    unfolding hm_chains_def
  proof (intro conjI allI)
    show "plseg st None (hm_table m g) (A g) (linked (B g)) None" for g
    proof -
      have "st a = hm_store m a" if "a \<in> set (A g)" for a
      proof -
        have "a \<notin> set (f # fs)" using d that by blast
        then show ?thesis using st(3) by blast
      qed
      moreover have "plseg (hm_store m) None (hm_table m g) (A g) (linked (B g)) None" using c by (simp add: hm_chains_def)
      ultimately show ?thesis using plseg_frame [of "A g" st "hm_store m"] by blast
    qed
  qed (use c in \<open>auto simp: hm_chains_def\<close>)
  moreover have "\<forall>g. f \<notin> set (A g)" using d by auto
  ultimately obtain st' where st': "(if hm_table m h \<noteq> None
        then set_prev (st(f \<mapsto> \<lparr>n_next = hm_table m h, n_prev = None, n_val = (k, v)\<rparr>)) (hm_table m h) (Some f)
        else Inr (st(f \<mapsto> \<lparr>n_next = hm_table m h, n_prev = None, n_val = (k, v)\<rparr>))) = Inr st'"
    "hm_chains st' ((hm_table m)(h \<mapsto> f)) (A(h := f # A h)) (B(h := (k, v) # B h))"
    "\<forall>y. y \<noteq> f \<and> y \<notin> set (A h) \<longrightarrow> st' y = st y"
    by (rule new_node_chains [where x = "(k, v)" and h = h])
  have none: "map_of (B h) k = None" using new e by (auto simp: hm_entries_def h_def)
  have b: "plseg (hm_store m) None (hm_table m h) (A h) (linked (B h)) None" "distinct (map fst (B h))"
    "\<forall>x\<in>set (B h). bucket hash n (fst x) = h"
    using c e by (auto simp: hm_chains_def hm_entries_def)
  have lt: "length (A h) < j" using d [rule_format, of h] by simp
  have "hm_find j hash n k m = Inr None"
    using search_linked [OF b(1,2) lt, of k] none by (auto simp: hm_find_def h_def)
  then have "hm_insert alloc j hash n k v m = Inr (m\<lparr>hm_size := hm_size m + 1, hm_alloc := al,
      hm_table := (hm_table m)(h \<mapsto> f), hm_store := st'\<rparr>)"
    using st(1) st'(1) by (auto simp: hm_insert_def Let_def h_def [symmetric])
  moreover have "hm_entries hash n (B(h := (k, v) # B h)) (M(k \<mapsto> v))"
    using b(2,3) none by (intro hm_entries_upd [OF e h_def]) (auto simp: map_of_eq_None_iff h_def)
  moreover have "avail st' al fs"
  proof (intro avail_frame [OF st(2)] ballI)
    fix x
    assume "x \<in> set fs"
    then have "x \<noteq> f" "x \<notin> set (A h)" using ffs d [rule_format, of h] by auto
    with st'(3) show "st' x = st x" by simp
  qed
  moreover have "finite (dom M)" using e unfolding hm_entries_def by blast
  then have "hm_size m + 1 = of_nat (card (dom (M(k \<mapsto> v))))" using new sz by (simp add: domIff)
  moreover have "\<forall>g. set ((A(h := f # A h)) g) \<inter> set fs = {} \<and> length ((A(h := f # A h)) g) + length fs < j"
    using d ffs by (auto simp: less_Suc_eq_le intro: Suc_lessD)
  ultimately show ?thesis
    using st'(2) r unfolding hmrep_def by (intro exI conjI) (assumption | simp)+
qed

text \<open>A key that is there: its object gets the value.\<close>

lemma hm_insert_old:
  assumes c: "hm_chains (hm_store m) (hm_table m) A B" and e: "hm_entries hash n B M"
    and av: "avail (hm_store m) (hm_alloc m) fs"
    and d: "\<forall>h. set (A h) \<inter> set fs = {} \<and> length (A h) + length fs < j"
    and sz: "hm_size m = of_nat (card (dom M))" and old: "M k \<noteq> None" and r: "r \<le> length fs"
  shows "\<exists>m'. hm_insert alloc j hash n k v m = Inr m' \<and> hmrep avail j hash n m' r (M(k \<mapsto> v))"
proof -
  define h where "h = bucket hash n k"
  have some: "map_of (B h) k \<noteq> None" using old e by (auto simp: hm_entries_def h_def)
  have b: "plseg (hm_store m) None (hm_table m h) (A h) (linked (B h)) None" "distinct (map fst (B h))"
    "\<forall>x\<in>set (B h). bucket hash n (fst x) = h" "distinct (A h)"
    using c e by (auto simp: hm_chains_def hm_entries_def)
  have lt: "length (A h) < j" using d [rule_format, of h] by simp
  from search_linked [OF b(1,2) lt, of k] some obtain bs a ds ys w zs where
    f: "A h = bs @ a # ds" "B h = ys @ (k, w) # zs" "length bs = length ys" "hm_find j hash n k m = Inr (Some a)"
    by (auto simp: hm_find_def h_def)
  from linked_mid [of ys zs] obtain ls bb rs where l: "length ls = length ys"
    "\<forall>y. linked (ys @ y # zs) = ls @ (y, bb) # rs" by blast
  have "plseg (hm_store m) None (hm_table m h) (bs @ a # ds) (ls @ ((k, w), bb) # rs) None"
    using b(1) l(2) f(1,2) by simp
  then obtain ee where ee: "hm_store m a = Some ee" "n_val ee = (k, w)"
    "plseg ((hm_store m)(a \<mapsto> ee\<lparr>n_val := (k, v)\<rparr>)) None (hm_table m h) (bs @ a # ds) (ls @ ((k, v), bb) # rs) None"
    by (rule plseg_set_val [where w' = "(k, v)"]) (use l(1) f(1,3) b(4) in auto)
  let ?st = "(hm_store m)(a \<mapsto> ee\<lparr>n_val := (k, v)\<rparr>)" and ?B = "B(h := ys @ (k, v) # zs)"
  obtain q where "hm_table m h = Some q" using ee(3) l(1) f(3) by (cases bs; cases ls) auto
  then have ins: "hm_insert alloc j hash n k v m = Inr (m\<lparr>hm_store := ?st\<rparr>)"
    using f(4) ee(1,2) by (simp add: hm_insert_def Let_def h_def [symmetric] set_value_def)
  have "hm_chains ?st (hm_table m) A ?B"
    unfolding hm_chains_def
  proof (intro conjI allI)
    fix g
    show "plseg ?st None (hm_table m g) (A g) (linked (?B g)) None"
    proof (cases "g = h")
      case True
      with ee(3) l(2) f(1) show ?thesis by simp
    next
      case False
      then have "a \<notin> set (A g)" using c f(1) unfolding hm_chains_def by (metis disjoint_iff in_set_conv_decomp)
      then have "plseg ?st None (hm_table m g) (A g) (linked (B g)) None = plseg (hm_store m) None (hm_table m g) (A g) (linked (B g)) None"
        by (intro plseg_frame) auto
      with False c show ?thesis by (simp add: hm_chains_def)
    qed
  qed (use c in \<open>auto simp: hm_chains_def\<close>)
  moreover have "k \<notin> fst ` set ys" using b(2) f(2) by simp
  then have "map_of (ys @ (k, v) # zs) = (map_of (B h))(k \<mapsto> v)" unfolding f(2) by (rule map_of_replace)
  then have "hm_entries hash n ?B (M(k \<mapsto> v))"
    using b(2,3) f(2) by (intro hm_entries_upd [OF e h_def]) auto
  moreover have "a \<notin> set fs" using d [rule_format, of h] f(1) by auto
  then have "avail ?st (hm_alloc m) fs" by (intro avail_frame [OF av]) auto
  moreover have "dom (M(k \<mapsto> v)) = dom M" using old by auto
  ultimately show ?thesis
    using ins d r sz unfolding hmrep_def by (intro exI conjI) (assumption | simp)+
qed

lemma hm_put_law:
  assumes "hmrep avail j hash n m (Suc r) M"
  shows "\<exists>m'. hm_insert alloc j hash n k v m = Inr m' \<and> hmrep avail j hash n m' r (M(k \<mapsto> v))"
proof -
  from assms obtain A B fs where rep: "hm_chains (hm_store m) (hm_table m) A B" "hm_entries hash n B M"
    "avail (hm_store m) (hm_alloc m) fs" "\<forall>h. set (A h) \<inter> set fs = {} \<and> length (A h) + length fs < j"
    "Suc r \<le> length fs" "hm_size m = of_nat (card (dom M))" by (auto simp: hmrep_def)
  show ?thesis
  proof (cases "M k")
    case None
    from rep(5) obtain f fs' where fs: "fs = f # fs'" by (cases fs) auto
    from hm_insert_new [OF rep(1,2) rep(3,4) [unfolded fs] rep(6) None] rep(5) fs show ?thesis by simp
  next
    case (Some w)
    with hm_insert_old [OF rep(1,2,3,4,6)] rep(5) show ?thesis by simp
  qed
qed

end

lemma hm_find_rep:
  assumes "hmrep avail j hash n m r M"
  shows "case M k of None \<Rightarrow> hm_find j hash n k m = Inr None
    | Some v \<Rightarrow> \<exists>a e. hm_find j hash n k m = Inr (Some a) \<and> hm_store m a = Some e \<and> n_val e = (k, v)"
proof -
  from assms obtain A B fs where rep: "hm_chains (hm_store m) (hm_table m) A B" "hm_entries hash n B M"
    "\<forall>h. set (A h) \<inter> set fs = {} \<and> length (A h) + length fs < j" by (auto simp: hmrep_def)
  define h where "h = bucket hash n k"
  have b: "plseg (hm_store m) None (hm_table m h) (A h) (linked (B h)) None" "distinct (map fst (B h))"
    "distinct (A h)" "M k = map_of (B h) k"
    using rep by (auto simp: hm_chains_def hm_entries_def h_def)
  have lt: "length (A h) < j" using rep(3) [rule_format, of h] by simp
  show ?thesis
  proof (cases "M k")
    case None
    with search_linked [OF b(1,2) lt, of k] b(4) show ?thesis by (auto simp: hm_find_def h_def)
  next
    case (Some v)
    with search_linked [OF b(1,2) lt, of k] b(4) obtain bs a ds ys zs where
      f: "A h = bs @ a # ds" "B h = ys @ (k, v) # zs" "length bs = length ys" "hm_find j hash n k m = Inr (Some a)"
      by (auto simp: hm_find_def h_def)
    from linked_mid [of ys zs] obtain ls bb rs where l: "length ls = length ys"
      "\<forall>y. linked (ys @ y # zs) = ls @ (y, bb) # rs" by blast
    have "plseg (hm_store m) None (hm_table m h) (bs @ a # ds) (ls @ ((k, v), bb) # rs) None"
      using b(1) l(2) f(1,2) by simp
    then obtain e where "hm_store m a = Some e" "n_val e = (k, v)"
      by (rule plseg_set_val [where w' = "(k, v)"]) (use l(1) f(1,3) b(3) in auto)
    with f(4) Some show ?thesis by auto
  qed
qed

text \<open>The interpretation on the slab allocator: the contract of the map and of the manager's map.\<close>

interpretation entries: entry_supply "alloc_node dflt sz asz base" free_node "free_list sz asz base" may_free
  for dflt :: "'k \<times> 'v" and sz asz base
  by unfold_locales

definition hm_view :: "nat \<Rightarrow> nat \<Rightarrow> nat \<Rightarrow> nat \<Rightarrow> ('k \<Rightarrow> u64) \<Rightarrow> nat \<Rightarrow> ('k, 'v, allocator) hmap \<Rightarrow> nat \<Rightarrow> ('k \<rightharpoonup> 'v) \<Rightarrow> bool" where
  "hm_view sz asz base j hash n m r M \<longleftrightarrow> hmrep (free_list sz asz base) j hash n m r M"

interpretation hmap: key_map "hm_insert (alloc_node dflt sz asz base) j hash n" "hm_contains j hash n"
  "hm_index (alloc_node dflt sz asz base) j hash n w" "hm_view sz asz base j hash n"
  for dflt sz asz base j hash n w
proof (unfold_locales, goal_cases)
  case (1 m r M k v)
  then show ?case unfolding hm_view_def by (rule entries.hm_put_law)
next
  case (2 m r M k)
  then show ?case using hm_find_rep [of "free_list sz asz base" j hash n m r M k]
    by (auto simp: hm_contains_def hm_view_def split: option.splits)
next
  case (3 m r M k v)
  then show ?case using hm_find_rep [of "free_list sz asz base" j hash n m r M k]
    by (auto simp: hm_index_def hm_view_def)
qed

interpretation objects: object_map "hm_insert (alloc_node dflt sz asz base) j hash n" "hm_contains j hash n"
  "hm_index (alloc_node dflt sz asz base) j hash n w" "hm_view sz asz base j hash n"
  for dflt sz asz base j hash n w
  by unfold_locales

lemma new_hmap_view:
  assumes "0 < sz" "sz \<le> asz" "asz \<le> 4096" "4096 div asz < j"
  shows "hm_view sz asz base j hash n (new_hmap st empty_allocator dflt) (4096 div asz) Map.empty"
proof -
  have "free_list sz asz base st empty_allocator (page_nodes asz base)"
    using assms by (simp add: free_list_def empty_allocator_def)
  moreover have "length (page_nodes asz base) = 4096 div asz" by (simp add: page_nodes_def)
  ultimately show ?thesis
    using assms(4) unfolding hm_view_def hmrep_def
    by (intro exI [of _ "\<lambda>_. []"] exI [of _ "page_nodes asz base"])
      (simp add: new_hmap_def hm_chains_def hm_entries_def)
qed

section \<open>Properties\<close>

text \<open>
  C18. Insertions into an empty hash map, as many as one page of objects allows: none fails, every key
  inserted is found with the last value given to it, no other key is found, and \<open>size\<close> counts the keys.
\<close>

theorem hash_map_refines:
  assumes "0 < sz" "sz \<le> asz" "asz \<le> 4096" "4096 div asz < j" "length xs \<le> 4096 div asz"
  shows "\<exists>m. put_all (hm_insert (alloc_node e sz asz base) j hash n) xs (new_hmap st empty_allocator al) = Inr m \<and>
    (\<forall>k. hm_contains j hash n k m = Inr (k \<in> fst ` set xs)) \<and>
    (\<forall>k v. map_of (rev xs) k = Some v \<longrightarrow> hm_index (alloc_node e sz asz base) j hash n w k m = Inr (v, m)) \<and>
    hm_size m = of_nat (card (fst ` set xs))"
proof -
  obtain r where r: "4096 div asz = length xs + r" using assms(5) by (metis le_Suc_ex)
  let ?M = "Map.empty ++ map_of (rev xs)"
  from hmap.put_all_view [OF new_hmap_view [OF assms(1-4), where n = n and hash = hash, unfolded r]] obtain m where
    m: "put_all (hm_insert (alloc_node e sz asz base) j hash n) xs (new_hmap st empty_allocator al) = Inr m"
    "hm_view sz asz base j hash n m r ?M" by blast
  have dom: "?M k = None \<longleftrightarrow> k \<notin> fst ` set xs" for k by (simp add: map_of_eq_None_iff)
  have "dom ?M = fst ` set xs" unfolding dom_def dom by simp
  moreover have "hm_size m = of_nat (card (dom ?M))" using m(2) unfolding hm_view_def hmrep_def by blast
  ultimately have "hm_size m = of_nat (card (fst ` set xs))" by simp
  moreover have "hm_contains j hash n k m = Inr (k \<in> fst ` set xs)" for k
    unfolding hmap.contains_law [OF m(2)] dom by simp
  moreover have "hm_index (alloc_node e sz asz base) j hash n w k m = Inr (v, m)" if "map_of (rev xs) k = Some v" for k v
    using that by (intro hmap.index_law [OF m(2)]) simp
  ultimately show ?thesis using m(1) by blast
qed

lemma hash_map_refines_witness:
  "\<exists>m. put_all (hm_insert (alloc_node (0 :: u64, 0 :: nat) 40 64 4096) 100 dumb_int_hash 8192)
      [(1, 10), (8193, 20), (1, 30)] (new_hmap (\<lambda>_. None) empty_allocator empty_allocator) = Inr m \<and>
    hm_index (alloc_node (0, 0) 40 64 4096) 100 dumb_int_hash 8192 0 1 m = Inr (30, m) \<and>
    hm_contains 100 dumb_int_hash 8192 16385 m = Inr False \<and> hm_size m = 2"
proof -
  let ?xs = "[(1 :: u64, 10 :: nat), (8193, 20), (1, 30)]"
  have "fst ` set ?xs = {1, 8193}" by auto
  then have "card (fst ` set ?xs) = 2" by simp
  with hash_map_refines [of 40 64 100 ?xs "(0, 0)" 4096 dumb_int_hash 8192 "\<lambda>_. None" empty_allocator 0]
  show ?thesis by auto
qed

text \<open>The objects next to an object of a chain are mapped.\<close>

lemma plseg_neighbours:
  "plseg st pr p as xs None \<Longrightarrow> (\<forall>b. pr = Some b \<longrightarrow> st b \<noteq> None) \<Longrightarrow> a \<in> set as \<Longrightarrow> st a = Some e \<Longrightarrow>
    (\<forall>b. n_next e = Some b \<or> n_prev e = Some b \<longrightarrow> st b \<noteq> None)"
proof (induction as arbitrary: pr p xs)
  case (Cons c as)
  then obtain x xs' where xs: "xs = x # xs'" by (cases xs) auto
  from Cons.prems(1) xs obtain d where d: "st c = Some d" "n_prev d = (if snd x then pr else None)"
    "plseg st (Some c) (n_next d) as xs' None" by auto
  show ?case
  proof (cases "a = c")
    case True
    with d Cons.prems(2,4) show ?thesis by (cases as; cases xs') (auto split: if_splits)
  next
    case False
    with Cons.IH [OF d(3)] Cons.prems(3,4) d(1) show ?thesis by auto
  qed
qed simp

lemma set_link_ok:
  assumes "st b \<noteq> None"
  obtains st1 st2 where "set_prev st (Some b) q = Inr st1" "set_next st (Some b) q = Inr st2" "\<forall>x. st x \<noteq> None \<longrightarrow> st1 x \<noteq> None"
  using assms by (auto simp: set_prev_def set_next_def)

lemma hm_unlink_ok:
  assumes e: "hm_store m a = Some e" "\<forall>b. n_next e = Some b \<or> n_prev e = Some b \<longrightarrow> hm_store m b \<noteq> None"
  shows "\<exists>m'. hm_unlink h (Some a) m = Inr m' \<and> hm_default m' = hm_default m"
proof (cases "n_prev e")
  case None
  with e(1) show ?thesis by (simp add: hm_unlink_def)
next
  case (Some p)
  show ?thesis
  proof (cases "n_next e")
    case None
    from set_link_ok [of "hm_store m" p None] e(2) Some obtain st where "set_next (hm_store m) (Some p) None = Inr st" by metis
    with None Some e(1) show ?thesis by (simp add: hm_unlink_def)
  next
    case (Some q)
    from set_link_ok [of "hm_store m" q "n_prev e"] e(2) Some obtain st1 where
      st1: "set_prev (hm_store m) (Some q) (n_prev e) = Inr st1" "\<forall>x. hm_store m x \<noteq> None \<longrightarrow> st1 x \<noteq> None" by metis
    from set_link_ok [of st1 p "n_next e"] st1(2) e(2) \<open>n_prev e = Some p\<close> obtain st2 where
      "set_next st1 (Some p) (n_next e) = Inr st2" by metis
    with st1(1) Some \<open>n_prev e = Some p\<close> e(1) show ?thesis by (simp add: hm_unlink_def)
  qed
qed

lemma hm_find_mapped:
  assumes "hmrep avail j hash n m r M" "hm_find j hash n k m = Inr (Some a)"
  shows "\<exists>e. hm_store m a = Some e \<and> (\<forall>b. n_next e = Some b \<or> n_prev e = Some b \<longrightarrow> hm_store m b \<noteq> None)"
proof -
  from assms(1) obtain A B fs where rep: "hm_chains (hm_store m) (hm_table m) A B" "hm_entries hash n B M"
    "\<forall>h. set (A h) \<inter> set fs = {} \<and> length (A h) + length fs < j" by (auto simp: hmrep_def)
  define h where "h = bucket hash n k"
  have b: "plseg (hm_store m) None (hm_table m h) (A h) (linked (B h)) None" "distinct (map fst (B h))"
    using rep by (auto simp: hm_chains_def hm_entries_def)
  have "length (A h) < j" using rep(3) [rule_format, of h] by simp
  from search_linked [OF b this, of k] assms(2) have a: "a \<in> set (A h)" by (auto simp: hm_find_def h_def)
  then obtain e where "hm_store m a = Some e" using plseg_mapped [OF b(1)] by blast
  with plseg_neighbours [OF b(1) _ a] show ?thesis by auto
qed

lemma put_all_default: "put_all (hm_insert al j hash n) xs m = Inr m' \<Longrightarrow> hm_default m' = hm_default m"
proof (induction xs arbitrary: m)
  case (Cons x xs)
  then obtain m1 where m1: "hm_insert al j hash n (fst x) (snd x) m = Inr m1" "put_all (hm_insert al j hash n) xs m1 = Inr m'"
    by auto
  from m1(1) have "hm_default m1 = hm_default m" by (auto simp: hm_insert_def Let_def split: if_splits)
  with Cons.IH [OF m1(2)] show ?case by simp
qed simp

text \<open>
  Removal: an element goes to the default allocator of its class and not to the one of the map it
  came from; that one is empty, so that removing any key that is present reads through a null pointer.
  Removing a key that is absent returns, but lowers \<open>size\<close> all the same.
\<close>

theorem hash_map_remove_faults:
  assumes "0 < sz" "sz \<le> asz" "asz \<le> 4096" "4096 div asz < j" "length xs \<le> 4096 div asz"
    "put_all (hm_insert (alloc_node e sz asz base) j hash n) xs (new_hmap st empty_allocator empty_allocator) = Inr m"
  shows "hm_remove free_node j hash n k m =
    (if k \<in> fst ` set xs then Inl Null_Deref else Inr (m\<lparr>hm_size := hm_size m - 1\<rparr>))"
proof -
  obtain r where r: "4096 div asz = length xs + r" using assms(5) by (metis le_Suc_ex)
  let ?M = "Map.empty ++ map_of (rev xs)"
  have "hm_view sz asz base j hash n (new_hmap st empty_allocator empty_allocator) (length xs + r) Map.empty"
    using new_hmap_view [OF assms(1-4)] r by simp
  from hmap.put_all_view [OF this, of e] assms(6)
  have v: "hmrep (free_list sz asz base) j hash n m r ?M" unfolding hm_view_def by simp
  have dom: "?M k = None \<longleftrightarrow> k \<notin> fst ` set xs" by (simp add: map_of_eq_None_iff)
  have dflt: "hm_default m = empty_allocator"
    using put_all_default [OF assms(6)] by (simp add: new_hmap_def)
  show ?thesis
  proof (cases "?M k")
    case None
    with hm_find_rep [OF v, of k] dom show ?thesis by (auto simp: hm_remove_def)
  next
    case (Some w)
    with hm_find_rep [OF v, of k] obtain a where a: "hm_find j hash n k m = Inr (Some a)" by auto
    from hm_find_mapped [OF v a] hm_unlink_ok obtain m' where
      "hm_unlink (bucket hash n k) (Some a) m = Inr m'" "hm_default m' = hm_default m" by metis
    with a Some dom dflt show ?thesis by (simp add: hm_remove_def Let_def empty_allocator_def)
  qed
qed

lemma hash_map_remove_faults_witness:
  "\<exists>m. put_all (hm_insert (alloc_node (0 :: u64, 0 :: nat) 40 64 4096) 100 dumb_int_hash 8192)
      [(1, 10), (8193, 20)] (new_hmap (\<lambda>_. None) empty_allocator empty_allocator) = Inr m \<and>
    hm_remove free_node 100 dumb_int_hash 8192 8193 m = Inl Null_Deref \<and>
    hm_remove free_node 100 dumb_int_hash 8192 7 m = Inr (m\<lparr>hm_size := hm_size m - 1\<rparr>)"
proof -
  let ?xs = "[(1 :: u64, 10 :: nat), (8193, 20)]" and ?m = "new_hmap (\<lambda>_. None) empty_allocator empty_allocator"
  let ?put = "hm_insert (alloc_node (0 :: u64, 0 :: nat) 40 64 4096) 100 dumb_int_hash 8192"
  have "hm_view 40 64 4096 100 dumb_int_hash 8192 ?m (4096 div 64) Map.empty" by (rule new_hmap_view) simp_all
  then have "hm_view 40 64 4096 100 dumb_int_hash 8192 ?m (length ?xs + 62) Map.empty" by simp
  from hmap.put_all_view [OF this] obtain m where m: "put_all ?put ?xs ?m = Inr m" by blast
  from hash_map_remove_faults [OF _ _ _ _ _ m, of 8193] hash_map_remove_faults [OF _ _ _ _ _ m, of 7] m
  show ?thesis by auto
qed

lemma id_map_nth:
  assumes "length ps < 2 ^ 63"
  shows "id_map 1 ps Map.empty i = (if 1 \<le> unat i \<and> unat i \<le> length ps then Some (ps ! (unat i - 1)) else None)"
proof -
  let ?ids = "map (\<lambda>j. 1 + of_nat j) [0..<length ps] :: u64 list"
  have u: "unat (1 + of_nat j :: u64) = Suc j" if "j < length ps" for j
    using unat_of_nat_u64 [of "Suc j"] that assms by simp
  have d: "distinct ?ids"
    unfolding distinct_map by (auto simp: inj_on_def) (metis u nat.inject)
  have "map_of (zip ?ids ps) i = Some p \<longleftrightarrow> 1 \<le> unat i \<and> unat i \<le> length ps \<and> p = ps ! (unat i - 1)" for p
  proof -
    have "map_of (zip ?ids ps) i = Some p \<longleftrightarrow> (\<exists>j < length ps. 1 + of_nat j = i \<and> ps ! j = p)"
    proof
      assume "map_of (zip ?ids ps) i = Some p"
      then have "(i, p) \<in> set (zip ?ids ps)" by (rule map_of_SomeD)
      then obtain j where "j < length ps" "?ids ! j = i" "ps ! j = p" by (auto simp: in_set_zip)
      then show "\<exists>j < length ps. 1 + of_nat j = i \<and> ps ! j = p" by (intro exI [of _ j]) simp
    next
      assume "\<exists>j < length ps. 1 + of_nat j = i \<and> ps ! j = p"
      then obtain j where "j < length ps" "1 + of_nat j = i" "ps ! j = p" by blast
      then have "(i, p) \<in> set (zip ?ids ps)" by (auto simp: in_set_zip intro!: exI [of _ j])
      then show "map_of (zip ?ids ps) i = Some p" using d by (intro map_of_is_SomeI) simp_all
    qed
    also have "\<dots> \<longleftrightarrow> 1 \<le> unat i \<and> unat i \<le> length ps \<and> p = ps ! (unat i - 1)"
    proof
      assume "1 \<le> unat i \<and> unat i \<le> length ps \<and> p = ps ! (unat i - 1)"
      moreover from this have "1 + of_nat (unat i - 1) = i" by (simp add: of_nat_diff)
      ultimately show "\<exists>j < length ps. 1 + of_nat j = i \<and> ps ! j = p" by (intro exI [of _ "unat i - 1"]) auto
    qed (use u in auto)
    finally show ?thesis .
  qed
  then show ?thesis by (cases "map_of (zip ?ids ps) i") (auto simp: id_map_def)
qed

text \<open>
  A manager numbers the objects it allocates from one on, and finds under each number the object
  that got it, and under no other number any.
\<close>

theorem manager_lookup:
  assumes "0 < sz" "sz \<le> asz" "asz \<le> 4096" "4096 div asz < j" "length ps \<le> 4096 div asz"
  shows "\<exists>s. mg_allocate_all (hm_insert (alloc_node e sz asz base) j dumb_int_hash 8192) ps
      \<lparr>mg_map = new_hmap st empty_allocator empty_allocator, mg_next = 1\<rparr> =
      Inr (map (\<lambda>i. 1 + of_nat i) [0..<length ps], s) \<and>
    (\<forall>i. mg_get (hm_contains j dumb_int_hash 8192) (hm_index (alloc_node e sz asz base) j dumb_int_hash 8192 w) i s =
      Inr (if 1 \<le> unat i \<and> unat i \<le> length ps then Some (ps ! (unat i - 1)) else None, s))"
proof -
  obtain r where r: "4096 div asz = length ps + r" using assms(5) by (metis le_Suc_ex)
  have "4096 div asz \<le> 4096" by simp
  with assms(5) have "length ps \<le> 4096" by linarith
  then have small: "length ps < 2 ^ 63" "length ps < 2 ^ 64" by simp_all
  let ?s = "\<lparr>mg_map = new_hmap st empty_allocator empty_allocator, mg_next = 1\<rparr>"
  have "hm_view sz asz base j dumb_int_hash 8192 (mg_map ?s) (length ps + r) Map.empty"
    using new_hmap_view [OF assms(1-4)] r by simp
  from objects.mg_allocate_all_view [OF this small(2), of e] obtain s where
    s: "mg_allocate_all (hm_insert (alloc_node e sz asz base) j dumb_int_hash 8192) ps ?s =
      Inr (map (\<lambda>i. 1 + of_nat i) [0..<length ps], s)"
    "hm_view sz asz base j dumb_int_hash 8192 (mg_map s) r (id_map 1 ps Map.empty)" by auto
  have "mg_get (hm_contains j dumb_int_hash 8192) (hm_index (alloc_node e sz asz base) j dumb_int_hash 8192 w) i s =
      Inr (if 1 \<le> unat i \<and> unat i \<le> length ps then Some (ps ! (unat i - 1)) else None, s)" for i
    unfolding objects.mg_get_view [OF s(2)] id_map_nth [OF small(1)] by (rule refl)
  with s(1) show ?thesis by blast
qed

lemma manager_lookup_witness:
  "\<exists>s. mg_allocate_all (hm_insert (alloc_node (0, 0) 40 64 4096) 100 dumb_int_hash 8192) [0xA000, 0xB000 :: nat]
      \<lparr>mg_map = new_hmap (\<lambda>_. None) empty_allocator empty_allocator, mg_next = 1\<rparr> = Inr ([1, 2], s) \<and>
    mg_get (hm_contains 100 dumb_int_hash 8192) (hm_index (alloc_node (0, 0) 40 64 4096) 100 dumb_int_hash 8192 0) 2 s =
      Inr (Some 0xB000, s)"
proof -
  have "map (\<lambda>i. 1 + of_nat i) [0..<length [0xA000, 0xB000 :: nat]] = [1, 2 :: u64]" by (simp add: upt_rec)
  with manager_lookup [of 40 64 100 "[0xA000, 0xB000 :: nat]" "(0, 0)" 4096 "\<lambda>_. None" 0] show ?thesis by auto
qed

end
