(* ===== verification/Acpi.thy ===== *)
theory Acpi
  imports Ioapic
begin

text \<open>
  The tables of the firmware (\<open>kernel/acpi/tables.h\<close>, \<open>acpi.cpp\<close>): the search for the root pointer and
  for a table, and the table of interrupt controllers, read byte by byte in its three passes. A table is
  the list of bytes from its beginning to the end of the eight pages mapped for it. The specification is
  on the level of entries; encoding a list of entries and parsing the bytes is the same.
\<close>

section \<open>Reading bytes\<close>

type_synonym table = "u8 list"

fun word_of_bytes :: "u8 list \<Rightarrow> 'a::len word" where
  "word_of_bytes [] = 0"
| "word_of_bytes (b # bs) = ucast b OR push_bit 8 (word_of_bytes bs)"

definition get_le :: "nat \<Rightarrow> table \<Rightarrow> nat \<Rightarrow> 'a::len word result" where
  "get_le n tb off = (if off + n \<le> length tb then Inr (word_of_bytes (take n (drop off tb))) else Inl Page_Fault)"

fun bytes_of_word :: "nat \<Rightarrow> 'a::len word \<Rightarrow> u8 list" where
  "bytes_of_word 0 w = []"
| "bytes_of_word (Suc n) w = ucast w # bytes_of_word n (drop_bit 8 w)"

lemma length_bytes_of_word [simp]: "length (bytes_of_word n w) = n"
  by (induction n arbitrary: w) simp_all

lemma word_of_bytes_take: "word_of_bytes (bytes_of_word n w) = take_bit (8 * n) w"
proof (induction n arbitrary: w)
  case (Suc n)
  show ?case
    by (rule bit_word_eqI) (auto simp: Suc bit_simps)
qed simp

lemma word_of_bytes_of_word [simp]:
  "word_of_bytes (bytes_of_word 2 w) = (w :: u16)" "word_of_bytes (bytes_of_word 4 x) = (x :: u32)"
  "word_of_bytes (bytes_of_word 8 y) = (y :: u64)"
  unfolding word_of_bytes_take by (rule bit_word_eqI, simp add: bit_simps)+

lemma word_of_bytes_single [simp]: "word_of_bytes [b] = (b :: u8)"
  by simp

section \<open>Root pointer and tables\<close>

text \<open>\<open>validate\<close> of a table: its signature, and the sum of as many bytes as its length says.\<close>

definition checksum :: "u8 list \<Rightarrow> u8" where
  "checksum bs = fold (+) bs 0"

definition validate_table :: "table \<Rightarrow> u8 list \<Rightarrow> bool result" where
  "validate_table tb sign =
     (if length tb < 8 then Inl Page_Fault
      else if take 4 tb = take 4 sign
      then rbind (get_le 4 tb 4) (\<lambda>len :: u32.
           if length tb < unat len then Inl Page_Fault else Inr (checksum (take (unat len) tb) = 0))
      else Inr False)"

text \<open>\<open>validate\<close> of a root pointer; \<open>mem\<close> is the low memory. The sum is over the structure of version 2.\<close>

definition rsdp_signature :: "u8 list" where
  "rsdp_signature = [0x52, 0x53, 0x44, 0x20, 0x50, 0x54, 0x52, 0x20]"

definition rsdp_size :: nat where
  "rsdp_size = 36"

definition validate_rsdp :: "(u64 \<Rightarrow> u8) \<Rightarrow> u64 \<Rightarrow> bool" where
  "validate_rsdp mem p \<longleftrightarrow> map (\<lambda>i. mem (p + of_nat i)) [0..<8] = rsdp_signature \<and>
     checksum (map (\<lambda>i. mem (p + of_nat i)) [0..<rsdp_size]) = 0"

fun scan_rsdp :: "nat \<Rightarrow> (u64 \<Rightarrow> u8) \<Rightarrow> u64 \<Rightarrow> u64 option" where
  "scan_rsdp 0 mem p = None"
| "scan_rsdp (Suc n) mem p = (if validate_rsdp mem p then Some p else scan_rsdp n mem (p + 16))"

text \<open>1024 bytes of the extended data area, whose segment is at \<open>0x40E\<close>, then from \<open>0xe0000\<close> to \<open>0x100000\<close>.\<close>

definition find_rsdp :: "(u64 \<Rightarrow> u8) \<Rightarrow> u64 result" where
  "find_rsdp mem =
     (let ebda = push_bit 4 (ucast (mem 0x40E) OR push_bit 8 (ucast (mem 0x40F)))
      in case scan_rsdp 64 mem ebda of Some p \<Rightarrow> Inr p
         | None \<Rightarrow> (case scan_rsdp 8192 mem 0xe0000 of Some p \<Rightarrow> Inr p | None \<Rightarrow> Inl (Panic ''RSDP not found!'')))"

text \<open>The root table: \<open>window p\<close> are the bytes from the physical address \<open>p\<close> on that are mapped for it.\<close>

datatype root = Rsdt table | Xsdt table

definition install_rsdt :: "(u64 \<Rightarrow> table) \<Rightarrow> u32 \<Rightarrow> root result" where
  "install_rsdt window p =
     rbind (validate_table (window (ucast p)) [0x52, 0x53, 0x44, 0x54]) (\<lambda>ok.
     if ok then Inr (Rsdt (window (ucast p))) else Inl (Panic ''RSDT invalid''))"

definition install_root :: "(u64 \<Rightarrow> table) \<Rightarrow> u8 \<Rightarrow> u32 \<Rightarrow> u64 \<Rightarrow> root result" where
  "install_root window revision rsdt xsdt =
     (if revision \<noteq> 0
      then rbind (validate_table (window xsdt) [0x58, 0x53, 0x44, 0x54]) (\<lambda>ok.
           if ok then Inr (Xsdt (window xsdt)) else install_rsdt window rsdt)
      else install_rsdt window rsdt)"

fun first_table :: "(u64 \<Rightarrow> table) \<Rightarrow> u8 list \<Rightarrow> (nat \<Rightarrow> u64 result) \<Rightarrow> nat \<Rightarrow> nat \<Rightarrow> table option result" where
  "first_table window sign entry 0 i = Inr None"
| "first_table window sign entry (Suc n) i =
     rbind (entry i) (\<lambda>p. rbind (validate_table (window p) sign) (\<lambda>ok.
     if ok then Inr (Some (window p)) else first_table window sign entry n (i + 1)))"

text \<open>The number of entries is computed in the unsigned 32 bits of the length.\<close>

definition find_table :: "(u64 \<Rightarrow> table) \<Rightarrow> root \<Rightarrow> u8 list \<Rightarrow> table option result" where
  "find_table window root sign =
     (case root of
        Xsdt tb \<Rightarrow> rbind (get_le 4 tb 4) (\<lambda>len :: u32.
          first_table window sign (\<lambda>i. get_le 8 tb (36 + 8 * i)) (unat ((len - 36) div 8)) 0)
      | Rsdt tb \<Rightarrow> rbind (get_le 4 tb 4) (\<lambda>len :: u32.
          first_table window sign (\<lambda>i. rbind (get_le 4 tb (36 + 4 * i)) (\<lambda>p :: u32. Inr (ucast p)))
            (unat ((len - 36) div 4)) 0))"

section \<open>The table of interrupt controllers\<close>

text \<open>
  One loop over the entries, which start at offset 44: \<open>f\<close> is the body with the offset and the type of
  the entry. An entry of length zero would keep the loop where it is; \<open>k\<close> bounds the rounds.
\<close>

fun madt_walk :: "(nat \<Rightarrow> u8 \<Rightarrow> 'a \<Rightarrow> 'a result) \<Rightarrow> nat \<Rightarrow> table \<Rightarrow> nat \<Rightarrow> nat \<Rightarrow> 'a \<Rightarrow> 'a result" where
  "madt_walk f 0 tb len off s = Inl Spins_Forever"
| "madt_walk f (Suc k) tb len off s =
     (if off < len
      then rbind (get_le 1 tb off) (\<lambda>ty. rbind (f off ty s) (\<lambda>s. rbind (get_le 1 tb (off + 1)) (\<lambda>l :: u8.
           madt_walk f k tb len (off + unat l) s)))
      else Inr s)"

definition count_entry :: "u8 \<Rightarrow> nat \<times> nat \<Rightarrow> nat \<times> nat" where
  "count_entry ty c = (if ty = 0 \<or> ty = 9 then (fst c + 1, snd c) else if ty = 1 then (fst c, snd c + 1) else c)"

record 's madt_state =
  ma_cores :: "core list"
  ma_ioapics :: "ioapic list"
  ma_sources :: "interrupt_entry list"
  ma_lic :: u64
  ma_vm :: 's

fun first_nmi :: "u32 \<Rightarrow> u32 \<Rightarrow> ioapic list \<Rightarrow> ioapic list" where
  "first_nmi vector flags [] = []"
| "first_nmi vector flags (d # ds) =
     (case set_global_nmi vector flags d of (b, d) \<Rightarrow> if b then d # ds else d # first_nmi vector flags ds)"

definition reserved_mode :: "u16 \<Rightarrow> error option" where
  "reserved_mode flags =
     (if flags AND 3 = 2 then Some (Panic ''Reserved polarity in MADT'')
      else if drop_bit 2 flags AND 3 = 2 then Some (Panic ''Reserved trigger mode in MADT'') else None)"

text \<open>The second pass; the case of an override runs on into the one of a source of non-maskable interrupts.\<close>

definition parse_nmi_source :: "table \<Rightarrow> nat \<Rightarrow> 's madt_state \<Rightarrow> 's madt_state result" where
  "parse_nmi_source tb off s =
     (if ma_ioapics s = [] then Inr s
      else rbind (get_le 4 tb (off + 4)) (\<lambda>v. rbind (get_le 2 tb (off + 2)) (\<lambda>fl :: u16.
        Inr (s\<lparr>ma_ioapics := first_nmi v (ucast fl) (ma_ioapics s)\<rparr>))))"

definition parse_override :: "table \<Rightarrow> nat \<Rightarrow> 's madt_state \<Rightarrow> 's madt_state result" where
  "parse_override tb off s =
     rbind (get_le 1 tb (off + 3)) (\<lambda>source.
     rbind (get_le 4 tb (off + 4)) (\<lambda>v.
     rbind (get_le 2 tb (off + 8)) (\<lambda>fl.
     if length (ma_sources s) \<le> unat source then Inl Out_Of_Bounds
     else case reserved_mode fl of Some e \<Rightarrow> Inl e
       | None \<Rightarrow> parse_nmi_source tb off (s\<lparr>ma_sources := (ma_sources s)[unat source := ie_set source v fl]\<rparr>))))"

definition parse_entry :: "(u32 \<Rightarrow> u32 \<Rightarrow> u64 \<Rightarrow> 's \<Rightarrow> (ioapic \<times> 's) result) \<Rightarrow> table \<Rightarrow> nat \<Rightarrow> u8 \<Rightarrow> 's madt_state \<Rightarrow>
    's madt_state result" where
  "parse_entry mk tb off ty s =
     (if ty = 0 then
        rbind (get_le 4 tb (off + 4)) (\<lambda>fl :: u32.
        if bit fl 0
        then rbind (get_le 1 tb (off + 3)) (\<lambda>apic :: u8. rbind (get_le 1 tb (off + 2)) (\<lambda>acpi :: u8.
             Inr (s\<lparr>ma_cores := ma_cores s @ [new_core (ucast apic) (ucast acpi) True]\<rparr>)))
        else Inr s)
      else if ty = 1 then
        rbind (get_le 1 tb (off + 2)) (\<lambda>apic :: u8.
        rbind (get_le 4 tb (off + 8)) (\<lambda>base.
        rbind (get_le 4 tb (off + 4)) (\<lambda>phys :: u32.
        rbind (mk (ucast apic) base (ucast phys) (ma_vm s)) (\<lambda>(d, v).
        Inr (s\<lparr>ma_ioapics := ma_ioapics s @ [d], ma_vm := v\<rparr>)))))
      else if ty = 2 then parse_override tb off s
      else if ty = 3 then parse_nmi_source tb off s
      else if ty = 5 then rbind (get_le 8 tb (off + 4)) (\<lambda>a. Inr (s\<lparr>ma_lic := a\<rparr>))
      else if ty = 9 then
        rbind (get_le 4 tb (off + 8)) (\<lambda>fl :: u32.
        if bit fl 0
        then rbind (get_le 4 tb (off + 4)) (\<lambda>apic. rbind (get_le 4 tb (off + 12)) (\<lambda>acpi.
             Inr (s\<lparr>ma_cores := ma_cores s @ [new_core apic acpi False]\<rparr>)))
        else Inr s)
      else Inr s)"

text \<open>The third pass.\<close>

fun nmi_of :: "u32 \<Rightarrow> u32 \<Rightarrow> u32 \<Rightarrow> core list \<Rightarrow> core list" where
  "nmi_of acpi vector flags [] = []"
| "nmi_of acpi vector flags (c # cs) =
     (if co_acpi_id c = acpi then core_set_nmi vector flags c # cs else c # nmi_of acpi vector flags cs)"

definition parse_nmi :: "table \<Rightarrow> nat \<Rightarrow> u8 \<Rightarrow> core list \<Rightarrow> core list result" where
  "parse_nmi tb off ty cs =
     (if ty = 4 then
        rbind (get_le 1 tb (off + 2)) (\<lambda>acpi :: u8. rbind (get_le 1 tb (off + 5)) (\<lambda>v :: u8.
        rbind (get_le 2 tb (off + 3)) (\<lambda>fl :: u16.
        Inr (if acpi = 0xff then map (\<lambda>c. if co_lapic c then core_set_nmi (ucast v) (ucast fl) c else c) cs
             else nmi_of (ucast acpi) (ucast v) (ucast fl) cs))))
      else if ty = 10 then
        rbind (get_le 4 tb (off + 4)) (\<lambda>acpi. rbind (get_le 1 tb (off + 8)) (\<lambda>v :: u8.
        rbind (get_le 2 tb (off + 2)) (\<lambda>fl :: u16.
        Inr (if acpi = 0xffffffff then map (core_set_nmi (ucast v) (ucast fl)) cs
             else nmi_of acpi (ucast v) (ucast fl) cs))))
      else Inr cs)"

text \<open>\<open>room\<close> makes room for the processors and controllers counted, \<open>mk\<close> constructs a controller.\<close>

definition parse_madt :: "(u32 \<Rightarrow> u32 \<Rightarrow> u64 \<Rightarrow> 's \<Rightarrow> (ioapic \<times> 's) result) \<Rightarrow> (nat \<Rightarrow> nat \<Rightarrow> 's \<Rightarrow> 's result) \<Rightarrow>
    nat \<Rightarrow> table \<Rightarrow> interrupt_entry list \<Rightarrow> 's \<Rightarrow> 's madt_state result" where
  "parse_madt mk room k tb sources s =
     rbind (get_le 4 tb 36) (\<lambda>lic :: u32.
     rbind (get_le 4 tb 4) (\<lambda>len :: u32.
     rbind (madt_walk (\<lambda>off ty c. Inr (count_entry ty c)) k tb (unat len) 44 (0, 0)) (\<lambda>(cores, ioapics).
     rbind (room cores ioapics s) (\<lambda>s.
     rbind (madt_walk (parse_entry mk tb) k tb (unat len) 44
              \<lparr>ma_cores = [], ma_ioapics = [], ma_sources = sources, ma_lic = ucast lic, ma_vm = s\<rparr>) (\<lambda>m.
     rbind (madt_walk (parse_nmi tb) k tb (unat len) 44 (ma_cores m)) (\<lambda>cs.
     Inr (m\<lparr>ma_cores := cs\<rparr>)))))))"

end
