(* ===== verification/Acpi_Entries.thy ===== *)
theory Acpi_Entries
  imports Acpi
begin

text \<open>
  The table of interrupt controllers on the level of its entries, and the proof that the code's three
  passes over the bytes of any list of entries do what the entries say.
\<close>

section \<open>Entries\<close>

datatype madt_entry =
    Local_Apic u8 u8 u32
  | Io_Apic u8 u32 u32
  | Override u8 u8 u32 u16
  | Nmi_Source u16 u32
  | Local_Nmi u8 u16 u8
  | Local_Address u64
  | Local_X2apic u32 u32 u32
  | X2apic_Nmi u16 u32 u8
  | Unknown u8 "u8 list"

fun entry_type :: "madt_entry \<Rightarrow> u8" where
  "entry_type (Local_Apic _ _ _) = 0"
| "entry_type (Io_Apic _ _ _) = 1"
| "entry_type (Override _ _ _ _) = 2"
| "entry_type (Nmi_Source _ _) = 3"
| "entry_type (Local_Nmi _ _ _) = 4"
| "entry_type (Local_Address _) = 5"
| "entry_type (Local_X2apic _ _ _) = 9"
| "entry_type (X2apic_Nmi _ _ _) = 10"
| "entry_type (Unknown ty _) = ty"

fun entry_fields :: "madt_entry \<Rightarrow> u8 list" where
  "entry_fields (Local_Apic acpi apic fl) = [acpi, apic] @ bytes_of_word 4 fl"
| "entry_fields (Io_Apic i phys base) = [i, 0] @ bytes_of_word 4 phys @ bytes_of_word 4 base"
| "entry_fields (Override bus source v fl) = [bus, source] @ bytes_of_word 4 v @ bytes_of_word 2 fl"
| "entry_fields (Nmi_Source fl v) = bytes_of_word 2 fl @ bytes_of_word 4 v"
| "entry_fields (Local_Nmi acpi fl v) = [acpi] @ bytes_of_word 2 fl @ [v]"
| "entry_fields (Local_Address a) = [0, 0] @ bytes_of_word 8 a"
| "entry_fields (Local_X2apic apic fl acpi) = [0, 0] @ bytes_of_word 4 apic @ bytes_of_word 4 fl @ bytes_of_word 4 acpi"
| "entry_fields (X2apic_Nmi fl acpi v) = bytes_of_word 2 fl @ bytes_of_word 4 acpi @ [v, 0, 0, 0]"
| "entry_fields (Unknown _ bs) = bs"

definition encode :: "madt_entry \<Rightarrow> u8 list" where
  "encode e = entry_type e # of_nat (2 + length (entry_fields e)) # entry_fields e"

text \<open>Entries of unknown type have one that the code does not know and fit into 255 bytes.\<close>

definition wf_entry :: "madt_entry \<Rightarrow> bool" where
  "wf_entry e \<longleftrightarrow> (case e of Unknown ty bs \<Rightarrow> ty \<notin> {0, 1, 2, 3, 4, 5, 9, 10} \<and> length bs < 254 | _ \<Rightarrow> True)"

text \<open>A table: header, address of the local controllers, flags, entries; \<open>rest\<close> is what follows it.\<close>

definition madt_bytes :: "u8 list \<Rightarrow> u8 list \<Rightarrow> u32 \<Rightarrow> u32 \<Rightarrow> madt_entry list \<Rightarrow> u8 list \<Rightarrow> table" where
  "madt_bytes sign header lic flags es rest =
     sign @ bytes_of_word 4 (of_nat (44 + length (concat (map encode es))) :: u32) @ header @
     bytes_of_word 4 lic @ bytes_of_word 4 flags @ concat (map encode es) @ rest"

section \<open>What the entries say\<close>

definition say_nmi_source :: "u16 \<Rightarrow> u32 \<Rightarrow> 's madt_state \<Rightarrow> 's madt_state" where
  "say_nmi_source fl v s = s\<lparr>ma_ioapics := first_nmi v (ucast fl) (ma_ioapics s)\<rparr>"

fun say_entry :: "(u32 \<Rightarrow> u32 \<Rightarrow> u64 \<Rightarrow> 's \<Rightarrow> (ioapic \<times> 's) result) \<Rightarrow> madt_entry \<Rightarrow> 's madt_state \<Rightarrow> 's madt_state result" where
  "say_entry mk (Local_Apic acpi apic fl) s =
     Inr (if bit fl 0 then s\<lparr>ma_cores := ma_cores s @ [new_core (ucast apic) (ucast acpi) True]\<rparr> else s)"
| "say_entry mk (Local_X2apic apic fl acpi) s =
     Inr (if bit fl 0 then s\<lparr>ma_cores := ma_cores s @ [new_core apic acpi False]\<rparr> else s)"
| "say_entry mk (Io_Apic i phys base) s =
     rbind (mk (ucast i) base (ucast phys) (ma_vm s)) (\<lambda>(d, v).
     Inr (s\<lparr>ma_ioapics := ma_ioapics s @ [d], ma_vm := v\<rparr>))"
| "say_entry mk (Override bus source v fl) s =
     (if length (ma_sources s) \<le> unat source then Inl Out_Of_Bounds
      else case reserved_mode fl of Some e \<Rightarrow> Inl e
        | None \<Rightarrow> Inr (say_nmi_source (ucast bus OR push_bit 8 (ucast source)) v
            (s\<lparr>ma_sources := (ma_sources s)[unat source := ie_set source v fl]\<rparr>)))"
| "say_entry mk (Nmi_Source fl v) s = Inr (say_nmi_source fl v s)"
| "say_entry mk (Local_Address a) s = Inr (s\<lparr>ma_lic := a\<rparr>)"
| "say_entry mk _ s = Inr s"

fun say_nmi :: "madt_entry \<Rightarrow> core list \<Rightarrow> core list" where
  "say_nmi (Local_Nmi acpi fl v) cs =
     (if acpi = 0xff then map (\<lambda>c. if co_lapic c then core_set_nmi (ucast v) (ucast fl) c else c) cs
      else nmi_of (ucast acpi) (ucast v) (ucast fl) cs)"
| "say_nmi (X2apic_Nmi fl acpi v) cs =
     (if acpi = 0xffffffff then map (core_set_nmi (ucast v) (ucast fl)) cs else nmi_of acpi (ucast v) (ucast fl) cs)"
| "say_nmi _ cs = cs"

fun each_entry :: "(madt_entry \<Rightarrow> 'a \<Rightarrow> 'a result) \<Rightarrow> madt_entry list \<Rightarrow> 'a \<Rightarrow> 'a result" where
  "each_entry f [] s = Inr s"
| "each_entry f (e # es) s = rbind (f e s) (each_entry f es)"

definition is_core :: "madt_entry \<Rightarrow> bool" where
  "is_core e \<longleftrightarrow> entry_type e = 0 \<or> entry_type e = 9"

section \<open>Reading what was encoded\<close>

lemma length_encode: "length (encode e) = 2 + length (entry_fields e)"
  by (simp add: encode_def)

lemma entry_fields_small: "wf_entry e \<Longrightarrow> length (entry_fields e) < 254"
  by (cases e) (simp_all add: wf_entry_def)

lemma encode_head:
  assumes "wf_entry e"
  shows "get_le 1 (pre @ encode e @ post) (length pre) = Inr (entry_type e)"
    and "get_le 1 (pre @ encode e @ post) (length pre + 1) = Inr (of_nat (length (encode e)) :: u8)"
    and "unat (of_nat (length (encode e)) :: u8) = length (encode e)"
proof -
  show "get_le 1 (pre @ encode e @ post) (length pre) = Inr (entry_type e)"
    by (simp add: encode_def get_le_def)
  show "get_le 1 (pre @ encode e @ post) (length pre + 1) = Inr (of_nat (length (encode e)) :: u8)"
    by (simp add: encode_def get_le_def)
  have "length (encode e) < 256" using entry_fields_small [OF assms] by (simp add: length_encode)
  then show "unat (of_nat (length (encode e)) :: u8) = length (encode e)"
    by (simp add: unsigned_of_nat take_bit_nat_eq_self)
qed

lemma walk_encode:
  assumes "\<forall>e\<in>set es. wf_entry e" "length es < k"
    "\<And>pre e post s. e \<in> set es \<Longrightarrow> tb = pre @ encode e @ post \<Longrightarrow> f (length pre) (entry_type e) s = g e s"
    "tb = pre @ concat (map encode es) @ rest"
  shows "madt_walk f k tb (length pre + length (concat (map encode es))) (length pre) s = each_entry g es s"
  using assms
proof (induction es arbitrary: k pre s)
  case Nil
  then show ?case by (cases k) simp_all
next
  case (Cons e es)
  obtain k' where k: "k = Suc k'" using Cons.prems(2) by (cases k) auto
  have tb: "tb = pre @ encode e @ (concat (map encode es) @ rest)" using Cons.prems(4) by simp
  note h = encode_head(1,2) [of e pre "concat (map encode es) @ rest", folded tb]
  have wf: "wf_entry e" using Cons.prems(1) by simp
  have step: "f (length pre) (entry_type e) s = g e s" using Cons.prems(3) [of e pre "concat (map encode es) @ rest" s] tb by simp
  have "madt_walk f k' tb (length (pre @ encode e) + length (concat (map encode es))) (length (pre @ encode e)) s' = each_entry g es s'" for s'
    by (rule Cons.IH) (use Cons.prems k in auto)
  moreover have "0 < length (encode e)" by (simp add: length_encode)
  ultimately show ?case
    using h [OF wf] encode_head(3) [OF wf] step unfolding k by (cases "g e s") (simp_all add: ac_simps)
qed

lemma parse_entry_encode:
  assumes "wf_entry e" "tb = pre @ encode e @ post"
  shows "parse_entry mk tb (length pre) (entry_type e) s = say_entry mk e s"
proof -
  have nmi: "(if ma_ioapics s = [] then Inr s else Inr (s\<lparr>ma_ioapics := first_nmi v fl (ma_ioapics s)\<rparr>)) =
      Inr (s\<lparr>ma_ioapics := first_nmi v fl (ma_ioapics s)\<rparr>)" for v fl and s :: "'a madt_state"
    by simp
  show ?thesis
    using assms(1) unfolding assms(2)
    by (cases e) (simp_all add: parse_entry_def parse_override_def parse_nmi_source_def say_nmi_source_def
      encode_def get_le_def wf_entry_def nmi split: option.split)
qed

lemma parse_nmi_encode:
  assumes "wf_entry e" "tb = pre @ encode e @ post"
  shows "parse_nmi tb (length pre) (entry_type e) cs = Inr (say_nmi e cs)"
  using assms(1) unfolding assms(2)
  by (cases e) (simp_all add: parse_nmi_def encode_def get_le_def wf_entry_def)

lemma each_entry_pure: "each_entry (\<lambda>e s. Inr (h e s)) es s = Inr (fold h es s)"
  by (induction es arbitrary: s) simp_all

lemma fold_count: "fold (\<lambda>e. count_entry (entry_type e)) es (a, b) =
    (a + length (filter is_core es), b + length (filter (\<lambda>e. entry_type e = 1) es))"
  by (induction es arbitrary: a b) (auto simp: count_entry_def is_core_def)

text \<open>The processors that the table says are enabled.\<close>

fun cores_of :: "madt_entry list \<Rightarrow> core list" where
  "cores_of [] = []"
| "cores_of (Local_Apic acpi apic fl # es) = (if bit fl 0 then [new_core (ucast apic) (ucast acpi) True] else []) @ cores_of es"
| "cores_of (Local_X2apic apic fl acpi # es) = (if bit fl 0 then [new_core apic acpi False] else []) @ cores_of es"
| "cores_of (e # es) = cores_of es"

lemma say_entry_cores: "say_entry mk e m = Inr m' \<Longrightarrow> ma_cores m' = ma_cores m @ cores_of [e]"
  by (cases e) (auto simp: say_nmi_source_def split: if_splits option.splits)

lemma cores_of_Cons: "cores_of (e # es) = cores_of [e] @ cores_of es"
  by (cases e) simp_all

lemma say_entries_cores: "each_entry (say_entry mk) es m = Inr m' \<Longrightarrow> ma_cores m' = ma_cores m @ cores_of es"
proof (induction es arbitrary: m)
  case (Cons e es)
  then obtain m1 where "say_entry mk e m = Inr m1" "each_entry (say_entry mk) es m1 = Inr m'" by auto
  with Cons.IH [of m1] say_entry_cores [of mk e m m1] show ?case by (simp add: cores_of_Cons [of e es])
qed simp

lemma length_first_nmi [simp]: "length (first_nmi v fl ds) = length ds"
  by (induction ds) (auto simp: set_global_nmi_def Let_def)

lemma say_entry_ioapics:
  "say_entry mk e m = Inr m' \<Longrightarrow> length (ma_ioapics m') = length (ma_ioapics m) + (if entry_type e = 1 \<and> wf_entry e then 1 else 0)
    \<or> \<not> wf_entry e"
  by (cases e) (auto simp: say_nmi_source_def wf_entry_def split: if_splits option.splits)

lemma say_entries_ioapics:
  "each_entry (say_entry mk) es m = Inr m' \<Longrightarrow> \<forall>e\<in>set es. wf_entry e \<Longrightarrow>
    length (ma_ioapics m') = length (ma_ioapics m) + length (filter (\<lambda>e. entry_type e = 1) es)"
proof (induction es arbitrary: m)
  case (Cons e es)
  then obtain m1 where "say_entry mk e m = Inr m1" "each_entry (say_entry mk) es m1 = Inr m'" by auto
  with Cons.IH [of m1] say_entry_ioapics [of mk e m m1] Cons.prems(2) show ?case by auto
qed simp

lemma length_cores_of: "length (cores_of es) \<le> length (filter is_core es)"
  by (induction es rule: cores_of.induct) (auto simp: is_core_def)

lemma length_say_nmi [simp]: "length (say_nmi e cs) = length cs"
proof -
  have "length (nmi_of a v fl cs) = length cs" for a v fl by (induction cs) auto
  then show ?thesis by (cases e) auto
qed

lemma length_fold_say_nmi: "length (fold say_nmi es cs) = length cs"
  by (induction es arbitrary: cs) simp_all

text \<open>
  C21. Parsing the table of interrupt controllers made of any entries gives what the entries say, in
  three passes: the room for as many processors and controllers as there are entries for them; the
  processors that are enabled, the controllers, the overrides and the address in the order of the
  entries; then the non-maskable interrupts of the processors. The room is never exceeded.
\<close>

theorem madt_round_trip:
  assumes "\<forall>e\<in>set es. wf_entry e" "length es < k" "length sign = 4" "length header = 28"
    "44 + length (concat (map encode es)) < 2 ^ 32"
  shows "parse_madt mk room k (madt_bytes sign header lic flags es rest) sources s =
      rbind (room (length (filter is_core es)) (length (filter (\<lambda>e. entry_type e = 1) es)) s) (\<lambda>s.
      rbind (each_entry (say_entry mk) es
        \<lparr>ma_cores = [], ma_ioapics = [], ma_sources = sources, ma_lic = ucast lic, ma_vm = s\<rparr>) (\<lambda>m.
      Inr (m\<lparr>ma_cores := fold say_nmi es (cores_of es)\<rparr>))) \<and>
    (\<forall>m. parse_madt mk room k (madt_bytes sign header lic flags es rest) sources s = Inr m \<longrightarrow>
      length (ma_cores m) \<le> length (filter is_core es) \<and>
      length (ma_ioapics m) = length (filter (\<lambda>e. entry_type e = 1) es))"
proof -
  define pre where "pre = sign @ bytes_of_word 4 (of_nat (44 + length (concat (map encode es))) :: u32) @ header @
     bytes_of_word 4 lic @ bytes_of_word 4 flags"
  define tb where "tb = madt_bytes sign header lic flags es rest"
  have tb: "tb = pre @ concat (map encode es) @ rest" by (simp add: tb_def pre_def madt_bytes_def)
  have pre: "length pre = 44" using assms(3,4) by (simp add: pre_def)
  have len: "get_le 4 tb 4 = Inr (of_nat (44 + length (concat (map encode es))) :: u32)"
    using assms(3,4) by (simp add: tb_def madt_bytes_def get_le_def)
  have "unat (of_nat (44 + length (concat (map encode es))) :: u32) = 44 + length (concat (map encode es))"
    using assms(5) by (simp only: unsigned_of_nat) (simp add: take_bit_nat_eq_self)
  note n = this [folded pre]
  have lic: "get_le 4 tb 36 = Inr lic"
    using assms(3,4) by (simp add: tb_def madt_bytes_def get_le_def)
  have w1: "madt_walk (\<lambda>off ty c. Inr (count_entry ty c)) k tb (length pre + length (concat (map encode es))) (length pre) (0, 0) =
      Inr (length (filter is_core es), length (filter (\<lambda>e. entry_type e = 1) es))"
    by (subst walk_encode [OF assms(1,2) refl tb]) (simp add: each_entry_pure fold_count)
  have w2: "madt_walk (parse_entry mk tb) k tb (length pre + length (concat (map encode es))) (length pre) m0 =
      each_entry (say_entry mk) es m0" for m0
    by (rule walk_encode [OF assms(1,2) _ tb], rule parse_entry_encode) (use assms(1) in blast)
  have w3: "madt_walk (parse_nmi tb) k tb (length pre + length (concat (map encode es))) (length pre) cs =
      Inr (fold say_nmi es cs)" for cs
    by (subst walk_encode [OF assms(1,2) _ tb, where g = "\<lambda>e s. Inr (say_nmi e s)"])
      (rule parse_nmi_encode, use assms(1) in blast, assumption, rule each_entry_pure)
  have eq: "parse_madt mk room k (madt_bytes sign header lic flags es rest) sources s =
      rbind (room (length (filter is_core es)) (length (filter (\<lambda>e. entry_type e = 1) es)) s) (\<lambda>s.
      rbind (each_entry (say_entry mk) es
        \<lparr>ma_cores = [], ma_ioapics = [], ma_sources = sources, ma_lic = ucast lic, ma_vm = s\<rparr>) (\<lambda>m.
      Inr (m\<lparr>ma_cores := fold say_nmi es (cores_of es)\<rparr>)))"
    unfolding parse_madt_def tb_def [symmetric] lic len rbind.simps n pre [symmetric] w1 prod.case w2 w3
    using say_entries_cores [of mk es] by (intro rbind_cong refl) force
  moreover have "length (ma_cores m) \<le> length (filter is_core es) \<and>
      length (ma_ioapics m) = length (filter (\<lambda>e. entry_type e = 1) es)"
    if "parse_madt mk room k (madt_bytes sign header lic flags es rest) sources s = Inr m" for m
    using that length_cores_of [of es] say_entries_ioapics [OF _ assms(1)] unfolding eq
    by (fastforce simp: length_fold_say_nmi)
  ultimately show ?thesis by blast
qed

text \<open>Two processors, of which one is disabled, a controller with 24 inputs and the usual override of the timer.\<close>

definition sample_entries :: "madt_entry list" where
  "sample_entries = [Local_Apic 0 0 1, Local_Apic 1 2 0, Io_Apic 2 0xFEC00000 0, Override 0 0 2 0, Local_Nmi 0xff 5 1]"

definition sample_ioapic :: "u32 \<Rightarrow> u32 \<Rightarrow> u64 \<Rightarrow> unit \<Rightarrow> (ioapic \<times> unit) result" where
  "sample_ioapic i base phys s = Inr (\<lparr>io_apic_id = i, io_base = base, io_size = 24, io_address = phys, io_global_nmi_vector = 0,
     io_global_nmi_flags = 0, io_valid = True, io_nmi_valid = False, io_select = 0, io_regs = (\<lambda>_. 0)\<rparr>, s)"

lemma madt_round_trip_witness:
  "\<exists>m. parse_madt sample_ioapic (\<lambda>_ _ s. Inr s) 6 (madt_bytes [0x41, 0x50, 0x49, 0x43] (replicate 28 0) 0xFEE00000 1 sample_entries [])
      (replicate 128 (ie_set 0 0 0)) () = Inr m \<and>
    ma_cores m = [core_set_nmi 1 5 (new_core 0 0 True)] \<and> length (ma_ioapics m) = 1 \<and> ma_lic m = 0xFEE00000 \<and>
    ma_sources m ! 0 = ie_set 0 2 0"
proof -
  have wf: "\<forall>e\<in>set sample_entries. wf_entry e" by (simp add: sample_entries_def wf_entry_def)
  have len: "44 + length (concat (map encode sample_entries)) < 2 ^ 32" by (simp add: sample_entries_def encode_def)
  have "length sample_entries < 6" "length [0x41, 0x50, 0x49, 0x43 :: u8] = 4" "length (replicate 28 (0 :: u8)) = 28"
    by (simp_all add: sample_entries_def)
  from madt_round_trip [OF wf this len, of sample_ioapic "\<lambda>_ _ s. Inr s" "0xFEE00000" 1 "[]" "replicate 128 (ie_set 0 0 0)" "()"]
  show ?thesis
    by (simp add: sample_entries_def sample_ioapic_def reserved_mode_def say_nmi_source_def set_global_nmi_def core_set_nmi_def new_core_def)
qed

text \<open>
  An override also makes its interrupt a non-maskable one: the controller in charge of it records the
  interrupt, with the bus and the source for flags.
\<close>

lemma override_is_nmi:
  "unat source < length (ma_sources s) \<Longrightarrow> reserved_mode fl = None \<Longrightarrow>
   say_entry mk (Override bus source v fl) s =
     say_entry mk (Nmi_Source (ucast bus OR push_bit 8 (ucast source)) v)
       (s\<lparr>ma_sources := (ma_sources s)[unat source := ie_set source v fl]\<rparr>)"
  by simp

text \<open>An entry of length zero keeps the loops where they are.\<close>

lemma madt_walk_zero:
  assumes "off < len" "get_le 1 tb off = Inr ty" "get_le 1 tb (off + 1) = Inr (0 :: u8)" "\<forall>s. \<exists>s'. f off ty s = Inr s'"
  shows "madt_walk f k tb len off s = Inl Spins_Forever"
proof (induction k arbitrary: s)
  case (Suc k)
  from assms(4) obtain s' where "f off ty s = Inr s'" by blast
  with Suc assms(1-3) show ?case by simp
qed simp

text \<open>
  A root pointer of the first version consists of 20 bytes whose sum is zero; the code also sums the
  sixteen bytes behind it, which need not be zero.
\<close>

lemma rsdp_version_1:
  assumes "map (\<lambda>i. mem (p + of_nat i)) [0..<8] = rsdp_signature" "checksum (map (\<lambda>i. mem (p + of_nat i)) [0..<20]) = 0"
  shows "validate_rsdp mem p \<longleftrightarrow> checksum (map (\<lambda>i. mem (p + of_nat i)) [20..<36]) = 0"
proof -
  have add: "fold (+) bs x = x + fold (+) bs (0 :: u8)" for bs x
  proof (induction bs arbitrary: x)
    case (Cons b bs)
    from Cons [of "b + x"] Cons [of b] show ?case by (simp add: ac_simps)
  qed simp
  let ?m = "\<lambda>i. mem (p + of_nat i)"
  have up: "[0..<36] = [0..<20] @ [20..<36]" using upt_add_eq_append [of 0 20 16] by (simp only: numeral_plus_numeral semiring_norm zero_le)
  have "checksum (xs @ ys) = checksum xs + checksum ys" for xs ys
    using add [of ys "checksum xs"] by (simp only: checksum_def fold_append comp_apply)
  note sum = this [of "map ?m [0..<20]" "map ?m [20..<36]"]
  have "checksum (map ?m [0..<36]) = checksum (map ?m [20..<36])"
    unfolding up map_append sum assms(2) by (rule add_0)
  with assms(1) show ?thesis unfolding validate_rsdp_def rsdp_size_def by (simp only: simp_thms)
qed

end
