(* ===== verification/Memory_Map.thy ===== *)
theory Memory_Map
  imports Frame_Stack
begin

text \<open>
  The memory map of the boot loader (\<open>loader/booter/memory/memmap.h\<close>, \<open>memmap.cpp\<close>, the first half
  of \<open>memory.cpp\<close>): an array of 512 entries with the number in use, kept ordered by base while the
  entries of the firmware are added in the order they come. Its entries are those the kernel
  reads later (\<open>map_entry\<close> of \<open>Frame_Stack\<close>, \<open>kernel/memory/map.h\<close>).
\<close>

section \<open>The array and its operations\<close>

record memory_map =
  mm_entries :: "map_entry list"
  mm_count :: nat

definition no_entry :: map_entry where
  "no_entry = \<lparr>me_base = 0, me_length = 0, me_type = 0, me_attribs = 0\<rparr>"

definition empty_map :: memory_map where
  "empty_map = \<lparr>mm_entries = replicate 512 no_entry, mm_count = 0\<rparr>"

definition me_end :: "map_entry \<Rightarrow> u64" where
  "me_end e = me_base e + me_length e"

definition covers :: "map_entry \<Rightarrow> u64 \<Rightarrow> bool" where
  "covers e a \<longleftrightarrow> me_base e \<le> a \<and> a < me_end e"

definition in_use :: "memory_map \<Rightarrow> map_entry list" where
  "in_use m = take (mm_count m) (mm_entries m)"

text \<open>The type of the first entry that holds the address decides.\<close>

definition usable :: "u64 \<Rightarrow> memory_map \<Rightarrow> bool" where
  "usable a m = (case List.find (\<lambda>e. covers e a) (in_use m) of None \<Rightarrow> False | Some e \<Rightarrow> me_type e = 1)"

text \<open>A pointer into the array is the index of the entry.\<close>

definition next_usable :: "u64 \<Rightarrow> memory_map \<Rightarrow> nat option" where
  "next_usable a m = List.find (\<lambda>i. a < me_base (mm_entries m ! i) \<and> me_type (mm_entries m ! i) = 1) [0..<mm_count m]"

text \<open>The loops of \<open>_expand\<close> (\<open>j\<close> counts down to \<open>i\<close>) and of \<open>_shrink\<close> (\<open>k\<close> iterations from \<open>i\<close> up).\<close>

fun shift_up :: "nat \<Rightarrow> nat \<Rightarrow> map_entry list \<Rightarrow> map_entry list" where
  "shift_up i 0 es = es"
| "shift_up i (Suc j) es = (if i < Suc j then shift_up i j (es[Suc j := es ! j]) else es)"

fun shift_down :: "nat \<Rightarrow> nat \<Rightarrow> map_entry list \<Rightarrow> map_entry list" where
  "shift_down 0 i es = es"
| "shift_down (Suc k) i es = shift_down k (Suc i) (es[i := es ! Suc i])"

definition mm_expand :: "nat \<Rightarrow> memory_map \<Rightarrow> memory_map result" where
  "mm_expand i m =
     (if mm_count m \<le> i then Inl (Panic ''Insane argument for _expand.'')
      else if 512 \<le> mm_count m + 1 then Inl (Panic ''Too much entries in memory map!'')
      else Inr (m\<lparr>mm_entries := shift_up i (mm_count m) (mm_entries m), mm_count := mm_count m + 1\<rparr>))"

definition mm_shrink :: "nat \<Rightarrow> memory_map \<Rightarrow> memory_map result" where
  "mm_shrink i m =
     (if mm_count m \<le> i then Inl (Panic ''Insane argument for _shrink.'')
      else if mm_count m = 0 then Inl (Panic ''Tried to shrink empty memory map!'')
      else Inr (m\<lparr>mm_entries := shift_down (mm_count m - 1 - i) i (mm_entries m), mm_count := mm_count m - 1\<rparr>))"

definition mm_set :: "nat \<Rightarrow> map_entry \<Rightarrow> memory_map \<Rightarrow> memory_map" where
  "mm_set i e m = m\<lparr>mm_entries := (mm_entries m)[i := e]\<rparr>"

section \<open>Adding an entry\<close>

text \<open>
  The entry is passed by reference and shortened in place, so the result holds it too. \<open>again\<close> is the
  recursive call. \<open>against\<close> is the body of the first loop: \<open>None\<close> goes on with the next index, \<open>Some\<close> is a
  \<open>return\<close>. The code after the two \<open>return\<close> statements of lines 207 and 246 is never reached.
\<close>

type_synonym added = "(map_entry \<times> memory_map) result"

definition against :: "(map_entry \<Rightarrow> memory_map \<Rightarrow> added) \<Rightarrow> nat \<Rightarrow> map_entry \<Rightarrow> memory_map \<Rightarrow> added option" where
  "against again i e m =
     (let x = mm_entries m ! i in
      if me_type e = me_type x \<and> me_base x \<le> me_base e \<and> me_end e \<le> me_end x then Some (Inr (e, m))
      else if me_type e = me_type x \<and> me_base e \<le> me_end x \<and> me_end x \<le> me_end e
      then Some (Inr (e, mm_set i (x\<lparr>me_length := me_length x + (me_base x - me_base e)\<rparr>) m))
      else if me_type e = me_type x \<and> me_base x \<le> me_end e \<and> me_end e \<le> me_end x
      then Some (Inr (e, mm_set i (x\<lparr>me_length := me_end x - me_base e, me_base := me_base e\<rparr>) m))
      else if me_base e < me_base x \<and> me_end x < me_end e then Some (Inr (e, m))
      else if me_base x \<le> me_base e \<and> me_end e \<le> me_end x
      then Some (if me_type e < me_type x then Inr (e, m)
        else let other = no_entry\<lparr>me_base := me_end e, me_length := me_end x - me_end e, me_type := me_type x\<rparr>;
                 another = no_entry\<lparr>me_base := me_base x, me_length := me_base e - me_base x, me_type := me_type x\<rparr> in
          rbind (mm_shrink i m) (\<lambda>m.
          rbind (again other m) (\<lambda>(_, m).
          rbind (again another m) (\<lambda>(_, m).
          again e m))))
      else if me_base x < me_base e \<and> me_base e < me_end x \<and> me_end x < me_end e then Some (Inr (e, m))
      else if me_base e < me_base x \<and> me_base x < me_end e \<and> me_end e < me_end x
      then Some (if me_type x < me_type e
        then again e (mm_set i (x\<lparr>me_base := me_end e, me_length := me_length x - (me_base x - me_end e)\<rparr>) m)
        else again (e\<lparr>me_length := me_base x - me_base e\<rparr>) m)
      else None)"

text \<open>The second loop, and the store after it.\<close>

definition goes_before :: "map_entry \<Rightarrow> map_entry list \<Rightarrow> nat \<Rightarrow> bool" where
  "goes_before e es i =
     (if i = 0 then me_base e < me_base (es ! 0)
      else me_base (es ! (i - 1)) < me_base e \<and> me_base e < me_base (es ! i))"

definition place_entry :: "map_entry \<Rightarrow> memory_map \<Rightarrow> added" where
  "place_entry e m = (case List.find (goes_before e (mm_entries m)) [0..<mm_count m] of
       Some i \<Rightarrow> rbind (mm_expand i m) (\<lambda>m. Inr (e, mm_set i e m))
     | None \<Rightarrow> if 512 \<le> mm_count m then Inl Out_Of_Bounds
               else Inr (e, (mm_set (mm_count m) e m)\<lparr>mm_count := mm_count m + 1\<rparr>))"

fun scan_entries :: "(map_entry \<Rightarrow> memory_map \<Rightarrow> added) \<Rightarrow> nat list \<Rightarrow> map_entry \<Rightarrow> memory_map \<Rightarrow> added" where
  "scan_entries again [] e m = place_entry e m"
| "scan_entries again (i # is) e m = (case against again i e m of
      None \<Rightarrow> scan_entries again is e m | Some r \<Rightarrow> r)"

text \<open>The depth of the recursion is bounded by the first argument.\<close>

fun add_entry :: "nat \<Rightarrow> map_entry \<Rightarrow> memory_map \<Rightarrow> added" where
  "add_entry 0 e m = Inl Spins_Forever"
| "add_entry (Suc k) e m =
     (if me_length e = 0 then Inr (e, m)
      else if mm_count m = 0 then Inr (e, (mm_set 0 e m)\<lparr>mm_count := 1\<rparr>)
      else scan_entries (add_entry k) [0..<mm_count m] e m)"

text \<open>The loop of \<open>memory::initialize\<close> over the firmware's map.\<close>

definition bios_entry :: "map_entry \<Rightarrow> map_entry" where
  "bios_entry e = (if 1 < me_type e then e\<lparr>me_type := me_type e + 4\<rparr> else e)"

fun add_bios_map :: "nat \<Rightarrow> map_entry list \<Rightarrow> memory_map \<Rightarrow> memory_map result" where
  "add_bios_map k [] m = Inr m"
| "add_bios_map k (e # es) m = rbind (add_entry k (bios_entry e) m) (\<lambda>(_, m). add_bios_map k es m)"

text \<open>
  \<open>find_last_usable\<close>: from the entry after the last one down, and the size is rounded up to pages
  with a page more when it is a multiple already.
\<close>

definition backwards_size :: "u32 \<Rightarrow> u32" where
  "backwards_size n = n + (4096 - n mod 4096)"

definition below_4g :: "u32 \<Rightarrow> map_entry \<Rightarrow> bool" where
  "below_4g n e \<longleftrightarrow> \<not> (ucast (0xFFFFFFFF - n :: u32) < me_base e \<or> me_type e \<noteq> 1)"

fun last_usable_from :: "u32 \<Rightarrow> nat list \<Rightarrow> memory_map \<Rightarrow> (u32 \<times> memory_map) result" where
  "last_usable_from n [] m = Inl (Panic ''call to find_last_usable failed.'')"
| "last_usable_from n (i # is) m =
     (if 512 \<le> i then Inl Out_Of_Bounds
      else let x = mm_entries m ! i in
        if below_4g n x \<and> me_length x = ucast n then Inr (ucast (me_base x), m)
        else if below_4g n x \<and> ucast n < me_length x
        then Inr (ucast (me_base x + (me_length x - ucast n)), mm_set i (x\<lparr>me_length := me_length x - ucast n\<rparr>) m)
        else last_usable_from n is m)"

definition find_last_usable :: "u32 \<Rightarrow> memory_map \<Rightarrow> (u32 \<times> memory_map) result" where
  "find_last_usable n m = last_usable_from (backwards_size n) (rev [0..<Suc (mm_count m)]) m"

text \<open>The pointer given goes on to the entry after the new one.\<close>

definition allocate_empty_entry :: "nat \<Rightarrow> memory_map \<Rightarrow> (nat \<times> nat \<times> memory_map) result" where
  "allocate_empty_entry i m =
     rbind (mm_expand i m) (\<lambda>m.
     Inr (i, Suc i, mm_set i ((mm_entries m ! i)\<lparr>me_base := me_base (mm_entries m ! Suc i), me_length := 0,
       me_attribs := 0\<rparr>) m))"

end
