(* ===== verification/Memory_Map_Add.thy ===== *)
theory Memory_Map_Add
  imports Memory_Map
begin

text \<open>
  Adding entries to the boot loader's memory map. The map stands for the partial function from
  addresses to types; on entries that lie apart from those present, or inside one of them, adding
  one overrides that function, and the array stays ordered.
\<close>

section \<open>The array as a list\<close>

definition holds :: "memory_map \<Rightarrow> map_entry list \<Rightarrow> bool" where
  "holds m es \<longleftrightarrow> (\<exists>d. mm_entries m = es @ d \<and> length (es @ d) = 512 \<and> mm_count m = length es)"

lemma holds_in_use: "holds m es \<Longrightarrow> in_use m = es"
  by (auto simp: holds_def in_use_def)

lemma holds_count: "holds m es \<Longrightarrow> mm_count m = length es"
  by (auto simp: holds_def)

lemma holds_nth: "holds m es \<Longrightarrow> i < length es \<Longrightarrow> mm_entries m ! i = es ! i"
  by (auto simp: holds_def nth_append)

lemma holds_set: "holds m es \<Longrightarrow> i < length es \<Longrightarrow> holds (mm_set i e m) (es[i := e])"
  by (auto simp: holds_def mm_set_def list_update_append)

lemma holds_empty: "holds empty_map []"
  by (simp add: holds_def empty_map_def)

lemma shift_up_insert:
  "(shift_up (length a) (length (a @ b)) (a @ b @ c # d))[length a := e] = a @ e # b @ d"
proof (induction b arbitrary: c d rule: rev_induct)
  case Nil
  show ?case by (cases a) auto
next
  case (snoc x b)
  have "(a @ (b @ [x]) @ c # d)[Suc (length (a @ b)) := (a @ (b @ [x]) @ c # d) ! length (a @ b)] = a @ b @ x # x # d"
    by (simp add: list_update_append nth_append)
  moreover have "length (a @ b @ [x]) = Suc (length (a @ b))" by simp
  ultimately show ?case using snoc [of x "x # d"] by (simp only: shift_up.simps) simp
qed

lemma shift_down_delete:
  "\<exists>d'. shift_down (length b) (length a) (a @ x # b @ d) = a @ b @ d' \<and> length d' = Suc (length d)"
proof (induction b arbitrary: a x)
  case (Cons y b)
  have "(a @ x # y # b @ d)[length a := (a @ x # y # b @ d) ! Suc (length a)] = (a @ [y]) @ y # b @ d"
    by (simp add: nth_append)
  moreover obtain d' where "shift_down (length b) (length (a @ [y])) ((a @ [y]) @ y # b @ d) = (a @ [y]) @ b @ d'"
    "length d' = Suc (length d)" using Cons [of "a @ [y]" y] by blast
  ultimately show ?case by auto
qed simp

lemma holds_expand:
  assumes h: "holds m (a @ b)" and room: "length (a @ b) + 1 < 512" and b: "b \<noteq> []"
  shows "\<exists>m'. mm_expand (length a) m = Inr m' \<and> holds (mm_set (length a) e m') (a @ e # b)"
proof -
  from h obtain d where d: "mm_entries m = a @ b @ d" "length (a @ b @ d) = 512" "mm_count m = length (a @ b)"
    by (auto simp: holds_def)
  with room obtain c d' where c: "d = c # d'" by (cases d) auto
  from shift_up_insert [of a b c d' e] d c room b show ?thesis
    by (auto simp: mm_expand_def holds_def mm_set_def)
qed

lemma holds_shrink:
  assumes "holds m (a @ x # b)"
  shows "\<exists>m'. mm_shrink (length a) m = Inr m' \<and> holds m' (a @ b)"
proof -
  from assms obtain d where d: "mm_entries m = a @ x # b @ d" "length (a @ x # b @ d) = 512"
    "mm_count m = length (a @ x # b)" by (auto simp: holds_def)
  have n: "mm_count m - 1 - length a = length b" using d(3) by simp
  from shift_down_delete [of b a x d] obtain d' where
    s: "shift_down (length b) (length a) (a @ x # b @ d) = a @ b @ d'" "length d' = Suc (length d)" by blast
  with d n show ?thesis by (auto simp: mm_shrink_def holds_def)
qed

section \<open>Ordered maps\<close>

definition entry_ok :: "map_entry \<Rightarrow> bool" where
  "entry_ok e \<longleftrightarrow> me_base e < me_end e"

lemma entry_ok_length: "entry_ok e \<Longrightarrow> me_length e \<noteq> 0"
  by (auto simp: entry_ok_def me_end_def)

text \<open>One entry ends before another begins; entries of one type have a gap between them.\<close>

definition before :: "map_entry \<Rightarrow> map_entry \<Rightarrow> bool" where
  "before x y \<longleftrightarrow> me_end x \<le> me_base y \<and> (me_type x = me_type y \<longrightarrow> me_end x < me_base y)"

definition map_ok :: "map_entry list \<Rightarrow> bool" where
  "map_ok es \<longleftrightarrow> list_all entry_ok es \<and> sorted_wrt before es"

definition apart :: "map_entry \<Rightarrow> map_entry \<Rightarrow> bool" where
  "apart e x \<longleftrightarrow> before e x \<or> before x e"

definition inside :: "map_entry \<Rightarrow> map_entry \<Rightarrow> bool" where
  "inside e x \<longleftrightarrow> me_base x \<le> me_base e \<and> me_end e \<le> me_end x"

lemma before_base: "entry_ok x \<Longrightarrow> before x y \<Longrightarrow> me_base x < me_base y"
  by (auto simp: entry_ok_def before_def intro: less_le_trans)

lemma before_trans:
  assumes "entry_ok x" "before e x" "before x y"
  shows "before e y"
proof -
  have "me_end e \<le> me_base x" "me_base x < me_end x" "me_end x \<le> me_base y"
    using assms by (auto simp: entry_ok_def before_def)
  then have "me_end e < me_base y" by order
  then show ?thesis by (simp add: before_def less_imp_le)
qed

lemma map_ok_append:
  "map_ok (a @ b) \<longleftrightarrow> map_ok a \<and> map_ok b \<and> (\<forall>x\<in>set a. \<forall>y\<in>set b. before x y)"
  by (auto simp: map_ok_def sorted_wrt_append)

lemma map_ok_Cons: "map_ok (x # b) \<longleftrightarrow> entry_ok x \<and> map_ok b \<and> (\<forall>y\<in>set b. before x y)"
  by (auto simp: map_ok_def)

lemma map_ok_entry: "map_ok es \<Longrightarrow> x \<in> set es \<Longrightarrow> entry_ok x"
  by (auto simp: map_ok_def list_all_iff)

lemma map_ok_Nil [simp]: "map_ok []"
  by (simp add: map_ok_def)

text \<open>An entry apart from all falls between two halves of the map.\<close>

lemma apart_split:
  assumes "map_ok es" "entry_ok e" "\<forall>x\<in>set es. apart e x"
  shows "\<exists>a b. es = a @ b \<and> (\<forall>x\<in>set a. before x e) \<and> (\<forall>x\<in>set b. before e x) \<and> map_ok (a @ e # b) \<and>
    insort_key me_base e es = a @ e # b"
  using assms
proof (induction es)
  case Nil
  then show ?case by (simp add: map_ok_Cons)
next
  case (Cons x es)
  then have x: "entry_ok x" "map_ok es" "\<forall>y\<in>set es. before x y" "apart e x" by (auto simp: map_ok_Cons)
  show ?case
  proof (cases "before e x")
    case True
    have "before e y" if "y \<in> set es" for y
      using before_trans [OF x(1) True] x(3) that by blast
    moreover have "me_base e \<le> me_base x" using before_base [OF Cons.prems(2) True] by simp
    ultimately show ?thesis using True Cons.prems by (intro exI [of _ "[]"] exI [of _ "x # es"]) (simp add: map_ok_Cons)
  next
    case False
    with x(4) have bx: "before x e" by (simp add: apart_def)
    from Cons.IH Cons.prems x(2) obtain a b where ab: "es = a @ b" "\<forall>x\<in>set a. before x e" "\<forall>x\<in>set b. before e x"
      "map_ok (a @ e # b)" "insort_key me_base e es = a @ e # b" by auto
    have "\<not> me_base e \<le> me_base x" using before_base [OF x(1) bx] by simp
    with ab bx x show ?thesis by (intro exI [of _ "x # a"] exI [of _ b]) (auto simp: map_ok_Cons)
  qed
qed


section \<open>One entry against another\<close>

lemma against_apart:
  assumes "entry_ok e" "entry_ok (mm_entries m ! i)" "apart e (mm_entries m ! i)"
  shows "against again i e m = None"
proof -
  let ?x = "mm_entries m ! i"
  from assms(3) consider "before e ?x" | "before ?x e" by (auto simp: apart_def)
  then show ?thesis
  proof cases
    case 1
    then have o: "me_base e < me_end e" "me_base ?x < me_end ?x" "me_end e \<le> me_base ?x"
      using assms(1,2) by (auto simp: entry_ok_def before_def)
    then have "\<not> me_base ?x \<le> me_base e" "\<not> me_end ?x \<le> me_end e" "\<not> me_end ?x < me_end e"
      "\<not> me_base ?x < me_base e" "\<not> me_base ?x < me_end e" by order+
    moreover have "\<not> (me_type e = me_type ?x \<and> me_base ?x \<le> me_end e)" using 1 by (auto simp: before_def)
    ultimately show ?thesis unfolding against_def Let_def by (simp only: if_False conj_assoc de_Morgan_conj) auto
  next
    case 2
    then have o: "me_base e < me_end e" "me_base ?x < me_end ?x" "me_end ?x \<le> me_base e"
      using assms(1,2) by (auto simp: entry_ok_def before_def)
    then have "\<not> me_end e \<le> me_end ?x" "\<not> me_base e < me_base ?x" "\<not> me_base e < me_end ?x" by order+
    moreover have "\<not> (me_type e = me_type ?x \<and> me_base e \<le> me_end ?x)" using 2 by (auto simp: before_def)
    ultimately show ?thesis unfolding against_def Let_def by (simp only: if_False conj_assoc de_Morgan_conj) auto
  qed
qed

lemma scan_apart:
  assumes "holds m es" "entry_ok e" "\<forall>i\<in>set is. i < length es \<and> entry_ok (es ! i) \<and> apart e (es ! i)"
  shows "scan_entries again (is @ js) e m = scan_entries again js e m"
  using assms(3)
proof (induction "is")
  case (Cons i "is")
  then have "against again i e m = None"
    using assms(1,2) by (intro against_apart) (simp_all add: holds_nth)
  with Cons show ?case by simp
qed simp

lemma place_entry_between:
  assumes h: "holds m (a @ b)" and room: "length (a @ b) + 1 < 512" and ok: "map_ok (a @ e # b)"
  shows "\<exists>m'. place_entry e m = Inr (e, m') \<and> holds m' (a @ e # b)"
proof -
  have ba: "\<forall>x\<in>set a. me_base x < me_base e" and bb: "\<forall>x\<in>set b. me_base e < me_base x"
    using ok before_base by (auto simp: map_ok_append map_ok_Cons map_ok_entry)
  have n: "mm_count m = length (a @ b)" using h by (rule holds_count)
  have below: "\<not> goes_before e (mm_entries m) i" if "i < length a" for i
  proof -
    have "me_base ((a @ b) ! i) < me_base e" using ba that by (simp add: nth_append)
    then show ?thesis using that holds_nth [OF h, of i] by (auto simp: goes_before_def)
  qed
  show ?thesis
  proof (cases b)
    case (Cons x b')
    have "goes_before e (mm_entries m) (length a)"
    proof -
      have x: "mm_entries m ! length a = x" using holds_nth [OF h, of "length a"] Cons by simp
      have "me_base (mm_entries m ! (length a - 1)) < me_base e" if "a \<noteq> []"
      proof -
        have "length a - 1 < length a" using that by simp
        then show ?thesis using holds_nth [OF h, of "length a - 1"] ba by (simp add: nth_append)
      qed
      then show ?thesis using x bb Cons by (auto simp: goes_before_def)
    qed
    then have "List.find (goes_before e (mm_entries m)) [0..<mm_count m] = Some (length a)"
      unfolding find_Some_iff using below n Cons by (auto intro!: exI [of _ "length a"] simp del: upt_Suc)
    then show ?thesis using holds_expand [OF h room, of e] Cons by (auto simp: place_entry_def)
  next
    case Nil
    then have "List.find (goes_before e (mm_entries m)) [0..<mm_count m] = None"
      unfolding find_None_iff using below n by (auto simp del: upt_Suc)
    moreover from h obtain d where d: "mm_entries m = a @ d" "length (a @ d) = 512" using Nil by (auto simp: holds_def)
    with room obtain c d' where "d = c # d'" by (cases d) auto
    ultimately show ?thesis using d n room Nil by (auto simp: place_entry_def holds_def mm_set_def)
  qed
qed

text \<open>An entry that falls between two halves of the map is put there.\<close>

lemma add_between:
  assumes h: "holds m (a @ b)" and ok: "map_ok (a @ e # b)" and room: "length (a @ b) + 1 < 512"
  shows "\<exists>m'. add_entry (Suc k) e m = Inr (e, m') \<and> holds m' (a @ e # b)"
proof -
  have e: "entry_ok e" "map_ok (a @ b)" and ap: "\<forall>x\<in>set (a @ b). apart e x"
    using ok by (auto simp: map_ok_append map_ok_Cons apart_def)
  show ?thesis
  proof (cases "a @ b = []")
    case True
    then obtain d where d: "mm_entries m = d" "length d = 512" "mm_count m = 0" using h by (auto simp: holds_def)
    then obtain c d' where "d = c # d'" by (cases d) auto
    with True d entry_ok_length [OF e(1)] show ?thesis by (auto simp: holds_def mm_set_def)
  next
    case False
    have "\<forall>i\<in>set [0..<mm_count m]. i < length (a @ b) \<and> entry_ok ((a @ b) ! i) \<and> apart e ((a @ b) ! i)"
      using e(2) ap holds_count [OF h] nth_mem [of _ "a @ b"] by (auto intro: map_ok_entry simp del: length_append)
    from scan_apart [OF h e(1) this, of _ "[]"]
    have "scan_entries (add_entry k) [0..<mm_count m] e m = place_entry e m" by simp
    with place_entry_between [OF h room ok] False entry_ok_length [OF e(1)] holds_count [OF h] show ?thesis by auto
  qed
qed

section \<open>An entry inside another\<close>

definition piece :: "u64 \<Rightarrow> u64 \<Rightarrow> u32 \<Rightarrow> map_entry list" where
  "piece lo hi t = (if lo < hi then [no_entry\<lparr>me_base := lo, me_length := hi - lo, me_type := t\<rparr>] else [])"

lemma piece_simps [simp]:
  "me_base (no_entry\<lparr>me_base := lo, me_length := hi - lo, me_type := t\<rparr>) = lo"
  "me_end (no_entry\<lparr>me_base := lo, me_length := hi - lo, me_type := t\<rparr>) = hi"
  "me_type (no_entry\<lparr>me_base := lo, me_length := hi - lo, me_type := t\<rparr>) = t"
  by (simp_all add: me_end_def)

lemma add_piece:
  assumes "holds m (a @ b)" "map_ok (a @ piece lo hi t @ b)" "length (a @ b) + 1 < 512" "lo \<le> hi"
  shows "\<exists>m'. add_entry (Suc k) (no_entry\<lparr>me_base := lo, me_length := hi - lo, me_type := t\<rparr>) m =
    Inr (no_entry\<lparr>me_base := lo, me_length := hi - lo, me_type := t\<rparr>, m') \<and> holds m' (a @ piece lo hi t @ b)"
proof (cases "lo < hi")
  case True
  with add_between [OF assms(1) _ assms(3)] assms(2) show ?thesis by (simp add: piece_def del: add_entry.simps)
next
  case False
  with assms(1,4) show ?thesis by (auto simp: piece_def)
qed

definition carve :: "map_entry list \<Rightarrow> map_entry \<Rightarrow> map_entry list \<Rightarrow> map_entry \<Rightarrow> map_entry list" where
  "carve a x b e = a @ piece (me_base x) (me_base e) (me_type x) @ e # piece (me_end e) (me_end x) (me_type x) @ b"

lemma in_piece: "p \<in> set (piece lo hi t) \<Longrightarrow> me_base p = lo \<and> me_end p = hi \<and> me_type p = t \<and> lo < hi"
  by (auto simp: piece_def split: if_splits)

lemma map_ok_piece: "map_ok (piece lo hi t)"
  by (auto simp: piece_def map_ok_Cons entry_ok_def)

lemma inside_between:
  assumes ok: "map_ok (a @ x # b)" "entry_ok e" "inside e x" "\<forall>y\<in>set (a @ b). apart e y"
  shows "\<forall>y\<in>set a. before y e" "\<forall>y\<in>set b. before e y"
proof -
  have e: "me_base x \<le> me_base e" "me_base e < me_end e" "me_end e \<le> me_end x"
    using ok(2,3) by (auto simp: inside_def entry_ok_def)
  have "\<not> before e y" if "y \<in> set a" for y
  proof
    assume "before e y"
    then have "me_end e \<le> me_base y" by (simp add: before_def)
    moreover have "me_base y < me_end y" "me_end y \<le> me_base x"
      using ok(1) that by (auto simp: map_ok_append map_ok_Cons entry_ok_def before_def dest: map_ok_entry)
    ultimately show False using e by order
  qed
  then show "\<forall>y\<in>set a. before y e" using ok(4) by (auto simp: apart_def)
  have "\<not> before y e" if "y \<in> set b" for y
  proof
    assume "before y e"
    then have "me_end y \<le> me_base e" by (simp add: before_def)
    moreover have "me_base y < me_end y" "me_end x \<le> me_base y"
      using ok(1) that by (auto simp: map_ok_append map_ok_Cons entry_ok_def before_def dest: map_ok_entry)
    ultimately show False using e by order
  qed
  then show "\<forall>y\<in>set b. before e y" using ok(4) by (auto simp: apart_def)
qed

lemma map_ok_carve:
  assumes ok: "map_ok (a @ x # b)" "entry_ok e" "inside e x" "\<forall>y\<in>set (a @ b). apart e y" and t: "me_type x \<noteq> me_type e"
  shows "map_ok (carve a x b e)" "map_ok (a @ piece (me_end e) (me_end x) (me_type x) @ b)"
    "map_ok (a @ piece (me_base x) (me_base e) (me_type x) @ piece (me_end e) (me_end x) (me_type x) @ b)"
proof -
  let ?l = "piece (me_base x) (me_base e) (me_type x)" and ?r = "piece (me_end e) (me_end x) (me_type x)"
  have e: "me_base x \<le> me_base e" "me_base e < me_end e" "me_end e \<le> me_end x"
    using ok(2,3) by (auto simp: inside_def entry_ok_def)
  have ax: "before y x" "before y e" if "y \<in> set a" for y
    using ok(1) that inside_between(1) [OF ok] by (auto simp: map_ok_append)
  have bx: "before x y" "before e y" if "y \<in> set b" for y
    using ok(1) that inside_between(2) [OF ok] by (auto simp: map_ok_append map_ok_Cons)
  have ab: "map_ok a" "map_ok b" "\<forall>y\<in>set a. \<forall>z\<in>set b. before y z" using ok(1) by (auto simp: map_ok_append map_ok_Cons)
  have l: "before y p" if "y \<in> set a" "p \<in> set ?l" for y p
    using ax(1) [OF that(1)] in_piece [OF that(2)] by (simp add: before_def)
  have r: "before p y" if "y \<in> set b" "p \<in> set ?r" for y p
    using bx(1) [OF that(1)] in_piece [OF that(2)] by (simp add: before_def)
  have l': "before p y" if "y \<in> set b" "p \<in> set ?l" for y p
  proof -
    have "me_end p = me_base e" "me_end x \<le> me_base y"
      using in_piece [OF that(2)] bx(1) [OF that(1)] by (simp_all add: before_def)
    with e have "me_end p < me_base y" by order
    then show ?thesis by (simp add: before_def less_imp_le)
  qed
  have r': "before y p" if "y \<in> set a" "p \<in> set ?r" for y p
  proof -
    have "me_base p = me_end e" "me_end y \<le> me_base x"
      using in_piece [OF that(2)] ax(1) [OF that(1)] by (simp_all add: before_def)
    with e have "me_end y < me_base p" by order
    then show ?thesis by (simp add: before_def less_imp_le)
  qed
  have lr: "before p q" if "p \<in> set ?l" "q \<in> set ?r" for p q
    using in_piece [OF that(1)] in_piece [OF that(2)] e by (simp add: before_def)
  have le: "before p e" if "p \<in> set ?l" for p using in_piece [OF that] t by (simp add: before_def)
  have er: "before e p" if "p \<in> set ?r" for p using in_piece [OF that] t by (simp add: before_def)
  show "map_ok (a @ ?r @ b)" "map_ok (a @ ?l @ ?r @ b)"
    using ab l r l' r' lr map_ok_piece by (auto simp: map_ok_append)
  then show "map_ok (carve a x b e)"
    using ab ax bx l r l' r' lr le er ok(2) by (auto simp: carve_def map_ok_append map_ok_Cons)
qed


lemma scan_reaches:
  assumes h: "holds m (a @ x # b)" and ok: "map_ok (a @ x # b)" "entry_ok e" "\<forall>y\<in>set a. apart e y"
    and r: "against (add_entry k) (length a) e m = Some r"
  shows "add_entry (Suc k) e m = r"
proof -
  have n: "mm_count m = length (a @ x # b)" using h by (rule holds_count)
  have "[0..<mm_count m] = [0..<length a] @ length a # [Suc (length a)..<mm_count m]"
    unfolding n using upt_add_eq_append [of 0 "length a" "Suc (length b)"] by (simp add: upt_conv_Cons del: upt_Suc)
  moreover have "entry_ok (a ! i)" "apart e (a ! i)" if "i < length a" for i
    using map_ok_entry [OF ok(1), of "a ! i"] ok(3) nth_mem [OF that] by auto
  then have "\<forall>i\<in>set [0..<length a]. i < length (a @ x # b) \<and> entry_ok ((a @ x # b) ! i) \<and> apart e ((a @ x # b) ! i)"
    by (simp add: nth_append)
  note scan_apart [OF h ok(2) this]
  ultimately have "scan_entries (add_entry k) [0..<mm_count m] e m = r" using r by simp
  with entry_ok_length [OF ok(2)] n show ?thesis by simp
qed

lemma add_inside:
  assumes h: "holds m (a @ x # b)" and room: "length (a @ x # b) + 2 < 512"
    and ok: "map_ok (a @ x # b)" "entry_ok e" "inside e x" "\<forall>y\<in>set (a @ b). apart e y"
  shows "\<exists>m'. add_entry (Suc (Suc k)) e m = Inr (e, m') \<and>
    holds m' (if me_type x < me_type e then carve a x b e else a @ x # b)"
proof -
  have x: "mm_entries m ! length a = x" using holds_nth [OF h, of "length a"] by simp
  have e: "me_base x \<le> me_base e" "me_base e < me_end e" "me_end e \<le> me_end x"
    using ok(2,3) by (auto simp: inside_def entry_ok_def)
  let ?l = "no_entry\<lparr>me_base := me_base x, me_length := me_base e - me_base x, me_type := me_type x\<rparr>"
  let ?r = "no_entry\<lparr>me_base := me_end e, me_length := me_end x - me_end e, me_type := me_type x\<rparr>"
  let ?pl = "piece (me_base x) (me_base e) (me_type x)" and ?pr = "piece (me_end e) (me_end x) (me_type x)"
  have no: "\<not> me_base e < me_base x" "\<not> me_end x < me_end e" using e by order+
  show ?thesis
  proof (cases "me_type x < me_type e")
    case False
    have "against (add_entry (Suc k)) (length a) e m = Some (Inr (e, m))"
      using False e no ok(3) unfolding against_def Let_def x inside_def
      by (cases "me_type e = me_type x") (simp_all add: antisym_conv3)
    from scan_reaches [OF h ok(1,2) _ this] ok(4) h False show ?thesis by (simp del: add_entry.simps)
  next
    case True
    then have t: "me_type x \<noteq> me_type e" "\<not> me_type e < me_type x" by order+
    note C = map_ok_carve [OF ok t(1)]
    from holds_shrink [OF h] obtain m1 where m1: "mm_shrink (length a) m = Inr m1" "holds m1 (a @ b)" by blast
    have room': "length (a @ b) + 1 < 512" "length (a @ ?pr @ b) + 1 < 512" "length ((a @ ?pl) @ ?pr @ b) + 1 < 512"
      using room by (auto simp: piece_def)
    from add_piece [OF m1(2) C(2) room'(1) e(3)] obtain m2 where
      m2: "add_entry (Suc k) ?r m1 = Inr (?r, m2)" "holds m2 (a @ ?pr @ b)" by blast
    from add_piece [OF m2(2) C(3) room'(2) e(1)] obtain m3 where
      m3: "add_entry (Suc k) ?l m2 = Inr (?l, m3)" "holds m3 (a @ ?pl @ ?pr @ b)" by blast
    from add_between [of m3 "a @ ?pl" "?pr @ b" e k] m3(2) C(1) room'(3) obtain m4 where
      m4: "add_entry (Suc k) e m3 = Inr (e, m4)" "holds m4 (carve a x b e)" by (auto simp: carve_def)
    have "against (add_entry (Suc k)) (length a) e m = Some (Inr (e, m4))"
      using t e no m1(1) m2(1) m3(1) m4(1) ok(3) unfolding against_def Let_def x inside_def
      by (simp del: add_entry.simps)
    from scan_reaches [OF h ok(1,2) _ this] ok(4) m4(2) True show ?thesis by (simp del: add_entry.simps)
  qed
qed

section \<open>The map as a function from addresses to types\<close>

definition type_at :: "memory_map \<Rightarrow> u64 \<Rightarrow> u32 option" where
  "type_at m a = map_option me_type (List.find (\<lambda>e. covers e a) (in_use m))"

lemma usable_type: "usable a m \<longleftrightarrow> type_at m a = Some 1"
  by (simp add: usable_def type_at_def split: option.splits)

definition memory_map_ok :: "memory_map \<Rightarrow> bool" where
  "memory_map_ok m \<longleftrightarrow> holds m (in_use m) \<and> map_ok (in_use m)"

lemma memory_map_okI: "holds m es \<Longrightarrow> map_ok es \<Longrightarrow> memory_map_ok m"
  by (simp add: memory_map_ok_def holds_in_use)

lemma option_eqI: "(\<And>t. x = Some t \<longleftrightarrow> y = Some t) \<Longrightarrow> x = y"
  by (metis option.exhaust)

lemma covers_unique:
  assumes "map_ok es" "x \<in> set es" "y \<in> set es" "covers x a" "covers y a"
  shows "x = y"
proof -
  have "\<not> before u v" if "covers u a" "covers v a" for u v
  proof
    assume "before u v"
    then have "me_end u \<le> me_base v" by (simp add: before_def)
    with that show False by (auto simp: covers_def)
  qed
  with assms show ?thesis
    by (induction es) (auto simp: map_ok_Cons)
qed

lemma find_covers:
  assumes "map_ok es"
  shows "map_option me_type (List.find (\<lambda>e. covers e a) es) = Some t \<longleftrightarrow> (\<exists>x\<in>set es. covers x a \<and> me_type x = t)"
proof (cases "List.find (\<lambda>e. covers e a) es")
  case None
  then have "\<forall>x\<in>set es. \<not> covers x a" by (simp add: find_None_iff)
  with None show ?thesis by simp
next
  case (Some y)
  then have "y \<in> set es" "covers y a" by (auto simp: find_Some_iff)
  with Some covers_unique [OF assms] show ?thesis by auto
qed

lemma type_at_iff:
  "holds m es \<Longrightarrow> map_ok es \<Longrightarrow> type_at m a = Some t \<longleftrightarrow> (\<exists>x\<in>set es. covers x a \<and> me_type x = t)"
  by (simp only: type_at_def holds_in_use find_covers)

text \<open>An address that an entry claims: it is in the entry, and free or of a type that gives way.\<close>

definition claims :: "map_entry \<Rightarrow> u32 option \<Rightarrow> u64 \<Rightarrow> bool" where
  "claims e t a \<longleftrightarrow> covers e a \<and> (case t of None \<Rightarrow> True | Some t \<Rightarrow> t \<le> me_type e)"

definition override :: "map_entry \<Rightarrow> (u64 \<Rightarrow> u32 option) \<Rightarrow> u64 \<Rightarrow> u32 option" where
  "override e T a = (if claims e (T a) a then Some (me_type e) else T a)"

definition fits :: "map_entry \<Rightarrow> memory_map \<Rightarrow> bool" where
  "fits e m \<longleftrightarrow> entry_ok e \<and> list_all (\<lambda>x. apart e x \<or> inside e x) (in_use m)"


lemma fits_cases:
  assumes ok: "map_ok es" and e: "entry_ok e" and f: "list_all (\<lambda>x. apart e x \<or> inside e x) es"
  obtains "\<forall>x\<in>set es. apart e x"
    | a x b where "es = a @ x # b" "inside e x" "\<forall>y\<in>set (a @ b). apart e y"
proof (cases "\<forall>x\<in>set es. apart e x")
  case False
  then obtain x where x: "x \<in> set es" "\<not> apart e x" by blast
  with f have i: "inside e x" by (auto simp: list_all_iff)
  from x(1) obtain a b where es: "es = a @ x # b" by (auto dest: split_list)
  have "apart e y" if "y \<in> set (a @ b)" for y
  proof (rule ccontr)
    assume "\<not> apart e y"
    with that f es have "inside e y" by (auto simp: list_all_iff)
    moreover have "before x y \<or> before y x" using ok that es by (auto simp: map_ok_append map_ok_Cons)
    ultimately have "me_end e \<le> me_base e" using i unfolding inside_def before_def by (elim disjE conjE) order+
    with e show False by (simp add: entry_ok_def)
  qed
  with es i that(2) show ?thesis by blast
qed (use that in blast)

lemma covers_piece: "(\<exists>p\<in>set (piece lo hi t). covers p y \<and> me_type p = u) \<longleftrightarrow> lo \<le> y \<and> y < hi \<and> u = t"
  by (auto simp: piece_def covers_def)

lemma apart_covers:
  assumes "apart e x" "covers e y"
  shows "\<not> covers x y"
proof
  assume "covers x y"
  with assms(2) have "me_base x \<le> y" "y < me_end x" "me_base e \<le> y" "y < me_end e" by (auto simp: covers_def)
  moreover have "me_end e \<le> me_base x \<or> me_end x \<le> me_base e" using assms(1) by (auto simp: apart_def before_def)
  ultimately show False by (elim disjE) order+
qed

lemma type_at_insert:
  assumes "holds m es" "map_ok es" "holds m' (a @ e # b)" "map_ok (a @ e # b)" "es = a @ b"
  shows "type_at m' = override e (type_at m)"
proof
  fix y
  have ap: "apart e x" if "x \<in> set es" for x using assms(4,5) that by (auto simp: map_ok_append map_ok_Cons apart_def)
  show "type_at m' y = override e (type_at m) y"
  proof (cases "covers e y")
    case True
    then have "\<forall>x\<in>set es. \<not> covers x y" using ap apart_covers by blast
    then have "type_at m y \<noteq> Some t" for t using type_at_iff [OF assms(1,2), of y t] by blast
    then have "type_at m y = None" by (metis not_None_eq)
    moreover have "type_at m' y = Some (me_type e)" using True type_at_iff [OF assms(3,4)] by auto
    ultimately show ?thesis using True by (simp add: override_def claims_def)
  next
    case False
    have "type_at m' y = Some t \<longleftrightarrow> type_at m y = Some t" for t
      unfolding type_at_iff [OF assms(3,4)] type_at_iff [OF assms(1,2)] using False assms(5) by auto
    then have "type_at m' y = type_at m y" by (rule option_eqI)
    with False show ?thesis by (simp add: override_def claims_def)
  qed
qed

lemma type_at_inside:
  assumes m: "holds m (a @ x # b)" "map_ok (a @ x # b)"
    and e: "entry_ok e" "inside e x" "\<forall>y\<in>set (a @ b). apart e y"
    and m': "holds m' (if me_type x < me_type e then carve a x b e else a @ x # b)"
  shows "type_at m' = override e (type_at m)"
proof
  fix y
  have ty: "type_at m y = Some (me_type x)" if "covers x y" using that type_at_iff [OF m] by auto
  have ex: "covers x y" if "covers e y" using that e(2) by (auto simp: covers_def inside_def)
  show "type_at m' y = override e (type_at m) y"
  proof (cases "me_type x < me_type e")
    case False
    then have h': "holds m' (a @ x # b)" using m' by simp
    have "type_at m' y = type_at m y"
      by (rule option_eqI) (simp only: type_at_iff [OF h' m(2)] type_at_iff [OF m])
    with False ty ex show ?thesis by (auto simp: override_def claims_def)
  next
    case True
    then have m': "holds m' (carve a x b e)" "map_ok (carve a x b e)"
      using m' map_ok_carve(1) [OF m(2) e] by auto
    show ?thesis
    proof (cases "covers e y")
      case c: True
      then have "type_at m' y = Some (me_type e)" using type_at_iff [OF m'] by (auto simp: carve_def)
      with True ty ex c show ?thesis by (auto simp: override_def claims_def)
    next
      case c: False
      have "covers x y \<longleftrightarrow> me_base x \<le> y \<and> y < me_base e \<or> me_end e \<le> y \<and> y < me_end x"
      proof -
        have "me_base x \<le> me_base e" "me_base e < me_end e" "me_end e \<le> me_end x"
          using e(1,2) by (auto simp: inside_def entry_ok_def)
        then show ?thesis using c unfolding covers_def by (meson not_le order.strict_trans1 order.strict_trans2 order.trans less_imp_le)
      qed
      then have "type_at m' y = Some t \<longleftrightarrow> type_at m y = Some t" for t
        unfolding type_at_iff [OF m'] type_at_iff [OF m] using c covers_piece by (auto simp: carve_def bex_Un)
      then have "type_at m' y = type_at m y" by (rule option_eqI)
      with c show ?thesis by (simp add: override_def claims_def)
    qed
  qed
qed


section \<open>Properties\<close>

text \<open>
  C24. Adding an entry that lies apart from or inside every entry present returns, keeps the array
  ordered and without overlaps, and overrides the map's function from addresses to types: an
  address of the entry gets its type unless it has a type of a greater number already, and no other
  address changes. Two levels of recursion are enough, and at most two slots are taken.
\<close>

theorem add_entry_refines:
  assumes "memory_map_ok m" "fits e m" "mm_count m + 2 < 512"
  shows "\<exists>m'. add_entry (Suc (Suc k)) e m = Inr (e, m') \<and> memory_map_ok m' \<and>
    mm_count m' \<le> mm_count m + 2 \<and> type_at m' = override e (type_at m)"
proof -
  let ?es = "in_use m"
  have h: "holds m ?es" and ok: "map_ok ?es" using assms(1) by (auto simp: memory_map_ok_def)
  have e: "entry_ok e" "list_all (\<lambda>x. apart e x \<or> inside e x) ?es" using assms(2) by (auto simp: fits_def)
  have n: "mm_count m = length ?es" by (rule holds_count [OF h])
  from fits_cases [OF ok e] show ?thesis
  proof cases
    case 1
    from apart_split [OF ok e(1) 1] obtain a b where ab: "?es = a @ b" "map_ok (a @ e # b)" by blast
    from add_between [of m a b e "Suc k"] h ab assms(3) n obtain m' where
      m': "add_entry (Suc (Suc k)) e m = Inr (e, m')" "holds m' (a @ e # b)" by (auto simp del: add_entry.simps)
    with ab n holds_count [OF m'(2)] memory_map_okI [OF m'(2) ab(2)] type_at_insert [OF h ok m'(2) ab(2,1)]
    show ?thesis by (intro exI [of _ m']) simp
  next
    case (2 a x b)
    let ?r = "if me_type x < me_type e then carve a x b e else a @ x # b"
    have hx: "holds m (a @ x # b)" "map_ok (a @ x # b)" using h ok 2(1) by simp_all
    have room: "length (a @ x # b) + 2 < 512" using n 2(1) assms(3) by simp
    from add_inside [OF hx(1) room hx(2) e(1) 2(2,3), of k] obtain m' where
      m': "add_entry (Suc (Suc k)) e m = Inr (e, m')" "holds m' ?r" by blast
    have "map_ok ?r" using map_ok_carve(1) [OF hx(2) e(1) 2(2,3)] hx(2) by auto
    moreover have "length ?r \<le> length ?es + 2" using 2(1) by (auto simp: carve_def piece_def)
    ultimately show ?thesis
      using m' n holds_count [OF m'(2)] memory_map_okI [OF m'(2)] type_at_inside [OF hx e(1) 2(2,3) m'(2)]
      by (intro exI [of _ m']) simp
  qed
qed

text \<open>A map of 64 KiB of free memory, and a reserved page inside.\<close>

definition free_64k :: map_entry where
  "free_64k = \<lparr>me_base = 0, me_length = 0x10000, me_type = 1, me_attribs = 0\<rparr>"

definition reserved_page :: map_entry where
  "reserved_page = \<lparr>me_base = 0x8000, me_length = 0x1000, me_type = 6, me_attribs = 0\<rparr>"

definition free_64k_map :: memory_map where
  "free_64k_map = \<lparr>mm_entries = free_64k # replicate 511 no_entry, mm_count = 1\<rparr>"

lemma free_64k_map_ok: "in_use free_64k_map = [free_64k]" "memory_map_ok free_64k_map"
proof -
  show "in_use free_64k_map = [free_64k]" by (simp add: in_use_def free_64k_map_def)
  moreover have "holds free_64k_map [free_64k]" by (simp add: holds_def free_64k_map_def)
  ultimately show "memory_map_ok free_64k_map"
    by (simp add: memory_map_ok_def map_ok_Cons entry_ok_def me_end_def free_64k_def)
qed

theorem add_entry_refines_witness:
  "\<exists>m'. add_entry (Suc (Suc 0)) reserved_page free_64k_map = Inr (reserved_page, m') \<and>
    type_at m' 0x7FFF = Some 1 \<and> type_at m' 0x8000 = Some 6 \<and> type_at m' 0x9000 = Some 1"
proof -
  have "fits reserved_page free_64k_map"
    by (simp add: fits_def free_64k_map_ok inside_def entry_ok_def me_end_def free_64k_def reserved_page_def)
  moreover have "mm_count free_64k_map + 2 < 512" by (simp add: free_64k_map_def)
  ultimately obtain m' where A: "add_entry (Suc (Suc 0)) reserved_page free_64k_map = Inr (reserved_page, m')"
    and B: "type_at m' = override reserved_page (type_at free_64k_map)"
    using add_entry_refines [OF free_64k_map_ok(2), of reserved_page 0] by blast
  from B have "type_at m' 0x7FFF = Some 1 \<and> type_at m' 0x8000 = Some 6 \<and> type_at m' 0x9000 = Some 1"
    by (simp add: override_def claims_def covers_def type_at_def free_64k_map_ok me_end_def free_64k_def reserved_page_def)
  then show ?thesis by (intro exI [of _ m'] conjI [OF A])
qed

lemma apart_sym: "apart x y \<longleftrightarrow> apart y x"
  by (auto simp: apart_def)

lemma add_bios_map_holds:
  assumes "holds m es" "map_ok es" "\<forall>e\<in>set bs. entry_ok (bios_entry e)"
    "\<forall>e\<in>set bs. \<forall>x\<in>set es. apart (bios_entry e) x" "sorted_wrt apart (List.map bios_entry bs)"
    "length es + length bs < 512"
  shows "\<exists>m' es'. add_bios_map (Suc k) bs m = Inr m' \<and> holds m' es' \<and> map_ok es' \<and>
    length es' = length es + length bs \<and> set es' = set es \<union> bios_entry ` set bs"
  using assms
proof (induction bs arbitrary: m es)
  case (Cons e bs)
  let ?e = "bios_entry e"
  from apart_split [OF Cons.prems(2), of ?e] Cons.prems(3,4) obtain a b where
    ab: "es = a @ b" "map_ok (a @ ?e # b)" by (metis list.set_intros(1))
  from add_between [of m a b ?e k] Cons.prems(1,6) ab obtain m1 where
    m1: "add_entry (Suc k) ?e m = Inr (?e, m1)" "holds m1 (a @ ?e # b)" by auto
  have "\<forall>f\<in>set bs. \<forall>x\<in>set (a @ ?e # b). apart (bios_entry f) x"
    using Cons.prems(4,5) ab(1) by (auto simp: apart_sym)
  from Cons.IH [OF m1(2) ab(2) _ this] Cons.prems(3,5,6) ab(1) obtain m' es' where
    "add_bios_map (Suc k) bs m1 = Inr m'" "holds m' es'" "map_ok es'" "length es' = length es + Suc (length bs)"
    "set es' = set es \<union> bios_entry ` set (e # bs)" by auto
  then show ?case using m1(1) by (intro exI [of _ m'] exI [of _ es']) (simp del: add_entry.simps)
qed auto

text \<open>
  C25. The loop of \<open>memory::initialize\<close> on a firmware map whose entries lie apart, in whatever order
  they come: it returns, the array holds just these entries, ordered by base, with the types above
  1 moved up by 4, and an address is usable exactly when a firmware entry of type 1 holds it.
\<close>

theorem add_bios_map_correct:
  assumes "\<forall>e\<in>set bs. entry_ok e \<and> me_type e \<le> 5" "sorted_wrt apart (List.map bios_entry bs)" "length bs < 512"
  shows "\<exists>m. add_bios_map (Suc k) bs empty_map = Inr m \<and> mm_count m = length bs \<and>
    set (in_use m) = bios_entry ` set bs \<and> sorted_wrt (\<lambda>x y. me_end x \<le> me_base y) (in_use m) \<and>
    (\<forall>a. usable a m \<longleftrightarrow> (\<exists>e\<in>set bs. covers e a \<and> me_type e = 1))"
proof -
  have b: "entry_ok (bios_entry e) \<longleftrightarrow> entry_ok e" "covers (bios_entry e) a \<longleftrightarrow> covers e a" for e a
    by (simp_all add: bios_entry_def entry_ok_def covers_def me_end_def)
  have t: "me_type (bios_entry e) = 1 \<longleftrightarrow> me_type e = 1" if "me_type e \<le> 5" for e
  proof (cases "1 < me_type e")
    case True
    have "me_type e + 4 \<noteq> 1"
    proof
      assume "me_type e + 4 = 1"
      then have "me_type e = 1 - 4" by (metis add_diff_cancel_right')
      with that show False by simp
    qed
    with True show ?thesis by (auto simp: bios_entry_def)
  qed (simp add: bios_entry_def)
  have ok: "\<forall>e\<in>set bs. entry_ok (bios_entry e)" using assms(1) b(1) by blast
  have run: "\<exists>m es. add_bios_map (Suc k) bs empty_map = Inr m \<and> holds m es \<and> map_ok es \<and>
    length es = length bs \<and> set es = bios_entry ` set bs"
    using add_bios_map_holds [OF holds_empty map_ok_Nil ok _ assms(2), of k] assms(3) by simp
  then obtain m es where
    m: "add_bios_map (Suc k) bs empty_map = Inr m" "holds m es" "map_ok es" "length es = length bs"
    "set es = bios_entry ` set bs" by blast
  have u: "usable a m \<longleftrightarrow> (\<exists>e\<in>set bs. covers e a \<and> me_type e = 1)" for a
  proof -
    have "usable a m \<longleftrightarrow> (\<exists>e\<in>set bs. covers (bios_entry e) a \<and> me_type (bios_entry e) = 1)"
      unfolding usable_type type_at_iff [OF m(2,3)] m(5) by (rule bex_simps(7))
    also have "\<dots> \<longleftrightarrow> (\<exists>e\<in>set bs. covers e a \<and> me_type e = 1)"
      using t assms(1) by (intro bex_cong refl) (simp add: b(2))
    finally show ?thesis .
  qed
  have "sorted_wrt (\<lambda>x y. me_end x \<le> me_base y) es"
  proof (rule sorted_wrt_mono_rel)
    show "sorted_wrt before es" using m(3) by (simp add: map_ok_def)
  qed (simp add: before_def)
  then show ?thesis
    using m(1,4,5) u holds_in_use [OF m(2)] holds_count [OF m(2)] by (intro exI [of _ m] conjI allI) simp_all
qed

theorem add_bios_map_correct_witness:
  "\<exists>m. add_bios_map (Suc 0) [\<lparr>me_base = 0x100000, me_length = 0x7F00000, me_type = 1, me_attribs = 0\<rparr>,
      \<lparr>me_base = 0xF0000, me_length = 0x10000, me_type = 2, me_attribs = 0\<rparr>] empty_map = Inr m \<and>
    usable 0x100000 m \<and> \<not> usable 0xF0000 m"
proof -
  let ?bs = "[\<lparr>me_base = 0x100000, me_length = 0x7F00000, me_type = 1, me_attribs = 0\<rparr>,
      \<lparr>me_base = 0xF0000, me_length = 0x10000, me_type = 2, me_attribs = 0\<rparr>]"
  have 1: "\<forall>e\<in>set ?bs. entry_ok e \<and> me_type e \<le> 5" by (simp add: entry_ok_def me_end_def)
  have 2: "sorted_wrt apart (List.map bios_entry ?bs)" by (simp add: apart_def before_def bios_entry_def me_end_def)
  from add_bios_map_correct [OF 1 2, of 0] obtain m where m: "add_bios_map (Suc 0) ?bs empty_map = Inr m"
    and u: "\<forall>a. usable a m \<longleftrightarrow> (\<exists>e\<in>set ?bs. covers e a \<and> me_type e = 1)" by auto
  have "usable 0x100000 m \<and> \<not> usable 0xF0000 m" unfolding u [rule_format] by (simp add: covers_def me_end_def)
  with m show ?thesis by blast
qed

text \<open>
  An entry that begins where one of its own type ends is not joined to it: the code adds the
  difference of the bases where it should add the one of the ends, so the entry present ends up
  with length 0, and no address of either entry is in the map any more.
\<close>

theorem add_entry_adjacent:
  assumes "memory_map_ok m" "in_use m = a @ x # b" "entry_ok e" "\<forall>y\<in>set (a @ b). apart e y"
    "me_end x = me_base e" "me_type x = me_type e"
  shows "\<exists>m'. add_entry (Suc k) e m = Inr (e, m') \<and> (\<forall>y. covers x y \<or> covers e y \<longrightarrow> type_at m' y = None)"
proof -
  have h: "holds m (a @ x # b)" and ok: "map_ok (a @ x # b)" using assms(1,2) by (auto simp: memory_map_ok_def)
  have x: "mm_entries m ! length a = x" using holds_nth [OF h, of "length a"] by simp
  let ?x = "x\<lparr>me_length := me_length x + (me_base x - me_base e)\<rparr>"
  have "me_length ?x = 0" using assms(5) by (simp add: me_end_def algebra_simps)
  then have none: "\<not> covers ?x y" for y by (auto simp: covers_def me_end_def)
  have e: "me_base e < me_end e" using assms(3) by (simp add: entry_ok_def)
  then have "\<not> me_end e \<le> me_base e" "me_base e \<le> me_end e" by order+
  with assms(5,6) have "against (add_entry k) (length a) e m = Some (Inr (e, mm_set (length a) ?x m))"
    by (simp add: against_def Let_def x)
  from scan_reaches [OF h ok assms(3) _ this] assms(4)
  have run: "add_entry (Suc k) e m = Inr (e, mm_set (length a) ?x m)" by simp
  have h': "holds (mm_set (length a) ?x m) (a @ ?x # b)" using holds_set [OF h, of "length a" ?x] by simp
  have "type_at (mm_set (length a) ?x m) y = None" if "covers x y \<or> covers e y" for y
  proof -
    have "\<not> covers z y" if "z \<in> set (a @ b)" for z
    proof -
      have "apart x z" using ok that by (auto simp: map_ok_append map_ok_Cons apart_def)
      with assms(4) that \<open>covers x y \<or> covers e y\<close> apart_covers show ?thesis by blast
    qed
    with none show ?thesis by (auto simp: type_at_def holds_in_use [OF h'] find_None_iff)
  qed
  with run show ?thesis by blast
qed

theorem add_entry_adjacent_witness:
  "\<exists>m'. add_entry (Suc 0) \<lparr>me_base = 0x10000, me_length = 0x1000, me_type = 1, me_attribs = 0\<rparr> free_64k_map =
      Inr (\<lparr>me_base = 0x10000, me_length = 0x1000, me_type = 1, me_attribs = 0\<rparr>, m') \<and>
    type_at free_64k_map 0x4000 = Some 1 \<and> type_at m' 0x4000 = None \<and> type_at m' 0x10000 = None"
proof -
  let ?e = "\<lparr>me_base = 0x10000, me_length = 0x1000, me_type = 1, me_attribs = 0\<rparr>"
  have c: "covers free_64k 0x4000" "covers ?e 0x10000" by (simp_all add: covers_def me_end_def free_64k_def)
  from add_entry_adjacent [OF free_64k_map_ok(2), of "[]" free_64k "[]" ?e 0] obtain m' where
    m': "add_entry (Suc 0) ?e free_64k_map = Inr (?e, m')"
    "\<forall>y. covers free_64k y \<or> covers ?e y \<longrightarrow> type_at m' y = None"
    by (auto simp: free_64k_map_ok entry_ok_def me_end_def free_64k_def simp del: add_entry.simps)
  moreover have "type_at free_64k_map 0x4000 = Some 1"
    by (simp add: type_at_def free_64k_map_ok c(1) free_64k_def [THEN arg_cong [where f = me_type]])
  ultimately show ?thesis using c by blast
qed

end
