(* ===== verification/Placement.thy ===== *)
theory Placement
  imports Memory_Map_Add
begin

text \<open>
  The two allocators of the boot loader (\<open>loader/booter/memory/manager.cpp\<close>): the one that takes
  memory from the top of the usable entries below 4 GiB, and the placement allocator that moves the
  border between the entry it fills and the entry it takes pages from.
\<close>

section \<open>From the top\<close>

text \<open>What a search returns: entry \<open>i\<close> itself, or the end of it.\<close>

definition taken :: "u32 \<Rightarrow> memory_map \<Rightarrow> nat \<Rightarrow> u32 \<Rightarrow> memory_map \<Rightarrow> bool" where
  "taken s m i r m' \<longleftrightarrow> (let x = mm_entries m ! i in below_4g s x \<and>
     (me_length x = ucast s \<and> r = ucast (me_base x) \<and> m' = m \<or>
      ucast s < me_length x \<and> r = ucast (me_base x + (me_length x - ucast s)) \<and>
      m' = mm_set i (x\<lparr>me_length := me_length x - ucast s\<rparr>) m))"

lemma last_usable_from_taken:
  "last_usable_from s is m = Inr (r, m') \<Longrightarrow> \<exists>i\<in>set is. taken s m i r m'"
proof (induction "is")
  case (Cons i "is")
  show ?case
  proof (cases "taken s m i r m'")
    case False
    with Cons.prems have "last_usable_from s is m = Inr (r, m')"
      by (auto simp: taken_def Let_def split: if_splits)
    with Cons.IH show ?thesis by auto
  qed auto
qed simp

lemma shorter_bounds:
  fixes b l s :: u64
  assumes "b < b + l" "s < l" "s \<noteq> 0"
  shows "b < b + (l - s)" "b + (l - s) < b + l"
proof -
  have bl: "unat (b + l) = unat b + unat l"
    using assms(1) unat_u64_less [of b] unat_u64_less [of l]
    by (auto simp: unat_plus_if_size word_less_nat_alt word_size split: if_splits)
  have ls: "unat (l - s) = unat l - unat s" "0 < unat s" "unat s < unat l"
    using assms(2,3) by (simp_all add: unat_sub less_imp_le word_less_nat_alt unat_gt_0)
  have "unat b + unat (l - s) < 2 ^ 64" using bl ls unat_u64_less [of "b + l"] by linarith
  then have "unat (b + (l - s)) = unat b + (unat l - unat s)"
    using ls(1) by (simp add: unat_plus_if_size word_size)
  with bl ls show "b < b + (l - s)" "b + (l - s) < b + l" by (simp_all add: word_less_nat_alt)
qed

lemma ucast_u32_u64: "(x :: u64) < 0x100000000 \<Longrightarrow> ucast (ucast x :: u32) = x"
proof -
  assume "x < 0x100000000"
  then have "unat x < 2 ^ 32" by (simp add: word_less_nat_alt)
  then show ?thesis by (simp add: word_eq_iff_unsigned [where ?'a = nat] unsigned_ucast_eq unsigned_take_bit_eq take_bit_nat_eq_self)
qed


lemma unat_ucast_32_64 [simp]: "unat (ucast (x :: u32) :: u64) = unat x"
proof -
  have "unat x < 2 ^ LENGTH(32)" by (rule unsigned_less)
  then show ?thesis by (simp add: unsigned_ucast_eq unsigned_take_bit_eq take_bit_nat_eq_self)
qed

text \<open>\<open>backwards_allocator::allocate\<close>\<close>

definition backwards_allocate :: "u32 \<Rightarrow> memory_map \<Rightarrow> (u32 \<times> memory_map) result" where
  "backwards_allocate n m = find_last_usable n m"

definition in_region :: "u32 \<Rightarrow> u32 \<Rightarrow> u64 \<Rightarrow> bool" where
  "in_region r s y \<longleftrightarrow> ucast r \<le> y \<and> y < ucast r + ucast s"

lemma below_4g_base:
  assumes "below_4g s x"
  shows "me_type x = 1" "me_base x < 0x100000000"
proof -
  have "unat (0xFFFFFFFF - s) < 2 ^ LENGTH(32)" by (rule unsigned_less)
  then have "(ucast (0xFFFFFFFF - s) :: u64) < 0x100000000" by (simp add: word_less_nat_alt)
  moreover have "me_base x \<le> ucast (0xFFFFFFFF - s)" using assms by (auto simp: below_4g_def)
  ultimately show "me_base x < 0x100000000" by order
  show "me_type x = 1" using assms by (simp add: below_4g_def)
qed

lemma map_ok_shorter:
  assumes "map_ok (a @ x # b)" "entry_ok y" "me_base y = me_base x" "me_type y = me_type x" "me_end y < me_end x"
  shows "map_ok (a @ y # b)"
proof -
  have "before y z" if "z \<in> set b" for z
  proof -
    have "me_end x \<le> me_base z" using assms(1) that by (auto simp: map_ok_append map_ok_Cons before_def)
    with assms(5) have "me_end y < me_base z" by order
    then show ?thesis by (simp add: before_def less_imp_le)
  qed
  with assms show ?thesis by (auto simp: map_ok_append map_ok_Cons before_def)
qed

lemma usable_shorter:
  assumes h: "holds m (a @ x # b)" and ok: "map_ok (a @ x # b)" and x: "me_type x = 1"
    and y: "entry_ok y" "me_base y = me_base x" "me_type y = 1" "me_end y < me_end x"
  shows "usable v (mm_set (length a) y m) \<longleftrightarrow> usable v m \<and> \<not> (me_end y \<le> v \<and> v < me_end x)"
proof -
  have h': "holds (mm_set (length a) y m) (a @ y # b)" using holds_set [OF h, of "length a" y] by simp
  have ok': "map_ok (a @ y # b)" using map_ok_shorter [OF ok] x y by simp
  have rest: "\<not> (me_end y \<le> v \<and> v < me_end x)" if "z \<in> set (a @ b)" "covers z v" for z
  proof
    assume "me_end y \<le> v \<and> v < me_end x"
    moreover have "me_base y < me_end y" using y(1) by (simp add: entry_ok_def)
    ultimately have "covers x v" using y(2) by (auto simp: covers_def)
    moreover have "apart z x" using ok that(1) by (auto simp: map_ok_append map_ok_Cons apart_def)
    ultimately show False using apart_covers that(2) by blast
  qed
  have "covers y v \<longleftrightarrow> covers x v \<and> \<not> (me_end y \<le> v \<and> v < me_end x)"
    using y(2,4) by (auto simp: covers_def)
  with rest x y(3) show ?thesis
    unfolding usable_type type_at_iff [OF h ok] type_at_iff [OF h' ok'] by (auto simp: bex_Un)
qed




section \<open>The placement allocator\<close>

text \<open>
  The pointers \<open>_current\<close> and \<open>_leeched\<close> are indices of entries; memory is taken at the placement
  address, and \<open>_current\<close> grows by pages of \<open>_leeched\<close> until it holds that address.
\<close>

record placement =
  pl_address :: u32
  pl_current :: nat
  pl_leeched :: nat
  pl_top :: u32

text \<open>A null pointer lies before the array, which \<open>_expand\<close> answers with its first panic.\<close>

definition expand_null :: "'a result" where
  "expand_null = Inl (Panic ''Insane argument for _expand.'')"

definition update_entry :: "nat \<Rightarrow> (map_entry \<Rightarrow> map_entry) \<Rightarrow> memory_map \<Rightarrow> memory_map" where
  "update_entry i f m = mm_set i (f (mm_entries m ! i)) m"

definition new_placement :: "u32 \<Rightarrow> memory_map \<Rightarrow> (placement \<times> memory_map) result" where
  "new_placement start m =
     (case next_usable (0x100000 - 1) m of None \<Rightarrow> expand_null
      | Some i \<Rightarrow> rbind (allocate_empty_entry i m) (\<lambda>(cur, leeched, m).
          Inr (\<lparr>pl_address = start, pl_current = cur, pl_leeched = leeched, pl_top = 64 * 1024 * 1024 - 1\<rparr>,
            update_entry cur (\<lambda>e. e\<lparr>me_type := 5, me_length := (if start < 0x100000 then 0 else ucast (start - 0x100000))\<rparr>) m)))"

definition pl_align :: "u32 \<Rightarrow> placement \<Rightarrow> placement" where
  "pl_align a p = p\<lparr>pl_address := (pl_address p + (a - 1)) AND NOT (a - 1)\<rparr>"

text \<open>\<open>save\<close> closes the entry and opens the next: booter, kernel, initrd.\<close>

definition pl_save :: "placement \<times> memory_map \<Rightarrow> (placement \<times> memory_map) result" where
  "pl_save = (\<lambda>(p, m).
     let p = pl_align 4096 p; cur = mm_entries m ! pl_current p;
         m = update_entry (pl_current p) (\<lambda>e. e\<lparr>me_length := ucast (pl_address p) - me_base e\<rparr>) m in
     if me_type cur = 3 then Inr (p, m)
     else rbind (allocate_empty_entry (pl_leeched p) m) (\<lambda>(next, leeched, m).
       let t = me_type (mm_entries m ! pl_current p) in
       Inr (p\<lparr>pl_current := next, pl_leeched := leeched\<rparr>,
         update_entry next (\<lambda>e. if t = 5 then e\<lparr>me_type := 2\<rparr> else if t = 2 then e\<lparr>me_type := 3\<rparr> else e) m)))"

text \<open>The two loops of \<open>allocate\<close>, with a bound on the iterations.\<close>

fun pl_next_entry :: "nat \<Rightarrow> u32 \<Rightarrow> placement \<times> memory_map \<Rightarrow> (placement \<times> memory_map) result" where
  "pl_next_entry 0 n s = Inl Spins_Forever"
| "pl_next_entry (Suc k) n (p, m) =
     (if me_end (mm_entries m ! pl_leeched p) \<le> ucast (pl_address p + n)
      then case next_usable (ucast (pl_address p)) m of
          None \<Rightarrow> Inl (Panic ''Not enough memory installed on the system.'')
        | Some i \<Rightarrow> rbind (allocate_empty_entry i m) (\<lambda>(next, leeched, m').
            pl_next_entry k n (p\<lparr>pl_address := ucast (me_base (mm_entries m ! i)), pl_current := next, pl_leeched := leeched\<rparr>,
              update_entry next (\<lambda>e. e\<lparr>me_type := me_type (mm_entries m' ! pl_current p)\<rparr>) m'))
      else Inr (p, m))"

definition pl_leech :: "nat \<Rightarrow> nat \<Rightarrow> memory_map \<Rightarrow> memory_map" where
  "pl_leech cur leeched m =
     update_entry leeched (\<lambda>e. e\<lparr>me_base := me_base e + 4096, me_length := me_length e - 4096\<rparr>)
       (update_entry cur (\<lambda>e. e\<lparr>me_length := me_length e + 4096\<rparr>) m)"

fun pl_grow :: "nat \<Rightarrow> u64 \<Rightarrow> nat \<Rightarrow> nat \<Rightarrow> memory_map \<Rightarrow> memory_map result" where
  "pl_grow 0 a cur leeched m = Inl Spins_Forever"
| "pl_grow (Suc k) a cur leeched m =
     (if me_end (mm_entries m ! cur) \<le> a then pl_grow k a cur leeched (pl_leech cur leeched m) else Inr m)"

text \<open>\<open>allocate\<close> while it maps more memory for itself (\<open>vas_context\<close>), which skips the mapping.\<close>

definition pl_round :: "u32 \<Rightarrow> u32" where
  "pl_round n = (n + 15) AND NOT 15"

definition pl_allocate :: "nat \<Rightarrow> u32 \<Rightarrow> placement \<times> memory_map \<Rightarrow> (u32 \<times> placement \<times> memory_map) result" where
  "pl_allocate k n s =
     (if n = 0 then Inr (0, s)
      else rbind (pl_next_entry k (pl_round n) s) (\<lambda>(p, m).
           let ret = pl_address p; p = p\<lparr>pl_address := pl_address p + pl_round n\<rparr> in
           rbind (pl_grow k (ucast (pl_address p)) (pl_current p) (pl_leeched p) m) (\<lambda>m. Inr (ret, p, m))))"


section \<open>The border between the two entries\<close>

text \<open>The state after \<open>j\<close> pages have gone from \<open>l\<close> to \<open>c\<close>.\<close>

definition moved :: "nat \<Rightarrow> nat \<Rightarrow> nat \<Rightarrow> memory_map \<Rightarrow> memory_map" where
  "moved j c l m =
     update_entry l (\<lambda>e. e\<lparr>me_base := me_base e + 4096 * of_nat j, me_length := me_length e - 4096 * of_nat j\<rparr>)
       (update_entry c (\<lambda>e. e\<lparr>me_length := me_length e + 4096 * of_nat j\<rparr>) m)"

lemma entry_update [simp]:
  "length (mm_entries (update_entry i f m)) = length (mm_entries m)"
  "j < length (mm_entries m) \<Longrightarrow> mm_entries (update_entry i f m) ! j = (if j = i then f (mm_entries m ! i) else mm_entries m ! j)"
  by (auto simp: update_entry_def mm_set_def)

lemma moved_nth [simp]:
  assumes "c \<noteq> l" "c < length (mm_entries m)" "l < length (mm_entries m)"
  shows "me_end (mm_entries (moved j c l m) ! c) = me_end (mm_entries m ! c) + 4096 * of_nat j"
    "me_base (mm_entries (moved j c l m) ! c) = me_base (mm_entries m ! c)"
    "me_type (mm_entries (moved j c l m) ! c) = me_type (mm_entries m ! c)"
    "me_base (mm_entries (moved j c l m) ! l) = me_base (mm_entries m ! l) + 4096 * of_nat j"
    "me_length (mm_entries (moved j c l m) ! l) = me_length (mm_entries m ! l) - 4096 * of_nat j"
    "me_end (mm_entries (moved j c l m) ! l) = me_end (mm_entries m ! l)"
    "me_type (mm_entries (moved j c l m) ! l) = me_type (mm_entries m ! l)"
    "length (mm_entries (moved j c l m)) = length (mm_entries m)"
  using assms by (simp_all add: moved_def me_end_def)

lemma map_entry_eqI:
  "me_base x = me_base y \<Longrightarrow> me_length x = me_length y \<Longrightarrow> me_type x = me_type y \<Longrightarrow> me_attribs x = me_attribs y \<Longrightarrow>
    x = (y :: map_entry)"
  by (cases x; cases y) simp

lemma moved_0:
  assumes "c \<noteq> l" "c < length (mm_entries m)" "l < length (mm_entries m)"
  shows "moved 0 c l m = m"
  using assms by (simp add: moved_def update_entry_def mm_set_def)

lemma moved_Suc:
  assumes "c \<noteq> l" "c < length (mm_entries m)" "l < length (mm_entries m)"
  shows "moved j c l (pl_leech c l m) = moved (Suc j) c l m"
  using assms
  by (simp add: moved_def pl_leech_def update_entry_def mm_set_def list_update_swap [of c l] algebra_simps)

lemma pl_grow_moved:
  assumes "c \<noteq> l" "c < length (mm_entries m)" "l < length (mm_entries m)" "j < k"
    "\<forall>i<j. me_end (mm_entries m ! c) + 4096 * of_nat i \<le> a" "a < me_end (mm_entries m ! c) + 4096 * of_nat j"
  shows "pl_grow k a c l m = Inr (moved j c l m)"
  using assms
proof (induction j arbitrary: k m)
  case 0
  then obtain k' where "k = Suc k'" by (cases k) auto
  with 0 show ?case by (auto simp: moved_0 dest: leD)
next
  case (Suc j)
  then obtain k' where k: "k = Suc k'" "j < k'" by (cases k) auto
  let ?m = "pl_leech c l m"
  have l: "length (mm_entries ?m) = length (mm_entries m)" by (simp add: pl_leech_def)
  have e: "me_end (mm_entries ?m ! c) = me_end (mm_entries m ! c) + 4096"
    using Suc.prems(1-3) by (simp add: pl_leech_def me_end_def)
  have "\<forall>i<j. me_end (mm_entries ?m ! c) + 4096 * of_nat i \<le> a"
    using Suc.prems(5) by (auto simp: e algebra_simps dest: spec [of _ "Suc _"])
  moreover have "a < me_end (mm_entries ?m ! c) + 4096 * of_nat j"
    using Suc.prems(6) by (simp add: e algebra_simps)
  ultimately have "pl_grow k' a c l ?m = Inr (moved j c l ?m)"
    using Suc.prems(1-3) k(2) l by (intro Suc.IH) simp_all
  moreover have "me_end (mm_entries m ! c) \<le> a" using Suc.prems(5) by (auto dest: spec [of _ 0])
  ultimately show ?case using moved_Suc [OF Suc.prems(1-3), of j] k(1) by simp
qed


lemma unat_and_not_mask: "unat ((x :: u32) AND NOT (mask n)) = 2 ^ n * (unat x div 2 ^ n)"
proof -
  have "x AND NOT (mask n) = push_bit n (drop_bit n x)" by (rule bit_word_eqI) (auto simp: bit_simps)
  moreover have "unat (drop_bit n x) = unat x div 2 ^ n"
  proof -
    have "unat (drop_bit n x) = drop_bit n (take_bit 32 (unat x))"
      using unsigned_drop_bit_eq [of n x, where ?'a = nat] by simp
    moreover have "take_bit 32 (unat x) = unat x" using unsigned_less [of x] by (intro take_bit_nat_eq_self) simp
    ultimately show ?thesis by (simp only: drop_bit_eq_div)
  qed
  moreover have "2 ^ n * (unat x div 2 ^ n) < 2 ^ 32"
    using unsigned_less [of x] by (intro le_less_trans [OF times_div_less_eq_dividend]) simp
  moreover have "push_bit n (drop_bit n x) = of_nat (2 ^ n * unat (drop_bit n x))"
    by (simp add: push_bit_eq_mult mult.commute)
  ultimately show ?thesis by (simp add: unsigned_of_nat take_bit_nat_eq_self del: of_nat_mult)
qed

lemma unat_pl_round:
  assumes "unat n + 15 < 2 ^ 32"
  shows "unat (pl_round n) = 16 * ((unat n + 15) div 16)"
proof -
  have m: "(15 :: u32) = mask 4" by (simp add: mask_eq_exp_minus_1)
  have "unat (n + 15) = unat n + 15" using assms by (simp add: unat_plus_if_size word_size)
  then show ?thesis unfolding pl_round_def m unat_and_not_mask by (simp add: mask_eq_exp_minus_1)
qed

lemma unat_pl_align:
  assumes "unat (pl_address p) + 4095 < 2 ^ 32"
  shows "unat (pl_address (pl_align 4096 p)) = 4096 * ((unat (pl_address p) + 4095) div 4096)"
proof -
  have m: "(4096 - 1 :: u32) = mask 12" by (simp add: mask_eq_exp_minus_1)
  have "unat (pl_address p + 4095) = unat (pl_address p) + 4095" using assms by (simp add: unat_plus_if_size word_size)
  then show ?thesis
    unfolding pl_align_def m by (simp add: unat_and_not_mask) (simp add: mask_eq_exp_minus_1)
qed

text \<open>
  The entry being filled ends where the one it takes pages from begins, and the placement address
  lies at most a page before or behind its end.
\<close>

definition pl_ready :: "placement \<Rightarrow> memory_map \<Rightarrow> bool" where
  "pl_ready p m \<longleftrightarrow>
     (let c = mm_entries m ! pl_current p; l = mm_entries m ! pl_leeched p in
      pl_current p \<noteq> pl_leeched p \<and> pl_current p < length (mm_entries m) \<and> pl_leeched p < length (mm_entries m) \<and>
      me_base c \<le> ucast (pl_address p) \<and> unat (pl_address p) \<le> unat (me_end c) + 4096 \<and>
      unat (me_end c) \<le> unat (pl_address p) + 4096 \<and>
      me_end c = me_base l \<and> me_base l \<le> me_end l \<and> me_end l \<le> 0x100000000 \<and> 4096 dvd unat (me_length l))"

text \<open>The pages needed to get the end of the entry behind the address \<open>a\<close>.\<close>

definition pages_to :: "nat \<Rightarrow> nat \<Rightarrow> nat" where
  "pages_to d a = (if a < d then 0 else Suc ((a - d) div 4096))"

lemma pages_to_less: "i < pages_to d a \<Longrightarrow> d + 4096 * i \<le> a"
proof -
  assume i: "i < pages_to d a"
  then have "d \<le> a" "i \<le> (a - d) div 4096" by (auto simp: pages_to_def split: if_splits)
  moreover from this(2) have "4096 * i \<le> 4096 * ((a - d) div 4096)" by simp
  moreover have "4096 * ((a - d) div 4096) \<le> a - d" by simp
  ultimately show ?thesis by linarith
qed

lemma pages_to_enough: "a < d + 4096 * pages_to d a"
proof (cases "a < d")
  case False
  have "a - d < 4096 * Suc ((a - d) div 4096)" by (simp add: dividend_less_times_div)
  then show ?thesis using False by (simp add: pages_to_def)
qed simp

lemma pages_to_bound: "d \<le> a + 4096 \<Longrightarrow> d + 4096 * pages_to d a \<le> a + 4096"
  using pages_to_less [of "pages_to d a - 1" d a] by (cases "pages_to d a") auto

lemma pages_to_fits:
  assumes "a < e" "d \<le> e" "4096 dvd (e - d)"
  shows "d + 4096 * pages_to d a \<le> e"
proof (cases "a < d")
  case False
  from assms(3) obtain q where q: "e - d = 4096 * q" by blast
  then have "a - d < 4096 * q" using assms(1) False by linarith
  then have "(a - d) div 4096 < q" by (simp add: less_mult_imp_div_less mult.commute)
  then show ?thesis using q assms(2) False by (simp add: pages_to_def)
qed (use assms in \<open>simp add: pages_to_def\<close>)


lemma unat_add_pages:
  "unat (x :: u64) + 4096 * j < 2 ^ 64 \<Longrightarrow> unat (x + 4096 * of_nat j) = unat x + 4096 * j"
proof -
  assume a: "unat x + 4096 * j < 2 ^ 64"
  have "x + 4096 * of_nat j = of_nat (unat x + 4096 * j)" by simp
  with a show ?thesis by (metis unat_of_nat_u64)
qed

lemma moved_ready:
  assumes r: "pl_ready p m" and a: "unat (pl_address p) \<le> unat a" "unat a < unat (me_end (mm_entries m ! pl_leeched p))"
  defines "j \<equiv> pages_to (unat (me_end (mm_entries m ! pl_current p))) (unat a)"
  shows "pl_ready (p\<lparr>pl_address := a\<rparr>) (moved j (pl_current p) (pl_leeched p) m)"
    "ucast a < me_end (mm_entries m ! pl_current p) + 4096 * of_nat j"
    "\<forall>i<j. me_end (mm_entries m ! pl_current p) + 4096 * of_nat i \<le> ucast a"
proof -
  let ?c = "mm_entries m ! pl_current p" and ?l = "mm_entries m ! pl_leeched p"
  let ?d = "unat (me_end ?c)" and ?e = "unat (me_end ?l)"
  have cl: "pl_current p \<noteq> pl_leeched p" "pl_current p < length (mm_entries m)" "pl_leeched p < length (mm_entries m)"
    and C: "me_base ?c \<le> ucast (pl_address p)" "?d \<le> unat (pl_address p) + 4096"
    and L: "me_end ?c = me_base ?l" "me_base ?l \<le> me_end ?l" "me_end ?l \<le> 0x100000000" "4096 dvd unat (me_length ?l)"
    using r by (auto simp: pl_ready_def Let_def)
  have e: "?e \<le> 2 ^ 32" "?d \<le> ?e" using L(1-3) by (simp_all add: word_le_nat_alt)
  have len: "unat (me_length ?l) = ?e - ?d"
  proof -
    have "me_length ?l = me_end ?l - me_end ?c" using L(1) by (simp add: me_end_def)
    then show ?thesis using L(1,2) by (simp add: unat_sub)
  qed
  have fits: "?d + 4096 * j \<le> ?e"
    unfolding j_def using a(2) e(2) L(4) len by (intro pages_to_fits) simp_all
  have u: "unat (me_end ?c + 4096 * of_nat i) = ?d + 4096 * i" if "i \<le> j" for i
  proof (rule unat_add_pages)
    have "4096 * i \<le> 4096 * j" using that by simp
    then show "?d + 4096 * i < 2 ^ 64" using fits e(1) by simp
  qed
  show lt: "ucast a < me_end ?c + 4096 * of_nat j"
    using pages_to_enough [of "unat a" ?d] by (simp add: word_less_nat_alt u j_def)
  show "\<forall>i<j. me_end ?c + 4096 * of_nat i \<le> ucast a"
    using pages_to_less [of _ ?d "unat a"] by (simp add: word_le_nat_alt u j_def)
  have b: "?d + 4096 * j \<le> unat a + 4096"
    unfolding j_def using C(2) a(1) by (intro pages_to_bound) simp
  have "unat (me_length ?l - 4096 * of_nat j) = unat (me_length ?l) - 4096 * j"
  proof -
    have j: "unat (4096 * of_nat j :: u64) = 4096 * j"
      using unat_add_pages [of 0 j] fits e(1) by simp
    then have "4096 * of_nat j \<le> me_length ?l" using fits len by (simp add: word_le_nat_alt)
    with j show ?thesis by (simp add: unat_sub)
  qed
  then have al: "4096 dvd unat (me_length ?l - 4096 * of_nat j)" using L(4) by simp
  have "me_base ?c \<le> ucast a"
    using C(1) a(1) by (auto simp: word_le_nat_alt)
  moreover have "me_base ?l + 4096 * of_nat j \<le> me_end ?l"
    using fits u [of j] L(1) by (simp add: word_le_nat_alt)
  ultimately show "pl_ready (p\<lparr>pl_address := a\<rparr>) (moved j (pl_current p) (pl_leeched p) m)"
    using cl L b al u [of j] lt by (simp add: pl_ready_def Let_def word_less_nat_alt)
qed

text \<open>An allocation that the entry in hand can hold.\<close>

lemma pl_allocate_moves:
  fixes p m n
  defines "c \<equiv> mm_entries m ! pl_current p" and "a \<equiv> pl_address p + pl_round n"
  defines "j \<equiv> pages_to (unat (me_end c)) (unat a)"
  assumes r: "pl_ready p m" and n: "n \<noteq> 0"
    and room: "unat (pl_address p) + unat (pl_round n) < unat (me_end (mm_entries m ! pl_leeched p))"
    and k: "unat (pl_round n) div 4096 + 2 < k"
  shows "pl_allocate k n (p, m) = Inr (pl_address p, p\<lparr>pl_address := a\<rparr>, moved j (pl_current p) (pl_leeched p) m)"
    "unat a = unat (pl_address p) + unat (pl_round n)"
    "pl_ready (p\<lparr>pl_address := a\<rparr>) (moved j (pl_current p) (pl_leeched p) m)" "ucast a < me_end c + 4096 * of_nat j"
proof -
  have cl: "pl_current p \<noteq> pl_leeched p" "pl_current p < length (mm_entries m)" "pl_leeched p < length (mm_entries m)"
    and C: "unat (pl_address p) \<le> unat (me_end c) + 4096" and le: "me_end (mm_entries m ! pl_leeched p) \<le> 0x100000000"
    using r by (auto simp: pl_ready_def Let_def c_def)
  have e: "unat (me_end (mm_entries m ! pl_leeched p)) \<le> 2 ^ 32" using le by (simp add: word_le_nat_alt)
  show a: "unat a = unat (pl_address p) + unat (pl_round n)"
    using room e by (simp add: unat_plus_if_size word_size a_def)
  then have a': "unat (pl_address p) \<le> unat a" "unat a < unat (me_end (mm_entries m ! pl_leeched p))"
    using room by simp_all
  note R = moved_ready [OF r a', folded c_def, folded j_def]
  show "pl_ready (p\<lparr>pl_address := a\<rparr>) (moved j (pl_current p) (pl_leeched p) m)" "ucast a < me_end c + 4096 * of_nat j"
    by (rule R)+
  have stay: "pl_next_entry k (pl_round n) (p, m) = Inr (p, m)"
  proof -
    have "\<not> me_end (mm_entries m ! pl_leeched p) \<le> ucast a" using a'(2) by (simp add: word_le_nat_alt)
    moreover obtain k' where "k = Suc k'" using k by (cases k) auto
    ultimately show ?thesis by (simp add: a_def)
  qed
  have "(unat a - unat (me_end c)) div 4096 \<le> (unat (pl_round n) + 4096) div 4096"
    using C a by (intro div_le_mono) simp
  then have "j < k" using k by (auto simp: j_def pages_to_def)
  from pl_grow_moved [OF cl this R(3,2) [unfolded c_def]] stay n
  show "pl_allocate k n (p, m) = Inr (pl_address p, p\<lparr>pl_address := a\<rparr>, moved j (pl_current p) (pl_leeched p) m)"
    by (simp add: pl_allocate_def a_def)
qed

text \<open>
  C27. An allocation that the entry in hand can hold returns the placement address, 16 bytes at a
  time, and moves whole pages over the border: the region returned lies in the entry being filled,
  that entry still ends where the next begins, at most a page behind the placement address, and the
  end of the free memory stays where it was. The loops need an iteration for each page and two more.
\<close>

theorem pl_allocate_correct:
  fixes p m defines "c \<equiv> \<lambda>m. mm_entries m ! pl_current p" and "l \<equiv> \<lambda>m. mm_entries m ! pl_leeched p"
  assumes "pl_ready p m" "n \<noteq> 0" "unat n + 15 < 2 ^ 32"
    "unat (pl_address p) + unat (pl_round n) < unat (me_end (l m))" "unat (pl_round n) div 4096 + 2 < k"
  shows "\<exists>m'. pl_allocate k n (p, m) = Inr (pl_address p, p\<lparr>pl_address := pl_address p + pl_round n\<rparr>, m') \<and>
    pl_ready (p\<lparr>pl_address := pl_address p + pl_round n\<rparr>) m' \<and>
    me_base (c m') = me_base (c m) \<and> me_type (c m') = me_type (c m) \<and>
    me_end (l m') = me_end (l m) \<and> me_type (l m') = me_type (l m) \<and>
    (\<forall>i<unat n. covers (c m') (ucast (pl_address p) + of_nat i))"
proof -
  let ?a = "pl_address p + pl_round n"
  have cl: "pl_current p \<noteq> pl_leeched p" "pl_current p < length (mm_entries m)" "pl_leeched p < length (mm_entries m)"
    and C: "me_base (c m) \<le> ucast (pl_address p)" and le: "me_end (l m) \<le> 0x100000000"
    using assms(3) by (auto simp: pl_ready_def Let_def c_def l_def)
  define j where "j = pages_to (unat (me_end (mm_entries m ! pl_current p))) (unat ?a)"
  note R = pl_allocate_moves [OF assms(3,4,6) [unfolded l_def] assms(7), folded j_def]
  have e: "unat (me_end (l m)) \<le> 2 ^ 32" using le by (simp add: word_le_nat_alt)
  have n: "unat n \<le> unat (pl_round n)" using unat_pl_round [OF assms(5)] by linarith
  have "covers (c (moved j (pl_current p) (pl_leeched p) m)) (ucast (pl_address p) + of_nat i)" if "i < unat n" for i
  proof -
    have u: "unat (ucast (pl_address p) + of_nat i :: u64) = unat (pl_address p) + i"
    proof -
      have "ucast (pl_address p) + of_nat i = (of_nat (unat (pl_address p) + i) :: u64)" by simp
      moreover have "unat (pl_address p) + i < 2 ^ 64" using that n assms(6) e by simp
      ultimately show ?thesis by (metis unat_of_nat_u64)
    qed
    have "ucast (pl_address p) + of_nat i < (ucast ?a :: u64)"
      using u that n R(2) by (simp add: word_less_nat_alt)
    with R(4) have "ucast (pl_address p) + of_nat i < me_end (mm_entries m ! pl_current p) + 4096 * of_nat j" by order
    moreover have "me_base (c m) \<le> ucast (pl_address p) + of_nat i"
      using C u by (simp add: word_le_nat_alt)
    ultimately show ?thesis using cl by (simp add: covers_def c_def)
  qed
  with R(1,3) cl show ?thesis by (auto simp: c_def l_def)
qed

text \<open>The first MiB of memory is in use, the second is free; 100 bytes are asked for.\<close>

definition demo_placement :: "placement \<times> memory_map" where
  "demo_placement =
     (\<lparr>pl_address = 0x100000, pl_current = 0, pl_leeched = 1, pl_top = 0x3FFFFFF\<rparr>,
      \<lparr>mm_entries = \<lparr>me_base = 0, me_length = 0x100000, me_type = 2, me_attribs = 0\<rparr> #
         \<lparr>me_base = 0x100000, me_length = 0x100000, me_type = 1, me_attribs = 0\<rparr> # replicate 510 no_entry,
       mm_count = 2\<rparr>)"

theorem pl_allocate_correct_witness:
  "\<exists>m'. pl_allocate 4 100 demo_placement =
      Inr (0x100000, (fst demo_placement)\<lparr>pl_address := 0x100070\<rparr>, m') \<and> covers (mm_entries m' ! 0) 0x100063"
proof -
  obtain p m where pm: "demo_placement = (p, m)" by (cases demo_placement)
  then have f: "pl_address p = 0x100000" "pl_current p = 0" "pl_leeched p = 1"
    "mm_entries m ! 0 = \<lparr>me_base = 0, me_length = 0x100000, me_type = 2, me_attribs = 0\<rparr>"
    "mm_entries m ! Suc 0 = \<lparr>me_base = 0x100000, me_length = 0x100000, me_type = 1, me_attribs = 0\<rparr>"
    "length (mm_entries m) = 512" by (auto simp: demo_placement_def)
  have r: "pl_round 100 = 112" by (simp add: pl_round_def)
  have "pl_ready p m" by (simp add: pl_ready_def f me_end_def)
  from pl_allocate_correct [OF this, of 100 4] obtain m' where
    "pl_allocate 4 100 (p, m) = Inr (0x100000, p\<lparr>pl_address := 0x100070\<rparr>, m')"
    "\<forall>i<100. covers (mm_entries m' ! 0) (0x100000 + of_nat i)"
    by (auto simp: f r me_end_def)
  moreover from this(2) have "covers (mm_entries m' ! 0) (0x100000 + of_nat 99)" by (rule allE [of _ 99]) simp
  ultimately show ?thesis by (intro exI [of _ m']) (simp add: pm)
qed

end
