(* ===== verification/Boot_Paging.thy ===== *)
theory Boot_Paging
  imports Paging_Map_Range Placement
begin

text \<open>
  The paging of the boot loader (\<open>loader/booter/memory/x64paging.h\<close>, \<open>x64paging.cpp\<close>), which builds
  the first address space of the kernel, and the part of its allocator that extends the identity
  mapping while it runs (\<open>manager.cpp\<close>). The loader reaches the tables at their physical addresses,
  through 32-bit pointers; the loops are the ones of \<open>Page_Loop\<close>.
\<close>

section \<open>Tables\<close>

record 's boot_vas =
  bv_mem :: frames
  bv_root :: u64
  bv_supply :: 's

text \<open>\<open>operator=\<close> of the four kinds of entries.\<close>

definition boot_assign :: "u64 \<Rightarrow> u64 \<Rightarrow> u64" where
  "boot_assign a e = e_assign a (e_put 1 True e)"

text \<open>\<open>(page_table *)(entry.address << 12)\<close>: the pointer has 32 bits.\<close>

definition table_pointer :: "u64 \<Rightarrow> u64" where
  "table_pointer e = ucast (ucast (e_frame e) :: u32)"

definition boot_set :: "u64 \<Rightarrow> nat \<Rightarrow> u64 \<Rightarrow> 's boot_vas \<Rightarrow> 's boot_vas" where
  "boot_set tbl i e s = s\<lparr>bv_mem := set_entry (bv_mem s) tbl i e\<rparr>"

text \<open>\<open>new pdpt\<close>, \<open>new page_directory\<close>, \<open>new page_table\<close>: the constructors clear all 512 entries.\<close>

definition boot_new :: "('s \<Rightarrow> (u64 \<times> 's) result) \<Rightarrow> 's boot_vas \<Rightarrow> (u64 \<times> 's boot_vas) result" where
  "boot_new pop s = rbind (pop (bv_supply s)) (\<lambda>(f, t).
     Inr (f, s\<lparr>bv_supply := t, bv_mem := (bv_mem s)(f := (\<lambda>_. 0))\<rparr>))"

section \<open>Mapping and unmapping\<close>

definition boot_enter :: "('s boot_vas \<Rightarrow> (u64 \<times> 's boot_vas) result) \<Rightarrow> u64 \<Rightarrow> nat \<Rightarrow> 's boot_vas \<Rightarrow>
    (u64 \<times> 's boot_vas) result" where
  "boot_enter new tbl i s =
     rbind (if \<not> e_present (bv_mem s tbl i)
            then rbind (new s) (\<lambda>(f, s). Inr (boot_set tbl i (boot_assign f (bv_mem s tbl i)) s))
            else Inr s) (\<lambda>s. Inr (table_pointer (bv_mem s tbl i), s))"

text \<open>The pointers \<open>table\<close>, \<open>pd\<close> and \<open>pt\<close> and the physical address, as the loops carry them.\<close>

record 's boot_loop =
  bl_vas :: "'s boot_vas"
  bl_table :: u64
  bl_pd :: u64
  bl_pt :: u64
  bl_phys :: u64

definition boot_leaf :: "nat \<Rightarrow> 's boot_loop \<Rightarrow> 's boot_loop result" where
  "boot_leaf i l =
     (let e = bv_mem (bl_vas l) (bl_pt l) i in
      if e_present e \<and> bl_phys l \<noteq> e_frame e then Inl (Panic ''tried to map something at already mapped page'')
      else Inr (l\<lparr>bl_vas := boot_set (bl_pt l) i (boot_assign (bl_phys l) e) (bl_vas l), bl_phys := bl_phys l + 4096\<rparr>))"

definition enter_table :: "('s boot_vas \<Rightarrow> (u64 \<times> 's boot_vas) result) \<Rightarrow> nat \<Rightarrow> 's boot_loop \<Rightarrow> 's boot_loop result" where
  "enter_table new i l = rbind (boot_enter new (bv_root (bl_vas l)) i (bl_vas l)) (\<lambda>(t, s).
     Inr (l\<lparr>bl_vas := s, bl_table := t\<rparr>))"

definition enter_pd :: "('s boot_vas \<Rightarrow> (u64 \<times> 's boot_vas) result) \<Rightarrow> nat \<Rightarrow> 's boot_loop \<Rightarrow> 's boot_loop result" where
  "enter_pd new i l = rbind (boot_enter new (bl_table l) i (bl_vas l)) (\<lambda>(t, s).
     Inr (l\<lparr>bl_vas := s, bl_pd := t\<rparr>))"

definition enter_pt :: "('s boot_vas \<Rightarrow> (u64 \<times> 's boot_vas) result) \<Rightarrow> nat \<Rightarrow> 's boot_loop \<Rightarrow> 's boot_loop result" where
  "enter_pt new i l = rbind (boot_enter new (bl_pd l) i (bl_vas l)) (\<lambda>(t, s).
     Inr (l\<lparr>bl_vas := s, bl_pt := t\<rparr>))"

definition boot_map :: "('s boot_vas \<Rightarrow> (u64 \<times> 's boot_vas) result) \<Rightarrow> u64 \<Rightarrow> u64 \<Rightarrow> u64 \<Rightarrow> 's boot_vas \<Rightarrow> 's boot_vas result" where
  "boot_map new vstart vend phys s =
     (let vstart = page_floor vstart; vend = page_ceil vend in
      if vend \<le> vstart then Inr s
      else rbind (page_loop (enter_table new) (\<lambda>_. enter_pd new) (\<lambda>_ _. enter_pt new) (\<lambda>_ _ _. boot_leaf)
          (\<lambda>_. Inr) (\<lambda>_ _. Inr) (\<lambda>_ _ _. Inr) (pos_of vstart) (pos_of vend)
          \<lparr>bl_vas = s, bl_table = 0, bl_pd = 0, bl_pt = 0, bl_phys = phys\<rparr>) (\<lambda>l. Inr (bl_vas l)))"

text \<open>\<open>unmap\<close> creates no table: \<open>need\<close> is the panic on an absent entry.\<close>

definition need :: "'s boot_vas \<Rightarrow> (u64 \<times> 's boot_vas) result" where
  "need s = Inl (Panic ''tried to unmap not mapped page'')"

definition boot_unmap_leaf :: "nat \<Rightarrow> 's boot_loop \<Rightarrow> 's boot_loop result" where
  "boot_unmap_leaf i l =
     (let e = bv_mem (bl_vas l) (bl_pt l) i in
      if \<not> e_present e then Inl (Panic ''tried to unmap not mapped page'')
      else Inr (l\<lparr>bl_vas := boot_set (bl_pt l) i (e_put 0 False e) (bl_vas l)\<rparr>))"

definition boot_unmap :: "u64 \<Rightarrow> u64 \<Rightarrow> 's boot_vas \<Rightarrow> 's boot_vas result" where
  "boot_unmap vstart vend s =
     (let vstart = page_floor vstart; vend = page_ceil vend in
      rbind (page_loop (enter_table need) (\<lambda>_. enter_pd need) (\<lambda>_ _. enter_pt need) (\<lambda>_ _ _. boot_unmap_leaf)
        (\<lambda>_. Inr) (\<lambda>_ _. Inr) (\<lambda>_ _ _. Inr) (pos_of vstart) (pos_of vend)
        \<lparr>bl_vas = s, bl_table = 0, bl_pd = 0, bl_pt = 0, bl_phys = 0\<rparr>) (\<lambda>l. Inr (bl_vas l)))"

section \<open>The allocator under the tables\<close>

type_synonym boot_state = "(placement \<times> memory_map) boot_vas"

text \<open>A page for a table while \<open>vas_context\<close> is set: \<open>align(4096)\<close> and the allocation proper.\<close>

definition pl_table :: "nat \<Rightarrow> placement \<times> memory_map \<Rightarrow> (u64 \<times> placement \<times> memory_map) result" where
  "pl_table k = (\<lambda>(p, m). rbind (pl_allocate k 4096 (pl_align 4096 p, m)) (\<lambda>(a, s). Inr (ucast a, s)))"

text \<open>
  \<open>allocate\<close> from outside: when less than four pages are left below \<open>top_mapped\<close>, 64 MiB more are
  mapped onto themselves first, with tables that \<open>allocate\<close> itself hands out.
\<close>

definition boot_extend :: "nat \<Rightarrow> boot_state \<Rightarrow> boot_state result" where
  "boot_extend k s =
     (let top = pl_top (fst (bv_supply s)) in
      if top - pl_address (fst (bv_supply s)) \<le> 3 * 4096
      then rbind (boot_map (boot_new (pl_table k)) (ucast (top + 1)) (ucast (top + 1 + 64 * 1024 * 1024)) (ucast (top + 1)) s)
             (\<lambda>s. let (p, m) = bv_supply s in Inr (s\<lparr>bv_supply := (p\<lparr>pl_top := pl_top p + 64 * 1024 * 1024\<rparr>, m)\<rparr>))
      else Inr s)"

definition boot_allocate :: "nat \<Rightarrow> u32 \<Rightarrow> boot_state \<Rightarrow> (u32 \<times> boot_state) result" where
  "boot_allocate k n s =
     (if n = 0 then Inr (0, s)
      else rbind (boot_extend k s) (\<lambda>s.
           rbind (pl_allocate k n (bv_supply s)) (\<lambda>(a, t). Inr (a, s\<lparr>bv_supply := t\<rparr>))))"

definition boot_align :: "boot_state \<Rightarrow> boot_state" where
  "boot_align s = (let (p, m) = bv_supply s in s\<lparr>bv_supply := (pl_align 4096 p, m)\<rparr>)"

text \<open>\<open>new\<close> of a table, all of which have the size of a page.\<close>

definition boot_page :: "nat \<Rightarrow> boot_state \<Rightarrow> (u64 \<times> boot_state) result" where
  "boot_page k s = rbind (boot_allocate k 4096 s) (\<lambda>(a, s).
     Inr (ucast a, s\<lparr>bv_mem := (bv_mem s)(ucast a := (\<lambda>_. 0))\<rparr>))"

definition vas_map :: "nat \<Rightarrow> u64 \<Rightarrow> u64 \<Rightarrow> u64 \<Rightarrow> boot_state \<Rightarrow> boot_state result" where
  "vas_map k = boot_map (\<lambda>s. boot_page k (boot_align s))"

section \<open>The first address space\<close>

text \<open>\<open>prepare_long_mode\<close>: 32 page tables that map the first 64 MiB onto themselves.\<close>

fun identity_entries :: "u64 \<Rightarrow> nat \<Rightarrow> nat list \<Rightarrow> boot_state \<Rightarrow> boot_state" where
  "identity_entries pt i [] s = s"
| "identity_entries pt i (j # js) s =
     identity_entries pt i js (boot_set pt j
       (boot_assign (ucast (of_nat i * 2 * 1024 * 1024 + of_nat j * 4 * 1024 :: u32)) (bv_mem s pt j)) s)"

fun identity_tables :: "nat \<Rightarrow> u64 \<Rightarrow> nat list \<Rightarrow> boot_state \<Rightarrow> boot_state result" where
  "identity_tables k pd [] s = Inr s"
| "identity_tables k pd (i # is) s =
     rbind (boot_page k s) (\<lambda>(pt, s).
     identity_tables k pd is (identity_entries pt i [0..<512] (boot_set pd i (boot_assign pt (bv_mem s pd i)) s)))"

definition prepare_long_mode :: "nat \<Rightarrow> boot_state \<Rightarrow> boot_state result" where
  "prepare_long_mode k s =
     rbind (boot_page k (boot_align s)) (\<lambda>(vas, s).
     rbind (boot_page k (s\<lparr>bv_root := vas\<rparr>)) (\<lambda>(table, s).
     let s = boot_set vas 0 (boot_assign table (bv_mem s vas 0)) s in
     rbind (boot_page k s) (\<lambda>(pd, s).
     let s = boot_set table 0 (boot_assign pd (bv_mem s table 0)) s in
     identity_tables k pd [0..<32] s)))"

text \<open>
  The kernel, its stack and the initrd: a region from the allocator is filled and mapped. \<open>copy\<close>
  stands for the byte copy into it (\<open>memory::copy\<close>) and the addresses of its source, target and size.
\<close>

definition install_kernel :: "nat \<Rightarrow> (u32 \<Rightarrow> u32 \<Rightarrow> u32 \<Rightarrow> frames \<Rightarrow> frames) \<Rightarrow> u32 \<Rightarrow> u32 \<Rightarrow> boot_state \<Rightarrow> (u64 \<times> boot_state) result" where
  "install_kernel k copy base len s =
     (let len = len * 512 in
      rbind (boot_allocate k len (boot_align s)) (\<lambda>(kernel, s).
      let s = s\<lparr>bv_mem := copy base kernel len (bv_mem s)\<rparr> in
      rbind (vas_map k 0xFFFFFFFF80000000 (0xFFFFFFFF80000000 + ucast len) (ucast kernel) s) (\<lambda>s.
      Inr (0xFFFFFFFF80000000 + (ucast (len + 4095) AND NOT 4095), s))))"

definition install_kernel_stack :: "nat \<Rightarrow> u64 \<Rightarrow> boot_state \<Rightarrow> (u64 \<times> boot_state) result" where
  "install_kernel_stack k kernel_end s =
     rbind (boot_allocate k 4096 (boot_align s)) (\<lambda>(stack, s).
     let kernel_end = kernel_end + 4096 in
     rbind (vas_map k kernel_end (kernel_end + 4096) (ucast stack) s) (\<lambda>s. Inr (kernel_end + 4096, s)))"

definition install_initrd :: "nat \<Rightarrow> (u32 \<Rightarrow> u32 \<Rightarrow> u32 \<Rightarrow> frames \<Rightarrow> frames) \<Rightarrow> u64 \<Rightarrow> u32 \<Rightarrow> u32 \<Rightarrow> boot_state \<Rightarrow> boot_state result" where
  "install_initrd k copy kernel_end base len s =
     rbind (boot_allocate k len (boot_align s)) (\<lambda>(initrd, s).
     let s = s\<lparr>bv_mem := copy base initrd len (bv_mem s)\<rparr> in
     vas_map k kernel_end (kernel_end + ucast len) (ucast initrd) s)"

end
