(* ===== verification/Boot_Paging_Map.thy ===== *)
theory Boot_Paging_Map
  imports Boot_Paging
begin

text \<open>
  Correctness of the boot loader's \<open>map\<close>, from any supply of fresh page frames below 4 GiB: the
  interface is the one the kernel's \<open>map\<close> uses, interpreted here on the placement allocator.
\<close>

section \<open>The invariant of the loops\<close>

definition low_tables :: "frames \<Rightarrow> u64 \<Rightarrow> bool" where
  "low_tables mem root \<longleftrightarrow> (\<forall>p f. path_ok p \<longrightarrow> length p \<le> 3 \<longrightarrow> walk mem root p = Some f \<longrightarrow> f < 0x100000000)"

definition boot_vas_ok :: "frames \<Rightarrow> u64 \<Rightarrow> bool" where
  "boot_vas_ok mem root \<longleftrightarrow> separate mem root \<and> low_tables mem root"

definition low_frames :: "u64 list \<Rightarrow> bool" where
  "low_frames fs \<longleftrightarrow> (\<forall>f\<in>set fs. f < 0x100000000)"

definition boot_inv :: "('s \<Rightarrow> u64 list \<Rightarrow> bool) \<Rightarrow> u64 \<Rightarrow> frames \<Rightarrow> nat \<Rightarrow> u64 \<Rightarrow> nat \<Rightarrow> nat \<Rightarrow> 's boot_vas \<Rightarrow> bool" where
  "boot_inv avail root m0 p0 phys p n s \<longleftrightarrow>
     bv_root s = root \<and> boot_vas_ok (bv_mem s) root \<and>
     (\<exists>fs. avail (bv_supply s) fs \<and> n \<le> length fs \<and> fresh_frames (bv_mem s) root fs \<and> low_frames fs) \<and>
     (\<forall>q. path_ok q \<longrightarrow> length q = 4 \<longrightarrow> walk (bv_mem s) root q =
        (if p0 \<le> path_number q \<and> path_number q < p then Some (frame_for phys p0 q) else walk m0 root q))"

lemma boot_invD:
  assumes "boot_inv avail root m0 p0 phys p n s"
  shows "bv_root s = root" "separate (bv_mem s) root" "low_tables (bv_mem s) root"
    "\<exists>fs. avail (bv_supply s) fs \<and> n \<le> length fs \<and> fresh_frames (bv_mem s) root fs \<and> low_frames fs"
    "\<And>q. path_ok q \<Longrightarrow> length q = 4 \<Longrightarrow> walk (bv_mem s) root q =
        (if p0 \<le> path_number q \<and> path_number q < p then Some (frame_for phys p0 q) else walk m0 root q)"
  using assms unfolding boot_inv_def boot_vas_ok_def by blast+

lemma boot_inv_less: "boot_inv avail root m0 p0 phys p n s \<Longrightarrow> m \<le> n \<Longrightarrow> boot_inv avail root m0 p0 phys p m s"
  unfolding boot_inv_def by (meson order_trans)

lemma e_present_boot_assign [simp]: "e_present (boot_assign a e)"
  and e_frame_boot_assign [simp]: "e_frame (boot_assign a e) = e_frame a"
  and e_read_write_boot_assign [simp]: "e_read_write (boot_assign a e)"
  by (simp_all add: boot_assign_def e_read_write_def)

lemma low_pointer: "e_frame e < 0x100000000 \<Longrightarrow> table_pointer e = e_frame e"
  by (simp add: table_pointer_def ucast_u32_u64)

lemma low_tablesD: "low_tables mem root \<Longrightarrow> path_ok p \<Longrightarrow> length p \<le> 3 \<Longrightarrow> walk mem root p = Some f \<Longrightarrow> f < 0x100000000"
  unfolding low_tables_def by blast

section \<open>The steps\<close>

text \<open>
  What \<open>map\<close> relies on: \<open>new\<close> of a table returns the next page, cleared, and changes nothing else.
\<close>

locale table_supply =
  fixes new :: "'s boot_vas \<Rightarrow> (u64 \<times> 's boot_vas) result" and avail :: "'s \<Rightarrow> u64 list \<Rightarrow> bool"
  assumes new_law: "avail (bv_supply s) (f # fs) \<Longrightarrow>
    \<exists>t. new s = Inr (f, s\<lparr>bv_supply := t, bv_mem := (bv_mem s)(f := (\<lambda>_. 0))\<rparr>) \<and> avail t fs"

sublocale frame_supply < tables: table_supply "boot_new pop" avail
proof
  fix s :: "'s boot_vas" and f fs
  assume "avail (bv_supply s) (f # fs)"
  from pop_law [OF this] show "\<exists>t. boot_new pop s = Inr (f, s\<lparr>bv_supply := t, bv_mem := (bv_mem s)(f := (\<lambda>_. 0))\<rparr>) \<and> avail t fs"
    by (auto simp: boot_new_def)
qed

context table_supply
begin

lemma boot_new_table:
  assumes inv: "boot_inv avail root m0 p0 phys p (Suc n) s"
    and t: "path_ok (t @ [i])" "length t \<le> 2" "walk (bv_mem s) root t = Some f" and absent: "\<not> e_present (bv_mem s f i)"
  shows "\<exists>g s1. new s = Inr (g, s1) \<and> g < 0x100000000 \<and> e_frame g = g \<and>
    boot_inv avail root m0 p0 phys p n (boot_set f i (boot_assign g (bv_mem s1 f i)) s1) \<and>
    (\<forall>q. path_ok q \<longrightarrow> length q \<le> 4 \<longrightarrow>
       walk (bv_mem (boot_set f i (boot_assign g (bv_mem s1 f i)) s1)) root q =
         (if q = t @ [i] then Some g else walk (bv_mem s) root q))"
proof -
  note D = boot_invD [OF inv]
  from D(4) obtain g fs where fs: "avail (bv_supply s) (g # fs)" "n \<le> length fs"
    "fresh_frames (bv_mem s) root (g # fs)" "low_frames (g # fs)" by (metis Suc_le_length_iff)
  from new_law [OF fs(1)] obtain u where
    u: "new s = Inr (g, s\<lparr>bv_supply := u, bv_mem := (bv_mem s)(g := (\<lambda>_. 0))\<rparr>)" "avail u fs" by blast
  have g: "e_frame g = g" "g < 0x100000000" and fresh: "\<forall>p. path_ok p \<longrightarrow> length p \<le> 3 \<longrightarrow> walk (bv_mem s) root p \<noteq> Some g"
    using fs(3,4) by (simp_all add: fresh_frames_def low_frames_def)
  have pt: "path_ok t" "length t \<le> 3" using t by auto
  then have fg: "f \<noteq> g" using fresh t(3) by auto
  let ?e = "boot_assign g (bv_mem s f i)"
  let ?m = "(set_entry (bv_mem s) f i ?e)(g := (\<lambda>_. 0))"
  let ?s1 = "s\<lparr>bv_supply := u, bv_mem := (bv_mem s)(g := (\<lambda>_. 0))\<rparr>"
  let ?s = "boot_set f i (boot_assign g (bv_mem ?s1 f i)) ?s1"
  have m: "bv_mem ?s = ?m" using fg by (auto simp: boot_set_def fun_upd_twist)
  note N = walk_new_table_separate [OF D(2) t absent, of ?e g]
  have W: "walk ?m root q = (if q = t @ [i] then Some g else walk (bv_mem s) root q)" if "path_ok q" "length q \<le> 4" for q
    using N(1) [OF _ _ fresh that] g(1) by simp
  have sep: "separate ?m root" using N(2) fresh g(1) by simp
  have low: "low_tables ?m root"
    unfolding low_tables_def
  proof (intro allI impI)
    fix q h assume q: "path_ok q" "length q \<le> 3" "walk ?m root q = Some h"
    then show "h < 0x100000000" using W [of q] g(2) low_tablesD [OF D(3), of q h] by (auto split: if_splits)
  qed
  have "fresh_frames ?m root fs"
    unfolding fresh_frames_def
  proof (intro conjI ballI allI impI)
    show "distinct fs" using fs(3) by (simp add: fresh_frames_def)
    fix h assume h: "h \<in> set fs"
    then show "e_frame h = h" using fs(3) by (simp add: fresh_frames_def)
    fix q assume q: "path_ok q" "length q \<le> 3"
    have "h \<noteq> g" using fs(3) h by (auto simp: fresh_frames_def)
    moreover have "walk (bv_mem s) root q \<noteq> Some h" using fs(3) h q by (simp add: fresh_frames_def)
    ultimately show "walk ?m root q \<noteq> Some h" using W [of q] q by auto
  qed
  moreover have "walk ?m root q = walk (bv_mem s) root q" if "path_ok q" "length q = 4" for q
  proof -
    have "q \<noteq> t @ [i]" using that(2) t(2) by auto
    then show ?thesis using W [of q] that by simp
  qed
  ultimately have "boot_inv avail root m0 p0 phys p n ?s"
    unfolding boot_inv_def m boot_vas_ok_def using D(1,5) sep low u(2) fs(2,4)
    by (auto simp: boot_set_def low_frames_def)
  moreover note u(1)
  ultimately show ?thesis using g W unfolding m [symmetric] by blast
qed

text \<open>Entering a table gives the pointer to it; the tables above stay where they are.\<close>

lemma boot_enter_inv:
  assumes inv: "boot_inv avail root m0 p0 phys p (Suc n) s"
    and t: "path_ok (t @ [i])" "length t \<le> 2" "walk (bv_mem s) root t = Some f"
  shows "\<exists>g s'. boot_enter new f i s = Inr (g, s') \<and> boot_inv avail root m0 p0 phys p n s' \<and>
    walk (bv_mem s') root (t @ [i]) = Some g \<and>
    (\<forall>q h. path_ok q \<longrightarrow> length q \<le> 3 \<longrightarrow> walk (bv_mem s) root q = Some h \<longrightarrow> walk (bv_mem s') root q = Some h)"
proof (cases "e_present (bv_mem s f i)")
  case True
  then have w: "walk (bv_mem s) root (t @ [i]) = Some (e_frame (bv_mem s f i))" using t(3) by (simp add: walk_step)
  then have "e_frame (bv_mem s f i) < 0x100000000"
    using low_tablesD [OF boot_invD(3) [OF inv] t(1)] t(2) by simp
  with True w boot_inv_less [OF inv, of n] show ?thesis by (auto simp: boot_enter_def low_pointer)
next
  case False
  from boot_new_table [OF inv t this] obtain g s1 where
    n: "new s = Inr (g, s1)" "g < 0x100000000" "e_frame g = g"
    "boot_inv avail root m0 p0 phys p n (boot_set f i (boot_assign g (bv_mem s1 f i)) s1)"
    "\<forall>q. path_ok q \<longrightarrow> length q \<le> 4 \<longrightarrow>
       walk (bv_mem (boot_set f i (boot_assign g (bv_mem s1 f i)) s1)) root q =
         (if q = t @ [i] then Some g else walk (bv_mem s) root q)" by blast
  let ?s = "boot_set f i (boot_assign g (bv_mem s1 f i)) s1"
  have "bv_mem ?s f i = boot_assign g (bv_mem s1 f i)" by (simp add: boot_set_def)
  then have "table_pointer (bv_mem ?s f i) = g" using n(2,3) low_pointer [of "bv_mem ?s f i"] by simp
  then have "boot_enter new f i s = Inr (g, ?s)" using False n(1) by (simp add: boot_enter_def)
  moreover have "walk (bv_mem s) root (t @ [i]) = None" using t(3) False by (simp add: walk_step)
  ultimately show ?thesis using n(4,5) t(1,2) by (intro exI [of _ g] exI [of _ ?s]) auto
qed

end

lemma boot_leaf_inv:
  fixes l
  defines "s \<equiv> bl_vas l" and "ph \<equiv> bl_phys l"
  assumes inv: "boot_inv avail root m0 p0 phys (path_number (t @ [i])) n s"
    and t: "path_ok (t @ [i])" "length t = 3" "walk (bv_mem s) root t = Some (bl_pt l)"
    and p0: "p0 \<le> path_number (t @ [i])" and ph: "ph = phys + 4096 * of_nat (path_number (t @ [i]) - p0)"
    and free: "walk m0 root (t @ [i]) = None \<or> walk m0 root (t @ [i]) = Some ph"
  shows "\<exists>l'. boot_leaf i l = Inr l' \<and> boot_inv avail root m0 p0 phys (Suc (path_number (t @ [i]))) n (bl_vas l') \<and>
    bl_phys l' = ph + 4096 \<and> bl_table l' = bl_table l \<and> bl_pd l' = bl_pd l \<and> bl_pt l' = bl_pt l \<and>
    (\<forall>q. path_ok q \<longrightarrow> length q \<le> 3 \<longrightarrow> walk (bv_mem (bl_vas l')) root q = walk (bv_mem s) root q)"
proof -
  note D = boot_invD [OF inv]
  let ?f = "bl_pt l"
  let ?old = "bv_mem s ?f i"
  let ?e = "boot_assign ph ?old"
  let ?m = "set_entry (bv_mem s) ?f i ?e"
  have "walk (bv_mem s) root (t @ [i]) = walk m0 root (t @ [i])" using D(5) [OF t(1)] t(2) by simp
  then have "\<not> (e_present ?old \<and> ph \<noteq> e_frame ?old)" using free t(3) by (auto simp: walk_step split: if_splits)
  then have run: "boot_leaf i l = Inr (l\<lparr>bl_vas := boot_set ?f i ?e s, bl_phys := ph + 4096\<rparr>)"
    by (simp add: boot_leaf_def Let_def s_def ph_def)
  have W: "walk ?m root q = (if q = t @ [i] then Some (e_frame ph) else walk (bv_mem s) root q)"
    if "path_ok q" "length q \<le> 4" for q using walk_leaf_separate(1) [OF D(2) t that, of ?e] by simp
  have sep: "separate ?m root" using walk_leaf_separate(2) [OF D(2) t] .
  have short: "walk ?m root q = walk (bv_mem s) root q" if "path_ok q" "length q \<le> 3" for q
  proof -
    have "q \<noteq> t @ [i]" using that(2) t(2) by auto
    then show ?thesis using W [of q] that by simp
  qed
  then have low: "low_tables ?m root" using D(3) by (simp add: low_tables_def)
  have "\<exists>fs. avail (bv_supply s) fs \<and> n \<le> length fs \<and> fresh_frames ?m root fs \<and> low_frames fs"
    using D(4) short by (auto simp: fresh_frames_def)
  moreover have "walk ?m root q =
      (if p0 \<le> path_number q \<and> path_number q < Suc (path_number (t @ [i])) then Some (frame_for phys p0 q)
       else walk m0 root q)" if q: "path_ok q" "length q = 4" for q
  proof (cases "q = t @ [i]")
    case True
    with W [OF q(1)] q(2) p0 ph show ?thesis by (simp add: frame_for_def)
  next
    case False
    have "length (t @ [i]) = 4" using t(2) by simp
    then have "path_number q \<noteq> path_number (t @ [i])" using False path_number_inj [OF q(1) t(1) q(2)] by blast
    with False W [OF q(1)] q D(5) [OF q] show ?thesis by (auto simp: less_Suc_eq)
  qed
  ultimately have "boot_inv avail root m0 p0 phys (Suc (path_number (t @ [i]))) n (boot_set ?f i ?e s)"
    using D(1) sep low by (simp add: boot_inv_def boot_vas_ok_def boot_set_def)
  with run short show ?thesis by (simp add: boot_set_def)
qed


section \<open>The loops\<close>

context table_supply
begin

lemma boot_page_loop:
  fixes root m0 phys
  assumes p0: "pos_ok (a0, b0, c0, d0)" "p0 = page_number (a0, b0, c0, d0)" and pe: "pos_ok e" "p0 \<le> page_number e"
    and region: "page_number e \<le> 256 * (512 * 512 * 512) \<or> 258 * (512 * 512 * 512) \<le> p0"
    and free: "\<And>q. path_ok q \<Longrightarrow> length q = 4 \<Longrightarrow> p0 \<le> path_number q \<Longrightarrow> path_number q < page_number e \<Longrightarrow>
      walk m0 root q = None \<or> walk m0 root q = Some (phys + 4096 * of_nat (path_number q - p0))"
    and inv: "boot_inv avail root m0 p0 phys p0 (tables_touched p0 (page_number e)) (bl_vas l)"
    and ph: "bl_phys l = phys"
  shows "\<exists>l'. page_loop (enter_table new) (\<lambda>_. enter_pd new) (\<lambda>_ _. enter_pt new)
      (\<lambda>_ _ _. boot_leaf) (\<lambda>_. Inr) (\<lambda>_ _. Inr) (\<lambda>_ _ _. Inr) (a0, b0, c0, d0) e l = Inr l' \<and>
    boot_inv avail root m0 p0 phys (page_number e) 0 (bl_vas l')"
proof -
  let ?pe = "page_number e"
  let ?W4 = "512 * 512 * 512 :: nat" and ?W3 = "512 * 512 :: nat"
  let ?inv = "boot_inv avail root m0 p0 phys"
  let ?at = "\<lambda>p l. p0 \<le> p \<and> bl_phys l = phys + 4096 * of_nat (p - p0)"
  let ?w = "\<lambda>l. walk (bv_mem (bl_vas l)) root"
  let ?n4 = "\<lambda>a. (?pe - 1) div ?W4 - a" and ?n3 = "\<lambda>a b. (?pe - 1) div ?W3 - (a * 512 + b)"
  let ?n2 = "\<lambda>a b c. (?pe - 1) div 512 - ((a * 512 + b) * 512 + c)"
  let ?I0 = "\<lambda>p l. ?inv p (tables_touched p ?pe) (bl_vas l) \<and> ?at p l"
  let ?I4 = "\<lambda>a p l. ?inv p (?n4 a + tables_left ?W3 ?pe p + tables_left 512 ?pe p) (bl_vas l) \<and> ?at p l \<and>
      path_ok [a] \<and> ?w l [a] = Some (bl_table l)"
  let ?I3 = "\<lambda>a b p l. ?inv p (?n4 a + ?n3 a b + tables_left 512 ?pe p) (bl_vas l) \<and> ?at p l \<and>
      path_ok [a, b] \<and> ?w l [a] = Some (bl_table l) \<and> ?w l [a, b] = Some (bl_pd l)"
  let ?I2 = "\<lambda>a b c p l. ?inv p (?n4 a + ?n3 a b + ?n2 a b c) (bl_vas l) \<and> ?at p l \<and>
      path_ok [a, b, c] \<and> ?w l [a] = Some (bl_table l) \<and> ?w l [a, b] = Some (bl_pd l) \<and> ?w l [a, b, c] = Some (bl_pt l)"
  have okc: "path_ok (a # t)" if "a < 512" "a \<noteq> 256" "a \<noteq> 257" "\<forall>i\<in>set t. i < 512" for a t
    using that by (simp add: path_ok_def)
  have "\<exists>l'. page_loop (enter_table new) (\<lambda>_. enter_pd new) (\<lambda>_ _. enter_pt new)
      (\<lambda>_ _ _. boot_leaf) (\<lambda>_. Inr) (\<lambda>_ _. Inr) (\<lambda>_ _ _. Inr) (a0, b0, c0, d0) e l = Inr l' \<and> ?I0 ?pe l'"
  proof (rule page_loop_inv [where ?I0.0 = ?I0 and ?I4.0 = ?I4 and ?I3.0 = ?I3 and ?I2.0 = ?I2], goal_cases)
    case (3 a p l)
    then have J: "?inv p (tables_touched p ?pe) (bl_vas l)" "?at p l" by auto
    have n: "tables_touched p ?pe = Suc (?n4 a + tables_left ?W3 ?pe p + tables_left 512 ?pe p)"
      using tables_left_enter [of p ?pe a ?W4] 3 by (simp add: tables_touched_def mult.assoc)
    have a: "a \<noteq> 256" "a \<noteq> 257" using region J(2) 3(2-4) by auto
    have ok: "path_ok ([] @ [a])" using okc [of a "[]"] a 3(1) by simp
    from boot_enter_inv [OF J(1) [unfolded n] ok _ walk.simps(1)] ok J(2) show ?case
      by (auto simp: enter_table_def boot_invD(1) [OF J(1)])
  next
    case (4 a b p l)
    then have J: "?inv p (?n4 a + tables_left ?W3 ?pe p + tables_left 512 ?pe p) (bl_vas l)" "?at p l"
      "path_ok [a]" "?w l [a] = Some (bl_table l)" by auto
    have n: "?n4 a + tables_left ?W3 ?pe p + tables_left 512 ?pe p = Suc (?n4 a + ?n3 a b + tables_left 512 ?pe p)"
      using tables_left_enter [of p ?pe "a * 512 + b" ?W3] 4 by (simp add: mult.assoc)
    have ok: "path_ok ([a] @ [b])" using J(3) 4(2) by (simp add: path_ok_def)
    from boot_enter_inv [OF J(1) [unfolded n] ok _ J(4)] J(2-4) ok show ?case
      by (force simp: enter_pd_def)
  next
    case (5 a b c p l)
    then have J: "?inv p (?n4 a + ?n3 a b + tables_left 512 ?pe p) (bl_vas l)" "?at p l"
      "path_ok [a, b]" "?w l [a] = Some (bl_table l)" "?w l [a, b] = Some (bl_pd l)" by auto
    have n: "?n4 a + ?n3 a b + tables_left 512 ?pe p = Suc (?n4 a + ?n3 a b + ?n2 a b c)"
      using tables_left_enter [of p ?pe "(a * 512 + b) * 512 + c" 512] 5 by simp
    have ok: "path_ok ([a, b] @ [c])" "path_ok [a]" using J(3) 5(3) by (simp_all add: path_ok_def)
    from boot_enter_inv [OF J(1) [unfolded n] ok(1) _ J(5)] J(2-5) ok show ?case
      by (force simp: enter_pt_def)
  next
    case (6 a b c d l)
    let ?p = "page_number (a, b, c, d)"
    from 6 have J: "?inv ?p (?n4 a + ?n3 a b + ?n2 a b c) (bl_vas l)" "?at ?p l"
      "path_ok [a, b, c]" "?w l [a] = Some (bl_table l)" "?w l [a, b] = Some (bl_pd l)" "?w l [a, b, c] = Some (bl_pt l)" by auto
    have ok: "path_ok ([a, b, c] @ [d])" "path_ok [a]" "path_ok [a, b]" using J(3) 6(1) by (auto simp: path_ok_def)
    have pn: "path_number ([a, b, c] @ [d]) = ?p" by simp
    have fr: "walk m0 root ([a, b, c] @ [d]) = None \<or> walk m0 root ([a, b, c] @ [d]) = Some (bl_phys l)"
      using free [OF ok(1)] J(2) 6(2) unfolding pn by simp
    from boot_leaf_inv [OF J(1) [folded pn] ok(1) _ J(6) _ _ fr] J(2) obtain l' where
      l': "boot_leaf d l = Inr l'" "?inv (Suc ?p) (?n4 a + ?n3 a b + ?n2 a b c) (bl_vas l')"
      "bl_phys l' = bl_phys l + 4096" "bl_table l' = bl_table l" "bl_pd l' = bl_pd l" "bl_pt l' = bl_pt l"
      "\<forall>q. path_ok q \<longrightarrow> length q \<le> 3 \<longrightarrow> ?w l' q = ?w l q" unfolding pn by auto
    have "bl_phys l' = phys + 4096 * of_nat (Suc ?p - p0)"
      using J(2) l'(3) by (simp add: Suc_diff_le algebra_simps del: page_number.simps)
    with l' J(2-6) ok show ?case by (simp del: page_number.simps)
  next
    case (7 a b c p l)
    then have J: "?inv p (?n4 a + ?n3 a b + ?n2 a b c) (bl_vas l)" "?at p l"
      "path_ok [a, b, c]" "?w l [a] = Some (bl_table l)" "?w l [a, b] = Some (bl_pd l)" by auto
    moreover have "tables_left 512 ?pe p \<le> ?n2 a b c" using 7(4) by (intro tables_left_leave) auto
    ultimately show ?case using boot_inv_less [OF J(1)] by (simp add: path_ok_def)
  next
    case (8 a b p l)
    then have J: "?inv p (?n4 a + ?n3 a b + tables_left 512 ?pe p) (bl_vas l)" "?at p l"
      "path_ok [a, b]" "?w l [a] = Some (bl_table l)" by auto
    moreover have "tables_left ?W3 ?pe p \<le> ?n3 a b" using 8(3) by (intro tables_left_leave) (auto simp: mult.assoc)
    ultimately show ?case using boot_inv_less [OF J(1)] by (simp add: path_ok_def)
  next
    case (9 a p l)
    then have J: "?inv p (?n4 a + tables_left ?W3 ?pe p + tables_left 512 ?pe p) (bl_vas l)" "?at p l" by auto
    moreover have "tables_left ?W4 ?pe p \<le> ?n4 a" using 9(2) by (intro tables_left_leave) (auto simp: mult.assoc)
    ultimately show ?case using boot_inv_less [OF J(1)] by (simp add: tables_touched_def)
  qed (use p0 pe inv ph in simp_all)
  then show ?thesis by (auto simp: tables_touched_def tables_left_def)
qed

end


section \<open>The placement allocator as a supply\<close>

text \<open>The pages that are left: from the placement address, rounded up, below the end of the free entry.\<close>

definition aligned :: "placement \<Rightarrow> nat" where
  "aligned p = 4096 * ((unat (pl_address p) + 4095) div 4096)"

definition pl_pages :: "placement \<times> memory_map \<Rightarrow> u64 list \<Rightarrow> bool" where
  "pl_pages = (\<lambda>(p, m) fs. pl_ready p m \<and> unat (pl_address p) \<le> unat (me_end (mm_entries m ! pl_current p)) \<and>
     aligned p + 4096 * length fs < unat (me_end (mm_entries m ! pl_leeched p)) \<and>
     fs = List.map (\<lambda>i. of_nat (aligned p + 4096 * i)) [0..<length fs])"

lemma pl_pages_step:
  assumes "pl_pages (p, m) (f # fs)" "3 < k"
  shows "\<exists>p' m'. pl_allocate k 4096 (pl_align 4096 p, m) = Inr (pl_address (pl_align 4096 p), p', m') \<and>
    ucast (pl_address (pl_align 4096 p)) = f \<and> unat (pl_address (pl_align 4096 p)) = aligned p \<and>
    pl_pages (p', m') fs \<and> pl_top p' = pl_top p \<and> aligned p' = aligned p + 4096 \<and>
    unat (pl_address p') = aligned p'"
proof -
  let ?c = "mm_entries m ! pl_current p" and ?l = "mm_entries m ! pl_leeched p" and ?A = "aligned p"
  let ?p = "pl_align 4096 p"
  from assms(1) have r: "pl_ready p m" and ac: "unat (pl_address p) \<le> unat (me_end ?c)"
    and A: "?A + 4096 * Suc (length fs) < unat (me_end ?l)"
    and fs: "f # fs = List.map (\<lambda>i. of_nat (?A + 4096 * i)) [0..<Suc (length fs)]" by (auto simp: pl_pages_def simp del: upt_Suc)
  have le: "unat (me_end ?l) \<le> 2 ^ 32" using r by (simp add: pl_ready_def Let_def word_le_nat_alt)
  have A': "unat (pl_address p) \<le> ?A" "?A < unat (pl_address p) + 4096" unfolding aligned_def by linarith+
  have u: "unat (pl_address ?p) = ?A"
    unfolding aligned_def by (rule unat_pl_align) (use A A' le in simp)
  have cl: "pl_current ?p = pl_current p" "pl_leeched ?p = pl_leeched p" by (simp_all add: pl_align_def)
  have r': "pl_ready ?p m"
    using r A' ac u by (auto simp: pl_ready_def Let_def cl word_le_nat_alt)
  have r4: "pl_round 4096 = 4096" by (simp add: pl_round_def)
  have side: "unat (pl_address ?p) + unat (pl_round 4096) < unat (me_end (mm_entries m ! pl_leeched ?p))"
    "unat (pl_round 4096) div 4096 + 2 < k" using A assms(2) by (simp_all add: r4 u cl)
  note M = pl_allocate_moves [OF r' _ side, unfolded r4 cl]
  define a where "a = pl_address ?p + 4096"
  define j where "j = pages_to (unat (me_end ?c)) (unat a)"
  note M' = M(3,4) [folded a_def, folded j_def]
  have end': "unat a \<le> unat (me_end ?c + 4096 * of_nat j)" using M'(2) by (simp add: word_less_nat_alt)
  let ?s = "(?p\<lparr>pl_address := a\<rparr>, moved j (pl_current p) (pl_leeched p) m)"
  have run: "pl_allocate k 4096 (?p, m) = Inr (pl_address ?p, ?s)"
    using M(1) by (simp add: a_def j_def)
  have f: "f = of_nat ?A" using fs by (simp add: upt_conv_Cons del: upt_Suc)
  have "ucast (pl_address ?p) = f" by (simp add: f flip: u)
  moreover have ua: "unat a = ?A + 4096" using M(2) u by (simp add: a_def)
  then have al: "aligned (?p\<lparr>pl_address := a\<rparr>) = ?A + 4096" by (simp add: aligned_def)
  have cl': "pl_current p \<noteq> pl_leeched p" "pl_current p < length (mm_entries m)" "pl_leeched p < length (mm_entries m)"
    using r by (auto simp: pl_ready_def Let_def)
  have "fs = List.map (\<lambda>i. of_nat (?A + 4096 * i)) (List.map Suc [0..<length fs])"
    using fs by (simp add: upt_conv_Cons map_Suc_upt del: upt_Suc)
  then have "fs = List.map (\<lambda>i. of_nat (?A + 4096 + 4096 * i)) [0..<length fs]" by (simp add: comp_def algebra_simps)
  then have "pl_pages ?s fs"
    using M'(1) end' A al cl cl' by (simp add: pl_pages_def)
  moreover have "pl_top (?p\<lparr>pl_address := a\<rparr>) = pl_top p" by (simp add: pl_align_def)
  moreover have "unat (pl_address (?p\<lparr>pl_address := a\<rparr>)) = aligned (?p\<lparr>pl_address := a\<rparr>)" using ua al by simp
  ultimately show ?thesis using run u al by blast
qed

lemma pl_pages_law:
  assumes "pl_pages s (f # fs)" "3 < k"
  shows "\<exists>s'. pl_table k s = Inr (f, s') \<and> pl_pages s' fs"
proof -
  obtain p m where s: "s = (p, m)" by (cases s)
  from pl_pages_step [OF assms(1) [unfolded s] assms(2)] show ?thesis by (auto simp: pl_table_def s)
qed

interpretation boot_pages: frame_supply "pl_table (4 + k)" pl_pages for k
  by unfold_locales (rule pl_pages_law; simp)


text \<open>
  The allocator as \<open>map\<close> calls it from outside: while the pages it hands out stay below \<open>top_mapped\<close>
  it does not extend the identity mapping.
\<close>

definition mapped_pages :: "placement \<times> memory_map \<Rightarrow> u64 list \<Rightarrow> bool" where
  "mapped_pages = (\<lambda>(p, m) fs. pl_pages (p, m) fs \<and> aligned p + 4096 * length fs + 3 * 4096 < unat (pl_top p))"

definition map_page :: "nat \<Rightarrow> boot_state \<Rightarrow> (u64 \<times> boot_state) result" where
  "map_page k s = boot_page k (boot_align s)"

lemma mapped_pages_step:
  assumes "mapped_pages (bv_supply s) (f # fs)" "3 < k"
  shows "\<exists>t. map_page k s = Inr (f, s\<lparr>bv_supply := t, bv_mem := (bv_mem s)(f := (\<lambda>_. 0))\<rparr>) \<and> mapped_pages t fs \<and>
    unat (pl_address (fst t)) = aligned (fst t)"
proof -
  obtain p m where s: "bv_supply s = (p, m)" by (cases "bv_supply s")
  with assms(1) have pp: "pl_pages (p, m) (f # fs)" and top: "aligned p + 4096 * Suc (length fs) + 3 * 4096 < unat (pl_top p)"
    by (auto simp: mapped_pages_def)
  from pl_pages_step [OF pp assms(2)] obtain p' m' where
    p': "pl_allocate k 4096 (pl_align 4096 p, m) = Inr (pl_address (pl_align 4096 p), p', m')"
    "ucast (pl_address (pl_align 4096 p)) = f" "unat (pl_address (pl_align 4096 p)) = aligned p"
    "pl_pages (p', m') fs" "pl_top p' = pl_top p" "aligned p' = aligned p + 4096" "unat (pl_address p') = aligned p'"
    by blast
  have pt: "pl_top (pl_align 4096 p) = pl_top p" by (simp add: pl_align_def)
  have "unat (pl_top p - pl_address (pl_align 4096 p)) = unat (pl_top p) - aligned p"
    using top p'(3) by (simp add: unat_sub word_le_nat_alt)
  then have "\<not> pl_top p - pl_address (pl_align 4096 p) \<le> 3 * 4096"
    using top by (simp add: word_le_nat_alt)
  then have "map_page k s = Inr (f, s\<lparr>bv_supply := (p', m'), bv_mem := (bv_mem s)(f := (\<lambda>_. 0))\<rparr>)"
    using p'(1,2) pt by (simp add: map_page_def boot_page_def boot_allocate_def boot_extend_def boot_align_def s Let_def)
  moreover have "mapped_pages (p', m') fs" using p'(4-6) top by (simp add: mapped_pages_def)
  ultimately show ?thesis using p'(7) by (intro exI [of _ "(p', m')"]) simp
qed

lemma mapped_pages_law:
  assumes "mapped_pages (bv_supply s) (f # fs)" "3 < k"
  shows "\<exists>t. map_page k s = Inr (f, s\<lparr>bv_supply := t, bv_mem := (bv_mem s)(f := (\<lambda>_. 0))\<rparr>) \<and> mapped_pages t fs"
  using mapped_pages_step [OF assms] by blast

interpretation loader: table_supply "map_page (4 + k)" mapped_pages for k
  by unfold_locales (rule mapped_pages_law; simp)

lemma vas_map_page: "vas_map k = boot_map (map_page k)"
  by (intro ext) (simp add: vas_map_def map_page_def [abs_def])

section \<open>The map of the boot loader\<close>

text \<open>A path of four indices is the path of an address.\<close>

lemma address_of_path:
  assumes "path_ok q" "length q = 4"
  obtains v where "indices v = q" "ordinary v" "vpage v = path_number q"
proof -
  have i: "indices (of_nat (path_number q * 4096)) = q" by (rule indices_of_path [OF assms])
  then have "ordinary (of_nat (path_number q * 4096))" "vpage (of_nat (path_number q * 4096)) = path_number q"
    using path_ok_indices [of "of_nat (path_number q * 4096)"] path_number_indices [of "of_nat (path_number q * 4096)"] assms(1)
    by simp_all
  with i that show ?thesis by blast
qed

definition boot_map_pre :: "('s \<Rightarrow> u64 list \<Rightarrow> bool) \<Rightarrow> u64 \<Rightarrow> u64 \<Rightarrow> u64 list \<Rightarrow> 's boot_vas \<Rightarrow> bool" where
  "boot_map_pre avail vstart vend fs s \<longleftrightarrow>
     boot_vas_ok (bv_mem s) (bv_root s) \<and> page_floor vstart < page_ceil vend \<and>
     vpage (page_floor vstart) \<le> vpage (page_ceil vend) \<and>
     (vpage (page_ceil vend) \<le> 256 * (512 * 512 * 512) \<or> 258 * (512 * 512 * 512) \<le> vpage (page_floor vstart)) \<and>
     (\<forall>v. ordinary v \<longrightarrow> vpage (page_floor vstart) \<le> vpage v \<longrightarrow> vpage v < vpage (page_ceil vend) \<longrightarrow>
        translate (bv_mem s) (bv_root s) v = None) \<and>
     avail (bv_supply s) fs \<and> fresh_frames (bv_mem s) (bv_root s) fs \<and> low_frames fs \<and>
     tables_touched (vpage (page_floor vstart)) (vpage (page_ceil vend)) \<le> length fs"

context table_supply
begin

lemma boot_map_inv:
  assumes pre: "boot_map_pre avail vstart vend fs s"
  shows "\<exists>s'. boot_map new vstart vend phys s = Inr s' \<and>
    boot_inv avail (bv_root s) (bv_mem s) (vpage (page_floor vstart)) phys (vpage (page_ceil vend)) 0 s'"
proof -
  let ?root = "bv_root s" and ?m = "bv_mem s"
  let ?p0 = "vpage (page_floor vstart)" and ?pe = "vpage (page_ceil vend)"
  from pre have lt: "page_floor vstart < page_ceil vend" and le: "?p0 \<le> page_number (pos_of (page_ceil vend))"
    and half: "page_number (pos_of (page_ceil vend)) \<le> 256 * (512 * 512 * 512) \<or> 258 * (512 * 512 * 512) \<le> ?p0"
    and free: "\<And>v. ordinary v \<Longrightarrow> ?p0 \<le> vpage v \<Longrightarrow> vpage v < ?pe \<Longrightarrow> translate ?m ?root v = None"
    by (auto simp: boot_map_pre_def vpage_def)
  let ?l = "\<lparr>bl_vas = s, bl_table = 0, bl_pd = 0, bl_pt = 0, bl_phys = phys\<rparr>"
  have start: "boot_inv avail ?root ?m ?p0 phys ?p0 (tables_touched ?p0 (page_number (pos_of (page_ceil vend)))) (bl_vas ?l)"
    using pre unfolding boot_inv_def boot_map_pre_def by (auto simp: vpage_def)
  have free': "walk ?m ?root q = None \<or> walk ?m ?root q = Some (phys + 4096 * of_nat (path_number q - ?p0))"
    if "path_ok q" "length q = 4" "?p0 \<le> path_number q" "path_number q < page_number (pos_of (page_ceil vend))" for q
    using free that by (metis address_of_path translate_def vpage_def)
  obtain a b c d where pos: "pos_of (page_floor vstart) = (a, b, c, d)" by (cases "pos_of (page_floor vstart)")
  have p0: "pos_ok (a, b, c, d)" "?p0 = page_number (a, b, c, d)"
    using pos_ok_pos_of [of "page_floor vstart"] by (simp_all only: pos vpage_def)
  from boot_page_loop [OF p0 pos_ok_pos_of le half free' start] obtain l' where
    "page_loop (enter_table new) (\<lambda>_. enter_pd new) (\<lambda>_ _. enter_pt new) (\<lambda>_ _ _. boot_leaf)
      (\<lambda>_. Inr) (\<lambda>_ _. Inr) (\<lambda>_ _ _. Inr) (a, b, c, d) (pos_of (page_ceil vend)) ?l = Inr l'"
    "boot_inv avail ?root ?m ?p0 phys (page_number (pos_of (page_ceil vend))) 0 (bl_vas l')" by auto
  moreover have "\<not> page_ceil vend \<le> page_floor vstart" using lt by simp
  ultimately show ?thesis by (simp add: boot_map_def Let_def pos vpage_def)
qed

end

text \<open>
  C22. The boot loader's \<open>map\<close>, with the placement allocator as it stands: when its pages are
  enough and lie below the memory mapped onto itself, the call returns; the pages of the range
  translate to the frames from \<open>phys\<close> on, in order, and every other address as before.
\<close>

theorem boot_map_correct:
  assumes "boot_map_pre mapped_pages vstart vend fs s" "3 < k"
  shows "\<exists>s'. vas_map k vstart vend phys s = Inr s' \<and> bv_root s' = bv_root s \<and>
    boot_vas_ok (bv_mem s') (bv_root s) \<and>
    (\<forall>v. ordinary v \<longrightarrow> translate (bv_mem s') (bv_root s) v =
       (if vpage (page_floor vstart) \<le> vpage v \<and> vpage v < vpage (page_ceil vend)
        then Some (e_frame (phys + 4096 * of_nat (vpage v - vpage (page_floor vstart))))
        else translate (bv_mem s) (bv_root s) v))"
proof -
  obtain j where k: "k = 4 + j" using assms(2) le_Suc_ex [of 4 k] by auto
  from loader.boot_map_inv [OF assms(1), of j phys] obtain s' where
    s': "boot_map (map_page k) vstart vend phys s = Inr s'"
    "boot_inv mapped_pages (bv_root s) (bv_mem s) (vpage (page_floor vstart)) phys (vpage (page_ceil vend)) 0 s'"
    unfolding k by blast
  note D = boot_invD [OF s'(2)]
  have "translate (bv_mem s') (bv_root s) v =
       (if vpage (page_floor vstart) \<le> vpage v \<and> vpage v < vpage (page_ceil vend)
        then Some (e_frame (phys + 4096 * of_nat (vpage v - vpage (page_floor vstart))))
        else translate (bv_mem s) (bv_root s) v)" if "ordinary v" for v
    using D(5) [of "indices v"] that by (simp add: translate_def frame_for_def)
  with s'(1) D(1-3) show ?thesis by (simp add: vas_map_page boot_vas_ok_def)
qed


text \<open>
  An empty root at \<open>0x1000\<close> and free memory from 2 MiB on; two pages of a kernel at 3 MiB are mapped
  to the last two GiB of the address space.
\<close>

definition demo_boot_pl :: "placement \<times> memory_map" where
  "demo_boot_pl =
     (\<lparr>pl_address = 0x200000, pl_current = 0, pl_leeched = 1, pl_top = 0x3FFFFFF\<rparr>,
      \<lparr>mm_entries = \<lparr>me_base = 0x100000, me_length = 0x100000, me_type = 2, me_attribs = 0\<rparr> #
         \<lparr>me_base = 0x200000, me_length = 0x100000, me_type = 1, me_attribs = 0\<rparr> # replicate 510 no_entry,
       mm_count = 2\<rparr>)"

definition demo_boot :: boot_state where
  "demo_boot = \<lparr>bv_mem = (\<lambda>_ _. 0), bv_root = 0x1000, bv_supply = demo_boot_pl\<rparr>"

lemma demo_boot_walk: "walk (bv_mem demo_boot) 0x1000 q = (if q = [] then Some 0x1000 else None)"
  by (cases q) (auto simp: demo_boot_def walk.simps e_present_def)

lemma demo_boot_pages: "mapped_pages demo_boot_pl [0x200000, 0x201000, 0x202000]"
proof -
  obtain p m where pm: "demo_boot_pl = (p, m)" by (cases demo_boot_pl)
  then have f: "pl_address p = 0x200000" "pl_current p = 0" "pl_leeched p = 1" "pl_top p = 0x3FFFFFF"
    "mm_entries m ! 0 = \<lparr>me_base = 0x100000, me_length = 0x100000, me_type = 2, me_attribs = 0\<rparr>"
    "mm_entries m ! Suc 0 = \<lparr>me_base = 0x200000, me_length = 0x100000, me_type = 1, me_attribs = 0\<rparr>"
    "length (mm_entries m) = 512" by (auto simp: demo_boot_pl_def)
  have "pl_ready p m" by (simp add: pl_ready_def f me_end_def)
  then show ?thesis by (simp add: pm mapped_pages_def pl_pages_def aligned_def f me_end_def upt_rec)
qed

lemma demo_boot_range: "vpage (page_floor 0xFFFFFFFF80000000) = 68718952448" "vpage (page_ceil 0xFFFFFFFF80002000) = 68718952450"
  "page_floor 0xFFFFFFFF80000000 < page_ceil 0xFFFFFFFF80002000"
  by (simp_all add: vpage_def pos_of_def page_floor_def page_ceil_def index_of_def)

lemma demo_boot_pre:
  "boot_map_pre mapped_pages 0xFFFFFFFF80000000 0xFFFFFFFF80002000 [0x200000, 0x201000, 0x202000] demo_boot"
proof -
  let ?m = "bv_mem demo_boot"
  have r: "bv_root demo_boot = 0x1000" "bv_supply demo_boot = demo_boot_pl" by (simp_all add: demo_boot_def)
  have "boot_vas_ok ?m 0x1000"
    by (auto simp: boot_vas_ok_def separate_def low_tables_def demo_boot_walk split: if_splits)
  moreover have "translate ?m 0x1000 v = None" for v
    by (simp add: translate_def demo_boot_walk indices_def)
  moreover have "fresh_frames ?m 0x1000 [0x200000, 0x201000, 0x202000]"
    unfolding fresh_frames_def by (auto simp: demo_boot_walk e_frame_def mask_eq_exp_minus_1 split: if_splits)
  moreover have "low_frames [0x200000, 0x201000, 0x202000]" by (simp add: low_frames_def)
  ultimately show ?thesis
    using demo_boot_pages demo_boot_range
    by (simp add: boot_map_pre_def r tables_touched_def tables_left_def)
qed

theorem boot_map_correct_witness:
  "\<exists>s'. vas_map 4 0xFFFFFFFF80000000 0xFFFFFFFF80002000 0x300000 demo_boot = Inr s' \<and>
    translate (bv_mem s') 0x1000 0xFFFFFFFF80001000 = Some 0x301000"
proof -
  have o: "ordinary 0xFFFFFFFF80001000" "vpage 0xFFFFFFFF80001000 = 68718952449" "e_frame 0x301000 = 0x301000"
    by (simp_all add: ordinary_def vpage_def pos_of_def index_of_def e_frame_def mask_eq_exp_minus_1)
  from boot_map_correct [OF demo_boot_pre, of 4 "0x300000"] obtain s' where
    "vas_map 4 0xFFFFFFFF80000000 0xFFFFFFFF80002000 0x300000 demo_boot = Inr s'"
    "\<forall>v. ordinary v \<longrightarrow> translate (bv_mem s') (bv_root demo_boot) v =
       (if 68718952448 \<le> vpage v \<and> vpage v < 68718952450
        then Some (e_frame (0x300000 + 4096 * of_nat (vpage v - 68718952448)))
        else translate (bv_mem demo_boot) (bv_root demo_boot) v)"
    unfolding demo_boot_range by auto
  with o show ?thesis by (intro exI [of _ s']) (simp add: demo_boot_def)
qed

end
