(* ===== verification/Boot_Identity.thy ===== *)
theory Boot_Identity
  imports Boot_Paging_Map
begin

text \<open>
  The first address space, built by \<open>prepare_long_mode\<close> (\<open>loader/booter/memory/memory.cpp\<close>): the first
  64 MiB are mapped onto themselves and nothing else is mapped. The result is what the theorem on
  \<open>map\<close> asks for.
\<close>

section \<open>Pages in a row\<close>

lemma unat_e_frame: "unat (e_frame x) = 4096 * (unat x div 4096 mod 2 ^ 40)"
proof -
  have "e_frame x = push_bit 12 (take_bit 40 (drop_bit 12 x))" by (simp add: e_frame_def take_bit_eq_mask)
  moreover have "unat (take_bit 40 (drop_bit 12 x)) = unat x div 4096 mod 2 ^ 40"
    by (simp add: take_bit_eq_mod drop_bit_eq_div unat_mod unat_div_distrib)
  moreover have "4096 * (unat x div 4096 mod 2 ^ 40) < 4096 * 2 ^ 40" by (intro mult_strict_left_mono) simp_all
  ultimately show ?thesis
    by (simp add: push_bit_eq_mult unat_word_ariths mult.commute)
qed

lemma e_frame_aligned: "4096 dvd unat x \<Longrightarrow> unat x < 2 ^ 52 \<Longrightarrow> e_frame x = x"
proof -
  assume a: "4096 dvd unat x" "unat x < 2 ^ 52"
  then obtain q where q: "unat x = 4096 * q" by blast
  with a(2) have "q < 2 ^ 40" by simp
  with q have "unat (e_frame x) = unat x" by (simp add: unat_e_frame)
  then show ?thesis by (simp only: word_unat_eq_iff)
qed

text \<open>The allocator between two tables: its next page begins at the placement address.\<close>

definition page_ready :: "boot_state \<Rightarrow> u64 list \<Rightarrow> bool" where
  "page_ready s fs \<longleftrightarrow> mapped_pages (bv_supply s) fs \<and>
     unat (pl_address (fst (bv_supply s))) = aligned (fst (bv_supply s))"

lemma page_ready_cong: "bv_supply s' = bv_supply s \<Longrightarrow> page_ready s fs \<Longrightarrow> page_ready s' fs"
  by (simp add: page_ready_def)

lemma map_page_ready:
  assumes "mapped_pages (bv_supply s) (f # fs)" "3 < k"
  shows "\<exists>s'. map_page k s = Inr (f, s') \<and> bv_mem s' = (bv_mem s)(f := (\<lambda>_. 0)) \<and> bv_root s' = bv_root s \<and> page_ready s' fs"
proof -
  from mapped_pages_step [OF assms] obtain t where
    t: "map_page k s = Inr (f, s\<lparr>bv_supply := t, bv_mem := (bv_mem s)(f := (\<lambda>_. 0))\<rparr>)" "mapped_pages t fs"
    "unat (pl_address (fst t)) = aligned (fst t)" by blast
  then show ?thesis by (intro exI [of _ "s\<lparr>bv_supply := t, bv_mem := (bv_mem s)(f := (\<lambda>_. 0))\<rparr>"]) (simp add: page_ready_def)
qed

text \<open>An address that is aligned stays where it is, so the later tables need no \<open>align\<close>.\<close>

lemma boot_page_ready:
  assumes "page_ready s (f # fs)" "3 < k"
  shows "\<exists>s'. boot_page k s = Inr (f, s') \<and> bv_mem s' = (bv_mem s)(f := (\<lambda>_. 0)) \<and> bv_root s' = bv_root s \<and> page_ready s' fs"
proof -
  obtain p m where s: "bv_supply s = (p, m)" by (cases "bv_supply s")
  with assms(1) have mp: "mapped_pages (bv_supply s) (f # fs)" and a: "unat (pl_address p) = aligned p"
    by (simp_all add: page_ready_def)
  then have "pl_pages (p, m) (f # fs)" using s by (simp add: mapped_pages_def)
  from pl_pages_step [OF this assms(2)] have "unat (pl_address (pl_align 4096 p)) = unat (pl_address p)" using a by auto
  then have "pl_align 4096 p = p" by (simp add: word_unat_eq_iff [symmetric] pl_align_def)
  then have "boot_align s = s" by (simp add: boot_align_def s)
  with map_page_ready [OF mp assms(2)] show ?thesis by (simp add: map_page_def)
qed


section \<open>The tables\<close>

text \<open>The physical page of entry \<open>j\<close> of page table \<open>i\<close>.\<close>

definition identity_page :: "nat \<Rightarrow> nat \<Rightarrow> u64" where
  "identity_page i j = of_nat (i * 2097152 + j * 4096)"

lemma identity_address:
  assumes "i < 32" "j < 512"
  shows "e_frame (ucast (of_nat i * 2 * 1024 * 1024 + of_nat j * 4 * 1024 :: u32)) = identity_page i j"
proof -
  have b: "i * 2097152 + j * 4096 < 2 ^ 32" using assms by simp
  have "of_nat i * 2 * 1024 * 1024 + of_nat j * 4 * 1024 = (of_nat (i * 2097152 + j * 4096) :: u32)" by simp
  then have "unat (of_nat i * 2 * 1024 * 1024 + of_nat j * 4 * 1024 :: u32) = i * 2097152 + j * 4096"
    using b by (simp add: unsigned_of_nat take_bit_nat_eq_self del: of_nat_add of_nat_mult)
  then have "(ucast (of_nat i * 2 * 1024 * 1024 + of_nat j * 4 * 1024 :: u32) :: u64) = identity_page i j"
    by (metis identity_page_def of_nat_unat)
  moreover have "e_frame (identity_page i j) = identity_page i j"
  proof (rule e_frame_aligned)
    have "unat (identity_page i j) = i * 2097152 + j * 4096"
      unfolding identity_page_def using b by (intro unat_of_nat_u64) simp
    moreover have "i * 2097152 + j * 4096 = 4096 * (512 * i + j)" by simp
    ultimately show "4096 dvd unat (identity_page i j)" "unat (identity_page i j) < 2 ^ 52" using b by simp_all
  qed
  ultimately show ?thesis by simp
qed

lemma identity_entries_run:
  assumes "distinct js"
  shows "bv_root (identity_entries pt i js s) = bv_root s" "bv_supply (identity_entries pt i js s) = bv_supply s"
    "f \<noteq> pt \<Longrightarrow> bv_mem (identity_entries pt i js s) f = bv_mem s f"
    "bv_mem (identity_entries pt i js s) pt j =
      (if j \<in> set js then boot_assign (ucast (of_nat i * 2 * 1024 * 1024 + of_nat j * 4 * 1024 :: u32)) (bv_mem s pt j)
       else bv_mem s pt j)"
  using assms by (induction js arbitrary: s) (auto simp: boot_set_def)

definition identity_table :: "frames \<Rightarrow> u64 \<Rightarrow> nat \<Rightarrow> bool" where
  "identity_table mem pt i \<longleftrightarrow> (\<forall>j<512. e_present (mem pt j) \<and> e_frame (mem pt j) = identity_page i j)"

lemma identity_tables_run:
  assumes "page_ready s (pts @ fs)" "3 < k" "length pts = length is" "distinct (pd # pts)" "distinct is" "set is \<subseteq> {..<32}"
  shows "\<exists>s'. identity_tables k pd is s = Inr s' \<and> bv_root s' = bv_root s \<and> page_ready s' fs \<and>
    (\<forall>f. f \<noteq> pd \<longrightarrow> f \<notin> set pts \<longrightarrow> bv_mem s' f = bv_mem s f) \<and>
    (\<forall>j. j \<notin> set is \<longrightarrow> bv_mem s' pd j = bv_mem s pd j) \<and>
    (\<forall>n<length is. e_present (bv_mem s' pd (is ! n)) \<and> e_frame (bv_mem s' pd (is ! n)) = e_frame (pts ! n) \<and>
       identity_table (bv_mem s') (pts ! n) (is ! n))"
  using assms
proof (induction "is" arbitrary: s pts)
  case (Cons i "is")
  then obtain pt ps where pts: "pts = pt # ps" by (cases pts) auto
  from boot_page_ready [of s pt "ps @ fs" k] Cons.prems(1,2) pts obtain s1 where
    s1: "boot_page k s = Inr (pt, s1)" "bv_mem s1 = (bv_mem s)(pt := (\<lambda>_. 0))" "bv_root s1 = bv_root s" "page_ready s1 (ps @ fs)"
    by auto
  have pdt: "pt \<noteq> pd" "pt \<notin> set ps" "pd \<notin> set ps" using Cons.prems(4) pts by auto
  let ?s2 = "boot_set pd i (boot_assign pt (bv_mem s1 pd i)) s1"
  let ?s3 = "identity_entries pt i [0..<512] ?s2"
  note E = identity_entries_run [where js = "[0..<512]" and pt = pt and i = i and s = ?s2, simplified]
  have m3: "bv_mem ?s3 f = (if f = pd then (bv_mem s pd)(i := boot_assign pt (bv_mem s pd i)) else bv_mem s f)" if "f \<noteq> pt" for f
    using that E(3) pdt(1) by (auto simp: boot_set_def s1(2))
  have t3: "identity_table (bv_mem ?s3) pt i"
    using E(4) identity_address [of i] Cons.prems(6) by (simp add: identity_table_def)
  have "page_ready ?s3 (ps @ fs)"
    using s1(4) E(2) by (intro page_ready_cong [of ?s3 s1]) (simp_all add: boot_set_def)
  from Cons.IH [OF this Cons.prems(2)] Cons.prems(3-6) pts obtain s' where
    s': "identity_tables k pd is ?s3 = Inr s'" "bv_root s' = bv_root ?s3" "page_ready s' fs"
    "\<forall>f. f \<noteq> pd \<longrightarrow> f \<notin> set ps \<longrightarrow> bv_mem s' f = bv_mem ?s3 f"
    "\<forall>j. j \<notin> set is \<longrightarrow> bv_mem s' pd j = bv_mem ?s3 pd j"
    "\<forall>n<length is. e_present (bv_mem s' pd (is ! n)) \<and> e_frame (bv_mem s' pd (is ! n)) = e_frame (ps ! n) \<and>
       identity_table (bv_mem s') (ps ! n) (is ! n)" by auto
  have i: "bv_mem s' pd i = boot_assign pt (bv_mem s pd i)"
    using s'(5) Cons.prems(5) m3 [of pd] pdt(1) by auto
  have "identity_table (bv_mem s') pt i" using t3 s'(4) pdt by (simp add: identity_table_def)
  then have "\<forall>n<length (i # is). e_present (bv_mem s' pd ((i # is) ! n)) \<and>
      e_frame (bv_mem s' pd ((i # is) ! n)) = e_frame (pts ! n) \<and> identity_table (bv_mem s') (pts ! n) ((i # is) ! n)"
    using s'(6) i pts by (auto simp: nth_Cons split: nat.splits)
  moreover have "identity_tables k pd (i # is) s = Inr s'" using s1(1) s'(1) by simp
  moreover have "bv_root s' = bv_root s" using s'(2) E(1) s1(3) by (simp add: boot_set_def)
  moreover have "bv_mem s' f = bv_mem s f" if "f \<noteq> pd" "f \<notin> set pts" for f
    using s'(4) m3 [of f] that pts by auto
  moreover have "bv_mem s' pd j = bv_mem s pd j" if "j \<notin> set (i # is)" for j
    using s'(5) m3 [of pd] pdt(1) that by auto
  ultimately show ?case using s'(3) by blast
qed auto


definition identity_space :: "frames \<Rightarrow> u64 \<Rightarrow> u64 \<Rightarrow> u64 \<Rightarrow> u64 list \<Rightarrow> bool" where
  "identity_space mem r t d pts \<longleftrightarrow>
     (\<forall>j. mem r j = (if j = 0 then boot_assign t 0 else 0)) \<and> (\<forall>j. mem t j = (if j = 0 then boot_assign d 0 else 0)) \<and>
     (\<forall>j. 32 \<le> j \<longrightarrow> mem d j = 0) \<and>
     (\<forall>n<32. e_present (mem d n) \<and> e_frame (mem d n) = pts ! n \<and> identity_table mem (pts ! n) n)"

lemma prepare_long_mode_run:
  assumes "mapped_pages (bv_supply s) (r # t # d # pts @ fs)" "3 < k" "length pts = 32" "distinct (r # t # d # pts)"
    "\<forall>f\<in>set pts. e_frame f = f"
  shows "\<exists>s'. prepare_long_mode k s = Inr s' \<and> bv_root s' = r \<and> page_ready s' fs \<and> identity_space (bv_mem s') r t d pts"
proof -
  from map_page_ready [OF assms(1,2)] obtain s1 where
    s1: "map_page k s = Inr (r, s1)" "bv_mem s1 = (bv_mem s)(r := (\<lambda>_. 0))" "page_ready s1 (t # d # pts @ fs)" by blast
  have "page_ready (s1\<lparr>bv_root := r\<rparr>) (t # d # pts @ fs)" by (rule page_ready_cong [OF _ s1(3)]) simp
  from boot_page_ready [OF this assms(2)] obtain s2 where
    s2: "boot_page k (s1\<lparr>bv_root := r\<rparr>) = Inr (t, s2)" "bv_mem s2 = (bv_mem s1)(t := (\<lambda>_. 0))"
    "bv_root s2 = r" "page_ready s2 (d # pts @ fs)" by auto
  let ?s3 = "boot_set r 0 (boot_assign t (bv_mem s2 r 0)) s2"
  have "page_ready ?s3 (d # pts @ fs)" by (rule page_ready_cong [OF _ s2(4)]) (simp add: boot_set_def)
  from boot_page_ready [OF this assms(2)] obtain s4 where
    s4: "boot_page k ?s3 = Inr (d, s4)" "bv_mem s4 = (bv_mem ?s3)(d := (\<lambda>_. 0))" "bv_root s4 = r" "page_ready s4 (pts @ fs)"
    using s2(3) by (auto simp: boot_set_def)
  let ?s5 = "boot_set t 0 (boot_assign d (bv_mem s4 t 0)) s4"
  have "page_ready ?s5 (pts @ fs)" by (rule page_ready_cong [OF _ s4(4)]) (simp add: boot_set_def)
  moreover have "set [0..<32] \<subseteq> {..<32}" by auto
  ultimately have "\<exists>s'. identity_tables k d [0..<32] ?s5 = Inr s' \<and> bv_root s' = bv_root ?s5 \<and> page_ready s' fs \<and>
    (\<forall>f. f \<noteq> d \<longrightarrow> f \<notin> set pts \<longrightarrow> bv_mem s' f = bv_mem ?s5 f) \<and>
    (\<forall>j. j \<notin> set [0..<32] \<longrightarrow> bv_mem s' d j = bv_mem ?s5 d j) \<and>
    (\<forall>n<length [0..<32]. e_present (bv_mem s' d ([0..<32] ! n)) \<and> e_frame (bv_mem s' d ([0..<32] ! n)) = e_frame (pts ! n) \<and>
       identity_table (bv_mem s') (pts ! n) ([0..<32] ! n))"
    using assms(2-4) by (intro identity_tables_run) simp_all
  then obtain s' where
    s': "identity_tables k d [0..<32] ?s5 = Inr s'" "bv_root s' = r" "page_ready s' fs"
    "\<forall>f. f \<noteq> d \<longrightarrow> f \<notin> set pts \<longrightarrow> bv_mem s' f = bv_mem ?s5 f"
    "\<forall>j. 32 \<le> j \<longrightarrow> bv_mem s' d j = bv_mem ?s5 d j"
    "\<forall>n<32. e_present (bv_mem s' d n) \<and> e_frame (bv_mem s' d n) = e_frame (pts ! n) \<and> identity_table (bv_mem s') (pts ! n) n"
    using s4(3) by (auto simp: boot_set_def)
  have run: "prepare_long_mode k s = Inr s'"
    using s1(1) s2(1) s4(1) s'(1) by (simp add: prepare_long_mode_def map_page_def)
  have "bv_mem s' r j = (if j = 0 then boot_assign t 0 else 0)" "bv_mem s' t j = (if j = 0 then boot_assign d 0 else 0)" for j
    using s'(4) assms(4) by (auto simp: boot_set_def s4(2) s2(2) s1(2))
  moreover have "bv_mem s' d j = 0" if "32 \<le> j" for j
    using s'(5) that assms(4) by (auto simp: boot_set_def s4(2))
  moreover have "e_frame (pts ! n) = pts ! n" if "n < 32" for n using assms(3,5) that by simp
  ultimately have "identity_space (bv_mem s') r t d pts" using s'(6) by (simp add: identity_space_def)
  with run s'(2,3) show ?thesis by blast
qed

section \<open>The translation\<close>

lemma identity_walk:
  assumes "identity_space mem r t d pts" "e_frame t = t" "e_frame d = d"
  shows "walk mem r [] = Some r" "walk mem r [a] = (if a = 0 then Some t else None)"
    "walk mem r [a, b] = (if a = 0 \<and> b = 0 then Some d else None)"
    "walk mem r [a, b, c] = (if a = 0 \<and> b = 0 \<and> c < 32 then Some (pts ! c) else None)"
    "i < 512 \<Longrightarrow> walk mem r [a, b, c, i] = (if a = 0 \<and> b = 0 \<and> c < 32 then Some (identity_page c i) else None)"
proof -
  have z: "\<not> e_present 0" by (simp add: e_present_def)
  have c: "e_present (mem d c) \<longleftrightarrow> c < 32" using assms(1) z by (cases "c < 32") (auto simp: identity_space_def)
  show 1: "walk mem r [a, b, c] = (if a = 0 \<and> b = 0 \<and> c < 32 then Some (pts ! c) else None)"
    "walk mem r [a, b] = (if a = 0 \<and> b = 0 then Some d else None)" "walk mem r [a] = (if a = 0 then Some t else None)"
    "walk mem r [] = Some r"
    using assms c z by (auto simp: identity_space_def walk.simps)
  assume i: "i < 512"
  have "walk mem r ([a, b, c] @ [i]) = (if a = 0 \<and> b = 0 \<and> c < 32 then Some (identity_page c i) else None)"
    unfolding walk_snoc 1(1) using assms(1) i by (simp add: identity_space_def identity_table_def)
  then show "walk mem r [a, b, c, i] = (if a = 0 \<and> b = 0 \<and> c < 32 then Some (identity_page c i) else None)" by simp
qed

lemma list_cases4: "length q \<le> 3 \<Longrightarrow> (q = [] \<Longrightarrow> P) \<Longrightarrow> (\<And>a. q = [a] \<Longrightarrow> P) \<Longrightarrow> (\<And>a b. q = [a, b] \<Longrightarrow> P) \<Longrightarrow>
    (\<And>a b c. q = [a, b, c] \<Longrightarrow> P) \<Longrightarrow> P"
  by (cases q; cases "tl q"; cases "tl (tl q)") auto

text \<open>The tables by their path.\<close>

lemma identity_table_paths:
  assumes sp: "identity_space mem r t d pts" "e_frame t = t" "e_frame d = d" and q: "length q \<le> 3" "walk mem r q = Some f"
  obtains "q = []" "f = r" | "q = [0]" "f = t" | "q = [0, 0]" "f = d" | c where "q = [0, 0, c]" "c < 32" "f = pts ! c"
  using q(1) by (rule list_cases4) (use q(2) that in \<open>auto simp: identity_walk [OF sp] split: if_splits\<close>)

lemma identity_boot_vas_ok:
  assumes sp: "identity_space mem r t d pts" "e_frame t = t" "e_frame d = d"
    and ds: "distinct (r # t # d # pts)" "length pts = 32" and low: "low_frames (r # t # d # pts)"
  shows "boot_vas_ok mem r"
  unfolding boot_vas_ok_def
proof
  show "separate mem r"
    unfolding separate_def
  proof (intro allI impI)
    fix p q f assume "length p \<le> 3" "length q \<le> 3" "walk mem r p = Some f" "walk mem r q = Some f"
    then show "p = q"
      using ds by (elim identity_table_paths [OF sp]) (auto simp: nth_eq_iff_index_eq)
  qed
  show "low_tables mem r"
    unfolding low_tables_def
  proof (intro allI impI)
    fix p f assume "length p \<le> 3" "walk mem r p = Some f"
    then have "f \<in> set (r # t # d # pts)" using ds(2) by (elim identity_table_paths [OF sp]) auto
    then show "f < 0x100000000" using low unfolding low_frames_def by blast
  qed
qed


lemma mapped_pages_frames:
  assumes "mapped_pages x fs"
  shows "distinct fs" "low_frames fs" "\<forall>f\<in>set fs. e_frame f = f"
proof -
  obtain p m where x: "x = (p, m)" by (cases x)
  with assms have r: "pl_ready p m" and b: "aligned p + 4096 * length fs < unat (me_end (mm_entries m ! pl_leeched p))"
    and fs: "fs = List.map (\<lambda>i. of_nat (aligned p + 4096 * i)) [0..<length fs]"
    by (auto simp: mapped_pages_def pl_pages_def)
  have "unat (me_end (mm_entries m ! pl_leeched p)) \<le> 2 ^ 32" using r by (simp add: pl_ready_def Let_def word_le_nat_alt)
  with b have lt: "aligned p + 4096 * i < 2 ^ 32" if "i < length fs" for i using that by simp
  have u: "unat (of_nat (aligned p + 4096 * i) :: u64) = aligned p + 4096 * i" if "i < length fs" for i
    using lt [OF that] by (intro unat_of_nat_u64) simp
  have nth: "fs ! i = of_nat (aligned p + 4096 * i)" if "i < length fs" for i
  proof -
    have "fs ! i = List.map (\<lambda>i. of_nat (aligned p + 4096 * i)) [0..<length fs] ! i" using fs by metis
    then show ?thesis using that by simp
  qed
  show "distinct fs"
    unfolding distinct_conv_nth
  proof (intro allI impI)
    fix i j assume "i < length fs" "j < length fs" "i \<noteq> j"
    then show "fs ! i \<noteq> fs ! j" using u [of i] u [of j] nth [of i] nth [of j] by auto
  qed
  have "f < 0x100000000 \<and> e_frame f = f" if "f \<in> set fs" for f
  proof -
    from that obtain i where i: "i < length fs" "f = fs ! i" by (auto simp: in_set_conv_nth)
    then have uf: "unat f = aligned p + 4096 * i" using u nth by simp
    moreover have "4096 dvd aligned p" by (simp add: aligned_def)
    ultimately have "4096 dvd unat f" "unat f < 2 ^ 32" using lt [OF i(1)] by simp_all
    then show ?thesis using e_frame_aligned [of f] by (simp add: word_less_nat_alt)
  qed
  then show "low_frames fs" "\<forall>f\<in>set fs. e_frame f = f" by (auto simp: low_frames_def)
qed

lemma low_indices:
  assumes "v < 0x4000000"
  shows "indices v = [0, 0, unat v div 2097152, unat v div 4096 mod 512]" "unat v div 2097152 < 32"
    "identity_page (unat v div 2097152) (unat v div 4096 mod 512) = page_floor v"
proof -
  have v: "unat v < 67108864" using assms by (simp add: word_less_nat_alt)
  show lt: "unat v div 2097152 < 32" using v by (simp add: div_less_iff_less_mult)
  have "unat v div 2 ^ 39 = 0" "unat v div 2 ^ 30 = 0" using v by simp_all
  with lt show "indices v = [0, 0, unat v div 2097152, unat v div 4096 mod 512]"
    by (simp add: indices_def index_of_eq)
  have "unat v div 2097152 = unat v div 4096 div 512" by (simp flip: div_mult2_eq)
  then have e: "unat v div 2097152 * 2097152 + unat v div 4096 mod 512 * 4096 = 4096 * (unat v div 4096)"
    using div_mult_mod_eq [of "unat v div 4096" 512] by linarith
  have "4096 * (unat v div 4096) \<le> unat v" by simp
  then have "4096 * (unat v div 4096) < 2 ^ 64" using v by simp
  then have "unat (identity_page (unat v div 2097152) (unat v div 4096 mod 512)) = unat (page_floor v)"
    unfolding identity_page_def e unat_page_floor by (rule unat_of_nat_u64)
  then show "identity_page (unat v div 2097152) (unat v div 4096 mod 512) = page_floor v" by (simp only: word_unat_eq_iff)
qed

lemma high_indices:
  assumes "16384 \<le> vpage v"
  obtains a b c i where "indices v = [a, b, c, i]" "\<not> (a = 0 \<and> b = 0 \<and> c < 32)" "i < 512"
proof -
  let ?a = "index_of 39 v" and ?b = "index_of 30 v" and ?c = "index_of 21 v" and ?i = "index_of 12 v"
  have "\<not> (?a = 0 \<and> ?b = 0 \<and> ?c < 32)"
  proof
    assume "?a = 0 \<and> ?b = 0 \<and> ?c < 32"
    then have "vpage v = ?c * 512 + ?i" "?c * 512 \<le> 31 * 512" by (simp_all add: vpage_def pos_of_def)
    with index_of_less [of 12 v] assms show False by linarith
  qed
  then show ?thesis using that [of ?a ?b ?c ?i] by (simp add: indices_def)
qed


text \<open>The allocator of \<open>demo_boot\<close> at 2 MiB: 35 pages for the tables and three more.\<close>

lemma demo_boot_many: "mapped_pages demo_boot_pl (List.map (\<lambda>i. of_nat (0x200000 + 4096 * i)) [0..<38])"
proof -
  obtain p m where pm: "demo_boot_pl = (p, m)" by (cases demo_boot_pl)
  then have f: "pl_address p = 0x200000" "pl_current p = 0" "pl_leeched p = 1" "pl_top p = 0x3FFFFFF"
    "mm_entries m ! 0 = \<lparr>me_base = 0x100000, me_length = 0x100000, me_type = 2, me_attribs = 0\<rparr>"
    "mm_entries m ! Suc 0 = \<lparr>me_base = 0x200000, me_length = 0x100000, me_type = 1, me_attribs = 0\<rparr>"
    "length (mm_entries m) = 512" by (auto simp: demo_boot_pl_def)
  have r: "pl_ready p m" by (simp add: pl_ready_def f me_end_def)
  have a: "aligned p = 0x200000" by (simp add: aligned_def f)
  show ?thesis unfolding pm mapped_pages_def pl_pages_def case_prod_conv a length_map length_upt using r
    by (simp add: f me_end_def)
qed


end
