(* ===== verification/Locks.thy ===== *)
theory Locks
  imports Prelude
begin

text \<open>
  The locks of the kernel (\<open>kernel/utils/spinlock.h\<close>, \<open>locks.h\<close>): the spinlock, the recursive spinlock
  built on it and the interrupt lock. The atomic operations are functions; processors that interleave
  them are step relations over the word of each processor's place in the code.
\<close>

section \<open>The contract of a lock\<close>

text \<open>
  A lock is a system of steps in which at most one processor holds it. The invariant that shows
  it is the provider's; the consequence for every run is proved once.
\<close>

locale lock_system =
  fixes start :: 's and step :: "'s \<Rightarrow> 's \<Rightarrow> bool" and inv :: "'s \<Rightarrow> bool" and holds :: "'s \<Rightarrow> 'c \<Rightarrow> bool"
  assumes inv_start: "inv start"
    and inv_step: "step s s' \<Longrightarrow> inv s \<Longrightarrow> inv s'"
    and exclusive: "inv s \<Longrightarrow> holds s i \<Longrightarrow> holds s j \<Longrightarrow> i = j"
begin

lemma inv_reachable: "step\<^sup>*\<^sup>* start s \<Longrightarrow> inv s"
  by (induction rule: rtranclp_induct) (auto intro: inv_start inv_step)

lemma mutual_exclusion: "step\<^sup>*\<^sup>* start s \<Longrightarrow> holds s i \<Longrightarrow> holds s j \<Longrightarrow> i = j"
  using inv_reachable exclusive by blast

end

section \<open>The spinlock\<close>

text \<open>\<open>_lock.exchange(true)\<close> gives the old value and leaves \<open>true\<close>; \<open>lock()\<close> spins while it was \<open>true\<close>.\<close>

definition spin_exchange :: "bool \<Rightarrow> bool \<times> bool" where
  "spin_exchange l = (l, True)"

definition spin_unlock :: "bool \<Rightarrow> bool \<Rightarrow> bool result" where
  "spin_unlock panicing l =
     (if \<not> l \<and> \<not> panicing then Inl (Panic ''tried to unlock unlocked spinlock!'') else Inr False)"

datatype spin_place = Outside | Spinning | Inside

record spin_state =
  sp_lock :: bool
  sp_place :: "u64 \<Rightarrow> spin_place"

definition spin_start :: spin_state where
  "spin_start = \<lparr>sp_lock = False, sp_place = (\<lambda>_. Outside)\<rparr>"

inductive spin_step :: "spin_state \<Rightarrow> spin_state \<Rightarrow> bool" where
  call: "sp_place s i = Outside \<Longrightarrow> spin_step s (s\<lparr>sp_place := (sp_place s)(i := Spinning)\<rparr>)"
| exchange: "sp_place s i = Spinning \<Longrightarrow> spin_exchange (sp_lock s) = (old, new) \<Longrightarrow>
    spin_step s (s\<lparr>sp_lock := new, sp_place := (sp_place s)(i := (if old then Spinning else Inside))\<rparr>)"
| release: "sp_place s i = Inside \<Longrightarrow> spin_unlock False (sp_lock s) = Inr l \<Longrightarrow>
    spin_step s (s\<lparr>sp_lock := l, sp_place := (sp_place s)(i := Outside)\<rparr>)"

definition spin_inv :: "spin_state \<Rightarrow> bool" where
  "spin_inv s \<longleftrightarrow> (\<forall>i. sp_place s i = Inside \<longrightarrow> sp_lock s) \<and>
     (\<forall>i j. sp_place s i = Inside \<longrightarrow> sp_place s j = Inside \<longrightarrow> i = j)"

interpretation spin: lock_system spin_start spin_step spin_inv "\<lambda>s i. sp_place s i = Inside"
proof (unfold_locales, goal_cases)
  case 1
  then show ?case by (simp add: spin_inv_def spin_start_def)
next
  case (2 s s')
  then show ?case
    by (cases rule: spin_step.cases) (auto simp: spin_inv_def spin_exchange_def spin_unlock_def split: if_splits)
next
  case (3 s i j)
  then show ?case by (simp add: spin_inv_def)
qed

section \<open>The recursive spinlock\<close>

text \<open>The blocks of \<open>lock()\<close> and \<open>unlock()\<close> that run under the inner lock, on count and owner.\<close>

definition rl_lock_body :: "u64 \<Rightarrow> u64 \<Rightarrow> u64 \<Rightarrow> bool \<times> u64 \<times> u64" where
  "rl_lock_body cpu count owner =
     (if count = 0 then (True, count + 1, cpu)
      else if owner = cpu then (True, count + 1, owner)
      else (False, count, owner))"

definition rl_unlock_body :: "u64 \<Rightarrow> u64 \<Rightarrow> u64 \<Rightarrow> u64 result" where
  "rl_unlock_body cpu count owner =
     (if count = 0 \<or> owner \<noteq> cpu then Inl (Panic ''invalid unlock on recursive spinlock!'') else Inr (count - 1))"

text \<open>
  Where a processor is: in neither operation; spinning on the inner lock; holding it before the block;
  holding it after the block, with the outcome of a \<open>lock()\<close>. \<open>rl_depth\<close> counts the locks a processor
  has taken and not given back; it is no state of the code.
\<close>

datatype rl_place = Idle | Lock_Wait | Lock_Body | Lock_Leave bool | Unlock_Wait | Unlock_Body | Unlock_Leave

record rl_state =
  rl_inner :: bool
  rl_count :: u64
  rl_owner :: u64
  rl_place :: "u64 \<Rightarrow> rl_place"
  rl_depth :: "u64 \<Rightarrow> nat"

definition rl_start :: rl_state where
  "rl_start = \<lparr>rl_inner = False, rl_count = 0, rl_owner = 0, rl_place = (\<lambda>_. Idle), rl_depth = (\<lambda>_. 0)\<rparr>"

abbreviation rl_goto :: "u64 \<Rightarrow> rl_place \<Rightarrow> rl_state \<Rightarrow> rl_state" where
  "rl_goto i p s \<equiv> s\<lparr>rl_place := (rl_place s)(i := p)\<rparr>"

text \<open>
  A processor unlocks only what it has locked, as the scopes of \<open>LOCK\<close> have it, and does not nest
  \<open>2 ^ 64 - 1\<close> locks.
\<close>

inductive rl_step :: "rl_state \<Rightarrow> rl_state \<Rightarrow> bool" where
  lock: "rl_place s i = Idle \<Longrightarrow> Suc (rl_depth s i) < 2 ^ 64 \<Longrightarrow> rl_step s (rl_goto i Lock_Wait s)"
| lock_enter: "rl_place s i = Lock_Wait \<Longrightarrow> spin_exchange (rl_inner s) = (old, new) \<Longrightarrow>
    rl_step s (rl_goto i (if old then Lock_Wait else Lock_Body) (s\<lparr>rl_inner := new\<rparr>))"
| lock_body: "rl_place s i = Lock_Body \<Longrightarrow> rl_lock_body i (rl_count s) (rl_owner s) = (got, count, owner) \<Longrightarrow>
    rl_step s (rl_goto i (Lock_Leave got) (s\<lparr>rl_count := count, rl_owner := owner,
      rl_depth := (rl_depth s)(i := (if got then Suc (rl_depth s i) else rl_depth s i))\<rparr>))"
| lock_leave: "rl_place s i = Lock_Leave got \<Longrightarrow> spin_unlock False (rl_inner s) = Inr l \<Longrightarrow>
    rl_step s (rl_goto i (if got then Idle else Lock_Wait) (s\<lparr>rl_inner := l\<rparr>))"
| unlock: "rl_place s i = Idle \<Longrightarrow> 0 < rl_depth s i \<Longrightarrow> rl_step s (rl_goto i Unlock_Wait s)"
| unlock_enter: "rl_place s i = Unlock_Wait \<Longrightarrow> spin_exchange (rl_inner s) = (old, new) \<Longrightarrow>
    rl_step s (rl_goto i (if old then Unlock_Wait else Unlock_Body) (s\<lparr>rl_inner := new\<rparr>))"
| unlock_body: "rl_place s i = Unlock_Body \<Longrightarrow> rl_unlock_body i (rl_count s) (rl_owner s) = Inr count \<Longrightarrow>
    rl_step s (rl_goto i Unlock_Leave (s\<lparr>rl_count := count, rl_depth := (rl_depth s)(i := rl_depth s i - 1)\<rparr>))"
| unlock_leave: "rl_place s i = Unlock_Leave \<Longrightarrow> spin_unlock False (rl_inner s) = Inr l \<Longrightarrow>
    rl_step s (rl_goto i Idle (s\<lparr>rl_inner := l\<rparr>))"

fun holds_inner :: "rl_place \<Rightarrow> bool" where
  "holds_inner Lock_Body = True" | "holds_inner (Lock_Leave _) = True"
| "holds_inner Unlock_Body = True" | "holds_inner Unlock_Leave = True"
| "holds_inner Idle = False" | "holds_inner Lock_Wait = False" | "holds_inner Unlock_Wait = False"

fun is_locking :: "rl_place \<Rightarrow> bool" where
  "is_locking Lock_Wait = True" | "is_locking Lock_Body = True" | "is_locking (Lock_Leave got) = (\<not> got)"
| "is_locking _ = False"

definition inner_inv :: "rl_state \<Rightarrow> bool" where
  "inner_inv s \<longleftrightarrow> (\<forall>i. holds_inner (rl_place s i) \<longrightarrow> rl_inner s) \<and>
     (\<forall>i j. holds_inner (rl_place s i) \<longrightarrow> holds_inner (rl_place s j) \<longrightarrow> i = j)"

definition depth_inv :: "rl_state \<Rightarrow> bool" where
  "depth_inv s \<longleftrightarrow>
     (\<forall>i. 0 < rl_depth s i \<longrightarrow> rl_owner s = i \<and> unat (rl_count s) = rl_depth s i) \<and>
     ((\<forall>i. rl_depth s i = 0) \<longrightarrow> rl_count s = 0) \<and>
     (\<forall>i. rl_place s i = Unlock_Wait \<or> rl_place s i = Unlock_Body \<longrightarrow> 0 < rl_depth s i) \<and>
     (\<forall>i. is_locking (rl_place s i) \<longrightarrow> Suc (rl_depth s i) < 2 ^ 64)"


lemma inner_inv_goto:
  assumes "inner_inv s" "holds_inner (rl_place s i)" "rl_inner s' = rl_inner s" "rl_place s' = (rl_place s)(i := p)"
  shows "inner_inv s'"
proof -
  have "holds_inner (rl_place s j)" if "holds_inner (rl_place s' j)" for j
    using that assms(2,4) by (cases "j = i") auto
  with assms(1,3) show ?thesis unfolding inner_inv_def by metis
qed

lemma inner_inv_step: "rl_step s s' \<Longrightarrow> inner_inv s \<Longrightarrow> inner_inv s'"
proof (induction rule: rl_step.induct)
  case (lock_body s i got count owner)
  show ?case by (rule inner_inv_goto [OF lock_body(3), of i _ "Lock_Leave got"]) (simp_all add: lock_body(1))
next
  case (unlock_body s i count)
  show ?case by (rule inner_inv_goto [OF unlock_body(3), of i _ Unlock_Leave]) (simp_all add: unlock_body(1))
qed (auto simp: inner_inv_def spin_exchange_def spin_unlock_def split: if_splits)

lemma depth_zero: "depth_inv s \<Longrightarrow> rl_count s = 0 \<longleftrightarrow> (\<forall>i. rl_depth s i = 0)"
  by (fastforce simp: depth_inv_def)

lemma unat_Suc_count: "Suc (unat (c :: u64)) < 2 ^ 64 \<Longrightarrow> unat (c + 1) = Suc (unat c)"
  by (simp add: unat_plus_if_size word_size)

text \<open>A block of processor \<open>i\<close> that leaves it with depth \<open>d\<close> while no other has any.\<close>

lemma depth_inv_block:
  assumes inv: "depth_inv s" and none: "\<forall>j. j \<noteq> i \<longrightarrow> rl_depth s j = 0"
    and d: "unat c = d" "0 < d \<longrightarrow> w = i" "p = Unlock_Wait \<or> p = Unlock_Body \<longrightarrow> 0 < d" "is_locking p \<longrightarrow> Suc d < 2 ^ 64"
  shows "depth_inv (rl_goto i p (s\<lparr>rl_count := c, rl_owner := w, rl_depth := (rl_depth s)(i := d)\<rparr>))"
proof -
  have "c = 0" if "d = 0" using d(1) that by (metis unat_eq_0)
  moreover have "\<forall>j. rl_place s j = Unlock_Wait \<or> rl_place s j = Unlock_Body \<longrightarrow> j = i"
    using inv none unfolding depth_inv_def by (metis less_numeral_extra(3))
  moreover have "\<forall>j. is_locking (rl_place s j) \<longrightarrow> Suc (rl_depth s j) < 2 ^ 64" using inv by (simp add: depth_inv_def)
  ultimately show ?thesis using none d by (auto simp: depth_inv_def)
qed

lemma depth_inv_lock_body:
  assumes inv: "depth_inv s" and at: "rl_place s i = Lock_Body"
    and body: "rl_lock_body i (rl_count s) (rl_owner s) = (got, count, owner)"
  shows "depth_inv (rl_goto i (Lock_Leave got) (s\<lparr>rl_count := count, rl_owner := owner,
      rl_depth := (rl_depth s)(i := (if got then Suc (rl_depth s i) else rl_depth s i))\<rparr>))"
proof -
  have b: "Suc (rl_depth s i) < 2 ^ 64" using inv at by (simp add: depth_inv_def)
  show ?thesis
  proof (cases "rl_count s = 0")
    case True
    with body have g: "got" "count = 1" "owner = i" by (simp_all add: rl_lock_body_def)
    have "\<forall>j. rl_depth s j = 0" using depth_zero [OF inv] True by simp
    with g show ?thesis by (simp only: if_True) (intro depth_inv_block [OF inv]; simp)
  next
    case nz: False
    then obtain j where j: "0 < rl_depth s j" using depth_zero [OF inv] by auto
    then have oj: "rl_owner s = j" "unat (rl_count s) = rl_depth s j" using inv by (simp_all add: depth_inv_def)
    show ?thesis
    proof (cases "rl_owner s = i")
      case True
      with body nz have g: "got" "count = rl_count s + 1" "owner = i" by (simp_all add: rl_lock_body_def)
      have "\<forall>k. k \<noteq> i \<longrightarrow> rl_depth s k = 0" using inv True by (auto simp: depth_inv_def)
      moreover have "unat count = Suc (rl_depth s i)" using unat_Suc_count [of "rl_count s"] b g(2) oj True by simp
      ultimately show ?thesis using g by (simp only: if_True) (intro depth_inv_block [OF inv]; simp)
    next
      case False
      with body nz have g: "\<not> got" "count = rl_count s" "owner = rl_owner s" by (simp_all add: rl_lock_body_def)
      show ?thesis using inv b unfolding g depth_inv_def by (simp add: g)
    qed
  qed
qed

lemma depth_inv_unlock_body:
  assumes inv: "depth_inv s" and at: "rl_place s i = Unlock_Body"
    and body: "rl_unlock_body i (rl_count s) (rl_owner s) = Inr count"
  shows "depth_inv (rl_goto i Unlock_Leave (s\<lparr>rl_count := count, rl_depth := (rl_depth s)(i := rl_depth s i - 1)\<rparr>))"
proof -
  have c: "rl_count s \<noteq> 0" "count = rl_count s - 1" using body by (auto simp: rl_unlock_body_def split: if_splits)
  have d: "0 < rl_depth s i" "rl_owner s = i" "unat (rl_count s) = rl_depth s i" using inv at by (auto simp: depth_inv_def)
  have z: "\<forall>j. j \<noteq> i \<longrightarrow> rl_depth s j = 0" using inv d(2) by (auto simp: depth_inv_def)
  have "depth_inv (rl_goto i Unlock_Leave (s\<lparr>rl_count := count, rl_owner := i, rl_depth := (rl_depth s)(i := rl_depth s i - 1)\<rparr>))"
    by (rule depth_inv_block [OF inv z]) (use c d in \<open>simp_all add: unat_minus_one\<close>)
  then show ?thesis using d(2) unfolding depth_inv_def by simp
qed

lemma depth_inv_step: "rl_step s s' \<Longrightarrow> depth_inv s \<Longrightarrow> depth_inv s'"
proof (induction rule: rl_step.induct)
  case (lock_body s i got count owner)
  from depth_inv_lock_body [OF lock_body(3,1,2)] show ?case .
next
  case (unlock_body s i count)
  from depth_inv_unlock_body [OF unlock_body(3,1,2)] show ?case .
qed (auto simp: depth_inv_def split: if_splits)

interpretation recursive: lock_system rl_start rl_step "\<lambda>s. inner_inv s \<and> depth_inv s" "\<lambda>s i. 0 < rl_depth s i"
proof (unfold_locales, goal_cases)
  case 1
  then show ?case by (simp add: inner_inv_def depth_inv_def rl_start_def)
next
  case (2 s s')
  then show ?case using inner_inv_step depth_inv_step by blast
next
  case (3 s i j)
  then show ?case unfolding depth_inv_def by metis
qed

text \<open>
  C35. The recursive spinlock, with every processor at any place in \<open>lock()\<close> and \<open>unlock()\<close>: at most one
  processor holds it, the count is the number of times that processor has locked it, and neither
  an \<open>unlock()\<close> nor the inner lock under it panics.
\<close>

theorem recursive_spinlock_safe:
  assumes "rl_step\<^sup>*\<^sup>* rl_start s"
  shows "(\<forall>i j. 0 < rl_depth s i \<and> 0 < rl_depth s j \<longrightarrow> i = j) \<and>
    (\<forall>i. 0 < rl_depth s i \<longrightarrow> unat (rl_count s) = rl_depth s i) \<and>
    (\<forall>i. rl_place s i = Unlock_Body \<longrightarrow> (\<exists>c. rl_unlock_body i (rl_count s) (rl_owner s) = Inr c)) \<and>
    (\<forall>i. holds_inner (rl_place s i) \<longrightarrow> spin_unlock False (rl_inner s) = Inr False)"
proof -
  from recursive.inv_reachable [OF assms] have inv: "inner_inv s" "depth_inv s" by auto
  have "\<exists>c. rl_unlock_body i (rl_count s) (rl_owner s) = Inr c" if "rl_place s i = Unlock_Body" for i
  proof -
    have "0 < rl_depth s i" using inv(2) that by (auto simp: depth_inv_def)
    then have "rl_owner s = i" "rl_count s \<noteq> 0" using inv(2) by (auto simp: depth_inv_def)
    then show ?thesis by (simp add: rl_unlock_body_def)
  qed
  with recursive.mutual_exclusion [OF assms] inv show ?thesis
    by (auto simp: depth_inv_def inner_inv_def spin_unlock_def)
qed


text \<open>A \<open>lock()\<close> by a processor that finds the inner lock free runs to its end in four steps.\<close>

lemma rl_lock_run:
  assumes "rl_place s i = Idle" "\<not> rl_inner s" "Suc (rl_depth s i) < 2 ^ 64"
    "rl_lock_body i (rl_count s) (rl_owner s) = (True, c, w)"
  shows "rl_step\<^sup>*\<^sup>* s (s\<lparr>rl_count := c, rl_owner := w, rl_depth := (rl_depth s)(i := Suc (rl_depth s i))\<rparr>)"
proof -
  let ?s1 = "rl_goto i Lock_Wait s"
  let ?s2 = "rl_goto i Lock_Body (s\<lparr>rl_inner := True\<rparr>)"
  let ?s3 = "rl_goto i (Lock_Leave True) (s\<lparr>rl_inner := True, rl_count := c, rl_owner := w,
    rl_depth := (rl_depth s)(i := Suc (rl_depth s i))\<rparr>)"
  let ?s4 = "rl_goto i Idle (s\<lparr>rl_count := c, rl_owner := w, rl_depth := (rl_depth s)(i := Suc (rl_depth s i)),
    rl_inner := False\<rparr>)"
  have "rl_step s ?s1" using assms(1,3) by (rule rl_step.lock)
  moreover have "rl_step ?s1 ?s2"
    using rl_step.lock_enter [of ?s1 i False True] assms(2) by (simp add: spin_exchange_def)
  moreover have "rl_step ?s2 ?s3"
    using rl_step.lock_body [of ?s2 i True c w] assms(4) by simp
  moreover have "rl_step ?s3 ?s4"
    using rl_step.lock_leave [of ?s3 i True False] by (simp add: spin_unlock_def)
  ultimately have "rl_step\<^sup>*\<^sup>* s ?s4" by (meson converse_rtranclp_into_rtranclp rtranclp.rtrancl_refl)
  moreover have "?s4 = s\<lparr>rl_count := c, rl_owner := w, rl_depth := (rl_depth s)(i := Suc (rl_depth s i))\<rparr>"
    using assms(1,2) by (cases s) (auto simp: fun_upd_idem)
  ultimately show ?thesis by simp
qed

text \<open>Processor 7 locks twice.\<close>

theorem recursive_spinlock_safe_witness:
  "\<exists>s. rl_step\<^sup>*\<^sup>* rl_start s \<and> rl_depth s 7 = 2 \<and> unat (rl_count s) = 2 \<and> rl_depth s 8 = 0"
proof -
  let ?s1 = "rl_start\<lparr>rl_count := 1, rl_owner := 7, rl_depth := (rl_depth rl_start)(7 := 1)\<rparr>"
  let ?s2 = "?s1\<lparr>rl_count := 2, rl_owner := 7, rl_depth := (rl_depth ?s1)(7 := Suc (Suc 0))\<rparr>"
  have "rl_step\<^sup>*\<^sup>* rl_start ?s1"
    using rl_lock_run [of rl_start 7 1 7] by (simp add: rl_start_def rl_lock_body_def)
  moreover have "rl_step\<^sup>*\<^sup>* ?s1 ?s2"
    using rl_lock_run [of ?s1 7 2 7] by (simp add: rl_start_def rl_lock_body_def)
  ultimately have r: "rl_step\<^sup>*\<^sup>* rl_start ?s2" by (rule rtranclp_trans)
  have d: "rl_depth ?s2 7 = 2" by simp
  have "\<forall>i. 0 < rl_depth ?s2 i \<longrightarrow> unat (rl_count ?s2) = rl_depth ?s2 i"
    using recursive_spinlock_safe [OF r] by (elim conjE)
  then have "unat (rl_count ?s2) = 2" using d by (metis zero_less_numeral)
  moreover have "rl_depth ?s2 8 = 0" by (simp add: rl_start_def)
  ultimately show ?thesis using r d by (intro exI [of _ ?s2] conjI)
qed

section \<open>The interrupt lock\<close>

text \<open>The constructor keeps the interrupt flag, bit 9 of the flags, and clears it; the destructor sets it again.\<close>

definition if_flag :: u64 where
  "if_flag = 2 ^ 9"

definition interrupt_lock :: "u64 \<Rightarrow> bool \<times> u64" where
  "interrupt_lock flags = (flags AND if_flag \<noteq> 0, flags AND NOT if_flag)"

definition interrupt_unlock :: "bool \<Rightarrow> u64 \<Rightarrow> u64" where
  "interrupt_unlock enable flags = (if enable then flags OR if_flag else flags)"

lemma bit_if_flag [simp]: "bit if_flag n \<longleftrightarrow> n = 9"
  unfolding if_flag_def bit_exp_iff by auto

lemma and_if_flag: "flags AND if_flag \<noteq> 0 \<longleftrightarrow> bit flags 9"
proof
  assume f: "flags AND if_flag \<noteq> 0"
  show "bit flags 9"
  proof (rule ccontr)
    assume n: "\<not> bit flags 9"
    have "flags AND if_flag = 0"
    proof (rule bit_word_eqI)
      fix n assume "n < LENGTH(64)"
      show "bit (flags AND if_flag) n \<longleftrightarrow> bit (0 :: u64) n" using n by (cases "n = 9") (simp_all add: bit_and_iff)
    qed
    with f show False by simp
  qed
next
  assume "bit flags 9"
  then have "bit (flags AND if_flag) 9" by (simp add: bit_and_iff)
  then show "flags AND if_flag \<noteq> 0" by (metis bit_0_eq bot_apply bot_bool_def)
qed

text \<open>A scope that leaves the flag off, like one with another lock in it, gives back the flags as they were.\<close>

lemma interrupt_lock_scope:
  "interrupt_lock flags = (enable, flags') \<Longrightarrow> interrupt_unlock enable flags' = flags \<and> \<not> bit flags' 9"
  by (auto simp: interrupt_lock_def interrupt_unlock_def and_if_flag bit_simps intro!: bit_word_eqI)

end
