(* ===== verification/Console.thy ===== *)
theory Console
  imports Prelude "HOL-Library.Signed_Division"
begin

text \<open>
  The kernel's console (\<open>kernel/screen/console.cpp\<close>): what \<open>print\<close> makes of characters, strings with
  colour escapes, integers of every width, pointers and vendor numbers. An operation is the list of what
  it does to the terminal and to the parallel port.
\<close>

section \<open>Characters\<close>

datatype console_event =
    Put_Char char
  | Set_Color u32
  | Clear_Terminal
  | Outb int char

text \<open>\<open>con_term\<close>: whether a terminal is attached; \<open>con_port\<close>: \<open>_lpt_port\<close>, shared by all consoles.\<close>

record console =
  con_term :: bool
  con_port :: int

definition new_console :: "bool \<Rightarrow> u16 \<Rightarrow> int \<Rightarrow> console" where
  "new_console term bios_port port =
     \<lparr>con_term = term, con_port = (if port = 0 then (if bios_port = 0 then - 1 else uint bios_port) else port)\<rparr>"

definition to_port :: "console \<Rightarrow> char \<Rightarrow> console_event list" where
  "to_port c ch = [Outb (con_port c) ch, Outb (con_port c + 2) (CHR 0x0C), Outb (con_port c + 2) (CHR 0x0D)]"

definition console_clear :: "console \<Rightarrow> console_event list" where
  "console_clear c = (if con_term c then [Clear_Terminal] else [])"

definition print_char :: "console \<Rightarrow> char \<Rightarrow> console_event list" where
  "print_char c ch =
     (if con_term c then [Put_Char ch] else []) @
     (if ch \<noteq> CHR 0x00 \<and> con_port c \<noteq> - 1 then to_port c ch else [])"

definition print_chars :: "console \<Rightarrow> string \<Rightarrow> console_event list" where
  "print_chars c s = concat (map (print_char c) s)"

definition console_set_color :: "console \<Rightarrow> u32 \<Rightarrow> console_event list" where
  "console_set_color c col = (if con_term c then [Set_Color col] else [])"

section \<open>Strings\<close>

text \<open>
  A string is the list of the characters from the pointer to the end of the array, the terminator
  among them; reading behind the array is an error. \<open>read_color\<close> is the loop over the six digits.
\<close>

definition digit_value :: "char \<Rightarrow> nat option" where
  "digit_value ch =
     (let n = of_char ch :: nat in
      if 48 \<le> n \<and> n \<le> 57 then Some (n - 48)
      else if 97 \<le> n \<and> n \<le> 102 then Some (n - 97 + 10)
      else if 65 \<le> n \<and> n \<le> 70 then Some (n - 65 + 10)
      else None)"

definition or_nibble :: "u32 \<Rightarrow> nat \<Rightarrow> char \<Rightarrow> u32" where
  "or_nibble color nibble ch =
     (case digit_value ch of None \<Rightarrow> color | Some v \<Rightarrow> color OR push_bit (nibble * 4) (of_nat v))"

fun read_color :: "nat \<Rightarrow> u32 \<Rightarrow> string \<Rightarrow> (nat \<times> u32 \<times> string) result" where
  "read_color nibble color str =
     (if nibble = 6 then Inr (nibble, color, str)
      else case str of
        [] \<Rightarrow> Inl Out_Of_Bounds
      | ch # str' \<Rightarrow>
          if ch = CHR 0x00 then Inr (nibble, color, str)
          else read_color (Suc nibble) (or_nibble color nibble ch) str')"

declare read_color.simps [simp del]

text \<open>What the branch for \<open>\{\<close> does: the events, and where \<open>str\<close> points afterwards.\<close>

definition after_digits :: "console \<Rightarrow> string \<Rightarrow> nat \<Rightarrow> u32 \<Rightarrow> string \<Rightarrow> (console_event list \<times> string) result" where
  "after_digits c old nibble color s =
     (if nibble \<noteq> 6 then Inr ([], old)
      else case s of
        [] \<Rightarrow> Inl Out_Of_Bounds
      | d # s' \<Rightarrow>
          if d \<noteq> CHR ''}'' then Inr ([], old)
          else if con_term c then Inr ([Set_Color color], s')
          else Inr ([], s))"

definition color_escape :: "console \<Rightarrow> string \<Rightarrow> (console_event list \<times> string) result" where
  "color_escape c str =
     (case str of
        [] \<Rightarrow> Inl Out_Of_Bounds
      | a # rest \<Rightarrow>
          if a \<noteq> CHR 0x5C then Inr ([], str)
          else case rest of
            [] \<Rightarrow> Inl Out_Of_Bounds
          | b # str' \<Rightarrow>
              if b \<noteq> CHR ''{'' then Inr ([], str)
              else rbind (read_color 0 0 str') (\<lambda>(nibble, color, s). after_digits c str nibble color s))"

text \<open>The character after that is sent to the port and to the terminal, whatever it is.\<close>

definition emit :: "console \<Rightarrow> char \<Rightarrow> console_event list" where
  "emit c ch = (if con_port c \<noteq> - 1 then to_port c ch else []) @ (if con_term c then [Put_Char ch] else [])"

lemma read_color_Nil: "read_color n col [] = (if n = 6 then Inr (n, col, []) else Inl Out_Of_Bounds)"
  by (simp add: read_color.simps)

lemma read_color_Cons:
  "read_color n col (ch # s) =
     (if n = 6 \<or> ch = CHR 0x00 then Inr (n, col, ch # s) else read_color (Suc n) (or_nibble col n ch) s)"
  by (simp add: read_color.simps)

lemma read_color_suffix: "read_color n col s = Inr (n', col', s') \<Longrightarrow> length s' \<le> length s"
  by (induction s arbitrary: n col) (auto simp: read_color_Nil read_color_Cons le_SucI split: if_splits)

lemma after_digits_suffix:
  "after_digits c old n col s = Inr (es, s') \<Longrightarrow> length s \<le> length old \<Longrightarrow> length s' \<le> length old"
  by (cases s) (auto simp: after_digits_def split: if_splits)

lemma color_escape_suffix: "color_escape c s = Inr (es, s') \<Longrightarrow> length s' \<le> length s"
  by (cases s; cases "tl s")
    (auto simp: color_escape_def split: if_splits dest!: read_color_suffix dest: after_digits_suffix)

function print_str :: "console \<Rightarrow> string \<Rightarrow> console_event list result" where
  "print_str c str =
     (case str of
        [] \<Rightarrow> Inl Out_Of_Bounds
      | ch # _ \<Rightarrow>
          if ch = CHR 0x00 then Inr []
          else rbind (color_escape c str) (\<lambda>(es, s).
               case s of
                 [] \<Rightarrow> Inl Out_Of_Bounds
               | d # s' \<Rightarrow> rbind (print_str c s') (\<lambda>rest. Inr (es @ emit c d @ rest))))"
  by pat_completeness auto
termination
  by (relation "measure (\<lambda>(c, s). length s)") (auto dest: color_escape_suffix)

declare print_str.simps [simp del]

section \<open>Integers\<close>

text \<open>
  A value of a type of \<open>w\<close> bits, signed or not, as an integer; \<open>t = -t\<close> keeps the type, \<open>/\<close> and \<open>%\<close>
  round towards zero. The result of \<open>'0' + mod\<close> is cut to a character.
\<close>

definition conv :: "bool \<Rightarrow> nat \<Rightarrow> int \<Rightarrow> int" where
  "conv sg w t = (if sg then signed_take_bit (w - 1) t else take_bit w t)"

definition digit_char :: "int \<Rightarrow> char" where
  "digit_char m = char_of (nat ((48 + m) mod 256))"

text \<open>The value and its digits never grow, so the recursion ends.\<close>

lemma abs_conv_le: "\<bar>conv sg w t\<bar> \<le> \<bar>t\<bar>" if "sg \<or> 0 \<le> t"
proof (cases sg)
  case True
  define n where "n = w - 1"
  have r: "- (2 ^ n) \<le> signed_take_bit n t" "signed_take_bit n t < 2 ^ n"
    by (auto simp: signed_take_bit_int_greater_eq_minus_exp signed_take_bit_int_less_exp)
  have "signed_take_bit n t = t" if "- (2 ^ n) \<le> t" "t < 2 ^ n"
    using that by (simp add: signed_take_bit_int_eq_self)
  with r have "\<bar>signed_take_bit n t\<bar> \<le> \<bar>t\<bar>" by (cases "- (2 ^ n) \<le> t"; cases "t < 2 ^ n") linarith+
  with True show ?thesis by (simp add: conv_def n_def)
next
  case False
  with that show ?thesis by (simp add: conv_def take_bit_int_less_eq_self_iff)
qed

function print_int :: "bool \<Rightarrow> nat \<Rightarrow> int \<Rightarrow> string" where
  "print_int sg w t =
     (if t = 0 then ''0''
      else let neg = \<not> (t > 0 \<or> t = 0);
               u = (if neg then conv sg w (- t) else t);
               q = conv sg w (u sdiv 10);
               m = conv sg w (u smod 10)
           in (if neg then ''-'' else []) @ (if q \<noteq> 0 then print_int sg w q else []) @ [digit_char m])"
  by pat_completeness auto
termination
proof (relation "measure (\<lambda>(sg, w, t). nat \<bar>t\<bar>)")
  fix sg w t u q and neg :: bool
  assume t: "t \<noteq> 0" and n: "neg = (\<not> (t > 0 \<or> t = 0))" and u: "u = (if neg then conv sg w (- t) else t)"
    and q: "q = conv sg w (u sdiv 10)" "q \<noteq> 0"
  have p: "sg \<or> 0 \<le> u" by (auto simp: u n conv_def)
  have ut: "\<bar>u\<bar> \<le> \<bar>t\<bar>" using abs_conv_le [of sg "- t" w] by (auto simp: u n)
  moreover have "\<bar>q\<bar> \<le> \<bar>u sdiv 10\<bar>"
    unfolding q(1) using p by (intro abs_conv_le) (auto simp: signed_divide_int_def sgn_if)
  moreover have "\<bar>u sdiv 10\<bar> = \<bar>u\<bar> div 10" by (auto simp: signed_divide_int_def sgn_if)
  moreover have "\<bar>u\<bar> div 10 \<le> \<bar>t\<bar> div 10" using ut by (intro zdiv_mono1) simp_all
  ultimately have "\<bar>q\<bar> \<le> \<bar>t\<bar> div 10" by linarith
  moreover have "\<bar>t\<bar> div 10 < \<bar>t\<bar>" using t by simp
  ultimately have "\<bar>q\<bar> < \<bar>t\<bar>" by linarith
  then show "((sg, w, q), sg, w, t) \<in> measure (\<lambda>(sg, w, t). nat \<bar>t\<bar>)"
    by simp
qed simp

declare print_int.simps [simp del]

definition print_signed :: "console \<Rightarrow> 'a::len word \<Rightarrow> console_event list" where
  "print_signed c x = print_chars c (print_int True LENGTH('a) (sint x))"

definition print_unsigned :: "console \<Rightarrow> 'a::len word \<Rightarrow> console_event list" where
  "print_unsigned c x = print_chars c (print_int False LENGTH('a) (uint x))"

section \<open>Pointers and vendors\<close>

fun hex_loop :: "nat \<Rightarrow> 'a::len word \<Rightarrow> string" where
  "hex_loop i p =
     (if i = 0 then [] else ''0123456789ABCDEF'' ! unat (drop_bit (i - 4) p AND 0xF) # hex_loop (i - 4) p)"

declare hex_loop.simps [simp del]

definition print_ptr :: "console \<Rightarrow> u64 \<Rightarrow> console_event list result" where
  "print_ptr c p =
     rbind (print_str c [CHR ''0'', CHR ''x'', CHR 0x00]) (\<lambda>es. Inr (es @ print_chars c (hex_loop 64 p)))"

definition print_vendor :: "console \<Rightarrow> u16 \<Rightarrow> console_event list result" where
  "print_vendor c v =
     rbind (print_str c [CHR ''0'', CHR ''x'', CHR 0x00]) (\<lambda>es. Inr (es @ print_chars c (hex_loop 16 v)))"

section \<open>Tags\<close>

definition c_string :: "string \<Rightarrow> string" where
  "c_string s = s @ [CHR 0x00]"

definition color_green :: u32 where "color_green = 0xBB00"
definition color_gray :: u32 where "color_gray = 0xBBBBBB"
definition color_white :: u32 where "color_white = 0xFFFFFF"

datatype tag = Tag_Memory | Tag_Cpu | Tag_Acpi | Tag_Scheduler

fun tag_text :: "tag \<Rightarrow> string" where
  "tag_text Tag_Memory = ''[Memory   ] ''"
| "tag_text Tag_Cpu = ''[CPU      ] ''"
| "tag_text Tag_Acpi = ''[ACPI     ] ''"
| "tag_text Tag_Scheduler = ''[Scheduler] ''"

definition print_tag :: "console \<Rightarrow> tag \<Rightarrow> console_event list result" where
  "print_tag c t =
     rbind (print_str c (c_string (tag_text t))) (\<lambda>es.
     Inr (console_set_color c color_white @ es @ console_set_color c color_gray))"

definition print_done :: "console \<Rightarrow> console_event list result" where
  "print_done c =
     rbind (print_str c (c_string '' done.'')) (\<lambda>es.
     rbind (print_str c (c_string [CHR 0x0A])) (\<lambda>nl.
     Inr (console_set_color c color_green @ es @ console_set_color c color_gray @ nl)))"

section \<open>Decimal notation\<close>

text \<open>The digits of a natural number, and the number a reader takes a text for.\<close>

fun decimal :: "nat \<Rightarrow> string" where
  "decimal n = (if n < 10 then [char_of (48 + n)] else decimal (n div 10) @ [char_of (48 + n mod 10)])"

declare decimal.simps [simp del]

definition digit_of :: "char \<Rightarrow> int option" where
  "digit_of ch = (let n = of_char ch :: nat in if 48 \<le> n \<and> n \<le> 57 then Some (int (n - 48)) else None)"

fun dec_value :: "int \<Rightarrow> string \<Rightarrow> int option" where
  "dec_value acc [] = Some acc"
| "dec_value acc (ch # s) = (case digit_of ch of None \<Rightarrow> None | Some d \<Rightarrow> dec_value (10 * acc + d) s)"

definition read_int :: "string \<Rightarrow> int option" where
  "read_int s =
     (case s of
        [] \<Rightarrow> None
      | ch # s' \<Rightarrow>
          if ch = CHR ''-'' then (if s' = [] then None else map_option uminus (dec_value 0 s'))
          else dec_value 0 s)"

lemma dec_value_snoc:
  "dec_value acc (s @ [ch]) =
     (case dec_value acc s of None \<Rightarrow> None | Some a \<Rightarrow> map_option (\<lambda>d. 10 * a + d) (digit_of ch))"
  by (induction s arbitrary: acc) (auto split: option.splits)

lemma digit_of_char [simp]: "n < 10 \<Longrightarrow> digit_of (char_of (48 + n :: nat)) = Some (int n)"
  by (simp add: digit_of_def)

lemma dec_value_decimal: "dec_value 0 (decimal n) = Some (int n)"
proof (induction n rule: decimal.induct)
  case (1 n)
  have "10 * int (n div 10) + int (n mod 10) = int n"
    by (metis mult_div_mod_eq of_nat_add of_nat_mult of_nat_numeral)
  with 1 show ?case by (subst decimal.simps) (auto simp: dec_value_snoc)
qed

lemma decimal_not_Nil [simp]: "decimal n \<noteq> []"
  by (subst decimal.simps) auto

lemma digit_of_minus [simp]: "digit_of (CHR ''-'') = None"
  by (simp add: digit_of_def)

lemma read_int_decimal: "read_int (decimal n) = Some (int n)"
proof (cases "decimal n")
  case (Cons ch s)
  then have "ch \<noteq> CHR ''-''" using dec_value_decimal [of n] by auto
  with Cons show ?thesis using dec_value_decimal [of n] by (simp add: read_int_def)
qed simp

lemma read_int_minus: "read_int (CHR ''-'' # decimal n) = Some (- int n)"
  by (simp add: read_int_def dec_value_decimal)

section \<open>Integers in decimal notation\<close>

definition fits :: "bool \<Rightarrow> nat \<Rightarrow> int \<Rightarrow> bool" where
  "fits sg w t \<longleftrightarrow> (if sg then - (2 ^ (w - 1)) \<le> t \<and> t < 2 ^ (w - 1) else 0 \<le> t \<and> t < 2 ^ w)"

lemma conv_fits [simp]: "fits sg w t \<Longrightarrow> conv sg w t = t"
  by (simp add: fits_def conv_def signed_take_bit_int_eq_self take_bit_int_eq_self split: if_splits)

lemma fits_small: "8 \<le> w \<Longrightarrow> 0 \<le> t \<Longrightarrow> t < 10 \<Longrightarrow> fits sg w t"
proof -
  assume w: "8 \<le> w" and t: "0 \<le> t" "t < 10"
  have "(2 :: int) ^ 7 \<le> 2 ^ (w - 1)" "(2 :: int) ^ 7 \<le> 2 ^ w" using w by (intro power_increasing; simp)+
  with t show ?thesis by (simp add: fits_def)
qed

lemma fits_between: "fits sg w t \<Longrightarrow> 0 \<le> u \<Longrightarrow> u \<le> t \<Longrightarrow> fits sg w u"
  by (auto simp: fits_def split: if_splits)

lemma sdiv_nonneg: "0 \<le> (t :: int) \<Longrightarrow> t sdiv 10 = t div 10" "0 \<le> t \<Longrightarrow> t smod 10 = t mod 10"
  by (auto simp: signed_divide_int_def signed_modulo_int_def sgn_if)

lemma digit_char_nat: "n < 10 \<Longrightarrow> digit_char (int n) = char_of (48 + n)"
  by (simp add: digit_char_def nat_add_distrib)

lemma print_int_nat:
  assumes w: "8 \<le> w"
  shows "fits sg w (int n) \<Longrightarrow> print_int sg w (int n) = decimal n"
proof (induction n rule: decimal.induct)
  case (1 n)
  have q: "fits sg w (int (n div 10))" using "1.prems" by (rule fits_between) auto
  have m: "fits sg w (int (n mod 10))" using w by (intro fits_small) auto
  have c: "conv sg w (int n div 10) = int (n div 10)" "conv sg w (int n mod 10) = int (n mod 10)"
    using q m by (simp_all add: zdiv_int zmod_int)
  show ?case
  proof (cases "n = 0")
    case True
    have "char_of (48 :: nat) = CHR ''0''" by code_simp
    with True show ?thesis by (simp add: print_int.simps decimal.simps)
  next
    case False
    then have "print_int sg w (int n) =
      (if n div 10 \<noteq> 0 then print_int sg w (int (n div 10)) else []) @ [digit_char (int (n mod 10))]"
      by (subst print_int.simps) (simp add: sdiv_nonneg Let_def c del: div_eq_0_iff)
    then show ?thesis
      using "1.IH" q by (cases "n < 10") (simp_all add: decimal.simps [of n] digit_char_nat div_eq_0_iff)
  qed
qed

lemma print_int_neg:
  assumes w: "8 \<le> w" and n: "0 < n" and f: "fits True w (int n)"
  shows "print_int True w (- int n) = CHR ''-'' # decimal n"
proof -
  have "print_int True w (- int n) = CHR ''-'' # print_int True w (int n)"
    using n f by (subst (1 2) print_int.simps) (simp add: Let_def)
  with print_int_nat [OF w f] show ?thesis by simp
qed

text \<open>
  The least value of a signed type stays as it is under \<open>t = -t\<close>, so a second minus sign is printed and
  the last digit comes out as an opening parenthesis.
\<close>

lemma print_int_least:
  "print_int True 8 (- (2 ^ 7)) = ''--12(''" "print_int True 16 (- (2 ^ 15)) = ''--3276(''"
  "print_int True 32 (- (2 ^ 31)) = ''--214748364(''" "print_int True 64 (- (2 ^ 63)) = ''--922337203685477580(''"
  by code_simp+

lemma read_int_minus_minus: "read_int (CHR ''-'' # CHR ''-'' # s) = None"
  by (simp add: read_int_def)

text \<open>
  C28. Printing an integer is a round trip: for each of the four widths, what the console prints for a value of an
  unsigned type is text that reads back as the value, and so it is for a signed type except exactly the
  least value of the type, which is printed as text that is no number.
\<close>

theorem print_int_round_trip:
  fixes x :: "'a::len word"
  assumes "LENGTH('a) \<in> {8, 16, 32, 64}"
  shows "read_int (print_int False LENGTH('a) (uint x)) = Some (uint x) \<and>
    (if sint x = - (2 ^ (LENGTH('a) - 1)) then read_int (print_int True LENGTH('a) (sint x)) = None
     else read_int (print_int True LENGTH('a) (sint x)) = Some (sint x))"
proof -
  let ?w = "LENGTH('a)"
  have w: "8 \<le> ?w" using assms by auto
  have u: "fits False ?w (int (nat (uint x)))" by (simp add: fits_def)
  have "read_int (print_int True ?w (sint x)) = None" if "sint x = - (2 ^ (?w - 1))"
    unfolding that using assms by (elim insertE emptyE) (simp_all add: print_int_least read_int_minus_minus del: power_numeral)
  moreover have "read_int (print_int True ?w (sint x)) = Some (sint x)" if n: "sint x \<noteq> - (2 ^ (?w - 1))"
  proof -
    have "- (2 ^ (?w - 1)) \<le> sint x" "sint x < 2 ^ (?w - 1)" by (rule sint_ge, rule sint_lt)
    with n have f: "fits True ?w (int (nat \<bar>sint x\<bar>))" unfolding fits_def by simp linarith
    show ?thesis
      using print_int_nat [OF w f] print_int_neg [OF w _ f]
      by (cases "0 \<le> sint x") (simp_all add: read_int_decimal read_int_minus)
  qed
  ultimately show ?thesis using print_int_nat [OF w u] by (simp add: read_int_decimal)
qed

theorem print_int_round_trip_witness:
  "read_int (print_int True 16 (sint (- 1234 :: u16))) = Some (- 1234) \<and>
   read_int (print_int True 8 (sint (128 :: u8))) = None"
  using print_int_round_trip [of "- 1234 :: u16"] print_int_round_trip [of "128 :: u8"] by simp

section \<open>Pointers in hexadecimal\<close>

fun hex_value :: "nat \<Rightarrow> string \<Rightarrow> nat option" where
  "hex_value acc [] = Some acc"
| "hex_value acc (ch # s) = (case digit_value ch of None \<Rightarrow> None | Some d \<Rightarrow> hex_value (16 * acc + d) s)"

lemma digit_value_hex: "d < 16 \<Longrightarrow> digit_value (''0123456789ABCDEF'' ! d) = Some d"
  by (simp add: less_Suc_eq numeral_eq_Suc) (elim disjE; simp add: digit_value_def)

lemma unat_nibble:
  fixes p :: "'a::len word"
  shows "unat (drop_bit (4 * k) p AND 0xF) = unat p div 16 ^ k mod 16"
proof -
  have "(0xF :: 'a word) = mask 4" by (simp add: mask_eq_exp_minus_1)
  then have "unat (drop_bit (4 * k) p AND 0xF) = unat (take_bit 4 (drop_bit (4 * k) p))"
    by (simp add: take_bit_eq_mask)
  also have "\<dots> = unat p div 2 ^ (4 * k) mod 2 ^ 4"
    by (simp only: unsigned_take_bit_eq unsigned_drop_bit_eq) (simp add: take_bit_eq_mod drop_bit_eq_div)
  finally show ?thesis by (simp only: power_mult) simp
qed

lemma hex_value_loop:
  fixes p :: "'a::len word"
  shows "hex_value acc (hex_loop (4 * k) p) = Some (16 ^ k * acc + unat p mod 16 ^ k)"
proof (induction k arbitrary: acc)
  case (Suc k)
  have e: "hex_loop (4 * Suc k) p = ''0123456789ABCDEF'' ! unat (drop_bit (4 * k) p AND 0xF) # hex_loop (4 * k) p"
    by (subst hex_loop.simps) simp
  have "unat p mod 16 ^ Suc k = 16 ^ k * (unat p div 16 ^ k mod 16) + unat p mod 16 ^ k"
    by (simp add: mod_mult2_eq mult.commute [of 16])
  then show ?case unfolding e unat_nibble by (simp add: digit_value_hex Suc distrib_left mult.assoc mult.left_commute)
qed (simp add: hex_loop.simps)

lemma length_hex_loop: "length (hex_loop (4 * k) p) = k"
proof (induction k)
  case (Suc k)
  then show ?case by (subst hex_loop.simps) simp
qed (simp add: hex_loop.simps)

text \<open>What a terminal is shown.\<close>

definition shown :: "console_event list \<Rightarrow> string" where
  "shown es = concat (map (\<lambda>e. case e of Put_Char ch \<Rightarrow> [ch] | _ \<Rightarrow> []) es)"

lemma shown_simps [simp]:
  "shown [] = []" "shown (Put_Char ch # es) = ch # shown es" "shown (Set_Color col # es) = shown es"
  "shown (Outb p ch # es) = shown es" "shown (Clear_Terminal # es) = shown es" "shown (es @ es') = shown es @ shown es'"
  by (simp_all add: shown_def)

lemma shown_print_chars: "con_term c \<Longrightarrow> shown (print_chars c s) = s"
  by (induction s) (auto simp: print_chars_def print_char_def to_port_def)

lemma shown_emit: "con_term c \<Longrightarrow> shown (emit c ch) = [ch]"
  by (simp add: emit_def to_port_def)

section \<open>Strings\<close>

text \<open>Text without a backslash is printed as it is.\<close>

lemma print_str_step:
  "ch \<noteq> CHR 0x00 \<Longrightarrow> ch \<noteq> CHR 0x5C \<Longrightarrow> print_str c (ch # s) = rbind (print_str c s) (\<lambda>es. Inr (emit c ch @ es))"
  by (subst print_str.simps) (simp add: color_escape_def)

lemma print_str_end [simp]: "print_str c (CHR 0x00 # s) = Inr []"
  by (subst print_str.simps) simp

lemma print_str_plain:
  assumes "CHR 0x00 \<notin> set t" "CHR 0x5C \<notin> set t"
  shows "print_str c (t @ s) = rbind (print_str c s) (\<lambda>es. Inr (concat (map (emit c) t) @ es))"
  using assms
proof (induction t)
  case (Cons ch t)
  then have "print_str c ((ch # t) @ s) = rbind (print_str c (t @ s)) (\<lambda>es. Inr (emit c ch @ es))"
    by (auto simp: print_str_step)
  with Cons show ?case by (simp add: rbind_assoc)
qed simp

text \<open>
  A pointer is printed as \<open>0x\<close> and sixteen digits that read back as its value.
\<close>

theorem print_ptr_round_trip:
  assumes "con_term c"
  shows "\<exists>es s. print_ptr c p = Inr es \<and> shown es = ''0x'' @ s \<and> length s = 16 \<and> hex_value 0 s = Some (unat p)"
proof -
  have "print_str c ([CHR ''0'', CHR ''x''] @ [CHR 0x00]) = Inr (emit c (CHR ''0'') @ emit c (CHR ''x''))"
    by (subst print_str_plain) simp_all
  moreover have "hex_value 0 (hex_loop 64 p) = Some (unat p)" "length (hex_loop 64 p) = 16"
    using hex_value_loop [of 0 16 p] length_hex_loop [of 16 p] unat_u64_less [of p] by simp_all
  ultimately show ?thesis
    using assms by (auto simp: print_ptr_def shown_emit shown_print_chars)
qed

theorem print_ptr_round_trip_witness:
  "\<exists>es s. print_ptr \<lparr>con_term = True, con_port = - 1\<rparr> 0xCAFE = Inr es \<and> shown es = ''0x'' @ s \<and> length s = 16 \<and>
     hex_value 0 s = Some 51966"
  using print_ptr_round_trip [of "\<lparr>con_term = True, con_port = - 1\<rparr>" "0xCAFE"] by simp

section \<open>Colour escapes\<close>

text \<open>The digits as a number, the first digit being the lowest.\<close>

fun low_first :: "string \<Rightarrow> nat" where
  "low_first [] = 0"
| "low_first (d # ds) = the (digit_value d) + 16 * low_first ds"

lemma digit_value_bound: "digit_value d = Some v \<Longrightarrow> v < 16 \<and> d \<noteq> CHR 0x00"
  by (auto simp: digit_value_def Let_def split: if_splits)

lemma or_push_nat: "a < 2 ^ k \<Longrightarrow> a OR push_bit k v = a + 2 ^ k * (v :: nat)"
proof -
  assume "a < 2 ^ k"
  then have t: "take_bit k a = a" by (simp add: take_bit_nat_eq_self)
  have "take_bit k a AND push_bit k v = 0" by (rule bit_eqI) (auto simp: bit_simps)
  with t show ?thesis by (simp add: push_bit_eq_mult mult.commute flip: disjunctive_add_eq_or)
qed

lemma or_nibble_add:
  assumes "unat col < 16 ^ n" "digit_value d = Some v" "n < 6"
  shows "unat (or_nibble col n d) = unat col + 16 ^ n * v"
proof -
  have e: "(2 :: nat) ^ (n * 4) = 16 ^ n" by (simp add: power_mult mult.commute [of n])
  have "(16 :: nat) ^ n \<le> 16 ^ 5" using assms(3) by (intro power_increasing) simp_all
  moreover have v: "v < 16" using digit_value_bound assms(2) by blast
  ultimately have "16 ^ n * v < 2 ^ 32" using mult_mono [of "16 ^ n" "16 ^ 5" v 16] by simp
  then have "unat (push_bit (n * 4) (of_nat v) :: u32) = push_bit (n * 4) v"
    by (simp only: push_bit_of_nat unsigned_of_nat) (simp add: push_bit_eq_mult e mult.commute take_bit_nat_eq_self)
  then have "unat (or_nibble col n d) = unat col OR push_bit (n * 4) v"
    by (simp add: or_nibble_def assms(2) unsigned_or_eq)
  also have "\<dots> = unat col + 16 ^ n * v" unfolding e [symmetric] using assms(1) by (intro or_push_nat) (simp add: e)
  finally show ?thesis .
qed

lemma read_color_digits:
  assumes "n + length ds = 6" "\<forall>d \<in> set ds. digit_value d \<noteq> None" "unat col < 16 ^ n"
  shows "\<exists>col'. read_color n col (ds @ s) = Inr (6, col', s) \<and> unat col' = unat col + 16 ^ n * low_first ds"
  using assms
proof (induction ds arbitrary: n col)
  case Nil
  then show ?case by (cases s) (simp_all add: read_color_Nil read_color_Cons)
next
  case (Cons d ds)
  from Cons.prems obtain v where v: "digit_value d = Some v" by auto
  have n: "n < 6" using Cons.prems(1) by simp
  have c: "unat (or_nibble col n d) = unat col + 16 ^ n * v" using Cons.prems v n by (intro or_nibble_add)
  have b: "unat col + 16 ^ n * v < 16 ^ Suc n"
  proof -
    have "16 ^ n * v \<le> 16 ^ n * 15" using digit_value_bound [OF v] by (intro mult_le_mono2) linarith
    with Cons.prems(3) have "unat col + 16 ^ n * v < 16 ^ n + 16 ^ n * 15" by linarith
    then show ?thesis by simp
  qed
  have "read_color n col ((d # ds) @ s) = read_color (Suc n) (or_nibble col n d) (ds @ s)"
    using n digit_value_bound [OF v] by (simp add: read_color_Cons)
  with Cons.IH [of "Suc n" "or_nibble col n d"] Cons.prems c b v show ?case by (simp add: distrib_left ac_simps)
qed

text \<open>
  C29. A colour escape behind text that has no other: six hexadecimal digits select the colour whose lowest
  digit is the first of them, and the character behind the closing brace is printed unread. So an escape
  at the end of a string makes the console print the terminator and run on behind the array.
\<close>

theorem print_color_escape:
  assumes "con_term c" "CHR 0x00 \<notin> set t" "CHR 0x5C \<notin> set t"
    and "length ds = 6" "\<forall>d \<in> set ds. digit_value d \<noteq> None"
  shows "print_str c (t @ [CHR 0x5C, CHR ''{''] @ ds @ [CHR ''}''] @ ch # s) =
      rbind (print_str c s) (\<lambda>es. Inr (concat (map (emit c) t) @ Set_Color (of_nat (low_first ds)) # emit c ch @ es)) \<and>
    print_str c (t @ [CHR 0x5C, CHR ''{''] @ ds @ [CHR ''}''] @ [CHR 0x00]) = Inl Out_Of_Bounds"
proof -
  have e: "print_str c (t @ [CHR 0x5C, CHR ''{''] @ ds @ [CHR ''}''] @ ch # s) =
      rbind (print_str c s) (\<lambda>es. Inr (concat (map (emit c) t) @ Set_Color (of_nat (low_first ds)) # emit c ch @ es))" for ch s
  proof -
    obtain col where col: "read_color 0 0 (ds @ CHR ''}'' # ch # s) = Inr (6, col, CHR ''}'' # ch # s)"
      and u: "unat col = low_first ds"
      using read_color_digits [of 0 ds 0 "CHR ''}'' # ch # s"] assms(4,5) by auto
    have "col = of_nat (low_first ds)" using u by (metis of_nat_unat ucast_id)
    with col have "color_escape c ([CHR 0x5C, CHR ''{''] @ ds @ [CHR ''}''] @ ch # s) = Inr ([Set_Color (of_nat (low_first ds))], ch # s)"
      by (simp add: color_escape_def after_digits_def assms(1))
    then have "print_str c ([CHR 0x5C, CHR ''{''] @ ds @ [CHR ''}''] @ ch # s) =
        rbind (print_str c s) (\<lambda>es. Inr (Set_Color (of_nat (low_first ds)) # emit c ch @ es))"
      by (subst print_str.simps) simp
    then show ?thesis using assms(2,3) by (simp add: print_str_plain rbind_assoc)
  qed
  have "print_str c [] = Inl Out_Of_Bounds" by (subst print_str.simps) simp
  then show ?thesis using e [of ch s] e [of "CHR 0x00" "[]"] by simp
qed

theorem print_color_escape_witness:
  "print_str \<lparr>con_term = True, con_port = - 1\<rparr> (''Hi'' @ [CHR 0x5C, CHR ''{''] @ ''ff00a0'' @ [CHR ''}''] @ CHR ''!'' # [CHR 0x00]) =
     Inr [Put_Char (CHR ''H''), Put_Char (CHR ''i''), Set_Color 0x0A00FF, Put_Char (CHR ''!'')]"
  using print_color_escape [of "\<lparr>con_term = True, con_port = - 1\<rparr>" "''Hi''" "''ff00a0''" "CHR ''!''" "[CHR 0x00]"]
  by (simp add: digit_value_def emit_def)

lemma print_plain_string:
  assumes "CHR 0x00 \<notin> set t" "CHR 0x5C \<notin> set t"
  shows "print_str c (c_string t) = Inr (concat (map (emit c) t))"
  using print_str_plain [OF assms, of c "[CHR 0x00]"] by (simp add: c_string_def)

lemma shown_emits: "con_term c \<Longrightarrow> shown (concat (map (emit c) t)) = t"
  by (induction t) (auto simp: shown_emit)

lemma print_tag_shows:
  assumes "con_term c"
  shows "\<exists>es. print_tag c t = Inr es \<and> shown es = tag_text t \<and> length (tag_text t) = 12 \<and>
    hd es = Set_Color color_white \<and> last es = Set_Color color_gray"
proof -
  have "print_str c (c_string (tag_text t)) = Inr (concat (map (emit c) (tag_text t)))"
    by (rule print_plain_string) (cases t; simp)+
  moreover have "length (tag_text t) = 12" by (cases t) simp_all
  ultimately show ?thesis using assms by (simp add: print_tag_def console_set_color_def shown_emits)
qed

end
