(* ===== verification/Screen.thy ===== *)
theory Screen
  imports Console Memory_Ops
begin

text \<open>
  The boot terminal (\<open>kernel/screen/bootterm.cpp\<close>): the text cursor, the glyphs drawn into the frame buffer
  and its back buffer, and scrolling. The terminal works on the memory of \<open>Memory_Ops\<close>.
\<close>

section \<open>The state\<close>

record video_mode =
  vm_res_x :: u16
  vm_res_y :: u16
  vm_bpl :: u16
  vm_bpp :: u8
  vm_red_size :: u8
  vm_red_pos :: u8
  vm_green_size :: u8
  vm_green_pos :: u8
  vm_blue_size :: u8
  vm_blue_pos :: u8
  vm_font :: u64
  vm_addr :: u64

record terminal =
  t_mode :: video_mode
  t_back :: u64
  t_maxx :: u32
  t_maxy :: u32
  t_x :: u32
  t_y :: u32
  t_red :: u8
  t_green :: u8
  t_blue :: u8

section \<open>Colours\<close>

definition set_color :: "u32 \<Rightarrow> terminal \<Rightarrow> terminal" where
  "set_color hex t =
     t\<lparr>t_red := ucast (drop_bit 16 hex AND 0xFF), t_green := ucast (drop_bit 8 hex AND 0xFF), t_blue := ucast (hex AND 0xFF)\<rparr>"

definition color_part :: "u8 \<Rightarrow> u8 \<Rightarrow> u8 \<Rightarrow> u32" where
  "color_part level sz pos = push_bit (unat pos) (drop_bit (8 - unat sz) (ucast level))"

definition pixel_value :: "terminal \<Rightarrow> u32" where
  "pixel_value t =
     color_part (t_red t) (vm_red_size (t_mode t)) (vm_red_pos (t_mode t)) OR
     color_part (t_green t) (vm_green_size (t_mode t)) (vm_green_pos (t_mode t)) OR
     color_part (t_blue t) (vm_blue_size (t_mode t)) (vm_blue_pos (t_mode t))"

section \<open>Drawing\<close>

text \<open>Accesses of \<open>n\<close> bytes, low byte first, and the two loops of \<open>_put_16\<close> and \<open>_put_32\<close>, for
  addresses of any width: the loader's console has the same loops on 32-bit addresses.\<close>

definition store_le :: "nat \<Rightarrow> 'a::len word \<Rightarrow> u32 \<Rightarrow> ('a word \<Rightarrow> u8) \<Rightarrow> 'a word \<Rightarrow> u8" where
  "store_le n a v m = (\<lambda>x. if unat (x - a) < n then ucast (drop_bit (8 * unat (x - a)) v) else m x)"

definition load_le :: "nat \<Rightarrow> 'a::len word \<Rightarrow> ('a word \<Rightarrow> u8) \<Rightarrow> u32" where
  "load_le n a m = foldr (\<lambda>k v. push_bit 8 v OR ucast (m (a + of_nat k))) [0..<n] 0"

definition glyph_pixel :: "u8 \<Rightarrow> u32 \<Rightarrow> nat \<Rightarrow> u32" where
  "glyph_pixel line color i = (if drop_bit (7 - i) line AND 1 \<noteq> 0 then color else 0)"

definition put_pixel :: "nat \<Rightarrow> 'a::len word \<Rightarrow> 'a word \<Rightarrow> u32 \<Rightarrow> ('a word \<Rightarrow> u8) \<Rightarrow> 'a word \<Rightarrow> u8" where
  "put_pixel n dest backdest v m =
     (let m = store_le n backdest v m in store_le n dest (load_le n backdest m) m)"

definition put_line :: "nat \<Rightarrow> 'a::len word \<Rightarrow> 'a word \<Rightarrow> u8 \<Rightarrow> u32 \<Rightarrow> ('a word \<Rightarrow> u8) \<Rightarrow> 'a word \<Rightarrow> u8" where
  "put_line n dest backdest line color m =
     fold (\<lambda>i. put_pixel n (dest + of_nat (n * i)) (backdest + of_nat (n * i)) (glyph_pixel line color i)) [0..<8] m"

definition put_glyph :: "nat \<Rightarrow> 'a::len word \<Rightarrow> 'a word \<Rightarrow> 'a word \<Rightarrow> 'a word \<Rightarrow> u32 \<Rightarrow>
    ('a word \<Rightarrow> u8) \<Rightarrow> 'a word \<Rightarrow> u8" where
  "put_glyph n bpl dest backdest character color m =
     fold (\<lambda>i m. put_line n (dest + of_nat i * bpl) (backdest + of_nat i * bpl) (m (character + of_nat i)) color m) [0..<16] m"

text \<open>\<open>_mode->font[c * 16]\<close>: a \<open>char\<close> is signed.\<close>

definition glyph_address :: "video_mode \<Rightarrow> char \<Rightarrow> u64" where
  "glyph_address md ch = vm_font md + word_of_int (sint (of_char ch :: u8) * 16)"

definition cell_offset :: "terminal \<Rightarrow> u32 \<Rightarrow> u64" where
  "cell_offset t width = ucast (t_y t * ucast (vm_bpl (t_mode t)) * 16) + ucast (t_x t * width)"

definition back_or_screen :: "terminal \<Rightarrow> u64" where
  "back_or_screen t = (if t_back t \<noteq> 0 then t_back t else vm_addr (t_mode t))"

definition put_16 :: "char \<Rightarrow> terminal \<Rightarrow> memory \<Rightarrow> memory" where
  "put_16 ch t m =
     put_glyph 2 (ucast (vm_bpl (t_mode t))) (vm_addr (t_mode t) + cell_offset t 16) (back_or_screen t + cell_offset t 16)
       (glyph_address (t_mode t) ch) (ucast (ucast (pixel_value t) :: u16)) m"

definition put_32 :: "char \<Rightarrow> terminal \<Rightarrow> memory \<Rightarrow> memory" where
  "put_32 ch t m =
     put_glyph 4 (ucast (vm_bpl (t_mode t))) (vm_addr (t_mode t) + cell_offset t 32) (back_or_screen t + cell_offset t 32)
       (glyph_address (t_mode t) ch) (pixel_value t) m"

section \<open>Scrolling\<close>

text \<open>The sizes are \<open>int\<close> in the code and become 64-bit counts in the calls.\<close>

definition byte_count :: "int \<Rightarrow> nat" where
  "byte_count n = unat (word_of_int n :: u64)"

definition screen_bytes :: "video_mode \<Rightarrow> int" where
  "screen_bytes md = uint (vm_res_y md) * uint (vm_bpl md)"

definition kept_bytes :: "video_mode \<Rightarrow> int" where
  "kept_bytes md = (uint (vm_res_y md) - 16 - uint (vm_res_y md) mod 16) * uint (vm_bpl md)"

definition scroll_memory :: "terminal \<Rightarrow> memory \<Rightarrow> memory" where
  "scroll_memory t m =
     (let md = t_mode t; b = t_back t;
          m = copy_bytes (b + ucast (vm_bpl md) * 16) b (byte_count (kept_bytes md)) m;
          m = zero_bytes (b + word_of_int (kept_bytes md)) (byte_count (uint (vm_bpl md) * 16)) m
      in copy_bytes b (vm_addr md) (byte_count (screen_bytes md)) m)"

definition scroll :: "terminal \<times> memory \<Rightarrow> terminal \<times> memory" where
  "scroll s = (case s of (t, m) \<Rightarrow> (t\<lparr>t_y := t_y t - 1\<rparr>, scroll_memory t m))"

text \<open>\<open>while (_y >= _maxy) _scroll();\<close>\<close>

partial_function (option) scroll_loop :: "terminal \<times> memory \<Rightarrow> (terminal \<times> memory) option" where
  "scroll_loop s = (if t_maxy (fst s) \<le> t_y (fst s) then scroll_loop (scroll s) else Some s)"

section \<open>The operations\<close>

definition clear_terminal :: "terminal \<times> memory \<Rightarrow> terminal \<times> memory" where
  "clear_terminal s =
     (case s of (t, m) \<Rightarrow>
       let md = t_mode t;
           m = (if t_back t \<noteq> 0 then zero_bytes (t_back t) (byte_count (screen_bytes md)) m else m)
       in (t\<lparr>t_x := 0, t_y := 0\<rparr>, zero_bytes (vm_addr md) (byte_count (screen_bytes md)) m))"

definition draw :: "char \<Rightarrow> terminal \<Rightarrow> memory \<Rightarrow> memory" where
  "draw ch t m =
     (if vm_bpp (t_mode t) = 16 then put_16 ch t m else if vm_bpp (t_mode t) = 32 then put_32 ch t m else m)"

definition advance :: "char \<Rightarrow> terminal \<Rightarrow> terminal" where
  "advance ch t =
     (if ch = CHR 0x0A then t\<lparr>t_y := t_y t + 1, t_x := 0\<rparr>
      else if ch = CHR 0x09 then t\<lparr>t_x := t_x t + (8 - t_x t mod 8)\<rparr>
      else t\<lparr>t_x := t_x t + 1\<rparr>)"

definition wrap_line :: "terminal \<Rightarrow> terminal" where
  "wrap_line t = (if t_x t = t_maxx t then t\<lparr>t_x := 0, t_y := t_y t + 1\<rparr> else t)"

definition put_char :: "char \<Rightarrow> terminal \<times> memory \<Rightarrow> (terminal \<times> memory) option" where
  "put_char ch s =
     (case s of (t, m) \<Rightarrow>
       scroll_loop (wrap_line (advance ch t), if ch = CHR 0x0A \<or> ch = CHR 0x09 then m else draw ch t m))"

fun put_chars :: "string \<Rightarrow> terminal \<times> memory \<Rightarrow> (terminal \<times> memory) option" where
  "put_chars [] s = Some s"
| "put_chars (ch # chs) s = (case put_char ch s of None \<Rightarrow> None | Some s' \<Rightarrow> put_chars chs s')"

section \<open>The scroll loop\<close>

lemma scroll_loop_here: "t_y t < t_maxy t \<Longrightarrow> scroll_loop (t, m) = Some (t, m)"
  by (subst scroll_loop.simps) (simp add: word_le_nat_alt word_less_nat_alt)

lemma scroll_loop_again: "t_maxy t \<le> t_y t \<Longrightarrow> scroll_loop (t, m) = scroll_loop (t\<lparr>t_y := t_y t - 1\<rparr>, scroll_memory t m)"
  by (subst scroll_loop.simps) (simp add: scroll_def)

lemma scroll_loop_returns:
  "t_maxy t \<noteq> 0 \<Longrightarrow>
    \<exists>m'. scroll_loop (t, m) = Some (t\<lparr>t_y := (if t_maxy t \<le> t_y t then t_maxy t - 1 else t_y t)\<rparr>, m')"
proof (induction "unat (t_y t)" arbitrary: t m rule: less_induct)
  case less
  show ?case
  proof (cases "t_maxy t \<le> t_y t")
    case False
    then show ?thesis by (simp add: scroll_loop_here)
  next
    case True
    let ?t = "t\<lparr>t_y := t_y t - 1\<rparr>"
    have y: "unat (t_maxy t) \<le> unat (t_y t)" "0 < unat (t_maxy t)"
      using True less.prems by (simp_all add: word_le_nat_alt unat_gt_0)
    then have u: "unat (t_y t - 1) = unat (t_y t) - 1" "unat (t_maxy t - 1) = unat (t_maxy t) - 1"
      by (simp_all add: unat_minus_one flip: unat_gt_0)
    have "unat (t_y t - 1) < unat (t_y t)" using u y by simp
    then have "\<exists>m'. scroll_loop (?t, scroll_memory t m) =
        Some (?t\<lparr>t_y := (if t_maxy ?t \<le> t_y ?t then t_maxy ?t - 1 else t_y ?t)\<rparr>, m')"
      using less.hyps [of ?t] less.prems by simp
    moreover have "t_maxy t \<le> t_y t - 1 \<or> t_y t - 1 = t_maxy t - 1"
      using u y by (auto simp: word_le_nat_alt word_unat_eq_iff)
    ultimately show ?thesis using True by (auto simp: scroll_loop_again)
  qed
qed

lemma scroll_loop_diverges: "t_maxy (fst s) = 0 \<Longrightarrow> scroll_loop s = None"
proof -
  have "scroll_loop s = Some r \<Longrightarrow> t_maxy (fst s) \<noteq> 0" for r
  proof (rule scroll_loop.raw_induct [where P = "\<lambda>s r. t_maxy (fst s) \<noteq> 0"])
    fix f s r
    assume IH: "\<And>x y. f x = Some y \<Longrightarrow> t_maxy (fst x) \<noteq> 0"
      and e: "(if t_maxy (fst s) \<le> t_y (fst s) then f (scroll s) else Some s) = Some r"
    show "t_maxy (fst s) \<noteq> 0"
    proof
      assume z: "t_maxy (fst s) = 0"
      with e have "f (scroll s) = Some r" by simp
      from IH [OF this] z show False by (simp add: scroll_def split: prod.splits)
    qed
  qed
  then show "t_maxy (fst s) = 0 \<Longrightarrow> ?thesis" by (cases "scroll_loop s") auto
qed

lemma wrap_advance_keeps [simp]:
  "t_maxy (wrap_line (advance ch t)) = t_maxy t" "t_maxx (wrap_line (advance ch t)) = t_maxx t"
  "t_mode (wrap_line (advance ch t)) = t_mode t" "t_back (wrap_line (advance ch t)) = t_back t"
  by (simp_all add: wrap_line_def advance_def)

lemma put_char_some_iff: "(\<exists>s. put_char ch (t, m) = Some s) \<longleftrightarrow> t_maxy t \<noteq> 0"
proof (cases "t_maxy t = 0")
  case True
  then show ?thesis by (simp add: put_char_def scroll_loop_diverges)
next
  case False
  from scroll_loop_returns [of "wrap_line (advance ch t)" "if ch = CHR 0x0A \<or> ch = CHR 0x09 then m else draw ch t m"] False
  show ?thesis unfolding put_char_def by auto
qed


section \<open>The cursor\<close>

definition cursor_ok :: "terminal \<Rightarrow> bool" where
  "cursor_ok t \<longleftrightarrow> t_x t < t_maxx t \<and> t_y t < t_maxy t"

lemma put_char_cursor:
  assumes "put_char ch (t, m) = Some (t', m')"
  shows "t_maxx t' = t_maxx t" "t_maxy t' = t_maxy t" "t_mode t' = t_mode t" "t_back t' = t_back t"
    "t_x t' = t_x (wrap_line (advance ch t))" "t_y t' < t_maxy t"
proof -
  have "t_maxy t \<noteq> 0" using assms put_char_some_iff by blast
  with scroll_loop_returns [of "wrap_line (advance ch t)" "if ch = CHR 0x0A \<or> ch = CHR 0x09 then m else draw ch t m"] assms
  have t': "t' = (wrap_line (advance ch t))\<lparr>t_y := (if t_maxy t \<le> t_y (wrap_line (advance ch t)) then t_maxy t - 1
      else t_y (wrap_line (advance ch t)))\<rparr>"
    unfolding put_char_def by auto
  then show "t_maxx t' = t_maxx t" "t_maxy t' = t_maxy t" "t_mode t' = t_mode t" "t_back t' = t_back t"
    "t_x t' = t_x (wrap_line (advance ch t))" by simp_all
  have "t_maxy t - 1 < t_maxy t" using \<open>t_maxy t \<noteq> 0\<close> by (simp add: word_less_1 word_gt_0 measure_unat word_less_nat_alt)
  then show "t_y t' < t_maxy t" using t' by auto
qed

lemma next_tab:
  fixes x w :: u32
  assumes "x < w" "w mod 8 = 0" "unat w < 2 ^ 13"
  shows "unat (x + (8 - x mod 8)) = 8 * (unat x div 8 + 1)" "8 * (unat x div 8 + 1) \<le> unat w"
proof -
  have m: "unat (x mod 8) = unat x mod 8" by (simp add: unat_mod_distrib)
  have "x mod 8 \<le> 8" by (simp add: word_le_nat_alt m less_imp_le)
  then have s: "unat (8 - x mod 8) = 8 - unat x mod 8" by (simp add: unat_sub m)
  have l: "unat x < unat w" using assms(1) by (simp add: word_less_nat_alt)
  have "unat (w mod 8) = unat w mod 8" by (simp add: unat_mod_distrib)
  then have q: "unat w = unat w div 8 * 8" using assms(2) by (simp add: mod_0_imp_dvd)
  with l have "unat x div 8 < unat w div 8" by (metis less_mult_imp_div_less)
  then have "8 * (unat x div 8 + 1) \<le> 8 * (unat w div 8)" by (intro mult_le_mono2) simp
  then show "8 * (unat x div 8 + 1) \<le> unat w" by (subst q) (simp only: mult.commute [of _ 8])
  have next8: "n = 8 * q + r \<Longrightarrow> r < 8 \<Longrightarrow> n + (8 - r) = 8 * (q + 1)" for n q r :: nat by simp
  have e: "unat x + (8 - unat x mod 8) = 8 * (unat x div 8 + 1)" by (rule next8) simp_all
  have "unat x + (8 - unat x mod 8) < 2 ^ 32" using l assms(3) by simp
  then show "unat (x + (8 - x mod 8)) = 8 * (unat x div 8 + 1)"
    unfolding e [symmetric] s [symmetric] by (intro unat_add_lem [THEN iffD1]) simp
qed

lemma advance_inside:
  assumes "t_x t < t_maxx t" "t_maxx t mod 8 = 0" "unat (t_maxx t) < 2 ^ 13"
  shows "t_x (wrap_line (advance ch t)) < t_maxx t"
proof -
  have p: "0 < t_maxx t" using assms(1) by (metis word_gt_0 word_not_simps(1))
  consider "ch = CHR 0x0A" | "ch = CHR 0x09" | "ch \<noteq> CHR 0x0A" "ch \<noteq> CHR 0x09" by blast
  then show ?thesis
  proof cases
    case 1
    with p show ?thesis by (simp add: advance_def wrap_line_def)
  next
    case 2
    with next_tab [OF assms] p show ?thesis
      by (auto simp: advance_def wrap_line_def word_less_nat_alt word_unat_eq_iff)
  next
    case 3
    have "unat (t_x t + 1) = unat (t_x t) + 1"
      using assms(1,3) by (simp add: word_less_nat_alt unat_word_ariths)
    with 3 p assms(1) show ?thesis
      by (auto simp: advance_def wrap_line_def word_less_nat_alt word_unat_eq_iff)
  qed
qed

lemma put_chars_inside:
  assumes "cursor_ok t" "t_maxx t mod 8 = 0" "unat (t_maxx t) < 2 ^ 13" "put_chars s (t, m) = Some (t', m')"
  shows "cursor_ok t'"
  using assms
proof (induction s arbitrary: t m)
  case (Cons ch s)
  from Cons.prems(4) obtain t1 m1 where s: "put_char ch (t, m) = Some (t1, m1)" "put_chars s (t1, m1) = Some (t', m')"
    by (auto split: option.splits)
  from advance_inside [of t ch] Cons.prems have "cursor_ok t1"
    unfolding cursor_ok_def by (simp add: put_char_cursor [OF s(1)])
  with Cons.IH [OF _ _ _ s(2)] Cons.prems(2,3) show ?case by (simp add: put_char_cursor [OF s(1)])
qed simp

lemma put_char_tab:
  assumes "t_y t < t_maxy t" "t_x t + (8 - t_x t mod 8) \<noteq> t_maxx t"
  shows "put_char (CHR 0x09) (t, m) = Some (t\<lparr>t_x := t_x t + (8 - t_x t mod 8)\<rparr>, m)"
  using assms by (simp add: put_char_def advance_def wrap_line_def scroll_loop_here)

lemma put_chars_snoc:
  "put_chars (s @ [ch]) st = (case put_chars s st of None \<Rightarrow> None | Some st' \<Rightarrow> put_char ch st')"
  by (induction s arbitrary: st) (auto split: option.splits)

text \<open>Tabs from the start of a line on a screen whose width is no multiple of eight.\<close>

lemma put_chars_tabs:
  assumes "t_x t = 0" "t_y t < t_maxy t" "unat (t_maxx t) mod 8 \<noteq> 0" "unat (t_maxx t) < 2 ^ 13"
  shows "k \<le> unat (t_maxx t) div 8 + 1 \<Longrightarrow>
    put_chars (replicate k (CHR 0x09)) (t, m) = Some (t\<lparr>t_x := of_nat (8 * k)\<rparr>, m)"
proof (induction k)
  case 0
  have "t\<lparr>t_x := 0\<rparr> = t" using assms(1) by (cases t) simp
  then show ?case by simp
next
  case (Suc k)
  have b: "8 * k \<le> 2 ^ 13" using Suc.prems assms(4) by simp
  then have u: "unat (of_nat (8 * k) :: u32) = 8 * k" "unat (of_nat (8 * Suc k) :: u32) = 8 * Suc k"
    by (simp_all only: unsigned_of_nat) (simp_all add: take_bit_nat_eq_self)
  have "unat ((of_nat (8 * k) :: u32) mod 8) = 8 * k mod 8" by (simp only: unat_mod_distrib u) simp
  then have z: "(of_nat (8 * k) :: u32) mod 8 = 0" by (simp add: word_unat_eq_iff del: of_nat_mult)
  have "of_nat (8 * Suc k) \<noteq> t_maxx t" using assms(3) u(2) by (metis dvd_triv_left dvd_imp_mod_0)
  moreover have "(of_nat (8 * Suc k) :: u32) = of_nat (8 * k) + 8" by (simp add: algebra_simps)
  ultimately have "put_char (CHR 0x09) (t\<lparr>t_x := of_nat (8 * k)\<rparr>, m) = Some (t\<lparr>t_x := of_nat (8 * Suc k)\<rparr>, m)"
    using z assms(2) put_char_tab [of "t\<lparr>t_x := of_nat (8 * k)\<rparr>" m]
    by (simp add: add.commute [of 8] del: of_nat_mult)
  moreover have "replicate (Suc k) (CHR 0x09) = replicate k (CHR 0x09) @ [CHR 0x09]" by (simp add: replicate_append_same)
  ultimately show ?case using Suc by (simp add: put_chars_snoc del: replicate_Suc of_nat_mult)
qed

text \<open>
  C31. From a cleared screen the cursor stays on the screen whatever is printed exactly if the number of
  columns is a multiple of eight: on any other screen a tab can pass the end of the line unnoticed, because
  the code only looks for the column that equals the width.
\<close>

theorem cursor_on_screen_iff:
  assumes "t_x t = 0" "t_y t = 0" "0 < t_maxx t" "0 < t_maxy t" "unat (t_maxx t) < 2 ^ 13"
  shows "(\<forall>s t' m'. put_chars s (t, m) = Some (t', m') \<longrightarrow> t_x t' < t_maxx t' \<and> t_y t' < t_maxy t') \<longleftrightarrow>
    8 dvd unat (t_maxx t)"
proof
  assume a: "\<forall>s t' m'. put_chars s (t, m) = Some (t', m') \<longrightarrow> t_x t' < t_maxx t' \<and> t_y t' < t_maxy t'"
  show "8 dvd unat (t_maxx t)"
  proof (rule ccontr)
    assume n: "\<not> 8 dvd unat (t_maxx t)"
    let ?k = "unat (t_maxx t) div 8 + 1"
    have "put_chars (replicate ?k (CHR 0x09)) (t, m) = Some (t\<lparr>t_x := of_nat (8 * ?k)\<rparr>, m)"
      using assms n by (intro put_chars_tabs) (simp_all add: dvd_eq_mod_eq_0)
    from a [rule_format, OF this] have "(of_nat (8 * ?k) :: u32) < t_maxx t" by (simp del: of_nat_mult)
    moreover have "unat (of_nat (8 * ?k) :: u32) = 8 * ?k"
      using assms(5) by (simp only: unsigned_of_nat) (simp add: take_bit_nat_eq_self)
    ultimately have "8 * ?k < unat (t_maxx t)" by (simp only: word_less_nat_alt)
    then show False by presburger
  qed
next
  assume "8 dvd unat (t_maxx t)"
  then have "unat (t_maxx t mod 8) = 0" by (simp add: unat_mod_distrib dvd_eq_mod_eq_0)
  then have "t_maxx t mod 8 = 0" by (simp add: word_unat_eq_iff)
  moreover have "cursor_ok t" using assms by (simp add: cursor_ok_def)
  ultimately have "cursor_ok t'" if "put_chars s (t, m) = Some (t', m')" for s t' m'
    by (intro put_chars_inside [OF _ _ assms(5) that])
  then show "\<forall>s t' m'. put_chars s (t, m) = Some (t', m') \<longrightarrow> t_x t' < t_maxx t' \<and> t_y t' < t_maxy t'"
    by (simp add: cursor_ok_def)
qed

text \<open>A screen of 800 pixels has 100 columns: enough tabs leave it.\<close>

definition screen_800 :: terminal where
  "screen_800 = \<lparr>t_mode = \<lparr>vm_res_x = 800, vm_res_y = 600, vm_bpl = 3200, vm_bpp = 32, vm_red_size = 8, vm_red_pos = 16,
       vm_green_size = 8, vm_green_pos = 8, vm_blue_size = 8, vm_blue_pos = 0, vm_font = 0, vm_addr = 0x10000\<rparr>,
     t_back = 0x200000, t_maxx = 100, t_maxy = 37, t_x = 0, t_y = 0, t_red = 0, t_green = 0, t_blue = 0\<rparr>"

lemma cursor_on_screen_iff_witness:
  "\<exists>s t' m'. put_chars s (screen_800, \<lambda>_. 0) = Some (t', m') \<and> \<not> (t_x t' < t_maxx t' \<and> t_y t' < t_maxy t')"
  using cursor_on_screen_iff [of screen_800 "\<lambda>_. 0"] by (simp add: screen_800_def)

end
