(* ===== verification/Screen_Draw.thy ===== *)
theory Screen_Draw
  imports Screen
begin

text \<open>
  What the boot terminal draws: a glyph appears in its cell of the frame buffer and of the back buffer and
  nothing else changes, and scrolling moves the text up by a line.
\<close>

section \<open>Accesses\<close>

lemma bit_load_aux:
  "bit (foldr (\<lambda>k v. push_bit 8 v OR ucast (m (a + of_nat k))) [s..<s + n] (0 :: u32)) i \<longleftrightarrow>
     i < 32 \<and> i < 8 * n \<and> bit (m (a + of_nat (s + i div 8)) :: u8) (i mod 8)"
proof (induction n arbitrary: s i)
  case (Suc n)
  have e: "[s..<s + Suc n] = s # [Suc s..<Suc s + n]" by (simp add: upt_conv_Cons)
  show ?case
  proof (cases "i < 8")
    case True
    then show ?thesis unfolding e by (simp add: bit_simps)
  next
    case False
    then have "i div 8 = Suc ((i - 8) div 8)" "i mod 8 = (i - 8) mod 8" by (simp_all add: le_div_geq le_mod_geq)
    moreover have "\<not> bit (m (a + of_nat s)) i" using False bit_imp_le_length [of "m (a + of_nat s)" i] by auto
    ultimately show ?thesis using False Suc [of "Suc s" "i - 8"] unfolding e
      by (auto simp: bit_simps ac_simps simp del: upt_Suc)
  qed
qed simp

lemma bit_load_le:
  "bit (load_le n a m) i \<longleftrightarrow> i < 32 \<and> i < 8 * n \<and> bit (m (a + of_nat (i div 8))) (i mod 8)"
  using bit_load_aux [of m a 0 n i] by (simp add: load_le_def)

lemma load_store_le: "load_le n a (store_le n a v m) = take_bit (8 * n) v" for a :: u64
proof (rule bit_word_eqI)
  fix i assume i: "i < LENGTH(32)"
  then have u: "unat (of_nat (i div 8) :: u64) = i div 8" by (intro unat_of_nat_u64) simp
  have "i div 8 < n \<longleftrightarrow> i < 8 * n" by (simp add: div_less_iff_less_mult mult.commute)
  with i u show "bit (load_le n a (store_le n a v m)) i \<longleftrightarrow> bit (take_bit (8 * n) v) i"
    by (auto simp: bit_load_le store_le_def bit_simps)
qed

lemma store_take_bit: "store_le n a (take_bit (8 * n) v) m = store_le n a v m"
proof -
  have "(ucast (drop_bit (8 * k) (take_bit (8 * n) v)) :: u8) = ucast (drop_bit (8 * k) v)" if "k < n" for k
    using that by (intro bit_word_eqI) (auto simp: bit_simps)
  then show ?thesis by (auto simp: store_le_def)
qed

lemma put_pixel_stores: "put_pixel n d b v m = store_le n d v (store_le n b v m)" for d b :: u64
  by (simp add: put_pixel_def load_store_le store_take_bit)

section \<open>Painting offsets of two areas\<close>

definition block :: "nat \<Rightarrow> (nat \<Rightarrow> u8) \<Rightarrow> u64 \<Rightarrow> u64 \<Rightarrow> memory \<Rightarrow> memory" where
  "block n g d b m =
     (\<lambda>x. if unat (x - d) < n then g (unat (x - d)) else if unat (x - b) < n then g (unat (x - b)) else m x)"

definition paint :: "(nat \<Rightarrow> bool) \<Rightarrow> (nat \<Rightarrow> u8) \<Rightarrow> u64 \<Rightarrow> u64 \<Rightarrow> memory \<Rightarrow> memory" where
  "paint P f d b m =
     (\<lambda>x. if P (unat (x - d)) then f (unat (x - d)) else if P (unat (x - b)) then f (unat (x - b)) else m x)"

text \<open>Two areas of \<open>n\<close> bytes are the same one or do not meet.\<close>

definition same_or_apart :: "nat \<Rightarrow> u64 \<Rightarrow> u64 \<Rightarrow> bool" where
  "same_or_apart n d b \<longleftrightarrow> d = b \<or> n \<le> unat (d - b) \<and> n \<le> unat (b - d)"

lemma apart_offsets:
  assumes "same_or_apart n d b" "unat (x - d) < n" "unat (x - b) < n"
  shows "d = b"
proof (rule ccontr)
  assume "d \<noteq> b"
  with assms(1) have a: "n \<le> unat (d - b)" "n \<le> unat (b - d)" by (auto simp: same_or_apart_def)
  have e: "d - b = (x - b) - (x - d)" "b - d = (x - d) - (x - b)" by simp_all
  show False
  proof (cases "x - d \<le> x - b")
    case True
    then have "unat (d - b) = unat (x - b) - unat (x - d)" unfolding e by (rule unat_sub)
    with a assms show False by linarith
  next
    case False
    then have "unat (b - d) = unat (x - d) - unat (x - b)" unfolding e by (intro unat_sub) simp
    with a assms show False by linarith
  qed
qed

lemma block_paint:
  assumes "same_or_apart n d b" "k + l \<le> n" "0 < l" "n \<le> 2 ^ 64"
    and "\<And>p. P p \<Longrightarrow> p < n" and "\<And>p. k \<le> p \<Longrightarrow> p < k + l \<Longrightarrow> f p = g (p - k)"
  shows "block l g (d + of_nat k) (b + of_nat k) (paint P f d b m) = paint (\<lambda>p. P p \<or> k \<le> p \<and> p < k + l) f d b m"
proof
  fix x :: u64
  have w: "unat (x - (c + of_nat k)) < l \<longleftrightarrow> k \<le> unat (x - c) \<and> unat (x - c) < k + l" for c :: u64
  proof (rule unat_offset)
    show "k + l \<le> 2 ^ 64" using assms(2,4) by linarith
  qed (rule assms(3))
  have v: "unat (x - (c + of_nat k)) = unat (x - c) - k" if "k \<le> unat (x - c)" for c
  proof -
    have "k < 2 ^ 64" using assms by simp
    then have "unat (of_nat k :: u64) = k" by (rule unat_of_nat_u64)
    with that show ?thesis by (simp add: diff_diff_eq [symmetric] unat_sub word_le_nat_alt)
  qed
  show "block l g (d + of_nat k) (b + of_nat k) (paint P f d b m) x = paint (\<lambda>p. P p \<or> k \<le> p \<and> p < k + l) f d b m x"
  proof (cases "P (unat (x - d)) \<and> k \<le> unat (x - b) \<and> unat (x - b) < k + l")
    case True
    then have "d = b" using assms(2,5) by (intro apart_offsets [OF assms(1), of x]) auto
    with True assms(6) show ?thesis by (simp add: block_def paint_def w v)
  next
    case False
    with assms(6) show ?thesis by (auto simp: block_def paint_def w v)
  qed
qed

lemma block_as_paint: "block n g d b m = paint (\<lambda>p. p < n) g d b m"
  by (simp add: block_def paint_def)

lemma paint_cong: "(\<And>p. P p \<longleftrightarrow> Q p) \<Longrightarrow> (\<And>p. Q p \<Longrightarrow> f p = g p) \<Longrightarrow> paint P f d b m = paint Q g d b m"
  by (auto simp: paint_def fun_eq_iff)

lemma paint_none [simp]: "paint (\<lambda>_. False) f d b m = m"
  by (simp add: paint_def)

section \<open>A line of a glyph\<close>

lemma put_pixel_block:
  assumes "same_or_apart n d b"
  shows "put_pixel n d b v m = block n (\<lambda>k. ucast (drop_bit (8 * k) v)) d b m"
  by (simp add: put_pixel_stores block_def store_le_def fun_eq_iff)

definition line_byte :: "nat \<Rightarrow> u8 \<Rightarrow> u32 \<Rightarrow> nat \<Rightarrow> u8" where
  "line_byte n line color p = ucast (drop_bit (8 * (p mod n)) (glyph_pixel line color (p div n)))"

lemma same_or_apart_mono: "same_or_apart n d b \<Longrightarrow> k \<le> n \<Longrightarrow> same_or_apart k d b"
  by (auto simp: same_or_apart_def)

lemma same_or_apart_shift: "same_or_apart n (d + c) (b + c) \<longleftrightarrow> same_or_apart n d b"
  by (simp add: same_or_apart_def)

lemma put_line_block:
  assumes "same_or_apart (8 * n) d b" "0 < n" "8 * n \<le> 2 ^ 64"
  shows "put_line n d b line color m = block (8 * n) (line_byte n line color) d b m"
proof -
  let ?step = "\<lambda>i. put_pixel n (d + of_nat (n * i)) (b + of_nat (n * i)) (glyph_pixel line color i)"
  have "fold ?step [0..<j] m = paint (\<lambda>p. p < n * j) (line_byte n line color) d b m" if "j \<le> 8" for j
    using that
  proof (induction j)
    case (Suc j)
    have k: "n * j + n \<le> 8 * n" using Suc.prems mult_le_mono2 [of "Suc j" 8 n] by simp
    have f: "line_byte n line color p = ucast (drop_bit (8 * (p - n * j)) (glyph_pixel line color j))"
      if "n * j \<le> p" "p < n * j + n" for p
    proof -
      define r where "r = p - n * j"
      with that have "p = n * j + r" "r < n" by simp_all
      then show ?thesis by (simp add: line_byte_def)
    qed
    have "fold ?step [0..<Suc j] m = ?step j (paint (\<lambda>p. p < n * j) (line_byte n line color) d b m)"
      using Suc by simp
    also have "\<dots> = block n (\<lambda>k. ucast (drop_bit (8 * k) (glyph_pixel line color j))) (d + of_nat (n * j)) (b + of_nat (n * j))
        (paint (\<lambda>p. p < n * j) (line_byte n line color) d b m)"
      unfolding same_or_apart_shift using k by (intro put_pixel_block) (simp add: same_or_apart_shift same_or_apart_mono [OF assms(1)])
    also have "\<dots> = paint (\<lambda>p. p < n * j \<or> n * j \<le> p \<and> p < n * j + n) (line_byte n line color) d b m"
    proof (rule block_paint [OF assms(1) k assms(2,3)])
      show "p < 8 * n" if "p < n * j" for p using that k by linarith
    qed (rule f)
    also have "\<dots> = paint (\<lambda>p. p < n * Suc j) (line_byte n line color) d b m"
      by (rule paint_cong) auto
    finally show ?case .
  qed simp
  from this [of 8] show ?thesis by (simp add: put_line_def block_as_paint mult.commute)
qed

section \<open>A glyph\<close>

definition glyph_byte :: "nat \<Rightarrow> nat \<Rightarrow> (nat \<Rightarrow> u8) \<Rightarrow> u32 \<Rightarrow> nat \<Rightarrow> u8" where
  "glyph_byte n l font color p = line_byte n (font (p div l)) color (p mod l)"

definition in_cell :: "nat \<Rightarrow> nat \<Rightarrow> nat \<Rightarrow> nat \<Rightarrow> bool" where
  "in_cell n l i p \<longleftrightarrow> p < i * l \<and> p mod l < 8 * n"

lemma in_cell_Suc:
  assumes "8 * n \<le> l" "0 < n"
  shows "in_cell n l (Suc i) p \<longleftrightarrow> in_cell n l i p \<or> i * l \<le> p \<and> p < i * l + 8 * n"
proof -
  have l: "0 < l" using assms by simp
  have "p mod l = p - i * l" if "i * l \<le> p" "p < i * l + l"
  proof -
    define r where "r = p - i * l"
    with that have "p = i * l + r" "r < l" by simp_all
    then show ?thesis by simp
  qed
  with l assms show ?thesis by (fastforce simp: in_cell_def)
qed

lemma in_cell_bound: "in_cell n l i p \<Longrightarrow> i \<le> 16 \<Longrightarrow> p < 15 * l + 8 * n"
proof -
  assume c: "in_cell n l i p" and i: "i \<le> 16"
  then have "p div l < i" by (simp add: in_cell_def less_mult_imp_div_less)
  with i have "p div l * l \<le> 15 * l" by (intro mult_le_mono1) simp
  moreover have "p div l * l + p mod l = p" by simp
  moreover have "p mod l < 8 * n" using c by (simp add: in_cell_def)
  ultimately show ?thesis by linarith
qed

text \<open>Sixteen lines, \<open>l\<close> bytes apart; the font is read from the memory while the glyph is drawn.\<close>

lemma put_glyph_paint:
  fixes n l :: nat
  defines "N \<equiv> 15 * l + 8 * n"
  assumes s: "same_or_apart N d b" and n: "0 < n" "8 * n \<le> l" "N \<le> 2 ^ 64"
    and font: "\<And>i. i < 16 \<Longrightarrow> N \<le> unat (character + of_nat i - d) \<and> N \<le> unat (character + of_nat i - b)"
  shows "put_glyph n (of_nat l) d b character color m =
    paint (in_cell n l 16) (glyph_byte n l (\<lambda>i. m (character + of_nat i)) color) d b m"
proof -
  let ?f = "glyph_byte n l (\<lambda>i. m (character + of_nat i)) color"
  let ?step = "\<lambda>i m. put_line n (d + of_nat i * of_nat l) (b + of_nat i * of_nat l) (m (character + of_nat i)) color m"
  have N: "8 * n \<le> N" by (simp add: N_def)
  have "fold ?step [0..<j] m = paint (in_cell n l j) ?f d b m" if "j \<le> 16" for j
    using that
  proof (induction j)
    case 0
    show ?case by (simp add: in_cell_def)
  next
    case (Suc j)
    let ?m = "paint (in_cell n l j) ?f d b m"
    have "j * l \<le> 15 * l" using Suc.prems by (intro mult_le_mono1) simp
    then have jl: "j * l + 8 * n \<le> N" by (simp add: N_def)
    have inside: "p < N" if "in_cell n l j p" for p
      using in_cell_bound [OF that] Suc.prems by (simp add: N_def)
    have "\<not> in_cell n l j (unat (character + of_nat j - d))" "\<not> in_cell n l j (unat (character + of_nat j - b))"
      using font [of j] Suc.prems inside by fastforce+
    then have c: "?m (character + of_nat j) = m (character + of_nat j)" by (simp add: paint_def)
    have g: "?f p = line_byte n (m (character + of_nat j)) color (p - j * l)" if "j * l \<le> p" "p < j * l + 8 * n" for p
    proof -
      define r where "r = p - j * l"
      with that n have "p = j * l + r" "r < l" by simp_all
      then show ?thesis by (simp add: glyph_byte_def)
    qed
    have ap: "same_or_apart (8 * n) (d + of_nat (j * l)) (b + of_nat (j * l))"
      unfolding same_or_apart_shift using N by (rule same_or_apart_mono [OF s])
    have "fold ?step [0..<Suc j] m = ?step j ?m" using Suc by simp
    also have "\<dots> = block (8 * n) (line_byte n (m (character + of_nat j)) color) (d + of_nat (j * l)) (b + of_nat (j * l)) ?m"
      using put_line_block [OF ap n(1)] n(3) N by (simp add: c)
    also have "\<dots> = paint (\<lambda>p. in_cell n l j p \<or> j * l \<le> p \<and> p < j * l + 8 * n) ?f d b m"
    proof (rule block_paint [OF s jl _ n(3)])
      show "0 < 8 * n" using n by simp
      show "p < N" if "in_cell n l j p" for p using that by (rule inside)
    qed (rule g)
    also have "\<dots> = paint (in_cell n l (Suc j)) ?f d b m"
      by (rule paint_cong) (use n in \<open>simp_all add: in_cell_Suc\<close>)
    finally show ?case .
  qed
  from this [of 16] show ?thesis by (simp add: put_glyph_def)
qed

section \<open>A character on the screen\<close>

lemma unat_shifted:
  fixes x :: u64
  assumes "unat c = k"
  shows "k \<le> unat (x - d) \<Longrightarrow> unat (x - (d + c)) = unat (x - d) - k"
    and "unat (x - d) < k \<Longrightarrow> 2 ^ 64 - k \<le> unat (x - (d + c))"
proof -
  have e: "x - (d + c) = (x - d) - c" by simp
  show "k \<le> unat (x - d) \<Longrightarrow> unat (x - (d + c)) = unat (x - d) - k"
    unfolding e using assms by (simp add: unat_sub word_le_nat_alt)
  show "unat (x - d) < k \<Longrightarrow> 2 ^ 64 - k \<le> unat (x - (d + c))"
    unfolding e using assms by (simp add: unat_sub_if_size word_size)
qed

lemma paint_shift:
  assumes "unat c = k" "\<And>p. P p \<Longrightarrow> p + k < 2 ^ 64"
  shows "paint P f (d + c) (b + c) m = paint (\<lambda>p. k \<le> p \<and> P (p - k)) (\<lambda>p. f (p - k)) d b m"
proof -
  have "P (unat (x - (d + c))) \<longleftrightarrow> k \<le> unat (x - d) \<and> P (unat (x - d) - k)" for x d
    using unat_shifted [OF assms(1), of x d] assms(2) [of "unat (x - (d + c))"]
    by (cases "k \<le> unat (x - d)") auto
  then show ?thesis using unat_shifted(1) [OF assms(1)] by (simp add: paint_def fun_eq_iff)
qed

text \<open>Byte \<open>u\<close> of line \<open>r\<close> against the cell that starts at byte \<open>v\<close> of line \<open>s\<close>.\<close>

lemma in_cell_offset:
  assumes "u < l" "v + 8 * n \<le> l" "0 < n"
  shows "s * l + v \<le> r * l + u \<and> in_cell n l 16 (r * l + u - (s * l + v)) \<longleftrightarrow>
      s \<le> r \<and> r < s + 16 \<and> v \<le> u \<and> u < v + 8 * n"
    and "s \<le> r \<Longrightarrow> v \<le> u \<Longrightarrow> glyph_byte n l font color (r * l + u - (s * l + v)) = line_byte n (font (r - s)) color (u - v)"
proof -
  have l: "0 < l" using assms by simp
  have less: "r * l + u < s * l + v" if "r < s"
    using mult_le_mono1 [of "Suc r" s l] that assms by simp
  have div: "(q * l + w) div l = q" "(q * l + w) mod l = w" if "w < l" for q w using that by simp_all
  have lt: "q * l + w < 16 * l \<longleftrightarrow> q < 16" if "w < l" for q w
  proof
    show "q * l + w < 16 * l \<Longrightarrow> q < 16" using div [OF that, of q] less_mult_imp_div_less [of "q * l + w" 16 l] by simp
    assume "q < 16"
    then have "Suc q * l \<le> 16 * l" by (intro mult_le_mono1) simp
    then have "q * l + l \<le> 16 * l" by (simp only: mult_Suc add.commute)
    with that show "q * l + w < 16 * l" by linarith
  qed
  have e: "r * l + u - (s * l + v) = (r - s) * l + (u - v)" if "s \<le> r" "v \<le> u"
    using that by (simp add: diff_mult_distrib)
  show "s \<le> r \<Longrightarrow> v \<le> u \<Longrightarrow> glyph_byte n l font color (r * l + u - (s * l + v)) = line_byte n (font (r - s)) color (u - v)"
    using e div [of "u - v"] assms by (simp add: glyph_byte_def)
  show "s * l + v \<le> r * l + u \<and> in_cell n l 16 (r * l + u - (s * l + v)) \<longleftrightarrow>
      s \<le> r \<and> r < s + 16 \<and> v \<le> u \<and> u < v + 8 * n"
  proof (cases "s \<le> r")
    case False
    then show ?thesis using less by auto
  next
    case True
    show ?thesis
    proof (cases "v \<le> u")
      case v: True
      have w: "u - v < l" using assms by simp
      have "s * l \<le> r * l" using True by (rule mult_le_mono1)
      then have le: "s * l + v \<le> r * l + u" using v by linarith
      have "in_cell n l 16 (r * l + u - (s * l + v)) \<longleftrightarrow> r - s < 16 \<and> u - v < 8 * n"
        unfolding e [OF True v] in_cell_def lt [OF w] div(2) [OF w] by (rule refl)
      moreover have "r - s < 16 \<longleftrightarrow> r < s + 16" "u - v < 8 * n \<longleftrightarrow> u < v + 8 * n" using True v by linarith+
      ultimately show ?thesis using le True v by (simp only: simp_thms)
    next
      case False
      show ?thesis
      proof (cases "r = s")
        case r: True
        with False show ?thesis by simp
      next
        case r: False
        have w: "l + u - v < l" using False assms by simp
        from True r obtain q where q: "r = s + Suc q" by (metis le_neq_implies_less less_imp_Suc_add add_Suc_right)
        then have "r * l = (r - s - 1) * l + l + s * l" by (simp add: algebra_simps)
        then have "r * l + u - (s * l + v) = (r - s - 1) * l + (l + u - v)" using False assms by simp
        then have "in_cell n l 16 (r * l + u - (s * l + v)) \<Longrightarrow> l + u - v < 8 * n"
          using div(2) [OF w, of "r - s - 1"] by (simp only: in_cell_def)
        moreover have "\<not> l + u - v < 8 * n" using assms False by linarith
        ultimately show ?thesis using False by blast
      qed
    qed
  qed
qed

definition pixel_bytes :: "terminal \<Rightarrow> nat" where
  "pixel_bytes t = unat (vm_bpp (t_mode t)) div 8"

definition line_bytes :: "terminal \<Rightarrow> nat" where
  "line_bytes t = unat (vm_bpl (t_mode t))"

text \<open>The pixel of row \<open>r\<close> and column \<open>c\<close> of a buffer.\<close>

definition load_pixel :: "terminal \<Rightarrow> u64 \<Rightarrow> nat \<Rightarrow> nat \<Rightarrow> memory \<Rightarrow> u32" where
  "load_pixel t buffer r c m = load_le (pixel_bytes t) (buffer + of_nat (r * line_bytes t + c * pixel_bytes t)) m"

text \<open>
  The cursor is on the screen, the lines hold the columns, and the frame buffer, the back buffer and the
  glyph to be drawn lie apart.
\<close>

definition screen_size :: "terminal \<Rightarrow> nat" where
  "screen_size t = unat (vm_res_y (t_mode t)) * line_bytes t"

definition drawable :: "terminal \<Rightarrow> bool" where
  "drawable t \<longleftrightarrow> vm_bpp (t_mode t) \<in> {16, 32} \<and> cursor_ok t \<and>
     8 * pixel_bytes t * unat (t_maxx t) \<le> line_bytes t \<and> 16 * unat (t_maxy t) \<le> unat (vm_res_y (t_mode t)) \<and>
     same_or_apart (screen_size t) (vm_addr (t_mode t)) (back_or_screen t)"

definition font_apart :: "char \<Rightarrow> terminal \<Rightarrow> bool" where
  "font_apart ch t \<longleftrightarrow> (\<forall>i < 16. screen_size t \<le> unat (glyph_address (t_mode t) ch + of_nat i - vm_addr (t_mode t)) \<and>
     screen_size t \<le> unat (glyph_address (t_mode t) ch + of_nat i - back_or_screen t))"

lemma cell_offset_nat:
  assumes "drawable t"
  defines "off \<equiv> 16 * unat (t_y t) * line_bytes t + 8 * pixel_bytes t * unat (t_x t)"
  shows "unat (cell_offset t (8 * of_nat (pixel_bytes t))) = off"
    and "off + (15 * line_bytes t + 8 * pixel_bytes t) \<le> screen_size t" and "screen_size t < 2 ^ 32"
proof -
  let ?l = "line_bytes t" and ?n = "pixel_bytes t" and ?y = "unat (t_y t)" and ?x = "unat (t_x t)"
  have n: "?n = 2 \<or> ?n = 4" using assms(1) by (auto simp: drawable_def pixel_bytes_def)
  have l: "?l < 2 ^ 16" unfolding line_bytes_def using unsigned_less [of "vm_bpl (t_mode t)"] by simp
  have y: "?y < unat (t_maxy t)" and x: "?x < unat (t_maxx t)"
    using assms(1) by (auto simp: drawable_def cursor_ok_def word_less_nat_alt)
  have w: "8 * ?n * unat (t_maxx t) \<le> ?l" and h: "16 * unat (t_maxy t) \<le> unat (vm_res_y (t_mode t))"
    using assms(1) by (auto simp: drawable_def)
  have r: "unat (vm_res_y (t_mode t)) < 2 ^ 16" using unsigned_less [of "vm_res_y (t_mode t)"] by simp
  then have "screen_size t \<le> (2 ^ 16 - 1) * (2 ^ 16 - 1)"
    unfolding screen_size_def using l by (intro mult_le_mono) simp_all
  then show s: "screen_size t < 2 ^ 32" by simp
  have "8 * ?n * Suc ?x \<le> 8 * ?n * unat (t_maxx t)" using x by (intro mult_le_mono2) simp
  then have c: "8 * ?n * ?x + 8 * ?n \<le> ?l" using w by simp
  have "(16 * Suc ?y) * ?l \<le> screen_size t" unfolding screen_size_def using y h by (intro mult_le_mono1) simp
  then have rows: "16 * ?y * ?l + 16 * ?l \<le> screen_size t" by (simp add: algebra_simps)
  then show o: "off + (15 * ?l + 8 * ?n) \<le> screen_size t" unfolding off_def using c by linarith
  have yl: "?y * ?l * 16 = 16 * ?y * ?l" by simp
  have "16 * (?y * ?l) + 16 * ?l \<le> screen_size t" using rows by (simp only: mult.assoc)
  then have "?y * ?l < 2 ^ 32" "?y * ?l * 16 < 2 ^ 32" using s by linarith+
  moreover have "unat (ucast (vm_bpl (t_mode t)) :: u32) = ?l"
    using l by (simp add: line_bytes_def unsigned_ucast_eq take_bit_nat_eq_self)
  ultimately have "unat (t_y t * ucast (vm_bpl (t_mode t))) = ?y * ?l" by (subst unat_mult_lem [THEN iffD1]) simp_all
  with \<open>?y * ?l * 16 < 2 ^ 32\<close> have 1: "unat (t_y t * ucast (vm_bpl (t_mode t)) * 16) = 16 * ?y * ?l"
    by (subst unat_mult_lem [THEN iffD1]) simp_all
  have "8 * ?n * ?x < 2 ^ 32" using o s unfolding off_def by linarith
  then have 2: "unat (t_x t * (8 * of_nat ?n)) = 8 * ?n * ?x" using n by (auto simp: unat_word_ariths)
  have up: "unat (ucast a :: u64) = unat a" for a :: u32
  proof -
    have "unat a < 2 ^ LENGTH(32)" by (rule unsigned_less)
    then show ?thesis by (simp add: unsigned_ucast_eq take_bit_nat_eq_self)
  qed
  have "off < 2 ^ 64" using o s by simp
  then show "unat (cell_offset t (8 * of_nat ?n)) = off"
    unfolding cell_offset_def off_def by (subst unat_add_lem [THEN iffD1]) (simp_all only: up 1 2 len_bit0 len_num1, simp)
qed

lemma draw_paint:
  assumes "drawable t" "font_apart ch t"
  defines "off \<equiv> 16 * unat (t_y t) * line_bytes t + 8 * pixel_bytes t * unat (t_x t)"
  shows "draw ch t m = paint (\<lambda>p. off \<le> p \<and> in_cell (pixel_bytes t) (line_bytes t) 16 (p - off))
    (\<lambda>p. glyph_byte (pixel_bytes t) (line_bytes t) (\<lambda>i. m (glyph_address (t_mode t) ch + of_nat i)) (pixel_value t) (p - off))
    (vm_addr (t_mode t)) (back_or_screen t) m"
proof -
  let ?l = "line_bytes t" and ?n = "pixel_bytes t" and ?c = "cell_offset t (8 * of_nat (pixel_bytes t))"
  let ?a = "vm_addr (t_mode t)" and ?b = "back_or_screen t" and ?g = "glyph_address (t_mode t) ch"
  note c = cell_offset_nat [OF assms(1)]
  have n: "?n = 2 \<or> ?n = 4" using assms(1) by (auto simp: drawable_def pixel_bytes_def)
  have x: "0 < unat (t_maxx t)" using assms(1) by (auto simp: drawable_def cursor_ok_def word_less_nat_alt)
  have "8 * ?n * 1 \<le> 8 * ?n * unat (t_maxx t)" using x by (intro mult_le_mono2) simp
  moreover have "8 * ?n * unat (t_maxx t) \<le> ?l" using assms(1) by (simp add: drawable_def)
  ultimately have l: "8 * ?n \<le> ?l" by linarith
  have color: "glyph_byte 2 ?l f (ucast (ucast (pixel_value t) :: u16)) = glyph_byte 2 ?l f (pixel_value t)" for f
    by (auto simp: glyph_byte_def line_byte_def glyph_pixel_def fun_eq_iff bit_simps intro!: bit_word_eqI)
  have bpl: "ucast (vm_bpl (t_mode t)) = (of_nat ?l :: u64)" by (simp add: line_bytes_def)
  have s: "same_or_apart (screen_size t) ?a ?b" using assms(1) by (simp add: drawable_def)
  have font: "15 * ?l + 8 * ?n \<le> unat (?g + of_nat i - (d + ?c))"
    if "screen_size t \<le> unat (?g + of_nat i - d)" for i d
    using unat_shifted(1) [OF c(1), of "?g + of_nat i" d] that c(2) by linarith
  have glyph: "put_glyph ?n (of_nat ?l) (?a + ?c) (?b + ?c) ?g color m =
      paint (in_cell ?n ?l 16) (glyph_byte ?n ?l (\<lambda>i. m (?g + of_nat i)) color) (?a + ?c) (?b + ?c) m" for color
  proof (rule put_glyph_paint)
    show "same_or_apart (15 * ?l + 8 * ?n) (?a + ?c) (?b + ?c)"
      unfolding same_or_apart_shift using c(2) by (intro same_or_apart_mono [OF s]) linarith
    show "15 * ?l + 8 * ?n \<le> 2 ^ 64" using c(2,3) by simp
    show "15 * ?l + 8 * ?n \<le> unat (?g + of_nat i - (?a + ?c)) \<and> 15 * ?l + 8 * ?n \<le> unat (?g + of_nat i - (?b + ?c))"
      if "i < 16" for i using that assms(2) font by (auto simp: font_apart_def)
  qed (use n l in auto)
  have "draw ch t m = paint (in_cell ?n ?l 16) (glyph_byte ?n ?l (\<lambda>i. m (?g + of_nat i)) (pixel_value t)) (?a + ?c) (?b + ?c) m"
    using n
  proof
    assume n2: "?n = 2"
    then have "vm_bpp (t_mode t) = 16" using assms(1) by (auto simp: drawable_def pixel_bytes_def)
    then show ?thesis using glyph n2 color by (simp add: draw_def put_16_def bpl)
  next
    assume n4: "?n = 4"
    then have "vm_bpp (t_mode t) = 32" using assms(1) by (auto simp: drawable_def pixel_bytes_def)
    then show ?thesis using glyph n4 by (simp add: draw_def put_32_def bpl)
  qed
  also have "\<dots> = paint (\<lambda>p. off \<le> p \<and> in_cell ?n ?l 16 (p - off))
      (\<lambda>p. glyph_byte ?n ?l (\<lambda>i. m (?g + of_nat i)) (pixel_value t) (p - off)) ?a ?b m"
    unfolding off_def
  proof (rule paint_shift [OF c(1)])
    show "p + (16 * unat (t_y t) * ?l + 8 * ?n * unat (t_x t)) < 2 ^ 64" if "in_cell ?n ?l 16 p" for p
    proof -
      have "p + (16 * unat (t_y t) * ?l + 8 * ?n * unat (t_x t)) < screen_size t"
        using in_cell_bound [OF that order_refl] c(2) by linarith
      also have "\<dots> < 2 ^ 64" using c(3) by simp
      finally show ?thesis .
    qed
  qed
  finally show ?thesis .
qed

lemma paint_at:
  assumes "same_or_apart n a b" "\<And>q. P q \<Longrightarrow> q < n" "p < n" "n \<le> 2 ^ 64" "c \<in> {a, b}"
  shows "paint P f a b m (c + of_nat p) = (if P p then f p else m (c + of_nat p))"
proof -
  have u: "unat (of_nat p :: u64) = p" using assms by (intro unat_of_nat_u64) simp
  have "q = p" if "P q" "e \<in> {a, b}" "unat (c + of_nat p - e) = q" for q e
  proof -
    have "unat (c + of_nat p - c) < n" "unat (c + of_nat p - e) < n" using u that assms(2,3) by simp_all
    moreover have "same_or_apart n c e" using assms(1,5) that(2) by (auto simp: same_or_apart_def)
    ultimately have "c = e" by (intro apart_offsets)
    with that(3) u show ?thesis by simp
  qed
  note at = this
  have "P (unat (c + of_nat p - a)) \<Longrightarrow> unat (c + of_nat p - a) = p" "P (unat (c + of_nat p - b)) \<Longrightarrow> unat (c + of_nat p - b) = p"
    using at by blast+
  then show ?thesis using assms(5) u by (auto simp: paint_def)
qed

lemma div_eq_iff_between: "0 < d \<Longrightarrow> u div d = x \<longleftrightarrow> d * x \<le> u \<and> u < d * x + d" for u d x :: nat
proof
  assume "0 < d" "u div d = x"
  then show "d * x \<le> u \<and> u < d * x + d"
    using dividend_less_div_times [of d u] by (auto simp: mult.commute)
next
  assume "d * x \<le> u \<and> u < d * x + d"
  then show "u div d = x" by (intro div_nat_eqI) simp_all
qed

lemma byte_of_cell:
  assumes "drawable t" "font_apart ch t" "r < 16 * unat (t_maxy t)" "c < 8 * unat (t_maxx t)" "k < pixel_bytes t"
    and "buffer \<in> {vm_addr (t_mode t), back_or_screen t}"
  shows "draw ch t m (buffer + of_nat (r * line_bytes t + c * pixel_bytes t + k)) =
    (if r div 16 = unat (t_y t) \<and> c div 8 = unat (t_x t)
     then ucast (drop_bit (8 * k) (glyph_pixel (m (glyph_address (t_mode t) ch + of_nat (r mod 16))) (pixel_value t) (c mod 8)))
     else m (buffer + of_nat (r * line_bytes t + c * pixel_bytes t + k)))"
proof -
  let ?l = "line_bytes t" and ?n = "pixel_bytes t" and ?y = "unat (t_y t)" and ?x = "unat (t_x t)"
  let ?u = "c * ?n + k" and ?v = "8 * ?n * ?x" and ?off = "16 * ?y * ?l + 8 * ?n * ?x"
  let ?P = "\<lambda>p. ?off \<le> p \<and> in_cell ?n ?l 16 (p - ?off)"
  note o = cell_offset_nat(2,3) [OF assms(1)]
  have w: "8 * ?n * unat (t_maxx t) \<le> ?l" and h: "16 * unat (t_maxy t) \<le> unat (vm_res_y (t_mode t))"
    and s: "same_or_apart (screen_size t) (vm_addr (t_mode t)) (back_or_screen t)"
    using assms(1) by (auto simp: drawable_def)
  have "Suc c * ?n \<le> 8 * unat (t_maxx t) * ?n" using assms(4) by (intro mult_le_mono1) simp
  then have "?n + c * ?n \<le> 8 * ?n * unat (t_maxx t)" by (simp only: mult_Suc mult.commute mult.left_commute)
  then have u: "?u < ?l" using w assms(5) by linarith
  have "Suc r * ?l \<le> screen_size t" unfolding screen_size_def using assms(3) h by (intro mult_le_mono1) simp
  then have "?l + r * ?l \<le> screen_size t" by (simp only: mult_Suc)
  then have p: "r * ?l + ?u < screen_size t" using u by linarith
  have v: "?v + 8 * ?n \<le> ?l"
  proof -
    have "?x < unat (t_maxx t)" using assms(1) by (simp add: drawable_def cursor_ok_def word_less_nat_alt)
    then have "8 * ?n * Suc ?x \<le> 8 * ?n * unat (t_maxx t)" by (intro mult_le_mono2) simp
    then have "8 * ?n + 8 * ?n * ?x \<le> 8 * ?n * unat (t_maxx t)" by (simp only: mult_Suc_right)
    with w show ?thesis by linarith
  qed
  have n: "0 < ?n" using assms(5) by simp
  have col: "?v \<le> ?u \<and> ?u < ?v + 8 * ?n \<longleftrightarrow> c div 8 = ?x"
  proof -
    have "?u div (8 * ?n) = c div 8"
      using assms(5) by (simp add: div_mult2_eq mult.commute [of 8])
    moreover have "?u div (8 * ?n) = ?x \<longleftrightarrow> 8 * ?n * ?x \<le> ?u \<and> ?u < 8 * ?n * ?x + 8 * ?n"
      using n by (intro div_eq_iff_between) simp
    ultimately show ?thesis by simp
  qed
  have row: "16 * ?y \<le> r \<and> r < 16 * ?y + 16 \<longleftrightarrow> r div 16 = ?y" by linarith
  have P: "?P (r * ?l + ?u) \<longleftrightarrow> r div 16 = ?y \<and> c div 8 = ?x"
    using in_cell_offset(1) [OF u v n, of "16 * ?y" r] col row by blast
  have f: "glyph_byte ?n ?l font color (r * ?l + ?u - ?off) =
      ucast (drop_bit (8 * k) (glyph_pixel (font (r mod 16)) color (c mod 8)))"
    if "r div 16 = ?y" "c div 8 = ?x" for font color
  proof -
    have "r - 16 * ?y = r mod 16" "?u - ?v = c mod 8 * ?n + k"
      using that by (auto simp: minus_mult_div_eq_mod [symmetric] diff_mult_distrib simp flip: that)
        (simp add: mult.commute mult.left_commute)
    then show ?thesis
      using in_cell_offset(2) [OF u v n, of "16 * ?y" r font color] that row col assms(5) by (simp add: line_byte_def)
  qed
  have "draw ch t m (buffer + of_nat (r * ?l + ?u)) =
    (if ?P (r * ?l + ?u) then glyph_byte ?n ?l (\<lambda>i. m (glyph_address (t_mode t) ch + of_nat i)) (pixel_value t) (r * ?l + ?u - ?off)
     else m (buffer + of_nat (r * ?l + ?u)))"
    unfolding draw_paint [OF assms(1,2)]
  proof (rule paint_at [OF s _ p])
    show "q < screen_size t" if "?P q" for q
      using that in_cell_bound [of ?n ?l 16 "q - ?off"] o(1) by linarith
  qed (use o(2) assms(6) in auto)
  then show ?thesis using P f by (simp only: add.assoc) simp
qed

text \<open>
  C32. A character is drawn in its cell and nowhere else: after it is drawn on the screen or its back
  buffer, a pixel of the cell under the cursor shows the colour of the terminal exactly where the glyph
  has a bit, and every other pixel is as before.
\<close>

theorem draw_glyph_correct:
  assumes "drawable t" "font_apart ch t" "r < 16 * unat (t_maxy t)" "c < 8 * unat (t_maxx t)"
    and "buffer \<in> {vm_addr (t_mode t), back_or_screen t}"
  shows "load_pixel t buffer r c (draw ch t m) =
    (if r div 16 = unat (t_y t) \<and> c div 8 = unat (t_x t)
     then if bit (m (glyph_address (t_mode t) ch + of_nat (r mod 16))) (7 - c mod 8)
          then take_bit (8 * pixel_bytes t) (pixel_value t) else 0
     else load_pixel t buffer r c m)"
proof (rule bit_word_eqI)
  fix i
  assume "i < LENGTH(32)"
  let ?at = "\<lambda>k. buffer + of_nat (r * line_bytes t + c * pixel_bytes t + k)"
  have b: "bit (load_pixel t buffer r c m') i \<longleftrightarrow> i < 8 * pixel_bytes t \<and> bit (m' (?at (i div 8))) (i mod 8)" for m'
    using \<open>i < LENGTH(32)\<close> by (simp add: load_pixel_def bit_load_le add.assoc)
  have px: "bit (glyph_pixel line color j) i \<longleftrightarrow> bit line (7 - j) \<and> bit color i" for line color j
    by (simp add: glyph_pixel_def and_one_eq bit_iff_odd_drop_bit [of line] odd_iff_mod_2_eq_one even_iff_mod_2_eq_zero)
  show "bit (load_pixel t buffer r c (draw ch t m)) i \<longleftrightarrow>
    bit (if r div 16 = unat (t_y t) \<and> c div 8 = unat (t_x t)
     then if bit (m (glyph_address (t_mode t) ch + of_nat (r mod 16))) (7 - c mod 8)
          then take_bit (8 * pixel_bytes t) (pixel_value t) else 0
     else load_pixel t buffer r c m) i"
  proof (cases "i < 8 * pixel_bytes t")
    case True
    then have k: "i div 8 < pixel_bytes t" by (simp add: less_mult_imp_div_less mult.commute)
    have "8 * (i div 8) + i mod 8 = i" by simp
    then show ?thesis
      unfolding b byte_of_cell [OF assms(1-4) k assms(5)]
      using True \<open>i < LENGTH(32)\<close> b [of m] by (auto simp: px bit_simps)
  next
    case False
    then show ?thesis using b by (auto simp: bit_simps)
  qed
qed

lemma far_below: "unat a < unat d \<Longrightarrow> unat d \<le> 2 ^ 63 \<Longrightarrow> 2 ^ 63 \<le> unat (a - d :: u64)"
  by (simp add: unat_sub_if_size word_size)

text \<open>The letter A on a screen of two lines of four characters, 16 bits a pixel.\<close>

definition demo_mode :: video_mode where
  "demo_mode = \<lparr>vm_res_x = 32, vm_res_y = 32, vm_bpl = 64, vm_bpp = 16, vm_red_size = 5, vm_red_pos = 11,
     vm_green_size = 6, vm_green_pos = 5, vm_blue_size = 5, vm_blue_pos = 0, vm_font = 0x100000, vm_addr = 0x200000\<rparr>"

definition demo_terminal :: terminal where
  "demo_terminal = \<lparr>t_mode = demo_mode, t_back = 0x300000, t_maxx = 4, t_maxy = 2, t_x = 1, t_y = 1,
     t_red = 0xFF, t_green = 0, t_blue = 0xFF\<rparr>"

definition demo_font :: memory where
  "demo_font = (\<lambda>a. if a = 0x100413 then 0x18 else 0)"

theorem draw_glyph_correct_witness:
  "load_pixel demo_terminal 0x200000 19 11 (draw (CHR ''A'') demo_terminal demo_font) = 0xF81F"
proof -
  have g: "glyph_address demo_mode (CHR ''A'') = 0x100410" by code_simp
  have d: "drawable demo_terminal"
    by (simp add: drawable_def demo_terminal_def demo_mode_def pixel_bytes_def line_bytes_def cursor_ok_def screen_size_def
        same_or_apart_def back_or_screen_def)
  have f: "font_apart (CHR ''A'') demo_terminal"
  proof -
    have far: "2 ^ 63 \<le> unat (0x100410 + of_nat i - d :: u64)" if "i < 16" "d = 0x200000 \<or> d = 0x300000" for i and d :: u64
    proof -
      have e: "(0x100410 + of_nat i :: u64) = of_nat (0x100410 + i)" by (simp only: of_nat_add of_nat_numeral)
      have "0x100410 + i < 0x100420" using that(1) by simp
      also have "(0x100420 :: nat) < 2 ^ 64" by simp
      finally have "unat (0x100410 + of_nat i :: u64) = 0x100410 + i" unfolding e by (rule unat_of_nat_u64)
      then show ?thesis using that by (intro far_below) auto
    qed
    have "2048 \<le> unat (0x100410 + of_nat i - d :: u64)" if "i < 16" "d = 0x200000 \<or> d = 0x300000" for i and d :: u64
      by (rule le_trans [OF _ far [OF that]]) simp
    moreover have "screen_size demo_terminal = 2048" "vm_addr (t_mode demo_terminal) = 0x200000"
      "back_or_screen demo_terminal = 0x300000" "glyph_address (t_mode demo_terminal) (CHR ''A'') = 0x100410"
      by code_simp+
    ultimately show ?thesis unfolding font_apart_def by presburger
  qed
  have "bit (demo_font 0x100413) 4" by (simp add: demo_font_def)
  moreover have "take_bit (8 * pixel_bytes demo_terminal) (pixel_value demo_terminal) = 0xF81F" by code_simp
  ultimately show ?thesis
    using draw_glyph_correct [OF d f, of 19 11 "0x200000" demo_font] g
    by (simp add: demo_terminal_def) (simp add: demo_mode_def)
qed

section \<open>Scrolling\<close>

text \<open>The two buffers lie apart and the screen has a line of text.\<close>

definition scrollable :: "terminal \<Rightarrow> bool" where
  "scrollable t \<longleftrightarrow> 16 \<le> unat (vm_res_y (t_mode t)) \<and> 0 < line_bytes t \<and>
     screen_size t \<le> unat (vm_addr (t_mode t) - t_back t) \<and> screen_size t \<le> unat (t_back t - vm_addr (t_mode t))"

definition text_lines :: "terminal \<Rightarrow> nat" where
  "text_lines t = unat (vm_res_y (t_mode t)) div 16"

lemma scroll_counts:
  assumes "scrollable t"
  defines "k \<equiv> 16 * (text_lines t - 1) * line_bytes t"
  shows "word_of_int (kept_bytes (t_mode t)) = (of_nat k :: u64)" "byte_count (kept_bytes (t_mode t)) = k"
    "byte_count (uint (vm_bpl (t_mode t)) * 16) = 16 * line_bytes t" "byte_count (screen_bytes (t_mode t)) = screen_size t"
    "k + 16 * line_bytes t \<le> screen_size t" "screen_size t < 2 ^ 32"
proof -
  let ?l = "line_bytes t" and ?r = "unat (vm_res_y (t_mode t))"
  have l: "?l < 2 ^ 16" unfolding line_bytes_def using unsigned_less [of "vm_bpl (t_mode t)"] by simp
  have "?r < 2 ^ 16" using unsigned_less [of "vm_res_y (t_mode t)"] by simp
  then have "screen_size t \<le> (2 ^ 16 - 1) * (2 ^ 16 - 1)"
    unfolding screen_size_def using l by (intro mult_le_mono) simp_all
  then show s: "screen_size t < 2 ^ 32" by simp
  have r: "?r = 16 * text_lines t + ?r mod 16" by (simp add: text_lines_def)
  have "16 \<le> ?r" using assms(1) by (simp add: scrollable_def)
  then have "16 div 16 \<le> ?r div 16" by (rule div_le_mono)
  then have one: "1 \<le> text_lines t" by (simp add: text_lines_def)
  have e: "16 * (text_lines t - 1) = ?r - 16 - ?r mod 16" "16 + ?r mod 16 \<le> ?r" using r one by linarith+
  then have "int (16 * (text_lines t - 1)) = int ?r - 16 - int (?r mod 16)" by linarith
  then have kept: "kept_bytes (t_mode t) = int k"
    by (simp only: kept_bytes_def k_def line_bytes_def uint_nat of_nat_mult zmod_int of_nat_numeral)
  then show "word_of_int (kept_bytes (t_mode t)) = (of_nat k :: u64)" by simp
  have "16 * (text_lines t - 1) + 16 \<le> ?r" using e by linarith
  then have "(16 * (text_lines t - 1) + 16) * ?l \<le> screen_size t" unfolding screen_size_def by (rule mult_le_mono1)
  then show kb: "k + 16 * ?l \<le> screen_size t" by (simp only: k_def add_mult_distrib)
  have "k < 2 ^ 64" using kb s by simp
  then show "byte_count (kept_bytes (t_mode t)) = k" by (simp add: byte_count_def kept unat_of_nat_u64)
  have "16 * ?l < 2 ^ 64" using l by simp
  then show "byte_count (uint (vm_bpl (t_mode t)) * 16) = 16 * ?l"
    using unat_of_nat_u64 [of "16 * ?l"] by (simp only: byte_count_def line_bytes_def uint_nat of_nat_mult mult.commute) simp
  have "screen_size t < 2 ^ 64" using s by simp
  then show "byte_count (screen_bytes (t_mode t)) = screen_size t"
    using unat_of_nat_u64 [of "screen_size t"] by (simp only: byte_count_def screen_bytes_def screen_size_def line_bytes_def uint_nat of_nat_mult) simp
qed

lemma scroll_byte:
  assumes "scrollable t" "p < screen_size t" "buffer \<in> {vm_addr (t_mode t), t_back t}"
  shows "scroll_memory t m (buffer + of_nat p) =
    (let k = 16 * (text_lines t - 1) * line_bytes t; l = 16 * line_bytes t in
     if p < k then m (t_back t + of_nat (p + l)) else if p < k + l then 0 else m (t_back t + of_nat p))"
proof -
  let ?k = "16 * (text_lines t - 1) * line_bytes t" and ?l = "16 * line_bytes t"
  let ?b = "t_back t" and ?a = "vm_addr (t_mode t)" and ?S = "screen_size t"
  note c = scroll_counts [OF assms(1)]
  have S: "?S < 2 ^ 64" using c(6) by simp
  have l: "0 < ?l" "?k + ?l \<le> 2 ^ 64" "9 * ?l + 64 \<le> 2 ^ 64" using assms(1) c(5,6) by (simp_all add: scrollable_def)
  have ap: "?S \<le> unat (?a - ?b)" "?S \<le> unat (?b - ?a)" using assms(1) by (simp_all add: scrollable_def)
  have src: "?b + ucast (vm_bpl (t_mode t)) * 16 = ?b + of_nat ?l" by (simp add: line_bytes_def mult.commute)
  let ?m1 = "copy_bytes (?b + of_nat ?l) ?b ?k m"
  let ?m2 = "zero_bytes (?b + of_nat ?k) ?l ?m1"
  have "unat (?b - (?b + of_nat ?l)) = 2 ^ 64 - ?l"
  proof -
    have "?b - (?b + of_nat ?l) = 0 - (of_nat ?l :: u64)" by simp
    moreover have "unat (of_nat ?l :: u64) = ?l" using l(1) c(5) S by (intro unat_of_nat_u64) linarith
    ultimately show ?thesis using l(1) by (simp only: unat_sub_if_size word_size) simp
  qed
  then have "?k \<le> unat (?b - (?b + of_nat ?l))" using l(2) by linarith
  note m1 = copy_bytes_correct [OF this, of m]
  have m2: "?m2 x = (if unat (x - (?b + of_nat ?k)) < ?l then 0 else ?m1 x)" for x
    by (rule zero_bytes_multiple) (use l(3) in simp_all)
  have u: "unat (of_nat p :: u64) = p" using assms(2) S by (intro unat_of_nat_u64) linarith
  have w: "unat (?b + of_nat p - (?b + of_nat ?k)) < ?l \<longleftrightarrow> ?k \<le> p \<and> p < ?k + ?l"
    using unat_offset [OF l(2,1), of "?b + of_nat p" ?b] u by simp
  have v: "?m2 (?b + of_nat p) = (if p < ?k then m (?b + of_nat (p + ?l)) else if p < ?k + ?l then 0 else m (?b + of_nat p))"
    unfolding m2 w m1 using u by (auto simp: ac_simps)
  have e: "scroll_memory t m = copy_bytes ?b ?a ?S ?m2" by (simp only: scroll_memory_def Let_def c(1-4) src)
  have f: "scroll_memory t m x = (if unat (x - ?a) < ?S then ?m2 (?b + (x - ?a)) else ?m2 x)" for x
    unfolding e by (rule copy_bytes_correct [OF ap(1)])
  have "scroll_memory t m (buffer + of_nat p) = ?m2 (?b + of_nat p)"
  proof (cases "buffer = ?a")
    case True
    then show ?thesis using f u assms(2) by simp
  next
    case False
    with assms(3) have b: "buffer = ?b" by simp
    have "\<not> unat (?b + of_nat p - ?a) < ?S"
    proof
      assume "unat (?b + of_nat p - ?a) < ?S"
      then have "?a = ?b"
        using ap u assms(2) by (intro apart_offsets [of ?S ?a ?b "?b + of_nat p"]) (simp_all add: same_or_apart_def)
      with ap assms(2) show False by simp
    qed
    with f b show ?thesis by simp
  qed
  with v show ?thesis by (simp only: Let_def)
qed

lemma offset_less_rows: "u < l \<Longrightarrow> r * l + u < q * l \<longleftrightarrow> r < q" for u l r q :: nat
proof
  assume u: "u < l"
  show "r * l + u < q * l \<Longrightarrow> r < q"
    by (metis add_lessD1 mult_less_cancel2)
  assume "r < q"
  then have "Suc r * l \<le> q * l" by (intro mult_le_mono1) simp
  then have "l + r * l \<le> q * l" by (simp only: mult_Suc)
  with u show "r * l + u < q * l" by linarith
qed

lemma load_pixel_cong:
  assumes "\<And>k. k < pixel_bytes t \<Longrightarrow> m (buffer + of_nat (r * line_bytes t + c * pixel_bytes t + k)) =
      m' (buffer' + of_nat (r' * line_bytes t + c * pixel_bytes t + k))"
  shows "load_pixel t buffer r c m = load_pixel t buffer' r' c m'"
proof (rule bit_word_eqI)
  fix i
  assume "i < LENGTH(32)"
  have "i div 8 < pixel_bytes t" if "i < 8 * pixel_bytes t" using that by (simp add: less_mult_imp_div_less mult.commute)
  with assms [of "i div 8"] show "bit (load_pixel t buffer r c m) i \<longleftrightarrow> bit (load_pixel t buffer' r' c m') i"
    by (auto simp: load_pixel_def bit_load_le add.assoc)
qed

lemma load_pixel_zero:
  assumes "\<And>k. k < pixel_bytes t \<Longrightarrow> m (buffer + of_nat (r * line_bytes t + c * pixel_bytes t + k)) = 0"
  shows "load_pixel t buffer r c m = 0"
proof (rule bit_word_eqI)
  fix i
  assume "i < LENGTH(32)"
  have "i div 8 < pixel_bytes t" if "i < 8 * pixel_bytes t" using that by (simp add: less_mult_imp_div_less mult.commute)
  with assms [of "i div 8"] show "bit (load_pixel t buffer r c m) i \<longleftrightarrow> bit (0 :: u32) i"
    by (auto simp: load_pixel_def bit_load_le add.assoc)
qed

text \<open>Scrolling, by the pixel: the screen and the back buffer show the back buffer's text one line higher.\<close>

lemma scroll_pixel:
  assumes "scrollable t" "Suc c * pixel_bytes t \<le> line_bytes t" "r < 16 * text_lines t"
    and "buffer \<in> {vm_addr (t_mode t), t_back t}"
  shows "load_pixel t buffer r c (scroll_memory t m) =
    (if r + 16 < 16 * text_lines t then load_pixel t (t_back t) (r + 16) c m else 0)"
proof -
  let ?l = "line_bytes t" and ?n = "pixel_bytes t" and ?q = "16 * (text_lines t - 1)"
  have one: "1 \<le> text_lines t" using assms(3) by (cases "text_lines t") simp_all
  then have rows: "?q * ?l + 16 * ?l = 16 * text_lines t * ?l" by (simp add: algebra_simps flip: add_mult_distrib)
  have byte: "scroll_memory t m (buffer + of_nat (r * ?l + c * ?n + k)) =
      (if r < ?q then m (t_back t + of_nat ((r + 16) * ?l + c * ?n + k)) else 0)" if "k < ?n" for k
  proof -
    have u: "c * ?n + k < ?l" using assms(2) that by simp
    have lt: "r * ?l + c * ?n + k < q * ?l \<longleftrightarrow> r < q" for q using offset_less_rows [OF u, of r q] by (simp only: add.assoc)
    have "16 * text_lines t \<le> unat (vm_res_y (t_mode t))" by (simp add: text_lines_def)
    then have p: "r * ?l + c * ?n + k < screen_size t" unfolding screen_size_def lt using assms(3) by linarith
    have e: "r * ?l + c * ?n + k + 16 * ?l = (r + 16) * ?l + c * ?n + k" by (simp add: add_mult_distrib)
    show ?thesis
      unfolding scroll_byte [OF assms(1) p assms(4)] Let_def e lt rows using assms(3) by simp
  qed
  show ?thesis
  proof (cases "r < ?q")
    case True
    then have "load_pixel t buffer r c (scroll_memory t m) = load_pixel t (t_back t) (r + 16) c m"
      using byte by (intro load_pixel_cong) simp
    moreover have "r + 16 < 16 * text_lines t" using True one by linarith
    ultimately show ?thesis by simp
  next
    case False
    then have "load_pixel t buffer r c (scroll_memory t m) = 0" using byte by (intro load_pixel_zero) simp
    moreover have "\<not> r + 16 < 16 * text_lines t" using False one by linarith
    ultimately show ?thesis by simp
  qed
qed

text \<open>
  C33. A new line on the last line of the screen moves the text up: the cursor stays on the last line,
  every pixel of the screen and of the back buffer becomes the one 16 rows below it, and the last 16 rows
  are black.
\<close>

theorem newline_scrolls:
  assumes "scrollable t" "unat (t_maxy t) = text_lines t" "t_y t + 1 = t_maxy t" "t_maxx t \<noteq> 0"
    and "Suc c * pixel_bytes t \<le> line_bytes t" "r < 16 * text_lines t" "buffer \<in> {vm_addr (t_mode t), t_back t}"
  shows "\<exists>t' m'. put_char (CHR 0x0A) (t, m) = Some (t', m') \<and> t_x t' = 0 \<and> t_y t' = t_y t \<and>
    load_pixel t buffer r c m' = (if r + 16 < 16 * text_lines t then load_pixel t (t_back t) (r + 16) c m else 0)"
proof -
  let ?t = "t\<lparr>t_y := t_y t + 1, t_x := 0\<rparr>"
  have "t_maxy t \<noteq> 0" using assms(2,6) by auto
  then have "t_y t < t_maxy t"
    using assms(3) by (metis add_diff_cancel_right' unat_minus_one word_less_nat_alt diff_less unat_gt_0 zero_less_one)
  then have here: "scroll_loop (t\<lparr>t_x := 0\<rparr>, m') = Some (t\<lparr>t_x := 0\<rparr>, m')" for m'
    by (simp add: scroll_loop_here)
  have "t_y t + 1 - 1 = t_y t" by simp
  then have "?t\<lparr>t_y := t_y ?t - 1\<rparr> = t\<lparr>t_x := 0\<rparr>" by (cases t) simp
  moreover have "t_maxy ?t \<le> t_y ?t" using assms(3) by simp
  ultimately have "scroll_loop (?t, m) = Some (t\<lparr>t_x := 0\<rparr>, scroll_memory ?t m)"
    using scroll_loop_again [of ?t m] here by (simp only:)
  moreover have "scroll_memory ?t m = scroll_memory t m" by (simp add: scroll_memory_def)
  ultimately show ?thesis
    using assms(4) scroll_pixel [OF assms(1,5-7), of m] by (simp add: put_char_def advance_def wrap_line_def)
qed

theorem newline_scrolls_witness:
  "\<exists>t' m'. put_char (CHR 0x0A) (demo_terminal, \<lambda>a. if a = 0x3004CA then 0x34 else 0) = Some (t', m') \<and>
     load_pixel demo_terminal 0x200000 3 5 m' = 0x34"
proof -
  have s: "scrollable demo_terminal"
    by (simp add: scrollable_def demo_terminal_def demo_mode_def line_bytes_def screen_size_def)
  have "unat (t_maxy demo_terminal) = text_lines demo_terminal" "t_y demo_terminal + 1 = t_maxy demo_terminal"
    "t_maxx demo_terminal \<noteq> 0" "Suc 5 * pixel_bytes demo_terminal \<le> line_bytes demo_terminal"
    "3 < 16 * text_lines demo_terminal" "0x200000 \<in> {vm_addr (t_mode demo_terminal), t_back demo_terminal}"
    "3 + 16 < 16 * text_lines demo_terminal" "t_back demo_terminal = 0x300000"
    by (simp_all add: demo_terminal_def demo_mode_def line_bytes_def text_lines_def pixel_bytes_def)
  moreover have "load_pixel demo_terminal 0x300000 (3 + 16) 5 (\<lambda>a. if a = 0x3004CA then 0x34 else 0) = 0x34"
  proof -
    have "[0..<2] = [0, 1 :: nat]" by code_simp
    moreover have "pixel_bytes demo_terminal = 2" "line_bytes demo_terminal = 64"
      by (simp_all add: demo_terminal_def demo_mode_def line_bytes_def pixel_bytes_def)
    ultimately show ?thesis by (simp add: load_pixel_def load_le_def)
  qed
  ultimately show ?thesis
    using newline_scrolls [OF s, of 5 3 "0x200000" "\<lambda>a. if a = 0x3004CA then 0x34 else 0"] by auto
qed

end
