(* ===== verification/Screen_Setup.thy ===== *)
theory Screen_Setup
  imports Screen_Draw Paging_Ops
begin

text \<open>
  Setting up the boot terminal (\<open>kernel/screen/bootterm.cpp\<close>): the back buffer the loader reserved and the
  frame buffer are given address ranges of their own and mapped, and the screen is cleared.
\<close>

section \<open>The constructor\<close>

fun find_backbuffer :: "('s \<Rightarrow> (u64 \<times> 's) result) \<Rightarrow> map_entry list \<Rightarrow> 's vas \<Rightarrow> (u64 \<times> 's vas) result" where
  "find_backbuffer pop [] s = Inr (0, s)"
| "find_backbuffer pop (e # es) s =
     (if me_type e = 4
      then rbind (allocate_address_range (me_length e) s) (\<lambda>(ret, s).
           rbind (x64_map pop ret (ret + me_length e) (me_base e) vm_system s) (\<lambda>s. Inr (ret, s)))
      else find_backbuffer pop es s)"

definition new_terminal :: "('s \<Rightarrow> (u64 \<times> 's) result) \<Rightarrow> u32 \<Rightarrow> video_mode \<Rightarrow> map_entry list \<Rightarrow> 's vas \<Rightarrow> memory \<Rightarrow>
    ('s vas \<times> terminal \<times> memory) result" where
  "new_terminal pop short_addr md es s m =
     (let sz = word_of_int (screen_bytes md) in
      rbind (find_backbuffer pop es s) (\<lambda>(back, s).
      rbind (allocate_address_range sz s) (\<lambda>(a, s).
      rbind (x64_map pop a (a + sz) (ucast short_addr) vm_system s) (\<lambda>s.
      let t = \<lparr>t_mode = md\<lparr>vm_addr := a\<rparr>, t_back = back, t_maxx = ucast (vm_res_x md div 8), t_maxy = ucast (vm_res_y md div 16),
               t_x = 0, t_y = 0, t_red = 0, t_green = 0, t_blue = 0\<rparr>;
          (t, m) = clear_terminal (t, m)
      in Inr (s, set_color color_gray t, m)))))"

section \<open>Mapping hands out no addresses\<close>

lemma pt_loop_keeps:
  assumes "\<And>i s s'. leaf i s = Inr s' \<Longrightarrow> Q s \<Longrightarrow> Q s'"
  shows "pt_loop leaf fin i s = Inr (i', s') \<Longrightarrow> Q s \<Longrightarrow> Q s'"
proof (induction "512 - i" arbitrary: i s)
  case 0
  then show ?case by (simp add: pt_loop.simps [of _ _ i])
next
  case (Suc k)
  then have "k = 512 - Suc i" by simp
  from Suc.hyps(1) [OF this] Suc.prems assms show ?case
    by (auto simp: pt_loop.simps [of _ _ i] split: if_splits)
qed

lemma level_loop_keeps:
  assumes "\<And>i s s'. enter i s = Inr s' \<Longrightarrow> Q s \<Longrightarrow> Q s'" "\<And>i s s'. leave i s = Inr s' \<Longrightarrow> Q s \<Longrightarrow> Q s'"
    and "\<And>i r s r' s'. inner i r s = Inr (r', s') \<Longrightarrow> Q s \<Longrightarrow> Q s'"
    and "\<And>i r s x s'. over i r s = Inr (x, s') \<Longrightarrow> Q s \<Longrightarrow> Q s'"
  shows "level_loop over enter inner leave fin zero i r s = Inr (x, s') \<Longrightarrow> Q s \<Longrightarrow> Q s'"
proof (induction "512 - i" arbitrary: i r s)
  case 0
  then show ?case using assms(4) by (auto simp: level_loop.simps [of _ _ _ _ _ _ i] split: if_splits)
next
  case (Suc k)
  then have k: "k = 512 - Suc i" "i < 512" by simp_all
  show ?case
  proof (cases "fin i r")
    case True
    with Suc.prems show ?thesis by (simp add: level_loop.simps [of _ _ _ _ _ _ i])
  next
    case False
    with Suc.prems(1) k(2) obtain s1 r2 s2 s3 where
      "enter i s = Inr s1" "inner i r s1 = Inr (r2, s2)" "leave i s2 = Inr s3"
      and e: "(if \<not> fin i r2 then level_loop over enter inner leave fin zero (Suc i) zero s3 else Inr ((i, r2), s3)) = Inr (x, s')"
      by (auto simp: level_loop.simps [of _ _ _ _ _ _ i])
    then have "Q s3" using assms(1-3) Suc.prems(2) by blast
    with e Suc.hyps(1) [OF k(1), of zero s3] show ?thesis by (auto split: if_splits)
  qed
qed

lemma page_loop_keeps:
  assumes "\<And>i s s'. enter4 i s = Inr s' \<Longrightarrow> Q s \<Longrightarrow> Q s'" "\<And>i j s s'. enter3 i j s = Inr s' \<Longrightarrow> Q s \<Longrightarrow> Q s'"
    "\<And>i j k s s'. enter2 i j k s = Inr s' \<Longrightarrow> Q s \<Longrightarrow> Q s'" "\<And>i j k l s s'. leaf i j k l s = Inr s' \<Longrightarrow> Q s \<Longrightarrow> Q s'"
    "\<And>i s s'. leave4 i s = Inr s' \<Longrightarrow> Q s \<Longrightarrow> Q s'" "\<And>i j s s'. leave3 i j s = Inr s' \<Longrightarrow> Q s \<Longrightarrow> Q s'"
    "\<And>i j k s s'. leave2 i j k s = Inr s' \<Longrightarrow> Q s \<Longrightarrow> Q s'"
    and "page_loop enter4 enter3 enter2 leaf leave4 leave3 leave2 start hi s = Inr s'" "Q s"
  shows "Q s'"
proof -
  obtain i4 i3 i2 i1 where st: "start = (i4, i3, i2, i1)" by (cases start) auto
  have nt: "next_table i r s = Inr (x, s') \<Longrightarrow> Q s \<Longrightarrow> Q s'" for i and r :: 'r and s x s'
    by (simp add: next_table_def)
  show ?thesis
    using assms(8) unfolding st page_loop_def
    by (auto elim!: level_loop_keeps [where Q = Q, rotated 4] pt_loop_keeps [where Q = Q, rotated] intro: assms nt)
qed

named_theorems keeps_lowest \<open>operations that leave the lowest address handed out alone\<close>

lemma vupdate_lowest [keeps_lowest]: "vupdate a i f s = Inr s' \<Longrightarrow> vs_lowest s' = vs_lowest s"
  by (auto simp: vupdate_def split: option.splits if_splits)

lemma vzero_lowest [keeps_lowest]: "vzero a s = Inr s' \<Longrightarrow> vs_lowest s' = vs_lowest s"
  by (auto simp: vzero_def split: option.splits if_splits)

lemma lock_entry_lowest [keeps_lowest]: "lock_entry a i s = Inr s' \<Longrightarrow> vs_lowest s' = vs_lowest s"
  by (auto simp: lock_entry_def split: if_splits dest: vupdate_lowest)

lemma unlock_entry_lowest [keeps_lowest]: "unlock_entry a i s = Inr s' \<Longrightarrow> vs_lowest s' = vs_lowest s"
  by (auto simp: unlock_entry_def dest: vupdate_lowest)

lemma pop_frame_lowest [keeps_lowest]: "pop_frame pop s = Inr (f, s') \<Longrightarrow> vs_lowest s' = vs_lowest s"
  by (auto simp: pop_frame_def)

lemma map_enter_lowest: "map_enter pop tbl child user rw i s = Inr s' \<Longrightarrow> vs_lowest s' = vs_lowest s"
  by (auto simp: map_enter_def split: if_splits dest!: keeps_lowest)

lemma map_leaf_lowest: "map_leaf pt user rw i x = Inr y \<Longrightarrow> vs_lowest (fst y) = vs_lowest (fst x)"
  by (auto simp: map_leaf_def split: if_splits prod.splits dest!: keeps_lowest)

lemma x64_map_lowest: "x64_map pop vstart vend phys attr s = Inr s' \<Longrightarrow> vs_lowest s' = vs_lowest s"
proof -
  have f: "on_first g x = Inr y \<Longrightarrow> (\<And>s s'. g s = Inr s' \<Longrightarrow> vs_lowest s' = vs_lowest s) \<Longrightarrow> vs_lowest (fst y) = vs_lowest (fst x)"
    for g :: "'a vas \<Rightarrow> 'a vas result" and x y :: "'a vas \<times> u64"
    by (cases x) (auto simp: on_first_def)
  define Q where "Q x \<longleftrightarrow> vs_lowest (fst x) = vs_lowest s" for x :: "'a vas \<times> u64"
  have enter: "on_first (map_enter pop t c u w i) x = Inr y \<Longrightarrow> Q x \<Longrightarrow> Q y" for t c u w i x y
    unfolding Q_def using f [of "map_enter pop t c u w i" x y] map_enter_lowest by metis
  have leave: "on_first (unlock_entry t i) x = Inr y \<Longrightarrow> Q x \<Longrightarrow> Q y" for t i x y
    unfolding Q_def using f [of "unlock_entry t i" x y] unlock_entry_lowest by metis
  have leaf: "map_leaf t u w i x = Inr y \<Longrightarrow> Q x \<Longrightarrow> Q y" for t u w i x y
    unfolding Q_def using map_leaf_lowest by metis
  assume a: "x64_map pop vstart vend phys attr s = Inr s'"
  show ?thesis
  proof (cases "page_ceil vend \<le> page_floor vstart")
    case True
    with a show ?thesis by (simp add: x64_map_def Let_def split: if_splits)
  next
    case False
    with a obtain rid p where loop: "page_loop
        (\<lambda>i4. on_first (map_enter pop (gen_pml4 rid) (gen_pdpt rid i4) (at_user attr) (at_read_write attr) i4))
        (\<lambda>i4 i3. on_first (map_enter pop (gen_pdpt rid i4) (gen_pd rid i4 i3) (at_user attr) (at_read_write attr) i3))
        (\<lambda>i4 i3 i2. on_first (map_enter pop (gen_pd rid i4 i3) (gen_pt rid i4 i3 i2) (at_user attr) (at_user attr) i2))
        (\<lambda>i4 i3 i2 i1. map_leaf (gen_pt rid i4 i3 i2) (at_user attr) (at_read_write attr) i1)
        (\<lambda>i4. on_first (unlock_entry (gen_pml4 rid) i4))
        (\<lambda>i4 i3. on_first (unlock_entry (gen_pdpt rid i4) i3))
        (\<lambda>i4 i3 i2. on_first (unlock_entry (gen_pd rid i4 i3) i2))
        (pos_of (page_floor vstart)) (pos_of (page_ceil vend)) (s, phys) = Inr (s', p)"
      by (simp add: x64_map_def Let_def split: if_splits) blast+
    have "Q (s', p)"
    proof (rule page_loop_keeps [OF _ _ _ _ _ _ _ loop])
      show "Q (s, phys)" by (simp add: Q_def)
    qed (erule (1) enter leaf leave)+
    then show ?thesis by (simp add: Q_def)
  qed
qed

section \<open>A terminal that is ready\<close>

text \<open>The loader's entry for the back buffer holds the screen.\<close>

definition backbuffer_ok :: "nat \<Rightarrow> map_entry list \<Rightarrow> bool" where
  "backbuffer_ok sz es \<longleftrightarrow> (\<exists>e \<in> set es. me_type e = 4) \<and>
     (\<forall>e \<in> set es. me_type e = 4 \<longrightarrow> sz \<le> unat (me_length e) \<and> unat (me_length e) \<le> 2 ^ 63)"

lemma find_backbuffer_range:
  assumes "find_backbuffer pop es s = Inr (b, s')" "backbuffer_ok sz es"
    and "4096 dvd unat (vs_lowest s)" "0xFFFF800000000000 \<le> vs_lowest s"
  shows "vs_lowest s' = b" "4096 dvd unat b" "0xFFFF800000000000 \<le> b" "unat b + sz \<le> unat (vs_lowest s)"
proof -
  have "vs_lowest s' = b \<and> 4096 dvd unat b \<and> 0xFFFF800000000000 \<le> b \<and> unat b + sz \<le> unat (vs_lowest s)"
    using assms(1,2)
  proof (induction es)
    case (Cons e es)
    show ?case
    proof (cases "me_type e = 4")
      case True
      with Cons.prems obtain s1 where r: "allocate_address_range (me_length e) s = Inr (b, s1)"
        and m: "x64_map pop b (b + me_length e) (me_base e) vm_system s1 = Inr s'" by auto
      have l: "sz \<le> unat (me_length e)" "unat (me_length e) \<le> 2 ^ 63"
        using Cons.prems(2) True by (auto simp: backbuffer_ok_def)
      from allocate_address_range_step [OF r l(2) assms(3,4)] l(1) x64_map_lowest [OF m] show ?thesis by simp
    next
      case False
      with Cons show ?thesis by (simp add: backbuffer_ok_def)
    qed
  qed (simp add: backbuffer_ok_def)
  then show "vs_lowest s' = b" "4096 dvd unat b" "0xFFFF800000000000 \<le> b" "unat b + sz \<le> unat (vs_lowest s)"
    by blast+
qed

lemma apart_below:
  assumes "unat a + n \<le> unat b" "0xFFFF800000000000 \<le> a" "n \<le> 2 ^ 63"
  shows "n \<le> unat (b - a :: u64)" "n \<le> unat (a - b)"
proof -
  have "a \<le> b" using assms(1) by (simp add: word_le_nat_alt)
  then have d: "unat (b - a) = unat b - unat a" by (rule unat_sub)
  with assms(1) show "n \<le> unat (b - a)" by simp
  show "n \<le> unat (a - b)"
  proof (cases "n = 0")
    case False
    with assms(1) have "\<not> unat b \<le> unat a" by simp
    then have e: "unat (a - b) = unat a + 2 ^ 64 - unat b" unfolding unat_sub_if_size word_size by simp
    have "2 ^ 63 \<le> (0xFFFF800000000000 :: nat)" by simp
    also have "\<dots> \<le> unat a" using assms(2) by (simp add: word_le_nat_alt)
    finally have "2 ^ 63 \<le> unat a" .
    with e assms(3) unat_u64_less [of b] show ?thesis by linarith
  qed simp
qed

definition mode_ok :: "video_mode \<Rightarrow> bool" where
  "mode_ok md \<longleftrightarrow> vm_bpp md \<in> {16, 32} \<and> 8 \<le> unat (vm_res_x md) \<and> 16 \<le> unat (vm_res_y md) \<and>
     unat (vm_bpp md) div 8 * unat (vm_res_x md) \<le> unat (vm_bpl md)"


text \<open>The demonstration screen on an empty address space: one page each for the two buffers.\<close>

definition demo_entries :: "map_entry list" where
  "demo_entries = [\<lparr>me_base = 0, me_length = 0x9000, me_type = 1, me_attribs = 0\<rparr>,
     \<lparr>me_base = 0x5000, me_length = 0x1000, me_type = 4, me_attribs = 0\<rparr>]"

lemma demo_ranges:
  "allocate_address_range 0x1000 demo_vas = Inr (0xFFFFFFFF7FFFF000, demo_vas\<lparr>vs_lowest := 0xFFFFFFFF7FFFF000\<rparr>)"
  "vs_lowest s = 0xFFFFFFFF7FFFF000 \<Longrightarrow>
    allocate_address_range 2048 s = Inr (0xFFFFFFFF7FFFE000, s\<lparr>vs_lowest := 0xFFFFFFFF7FFFE000\<rparr>)"
  by (simp_all add: allocate_address_range_def page_ceil_def demo_vas_def)

lemma demo_range_pages:
  "page_floor 0xFFFFFFFF7FFFF000 = 0xFFFFFFFF7FFFF000" "page_ceil 0xFFFFFFFF80000000 = 0xFFFFFFFF80000000"
  "page_floor 0xFFFFFFFF7FFFE000 = 0xFFFFFFFF7FFFE000" "page_ceil 0xFFFFFFFF7FFFE800 = 0xFFFFFFFF7FFFF000"
  "vpage 0xFFFFFFFF7FFFE000 = 68718952446" "vpage 0xFFFFFFFF7FFFF000 = 68718952447" "vpage 0xFFFFFFFF80000000 = 68718952448"
  by (simp_all add: vpage_def pos_of_def page_floor_def page_ceil_def index_of_def)

lemma demo_maps:
  "\<exists>s1 s2. x64_map (pmm_pop 0) 0xFFFFFFFF7FFFF000 0xFFFFFFFF80000000 0x5000 vm_system
      (demo_vas\<lparr>vs_lowest := 0xFFFFFFFF7FFFF000\<rparr>) = Inr s1 \<and>
    x64_map (pmm_pop 0) 0xFFFFFFFF7FFFE000 0xFFFFFFFF7FFFE800 0xE0000000 vm_system
      (s1\<lparr>vs_lowest := 0xFFFFFFFF7FFFE000\<rparr>) = Inr s2"
proof -
  have t: "tables_touched 68718952447 68718952448 = 3" "tables_touched 68718952446 68718952447 = 3"
    by (simp_all add: tables_touched_def tables_left_def)
  have attr: "\<not> at_foreign vm_system" by (simp add: vm_system_def)
  let ?s = "demo_vas\<lparr>vs_lowest := 0xFFFFFFFF7FFFF000\<rparr>"
  have pre: "map_pre (pmm_avail 0) 0xFFFFFFFF7FFFF000 0xFFFFFFFF80000000 (boot_frames demo_pmm) ?s"
    by (rule demo_pre_at) (simp_all add: demo_range_pages t)
  then have "fresh_frames (vs_mem ?s) (vs_cr3 ?s) (boot_frames demo_pmm @ [])" by (simp add: map_pre_def)
  with frames.x64_map_inv_rest [OF pre attr, of 5 "[]" "0x5000"] obtain s1 where
    s1: "x64_map (pmm_pop 0) 0xFFFFFFFF7FFFF000 0xFFFFFFFF80000000 0x5000 vm_system ?s = Inr s1" and
    inv: "map_inv (pmm_avail 0) [] False 0x1000 (vs_mem demo_vas) 68718952447 0x5000 (at_user vm_system)
      (at_read_write vm_system) {} 68718952448 5 s1"
    by (auto simp: demo_range_pages t demo_frames demo_vas_def map_pre_def)
  from map_invD(4) [OF inv] obtain fs where fs: "pmm_avail 0 (vs_supply s1) fs" "5 \<le> length fs"
    "fresh_frames (vs_mem s1) 0x1000 fs" by auto
  have free: "translate (vs_mem s1) 0x1000 v = None"
    if "ordinary v" "vpage v < 68718952447" for v
    using map_inv_translate [OF inv that(1)] demo_translate [OF that(1)] that(2) by simp
  have "unlocked (vs_mem s1) 0x1000" using map_invD(3) [OF inv] by (auto simp: unlocked_def)
  then have "map_pre (pmm_avail 0) 0xFFFFFFFF7FFFE000 0xFFFFFFFF7FFFE800 fs (s1\<lparr>vs_lowest := 0xFFFFFFFF7FFFE000\<rparr>)"
    using map_invD(1,2) [OF inv] fs free by (simp add: map_pre_def demo_range_pages t)
  from frames.x64_map_inv [OF this attr, of "0xE0000000"] s1 show ?thesis by blast
qed


end
