(* ===== verification/Boot_Print.thy ===== *)
theory Boot_Print
  imports Console
begin

text \<open>
  The boot loader's text output: \<open>print\<close> and \<open>printf\<close> (\<open>loader/booter/screen/screen.h\<close>), the cursor
  of its console (\<open>console.cpp\<close>) and the register dump of its exception handler (\<open>processor.cpp\<close>).
\<close>

section \<open>Printing\<close>

text \<open>
  The characters given to \<open>put_char\<close>. Unlike the kernel's, this \<open>print\<close> never negates: the recursion and
  the digit work on the negative value.
\<close>

function boot_print_int :: "int \<Rightarrow> string" where
  "boot_print_int a =
     (if a = 0 then ''0''
      else (if \<not> (a > 0 \<or> a = 0) then ''-'' else []) @
           (if a sdiv 10 \<noteq> 0 then boot_print_int (a sdiv 10) else []) @ [digit_char (a smod 10)])"
  by pat_completeness auto
termination
  by (relation "measure (\<lambda>a. nat \<bar>a\<bar>)") (auto simp: signed_divide_int_def sgn_if)

declare boot_print_int.simps [simp del]

text \<open>A string without its terminator.\<close>

definition boot_print_str :: "string \<Rightarrow> string" where
  "boot_print_str s = s"

section \<open>Formatting\<close>

text \<open>An argument: the bytes of its type and its value.\<close>

type_synonym arg = "nat \<times> u64"

text \<open>
  \<open>sizeof(64)\<close> is the size of an \<open>int\<close>; the difference is unsigned, so for an eight-byte argument it
  becomes \<open>-4\<close> as an \<open>int32_t\<close> and the loop does not run.
\<close>

definition zero_count :: "nat \<Rightarrow> nat" where
  "zero_count bytes = (let i = sint (word_of_int (4 - int bytes) :: u32) in if 0 \<le> i then nat i + 1 else 0)"

definition hex_arg :: "arg \<Rightarrow> string" where
  "hex_arg p = (case p of (bytes, v) \<Rightarrow> replicate (zero_count bytes) (CHR ''0'') @ hex_loop (8 * bytes) v)"

text \<open>
  The nested switches behind a percent sign: each case moves on by one character, and only the whole
  \<open>%016x\<close> prints the argument. \<open>str\<close> starts at the percent sign.
\<close>

definition conversion :: "arg \<Rightarrow> string \<Rightarrow> string \<times> string" where
  "conversion p str =
     (let s1 = tl str in
      if s1 \<noteq> [] \<and> hd s1 = CHR ''0'' then
        let s2 = tl s1 in
        if s2 \<noteq> [] \<and> hd s2 = CHR ''1'' then
          let s3 = tl s2 in
          if s3 \<noteq> [] \<and> hd s3 = CHR ''6'' then
            let s4 = tl s3 in
            if s4 \<noteq> [] \<and> hd s4 = CHR ''x'' then (hex_arg p, tl s4) else ([], s4)
          else ([], s3)
        else ([], s2)
      else ([], s1))"

lemma conversion_length: "str \<noteq> [] \<Longrightarrow> length (snd (conversion p str)) < length str"
  by (cases str) (auto simp: conversion_def Let_def neq_Nil_conv)

text \<open>\<open>printf\<close> with one argument: what it prints and where \<open>str\<close> points when it returns.\<close>

function printf1 :: "arg \<Rightarrow> string \<Rightarrow> string \<times> string" where
  "printf1 p str =
     (if str = [] then ([], [])
      else if hd str \<noteq> CHR ''%''
      then let (out, rest) = printf1 p (tl str) in (hd str # out, rest)
      else let (out1, s) = conversion p str;
               plain = takeWhile (\<lambda>ch. ch \<noteq> CHR ''%'') s;
               (out2, rest) = printf1 p (dropWhile (\<lambda>ch. ch \<noteq> CHR ''%'') s)
           in (out1 @ plain @ out2, rest))"
  by pat_completeness auto
termination
proof (relation "measure (\<lambda>(p, str). length str)")
  fix p :: arg and str x out1 s plain
  assume "str \<noteq> []" "\<not> hd str \<noteq> CHR ''%''" "x = conversion p str" "(out1, s) = x"
  then have "length s < length str" using conversion_length by (metis snd_conv)
  then show "((p, dropWhile (\<lambda>ch. ch \<noteq> CHR ''%'') s), p, str) \<in> measure (\<lambda>(p, str). length str)"
    by (auto intro: le_less_trans [OF length_dropWhile_le])
qed auto

declare printf1.simps [simp del]

text \<open>With several: one argument after the other, as long as there is text left.\<close>

fun printf :: "arg list \<Rightarrow> string \<Rightarrow> string \<times> string" where
  "printf [] str = (str, [])"
| "printf [p] str = printf1 p str"
| "printf (p # ps) str =
     (let (out, s) = printf1 p str in
      if s = [] then (out, s)
      else let (out', s') = printf ps s in
           if s' = [] then (out @ out', s') else (out @ out' @ s', s'))"

section \<open>The exception handler\<close>

record boot_gate =
  bg_offset_low :: u16
  bg_selector :: u16
  bg_zero :: u8
  bg_flags :: u8
  bg_offset_middle :: u16
  bg_offset_high :: u32
  bg_zero1 :: u32

definition setup_boot_gate :: "nat \<Rightarrow> u64 \<Rightarrow> u16 \<Rightarrow> u8 \<Rightarrow> boot_gate list \<Rightarrow> boot_gate list" where
  "setup_boot_gate i address selector flags idt =
     idt[i := (idt ! i)\<lparr>bg_zero := 0, bg_zero1 := 0, bg_offset_low := ucast (address AND 0xFFFF),
       bg_offset_middle := ucast (drop_bit 16 address AND 0xFFFF), bg_offset_high := ucast (drop_bit 32 address AND 0xFFFFFFFF),
       bg_selector := selector, bg_flags := flags\<rparr>]"

text \<open>The 32 calls, with the stubs' addresses, and the limit of the table.\<close>

definition setup_boot_idt :: "(nat \<Rightarrow> u64) \<Rightarrow> boot_gate list \<Rightarrow> u16 \<times> boot_gate list" where
  "setup_boot_idt isr idt = (32 * 16 - 1, fold (\<lambda>i. setup_boot_gate i (isr i) 0x08 0x8E) [0..<32] idt)"

record boot_frame =
  bf_rdi :: u64
  bf_rsi :: u64
  bf_rdx :: u64
  bf_rcx :: u64
  bf_rbx :: u64
  bf_rax :: u64
  bf_number :: u64
  bf_code :: u64
  bf_rip :: u64
  bf_cs :: u64
  bf_rflags :: u64
  bf_rsp :: u64
  bf_ss :: u64

definition reserved_message :: string where
  "reserved_message = ''###: Reserved''"

definition exception_messages :: "string list" where
  "exception_messages =
     [''#DE: Divide error'', ''#DB: Reserved'', ''###: Non Maskable Interrupt'', ''#BP: Breakpoint'', ''#OF: Overflow'',
      ''#BR: BOUND Range Exceeded'', ''#UD: Invalid Opcode'', ''#NM: No Math Coprocessor'', ''#DF: Double Fault'',
      ''###: Coprocessor Segment Overrun (reserved)'', ''#TS: Invalid TSS'', ''#NP: Segment Not Present'',
      ''#SS: Stack Segment Fault'', ''#GP: General Protection Fault'', ''#PF: Page Fault'', reserved_message,
      ''#MF: x87 FPU Error'', ''#AC: Alignment Check'', ''#MC: Machine Check'', ''#XM: SIMD Floating-Point Exception''] @
     replicate 12 reserved_message"

definition nl :: string where
  "nl = [CHR 0x0A]"

definition printfl :: "string \<Rightarrow> arg list \<Rightarrow> string" where
  "printfl s ps = fst (printf ps s) @ nl"

definition q :: "u64 \<Rightarrow> arg" where
  "q v = (8, v)"

definition isr_handler :: "boot_frame \<Rightarrow> string result" where
  "isr_handler f =
     rbind (require (unat (bf_number f) < length exception_messages) Out_Of_Bounds) (\<lambda>_. Inr (
       nl @ ''ISR#'' @ boot_print_int (uint (ucast (bf_number f) :: u8)) @ '': '' @ exception_messages ! unat (bf_number f) @ nl @
       printfl (''RAX = 0x%016x RBX = 0x%016x'' @ nl @ ''RCX = 0x%016x RDX = 0x%016x'')
         [q (bf_rax f), q (bf_rbx f), q (bf_rcx f), q (bf_rdx f)] @
       printfl (''RSI = 0x%016x RDI = 0x%016x'' @ nl @ ''CS  = 0x%016x RIP = 0x%016x'')
         [q (bf_rsi f), q (bf_rdi f), q (bf_cs f), q (bf_rip f)] @
       printfl ''SS  = 0x%016x RSP = 0x%016x'' [q (bf_ss f), q (bf_rsp f)]))"

section \<open>Integers\<close>

lemma boot_print_int_nat: "boot_print_int (int n) = decimal n"
proof (induction n rule: decimal.induct)
  case (1 n)
  show ?case
  proof (cases "n = 0")
    case True
    have "char_of (48 :: nat) = CHR ''0''" by code_simp
    with True show ?thesis by (simp add: boot_print_int.simps decimal.simps)
  next
    case False
    then have "boot_print_int (int n) =
      (if n div 10 \<noteq> 0 then boot_print_int (int (n div 10)) else []) @ [digit_char (int (n mod 10))]"
      by (subst boot_print_int.simps) (simp add: sdiv_nonneg zdiv_int zmod_int)
    then show ?thesis
      using "1.IH" by (cases "n < 10") (simp_all add: decimal.simps [of n] digit_char_nat div_eq_0_iff)
  qed
qed

lemma digit_of_digit_char_neg: "- 10 < m \<Longrightarrow> m < 0 \<Longrightarrow> digit_of (digit_char m) = None"
  by (simp add: digit_char_def digit_of_def Let_def mod_pos_pos_trivial nat_less_iff)

text \<open>
  The loader prints an integer as text that reads back as its value exactly if the integer is not
  negative: below zero it prints a minus sign for every digit and takes the digits from the negative
  remainders, which gives characters that are no digits.
\<close>

theorem boot_print_int_reads: "read_int (boot_print_int a) = (if 0 \<le> a then Some a else None)"
proof (cases "0 \<le> a")
  case True
  with boot_print_int_nat [of "nat a"] show ?thesis by (simp add: read_int_decimal)
next
  case False
  then have a: "a < 0" by simp
  show ?thesis
  proof (cases "a sdiv 10 = 0")
    case True
    then have "boot_print_int a = CHR ''-'' # [digit_char (a smod 10)]"
      using a by (subst boot_print_int.simps) simp
    moreover have "a smod 10 = a" "- 10 < a"
      using True a sdiv_mult_smod_eq [of a 10] by (auto simp: signed_modulo_int_def signed_divide_int_def sgn_if split: if_splits)
    ultimately show ?thesis using a by (simp add: read_int_def digit_of_digit_char_neg)
  next
    case n: False
    then have neg: "a sdiv 10 < 0" using a by (simp add: signed_divide_int_def sgn_if)
    have "boot_print_int a = CHR ''-'' # boot_print_int (a sdiv 10) @ [digit_char (a smod 10)]"
      using a n by (subst boot_print_int.simps) simp
    moreover have "boot_print_int (a sdiv 10) =
        CHR ''-'' # (if (a sdiv 10) sdiv 10 \<noteq> 0 then boot_print_int ((a sdiv 10) sdiv 10) else []) @ [digit_char ((a sdiv 10) smod 10)]"
      using neg by (subst boot_print_int.simps) simp
    ultimately show ?thesis using a by (simp add: read_int_minus_minus)
  qed
qed

section \<open>Formatting\<close>

text \<open>With one argument the whole text is consumed, so the others are never looked at.\<close>

lemma printf1_end: "snd (printf1 p str) = []"
proof (induction p str rule: printf1.induct)
  case (1 p str)
  obtain out s where c: "conversion p str = (out, s)" by (cases "conversion p str")
  show ?case
    using "1.IH"(1) "1.IH"(2) [OF _ _ refl c [symmetric] refl]
    by (subst printf1.simps) (simp add: Let_def case_prod_beta c)
qed

lemma printf_first: "printf (p # ps) str = printf1 p str"
  using printf1_end [of p str] by (cases ps) (auto simp: Let_def case_prod_beta prod_eq_iff)

lemma zero_count_sizes: "zero_count (Suc 0) = 4" "zero_count 2 = 3" "zero_count 4 = 1" "zero_count 8 = 0"
  by (simp_all add: zero_count_def)

lemma length_hex_arg: "length (hex_arg (b, v)) = zero_count b + 2 * b"
  using length_hex_loop [of "2 * b" v] by (simp add: hex_arg_def)

text \<open>Sixteen digits, as the conversion asks for, come out for eight-byte arguments only.\<close>

lemma hex_arg_sixteen: "b \<in> {1, 2, 4, 8} \<Longrightarrow> length (hex_arg (b, v)) = 16 \<longleftrightarrow> b = 8"
  by (auto simp: length_hex_arg zero_count_sizes)

lemma hex_arg_value: "b \<in> {1, 2, 4, 8} \<Longrightarrow> unat v < 2 ^ (8 * b) \<Longrightarrow> hex_value 0 (hex_arg (b, v)) = Some (unat v)"
proof -
  assume b: "b \<in> {1, 2, 4, 8}" and v: "unat v < 2 ^ (8 * b)"
  have z: "hex_value 0 (replicate n (CHR ''0'') @ s) = hex_value 0 s" for n s
    by (induction n) (simp_all add: digit_value_def)
  have "(2 :: nat) ^ (8 * b) = 16 ^ (2 * b)" by (simp add: power_mult flip: power_mult [of 2 4])
  with v hex_value_loop [of 0 "2 * b" v] show ?thesis by (simp add: hex_arg_def z)
qed

text \<open>
  The register dump of the exception handler: for every exception of the table it is printed, but
  each line repeats its first register, so that the other registers cannot be told from it. Two
  frames with the same exception number, \<open>rax\<close>, \<open>rsi\<close> and \<open>ss\<close> give the same text.
\<close>

theorem isr_handler_repeats:
  assumes "unat (bf_number f) < 32" "bf_number g = bf_number f" "bf_rax g = bf_rax f" "bf_rsi g = bf_rsi f" "bf_ss g = bf_ss f"
  shows "\<exists>s. isr_handler f = Inr s \<and> isr_handler g = Inr s"
proof -
  have "length exception_messages = 32" by (simp add: exception_messages_def)
  with assms show ?thesis by (simp add: isr_handler_def printfl_def printf_first)
qed

definition demo_frame :: "u64 \<Rightarrow> boot_frame" where
  "demo_frame v = \<lparr>bf_rdi = v, bf_rsi = 1, bf_rdx = v, bf_rcx = v, bf_rbx = v, bf_rax = 0x2A, bf_number = 14, bf_code = v,
     bf_rip = v, bf_cs = v, bf_rflags = v, bf_rsp = v, bf_ss = 0x10\<rparr>"

theorem isr_handler_repeats_witness: "isr_handler (demo_frame 0xDEAD) = isr_handler (demo_frame 0xBEEF)"
  using isr_handler_repeats [of "demo_frame 0xDEAD" "demo_frame 0xBEEF"] by (auto simp: demo_frame_def)

text \<open>The gates of the loader's table lead to the stubs.\<close>

definition boot_gate_offset :: "boot_gate \<Rightarrow> u64" where
  "boot_gate_offset e = ucast (bg_offset_low e) OR push_bit 16 (ucast (bg_offset_middle e)) OR push_bit 32 (ucast (bg_offset_high e))"

lemma boot_gate_offset_parts:
  "(ucast (ucast (a AND 0xFFFF) :: u16) :: u64) OR push_bit 16 (ucast (ucast (drop_bit 16 a AND 0xFFFF) :: u16)) OR
   push_bit 32 (ucast (ucast (drop_bit 32 a AND 0xFFFFFFFF) :: u32)) = a"
proof -
  have m: "(0xFFFF :: u64) = mask 16" "(0xFFFFFFFF :: u64) = mask 32" by (simp_all add: mask_eq_exp_minus_1)
  show ?thesis unfolding m
  proof (rule bit_word_eqI)
    fix n
    assume "n < LENGTH(64)"
    then show "bit ((ucast (ucast (a AND mask 16) :: u16) :: u64) OR push_bit 16 (ucast (ucast (drop_bit 16 a AND mask 16) :: u16)) OR
        push_bit 32 (ucast (ucast (drop_bit 32 a AND mask 32) :: u32))) n = bit a n"
      by (cases "n < 16"; cases "n < 32") (auto simp: bit_simps)
  qed
qed

lemma setup_boot_idt_gates:
  assumes "length idt = 256" "i < 32"
  shows "fst (setup_boot_idt isr idt) + 1 = 32 * 16" "boot_gate_offset (snd (setup_boot_idt isr idt) ! i) = isr i"
    "bg_selector (snd (setup_boot_idt isr idt) ! i) = 8" "bg_flags (snd (setup_boot_idt isr idt) ! i) = 0x8E"
proof -
  let ?g = "\<lambda>i e. e\<lparr>bg_zero := 0, bg_zero1 := 0, bg_offset_low := ucast (isr i AND 0xFFFF),
       bg_offset_middle := ucast (drop_bit 16 (isr i) AND 0xFFFF), bg_offset_high := ucast (drop_bit 32 (isr i) AND 0xFFFFFFFF),
       bg_selector := 0x08, bg_flags := 0x8E\<rparr>"
  have run: "length (fold (\<lambda>i. setup_boot_gate i (isr i) 0x08 0x8E) [0..<k] idt) = 256 \<and>
      fold (\<lambda>i. setup_boot_gate i (isr i) 0x08 0x8E) [0..<k] idt ! i = (if i < k then ?g i (idt ! i) else idt ! i)"
    if "k \<le> 256" for k
    using that
  proof (induction k)
    case (Suc k)
    then show ?case using assms by (auto simp: setup_boot_gate_def nth_list_update)
  qed (use assms in simp)
  have e: "snd (setup_boot_idt isr idt) ! i = ?g i (idt ! i)"
    using run [of 32] assms(2) unfolding setup_boot_idt_def snd_conv by (simp del: upt_Suc)
  show "fst (setup_boot_idt isr idt) + 1 = 32 * 16" by (simp add: setup_boot_idt_def)
  show "boot_gate_offset (snd (setup_boot_idt isr idt) ! i) = isr i"
    unfolding e boot_gate_offset_def by (simp add: boot_gate_offset_parts)
  show "bg_selector (snd (setup_boot_idt isr idt) ! i) = 8" "bg_flags (snd (setup_boot_idt isr idt) ! i) = 0x8E"
    unfolding e by simp_all
qed

end
