(* ===== verification/Boot_Console.thy ===== *)
theory Boot_Console
  imports Screen Memory_Map
begin

text \<open>
  The boot loader's console (\<open>loader/booter/screen/console.cpp\<close>) and the memory operations it uses
  (\<open>loader/booter/memory/memory.h\<close>). The loader runs in 32-bit mode: memory is a function from 32-bit
  addresses to bytes.
\<close>

section \<open>Clearing and copying\<close>

type_synonym boot_memory = "u32 \<Rightarrow> u8"

definition boot_clear :: "nat \<Rightarrow> u32 \<Rightarrow> boot_memory \<Rightarrow> boot_memory" where
  "boot_clear n a m = (\<lambda>x. if unat (x - a) < n then 0 else m x)"

definition boot_move :: "nat \<Rightarrow> u32 \<Rightarrow> u32 \<Rightarrow> boot_memory \<Rightarrow> boot_memory" where
  "boot_move n src dest m = (\<lambda>x. if unat (x - dest) < n then m (src + (x - dest)) else m x)"

text \<open>Words of four bytes first, then the bytes that are left, which start at \<open>lastbytes\<close>.\<close>

definition boot_zero :: "u32 \<Rightarrow> u32 \<Rightarrow> boot_memory \<Rightarrow> boot_memory" where
  "boot_zero ptr sz m =
     (let lastbytes = ptr + sz - sz mod 4;
          m = fold (\<lambda>i. boot_clear 4 (ptr + of_nat (4 * i))) [0..<unat (sz div 4)] m
      in fold (\<lambda>i. boot_clear 1 (lastbytes + of_nat i)) [0..<unat (sz mod 4)] m)"

definition boot_copy :: "u32 \<Rightarrow> u32 \<Rightarrow> u32 \<Rightarrow> boot_memory \<Rightarrow> boot_memory" where
  "boot_copy src dest sz m =
     (let lastsrc = src + sz - sz mod 4; lastdest = dest + sz - sz mod 4;
          m = fold (\<lambda>i. boot_move 4 (src + of_nat (4 * i)) (dest + of_nat (4 * i))) [0..<unat (sz div 4)] m
      in fold (\<lambda>i. boot_move 1 (lastsrc + of_nat i) (lastdest + of_nat i)) [0..<unat (sz mod 4)] m)"

section \<open>The console\<close>

record boot_video =
  bv_addr :: u32
  bv_res_x :: u16
  bv_res_y :: u16
  bv_bpl :: u16
  bv_bpp :: u8
  bv_red_size :: u8
  bv_red_pos :: u8
  bv_green_size :: u8
  bv_green_pos :: u8
  bv_blue_size :: u8
  bv_blue_pos :: u8

text \<open>
  The mode the firmware reports; the fields of the linear frame buffer win unless they are zero.
\<close>

record vbe_info =
  vb_base :: boot_video
  vb_linear_bpl :: u16
  vb_linear_red_size :: u8
  vb_linear_red_pos :: u8
  vb_linear_green_size :: u8
  vb_linear_green_pos :: u8
  vb_linear_blue_size :: u8
  vb_linear_blue_pos :: u8

definition linear_or :: "'a::zero \<Rightarrow> 'a \<Rightarrow> 'a" where
  "linear_or linear plain = (if linear \<noteq> 0 then linear else plain)"

definition boot_video_of :: "vbe_info \<Rightarrow> boot_video" where
  "boot_video_of b = (vb_base b)\<lparr>
     bv_bpl := linear_or (vb_linear_bpl b) (bv_bpl (vb_base b)),
     bv_red_size := linear_or (vb_linear_red_size b) (bv_red_size (vb_base b)),
     bv_red_pos := linear_or (vb_linear_red_pos b) (bv_red_pos (vb_base b)),
     bv_green_size := linear_or (vb_linear_green_size b) (bv_green_size (vb_base b)),
     bv_green_pos := linear_or (vb_linear_green_pos b) (bv_green_pos (vb_base b)),
     bv_blue_size := linear_or (vb_linear_blue_size b) (bv_blue_size (vb_base b)),
     bv_blue_pos := linear_or (vb_linear_blue_pos b) (bv_blue_pos (vb_base b))\<rparr>"

record boot_console =
  bc_mode :: boot_video
  bc_font :: u32
  bc_x :: u16
  bc_y :: u16
  bc_maxx :: u16
  bc_maxy :: u16
  bc_back :: u32

definition boot_clear_screen :: "boot_console \<Rightarrow> boot_memory \<Rightarrow> boot_memory" where
  "boot_clear_screen c m =
     (let sz = ucast (bv_res_y (bc_mode c)) * ucast (bv_bpl (bc_mode c));
          m = boot_zero (bv_addr (bc_mode c)) sz m
      in if bc_back c \<noteq> 0 then boot_zero (bc_back c) sz m else m)"

definition new_boot_console :: "vbe_info \<Rightarrow> u32 \<Rightarrow> boot_memory \<Rightarrow> boot_console \<times> boot_memory" where
  "new_boot_console b font m =
     (let md = boot_video_of b;
          c = \<lparr>bc_mode = md, bc_font = font, bc_x = 0, bc_y = 0, bc_maxx = bv_res_x md div 8, bc_maxy = bv_res_y md div 16, bc_back = 0\<rparr>
      in (c, boot_clear_screen c m))"

text \<open>The back buffer comes from the end of usable memory and is entered into the memory map as type 4.\<close>

definition backbuffer_length :: "u64 \<Rightarrow> u64" where
  "backbuffer_length n = n + (4096 - n mod 4096)"

definition save_backbuffer_info :: "nat \<Rightarrow> boot_console \<Rightarrow> memory_map \<Rightarrow> memory_map result" where
  "save_backbuffer_info k c mm =
     rbind (add_entry k \<lparr>me_base = ucast (bc_back c),
       me_length = backbuffer_length (scast (ucast (bv_res_y (bc_mode c)) * ucast (bv_bpl (bc_mode c)) :: u32)),
       me_type = 4, me_attribs = 0\<rparr> mm) (\<lambda>(_, mm). Inr mm)"

definition init_backbuffer :: "nat \<Rightarrow> boot_console \<Rightarrow> memory_map \<Rightarrow> boot_memory \<Rightarrow> (boot_console \<times> memory_map \<times> boot_memory) result" where
  "init_backbuffer k c mm m =
     (let sz = ucast (bv_bpl (bc_mode c)) * ucast (bv_res_y (bc_mode c)) in
      rbind (find_last_usable sz mm) (\<lambda>(a, mm).
      let c = c\<lparr>bc_back := a\<rparr>; m = boot_zero a sz m in
      rbind (save_backbuffer_info k c mm) (\<lambda>mm. Inr (c, mm, m))))"

section \<open>Characters\<close>

definition boot_color :: "boot_video \<Rightarrow> u32" where
  "boot_color md =
     color_part 0xC0 (bv_red_size md) (bv_red_pos md) OR color_part 0xC0 (bv_green_size md) (bv_green_pos md) OR
     color_part 0xC0 (bv_blue_size md) (bv_blue_pos md)"

definition boot_cell :: "boot_console \<Rightarrow> u32 \<Rightarrow> u32" where
  "boot_cell c width = ucast (bc_y c) * ucast (bv_bpl (bc_mode c)) * 16 + ucast (bc_x c) * width"

definition boot_glyph_address :: "u32 \<Rightarrow> char \<Rightarrow> u32" where
  "boot_glyph_address font ch = font + word_of_int (sint (of_char ch :: u8) * 16)"

definition boot_put :: "nat \<Rightarrow> u32 \<Rightarrow> u32 \<Rightarrow> char \<Rightarrow> boot_console \<Rightarrow> boot_memory \<Rightarrow> boot_memory" where
  "boot_put n width color ch c m =
     put_glyph n (ucast (bv_bpl (bc_mode c))) (bv_addr (bc_mode c) + boot_cell c width)
       ((if bc_back c \<noteq> 0 then bc_back c else bv_addr (bc_mode c)) + boot_cell c width)
       (boot_glyph_address (bc_font c) ch) color m"

definition boot_put_16 :: "char \<Rightarrow> boot_console \<Rightarrow> boot_memory \<Rightarrow> boot_memory" where
  "boot_put_16 ch c m = boot_put 2 16 (ucast (ucast (boot_color (bc_mode c)) :: u16)) ch c m"

definition boot_put_32 :: "char \<Rightarrow> boot_console \<Rightarrow> boot_memory \<Rightarrow> boot_memory" where
  "boot_put_32 ch c m = boot_put 4 32 (boot_color (bc_mode c)) ch c m"

definition boot_draw :: "char \<Rightarrow> boot_console \<Rightarrow> boot_memory \<Rightarrow> boot_memory" where
  "boot_draw ch c m =
     (if bv_bpp (bc_mode c) = 16 then boot_put_16 ch c m else if bv_bpp (bc_mode c) = 32 then boot_put_32 ch c m else m)"

text \<open>Scrolling by five lines; the sizes are \<open>int\<close> in the code.\<close>

definition boot_scroll :: "boot_console \<times> boot_memory \<Rightarrow> boot_console \<times> boot_memory" where
  "boot_scroll s =
     (case s of (c, m) \<Rightarrow>
       let md = bc_mode c; bpl = ucast (bv_bpl md); y = ucast (bv_res_y md); b = bc_back c;
           m = boot_copy (b + bpl * 5 * 16) b ((y - 5 * 16 - y mod 16) * bpl) m;
           m = boot_zero (b + bpl * (y - 5 * 16 - y mod 16)) (bpl * 5 * 16) m;
           m = boot_copy b (bv_addr md) (bpl * y) m
       in (c\<lparr>bc_y := bc_y c - 5\<rparr>, m))"

definition boot_port :: "char \<Rightarrow> console_event list" where
  "boot_port ch =
     (if ch \<noteq> CHR 0x00 then [Outb 0x378 ch, Outb 0x37A (CHR 0x0C), Outb 0x37A (CHR 0x0D)] else [])"

definition boot_put_char :: "char \<Rightarrow> boot_console \<times> boot_memory \<Rightarrow> boot_console \<times> boot_memory" where
  "boot_put_char ch s =
     (case s of (c, m) \<Rightarrow>
       if ch = CHR 0x00 then s
       else if ch = CHR 0x0A then
         let c = c\<lparr>bc_x := 0, bc_y := bc_y c + 1\<rparr> in if bc_maxy c \<le> bc_y c then boot_scroll (c, m) else (c, m)
       else if ch = CHR 0x0D then (c\<lparr>bc_x := 0\<rparr>, m)
       else if ch = CHR 0x09 then (c\<lparr>bc_x := bc_x c + (8 - bc_x c mod 8)\<rparr>, m)
       else
         let m = boot_draw ch c m; c = c\<lparr>bc_x := bc_x c + 1\<rparr> in
         if bc_x c = bc_maxx c
         then let c = c\<lparr>bc_x := 0, bc_y := bc_y c + 1\<rparr> in if bc_y c = bc_maxy c then boot_scroll (c, m) else (c, m)
         else (c, m))"

fun boot_put_chars :: "string \<Rightarrow> boot_console \<times> boot_memory \<Rightarrow> boot_console \<times> boot_memory" where
  "boot_put_chars [] s = s"
| "boot_put_chars (ch # chs) s = boot_put_chars chs (boot_put_char ch s)"

section \<open>Clearing and copying are right\<close>

text \<open>Unlike the kernel's version, this one also clears and copies the last bytes correctly.\<close>

lemma boot_clear_run:
  assumes "k + n * j \<le> 2 ^ 32" "0 < n"
  shows "fold (\<lambda>i. boot_clear n (a + of_nat (k + n * i))) [0..<j] m x =
    (if k \<le> unat (x - a) \<and> unat (x - a) < k + n * j then 0 else m x)"
  using assms(1)
proof (induction j)
  case (Suc j)
  have "k + n * j + n \<le> 2 ^ LENGTH(32)" using Suc.prems by simp
  from unat_offset_len [OF this assms(2), of x a]
  have "unat (x - (a + of_nat (k + n * j))) < n \<longleftrightarrow> k + n * j \<le> unat (x - a) \<and> unat (x - a) < k + n * j + n" .
  with Suc show ?case by (simp add: boot_clear_def del: of_nat_add of_nat_mult)
qed auto

lemma word_split4:
  fixes sz :: u32
  shows "unat (sz div 4) = unat sz div 4" "unat (sz mod 4) = unat sz mod 4"
    "a + sz - sz mod 4 = a + of_nat (4 * (unat sz div 4))"
proof -
  show d: "unat (sz div 4) = unat sz div 4" and m: "unat (sz mod 4) = unat sz mod 4"
    by (simp_all add: unat_div_distrib unat_mod_distrib)
  have "unat sz = 4 * (unat sz div 4) + unat sz mod 4" by simp
  then have "(of_nat (unat sz) :: u32) = of_nat (4 * (unat sz div 4)) + of_nat (unat sz mod 4)"
    by (metis of_nat_add)
  then have "sz = of_nat (4 * (unat sz div 4)) + sz mod 4" by (simp add: flip: m)
  then have "sz - sz mod 4 = of_nat (4 * (unat sz div 4))" by (metis add_diff_cancel_right')
  then show "a + sz - sz mod 4 = a + of_nat (4 * (unat sz div 4))" by (metis add_diff_eq)
qed

lemma boot_zero_correct: "boot_zero ptr sz m x = (if unat (x - ptr) < unat sz then 0 else m x)"
proof -
  let ?q = "4 * (unat sz div 4)"
  have q: "?q + unat sz mod 4 = unat sz" "?q + 1 * (unat sz mod 4) \<le> 2 ^ 32" "0 + ?q \<le> 2 ^ 32"
    using unat_less_len [of sz] by simp_all
  have w: "fold (\<lambda>i. boot_clear 4 (ptr + of_nat (4 * i))) [0..<unat sz div 4] m y = (if unat (y - ptr) < ?q then 0 else m y)" for y
    using boot_clear_run [of 0 4 "unat sz div 4" ptr m y] q(3) by simp
  have e: "ptr + of_nat ?q + of_nat i = ptr + of_nat (?q + 1 * i)" for i by simp
  show ?thesis
    unfolding boot_zero_def Let_def word_split4 e boot_clear_run [OF q(2) zero_less_one] w using q(1) by auto
qed

lemma boot_move_run:
  assumes "k + n * j \<le> unat (d - s)" "0 < n"
  shows "fold (\<lambda>i. boot_move n (s + of_nat (k + n * i)) (d + of_nat (k + n * i))) [0..<j] (copied s d k m) = copied s d (k + n * j) m"
  using assms(1)
proof (induction j)
  case (Suc j)
  have "k + n * j + n \<le> unat (d - s)" using Suc.prems by simp
  from copied_step [OF assms(2) this, of m]
  have "boot_move n (s + of_nat (k + n * j)) (d + of_nat (k + n * j)) (copied s d (k + n * j) m) = copied s d (k + n * Suc j) m"
    by (simp only: boot_move_def mult_Suc_right add.assoc add.commute [of n])
  with Suc show ?case by simp
qed simp

lemma boot_copy_correct:
  assumes "unat sz \<le> unat (dest - src)"
  shows "boot_copy src dest sz m x = (if unat (x - dest) < unat sz then m (src + (x - dest)) else m x)"
proof -
  let ?q = "4 * (unat sz div 4)"
  have q: "?q + unat sz mod 4 = unat sz" by simp
  have "copied src dest 0 m = m" by (simp add: copied_def)
  then have w: "fold (\<lambda>i. boot_move 4 (src + of_nat (4 * i)) (dest + of_nat (4 * i))) [0..<unat sz div 4] m = copied src dest ?q m"
    using boot_move_run [of 0 4 "unat sz div 4" dest src m] assms by simp
  have e: "a + of_nat ?q + of_nat i = a + of_nat (?q + 1 * i)" for i and a :: u32 by simp
  have l: "?q + 1 * (unat sz mod 4) \<le> unat (dest - src)" using assms q by simp
  show ?thesis
    unfolding boot_copy_def Let_def word_split4 e w boot_move_run [OF l zero_less_one] using q by (simp add: copied_def)
qed

section \<open>The cursor\<close>

definition boot_cursor_ok :: "boot_console \<Rightarrow> bool" where
  "boot_cursor_ok c \<longleftrightarrow> bc_x c < bc_maxx c \<and> bc_y c < bc_maxy c"

lemma boot_scroll_console: "fst (boot_scroll (c, m)) = c\<lparr>bc_y := bc_y c - 5\<rparr>"
  by (simp add: boot_scroll_def Let_def)

lemma u16_next: "a < b \<Longrightarrow> unat (a + 1) = unat a + 1" for a b :: u16
proof -
  assume "a < b"
  then have "unat a + 1 < 2 ^ LENGTH(16)" using unat_less_len [of b] by (simp add: word_less_nat_alt)
  then show ?thesis by (simp add: unat_word_ariths)
qed

lemma boot_put_char_inside:
  assumes "boot_cursor_ok c" "5 \<le> bc_maxy c" "ch \<noteq> CHR 0x09"
  shows "boot_cursor_ok (fst (boot_put_char ch (c, m))) \<and> bc_maxx (fst (boot_put_char ch (c, m))) = bc_maxx c \<and>
    bc_maxy (fst (boot_put_char ch (c, m))) = bc_maxy c"
proof -
  have x: "bc_x c < bc_maxx c" "0 < bc_maxx c" "unat (bc_x c + 1) = unat (bc_x c) + 1"
    and y: "bc_y c < bc_maxy c" "unat (bc_y c + 1) = unat (bc_y c) + 1"
    using assms(1) u16_next by (auto simp: boot_cursor_ok_def word_less_nat_alt)
  have up: "bc_maxy c - 5 < bc_maxy c"
  proof -
    have "unat (bc_maxy c - 5) = unat (bc_maxy c) - 5" using assms(2) by (simp add: unat_sub)
    then show ?thesis using assms(2) by (simp add: word_less_nat_alt word_le_nat_alt)
  qed
  have le: "bc_maxy c \<le> bc_y c + 1 \<longleftrightarrow> bc_y c + 1 = bc_maxy c"
    using y by (auto simp: word_le_nat_alt word_less_nat_alt word_unat_eq_iff)
  have ne: "bc_y c + 1 \<noteq> bc_maxy c \<Longrightarrow> bc_y c + 1 < bc_maxy c" "bc_x c + 1 \<noteq> bc_maxx c \<Longrightarrow> bc_x c + 1 < bc_maxx c"
    using x y by (auto simp: word_less_nat_alt word_unat_eq_iff)
  from x(1,2) y(1) up ne show ?thesis
    using assms(3) unfolding boot_put_char_def Let_def
    by (simp add: boot_scroll_console le boot_cursor_ok_def)
qed

lemma boot_put_char_tab: "boot_put_char (CHR 0x09) (c, m) = (c\<lparr>bc_x := bc_x c + (8 - bc_x c mod 8)\<rparr>, m)"
  by (simp add: boot_put_char_def)

text \<open>
  Text without tabs keeps the cursor on the screen; with tabs it leaves the line on a screen of any width,
  since a tab does not look at the end of the line at all.
\<close>

lemma boot_put_chars_inside:
  assumes "boot_cursor_ok c" "5 \<le> bc_maxy c" "CHR 0x09 \<notin> set s"
  shows "boot_cursor_ok (fst (boot_put_chars s (c, m)))"
  using assms
proof (induction s arbitrary: c m)
  case (Cons ch s)
  obtain c' m' where st: "boot_put_char ch (c, m) = (c', m')" by (cases "boot_put_char ch (c, m)")
  from boot_put_char_inside [of c ch m] Cons.prems st have "boot_cursor_ok c'" "bc_maxy c' = bc_maxy c" by auto
  with Cons st show ?case by simp
qed simp

lemma boot_tabs:
  assumes "bc_x c = 0" "8 * k < 2 ^ 16"
  shows "boot_put_chars (replicate k (CHR 0x09)) (c, m) = (c\<lparr>bc_x := of_nat (8 * k)\<rparr>, m)"
proof -
  have "boot_put_chars (replicate k (CHR 0x09)) (c\<lparr>bc_x := of_nat (8 * j)\<rparr>, m) = (c\<lparr>bc_x := of_nat (8 * (j + k))\<rparr>, m)"
    if "8 * (j + k) < 2 ^ 16" for j
    using that
  proof (induction k arbitrary: j)
    case (Suc k)
    have "unat (of_nat (8 * j) :: u16) = 8 * j" using Suc.prems by (intro unat_of_nat_len) simp
    then have "unat ((of_nat (8 * j) :: u16) mod 8) = 0" by (simp add: unat_mod_distrib del: of_nat_mult)
    then have "(of_nat (8 * j) :: u16) mod 8 = 0" by (simp add: word_unat_eq_iff del: of_nat_mult)
    moreover have "(of_nat (8 * Suc j) :: u16) = of_nat (8 * j) + 8" by (simp add: algebra_simps)
    ultimately have "boot_put_char (CHR 0x09) (c\<lparr>bc_x := of_nat (8 * j)\<rparr>, m) = (c\<lparr>bc_x := of_nat (8 * Suc j)\<rparr>, m)"
      by (simp add: boot_put_char_tab del: of_nat_mult)
    with Suc.IH [of "Suc j"] Suc.prems show ?case by (simp del: of_nat_mult)
  qed simp
  from this [of 0] assms show ?thesis by (cases c) simp
qed

lemma boot_tabs_leave:
  assumes "bc_x c = 0" "unat (bc_maxx c) < 2 ^ 13"
  shows "\<exists>k. bc_maxx c \<le> bc_x (fst (boot_put_chars (replicate k (CHR 0x09)) (c, m)))"
proof
  let ?k = "unat (bc_maxx c) div 8 + 1"
  have k: "8 * ?k < 2 ^ 16" "unat (bc_maxx c) \<le> 8 * ?k" using assms(2) by simp_all
  then have "unat (of_nat (8 * ?k) :: u16) = 8 * ?k" by (intro unat_of_nat_len) simp
  with k boot_tabs [OF assms(1) k(1), of m] show "bc_maxx c \<le> bc_x (fst (boot_put_chars (replicate ?k (CHR 0x09)) (c, m)))"
    by (simp add: word_le_nat_alt del: of_nat_mult)
qed

end
