(* ===== verification/Syscalls.thy ===== *)
theory Syscalls
  imports Scheduler Console Hash_Map Descriptors
begin

text \<open>
  System calls (\<open>kernel/processor/syscalls.cpp\<close>, \<open>syscalls.h\<close>): the registers that enable them, the table
  of handlers (a hash map with 23 buckets, theory \<open>Hash_Map\<close>), the handler that the entry point calls, and
  what the \<open>syscall\<close> and \<open>sysret\<close> instructions and the entry point in \<open>processor.asm\<close> do around it.
\<close>

section \<open>The table of handlers\<close>

text \<open>The numbers the kernel and the user library share; any other 64-bit value can arrive too.\<close>

datatype syscall_name = Service_Kernel_Console_Print | Service_Get_Initrd | Service_Spawn | Exit_Syscall

fun syscall_code :: "syscall_name \<Rightarrow> u64" where
  "syscall_code Service_Kernel_Console_Print = 0"
| "syscall_code Service_Get_Initrd = 1"
| "syscall_code Service_Spawn = 2"
| "syscall_code Exit_Syscall = 100"

text \<open>
  What a handler can change: the threads, and what the console has done. \<open>mc_service\<close> is the flag of the
  process at an address; \<open>mc_memory\<close> the bytes that the current address space maps.
\<close>

record machine =
  mc_procs :: processors
  mc_service :: "pointer \<Rightarrow> bool option"
  mc_memory :: "u64 \<Rightarrow> char option"
  mc_console :: console
  mc_printed :: "console_event list"

type_synonym handler = "u64 \<Rightarrow> syscall_context \<Rightarrow> machine \<Rightarrow> (syscall_context \<times> machine) result"

record handler_description =
  hd_handler :: "handler option"
  hd_context :: u64
  hd_service_only :: bool

definition no_handler :: handler_description where
  "no_handler = \<lparr>hd_handler = None, hd_context = 0, hd_service_only = False\<rparr>"

definition syscall_hash :: "u64 \<Rightarrow> u64" where
  "syscall_hash n = n"

definition syscall_buckets :: nat where
  "syscall_buckets = 23"

definition register_syscall :: "(u64 \<Rightarrow> handler_description \<Rightarrow> 'm \<Rightarrow> 'm result) \<Rightarrow> u64 \<Rightarrow> handler option \<Rightarrow> u64 \<Rightarrow>
    bool \<Rightarrow> 'm \<Rightarrow> 'm result" where
  "register_syscall put n hnd context service_only table =
     put n \<lparr>hd_handler = hnd, hd_context = context, hd_service_only = service_only\<rparr> table"

section \<open>Printing for a service\<close>

text \<open>The characters from an address on, as far as they are mapped; at most \<open>k\<close> of them.\<close>

fun string_at :: "nat \<Rightarrow> (u64 \<Rightarrow> char option) \<Rightarrow> u64 \<Rightarrow> string" where
  "string_at 0 mem a = []"
| "string_at (Suc k) mem a = (case mem a of None \<Rightarrow> [] | Some ch \<Rightarrow> ch # string_at k mem (a + 1))"

definition print_handler :: "nat \<Rightarrow> handler" where
  "print_handler k context y s =
     rbind (print_str (mc_console s) (string_at k (mc_memory s) (y_rsi y))) (\<lambda>es.
     Inr (y, s\<lparr>mc_printed := mc_printed s @ es\<rparr>))"

section \<open>Enabling system calls\<close>

definition msr_star :: u32 where "msr_star = 0xC0000081"
definition msr_lstar :: u32 where "msr_lstar = 0xC0000082"
definition msr_efer :: u32 where "msr_efer = 0xC0000080"

definition enable_syscalls :: "u64 \<Rightarrow> (u32 \<Rightarrow> u64) \<Rightarrow> u32 \<Rightarrow> u64" where
  "enable_syscalls entry msr =
     (let msr = msr(msr_efer := msr msr_efer OR 1);
          msr = msr(msr_lstar := entry)
      in msr(msr_star := push_bit 32 8 OR push_bit 48 8))"

definition syscalls_initialize :: "(u64 \<Rightarrow> handler_description \<Rightarrow> 'm \<Rightarrow> 'm result) \<Rightarrow> nat \<Rightarrow> u64 \<Rightarrow> 'm \<Rightarrow>
    (u32 \<Rightarrow> u64) \<Rightarrow> ((u32 \<Rightarrow> u64) \<times> 'm) result" where
  "syscalls_initialize put k entry fresh msr =
     rbind (register_syscall put (syscall_code Service_Kernel_Console_Print) (Some (print_handler k)) 0 True fresh)
       (\<lambda>table. Inr (enable_syscalls entry msr, table))"

definition syscalls_ap_initialize :: "u64 \<Rightarrow> (u32 \<Rightarrow> u64) \<Rightarrow> u32 \<Rightarrow> u64" where
  "syscalls_ap_initialize entry msr = enable_syscalls entry msr"

section \<open>The handler\<close>

definition is_canonical :: "u64 \<Rightarrow> bool" where
  "is_canonical a =
     (let bt = drop_bit 47 a AND 1 \<noteq> 0 in
      if bt \<and> drop_bit 48 a = 0xFFFF then True
      else if \<not> bt \<and> drop_bit 48 a = 0 then True
      else False)"

definition running_thread :: "nat \<Rightarrow> machine \<Rightarrow> (pointer \<times> tcb) result" where
  "running_thread this s =
     (case ps_running (mc_procs s) this of
        None \<Rightarrow> Inl Null_Deref
      | Some t \<Rightarrow> rbind (get_thread (ps_threads (mc_procs s)) t) (\<lambda>x. Inr (t, x)))"

text \<open>A handler for services only asks the process of the calling thread; a kernel thread has none.\<close>

definition refused :: "handler_description \<Rightarrow> tcb \<Rightarrow> machine \<Rightarrow> bool result" where
  "refused e x s =
     (if \<not> hd_service_only e then Inr False
      else case th_parent x of
          None \<Rightarrow> Inl Null_Deref
        | Some p \<Rightarrow> (case mc_service s p of None \<Rightarrow> Inl Page_Fault | Some service \<Rightarrow> Inr (\<not> service)))"

definition call_handler :: "handler_description \<Rightarrow> syscall_context \<Rightarrow> machine \<Rightarrow> (syscall_context \<times> machine) result" where
  "call_handler e y s =
     (case hd_handler e of None \<Rightarrow> Inl Null_Deref | Some h \<Rightarrow> h (hd_context e) y s)"

definition save_calling :: "pointer \<Rightarrow> syscall_context \<Rightarrow> machine \<Rightarrow> machine result" where
  "save_calling t y s =
     rbind (get_thread (ps_threads (mc_procs s)) t) (\<lambda>x.
     Inr (if thread_valid (Some (th_status x))
          then s\<lparr>mc_procs := mc_procs s\<lparr>ps_threads := (ps_threads (mc_procs s))(t \<mapsto>
                 x\<lparr>th_context := thread_save save_syscall y (th_context x)\<rparr>)\<rparr>\<rparr>
          else s))"

definition switch_context :: "nat \<Rightarrow> pointer \<Rightarrow> u64 \<Rightarrow> syscall_context \<Rightarrow> machine \<Rightarrow> (syscall_context \<times> machine) result" where
  "switch_context this t tid y s =
     (if tid = 0 then Inr (y, s)
      else rbind (running_thread this s) (\<lambda>(_, c).
           if th_id c = tid then Inr (y, s)
           else rbind (save_calling t y s) (\<lambda>s.
                rbind (running_thread this s) (\<lambda>(_, c).
                rbind (thread_load load_syscall (th_context c) y) (\<lambda>y. Inr (y, s))))))"

definition syscall_handler :: "(u64 \<Rightarrow> 'm \<Rightarrow> bool result) \<Rightarrow> (u64 \<Rightarrow> 'm \<Rightarrow> (handler_description \<times> 'm) result) \<Rightarrow>
    bool \<Rightarrow> nat \<Rightarrow> syscall_context \<Rightarrow> 'm \<Rightarrow> machine \<Rightarrow> (syscall_context \<times> 'm \<times> machine) result" where
  "syscall_handler contains index ready this y table s =
     rbind (require ready (Panic ''syscall handler called before scheduler got initialized.'')) (\<lambda>_.
     rbind (running_thread this s) (\<lambda>(t, x).
     rbind (contains (y_syscall_number y) table) (\<lambda>known.
     rbind (require known (Panic ''TODO: implement me: a process tried to call a non-existent syscall'')) (\<lambda>_.
     rbind (index (y_syscall_number y) table) (\<lambda>(e, table).
     rbind (refused e x s) (\<lambda>no.
     rbind (require (\<not> no) (Panic ''TODO: implement me: a non-service attempted a call to a service-only syscall'')) (\<lambda>_.
     rbind (call_handler e y s) (\<lambda>(y, s).
     rbind (switch_context this t (th_id x) y s) (\<lambda>(y, s).
     rbind (require (is_canonical (y_user_rip y))
       (Panic ''TODO: implement me: a process has just general protection faulted trying to sysretq to non canonical address; implement this'')) (\<lambda>_.
     Inr (y, table, s)))))))))))"

section \<open>The entry point\<close>

text \<open>
  The instruction \<open>syscall\<close> puts the address behind it into \<open>rcx\<close> and the flags into \<open>r11\<close>, the entry
  point the stack pointer into \<open>rdx\<close>; they are pushed with the other registers. Then the way back:
  \<open>sysret\<close> takes its segments from the upper part of the \<open>STAR\<close> register and clears the flags that are
  reserved, \<open>RF\<close> and \<open>VM\<close>.
\<close>

definition enter_syscall :: "ctx \<Rightarrow> syscall_context" where
  "enter_syscall u = \<lparr>y_r15 = c_r15 u, y_r14 = c_r14 u, y_r13 = c_r13 u, y_r12 = c_r12 u, y_rflags = c_rflags u,
     y_r10 = c_r10 u, y_r9 = c_r9 u, y_r8 = c_r8 u, y_rbp = c_rbp u, y_rdi = c_rdi u, y_rsi = c_rsi u,
     y_user_rsp = c_rsp u, y_user_rip = c_rip u, y_rbx = c_rbx u, y_syscall_number = c_rax u\<rparr>"

definition leave_syscall :: "u64 \<Rightarrow> syscall_context \<Rightarrow> ctx" where
  "leave_syscall star y = \<lparr>c_rax = y_syscall_number y, c_rbx = y_rbx y, c_rcx = y_user_rip y, c_rdx = y_user_rsp y,
     c_rsi = y_rsi y, c_rdi = y_rdi y, c_rsp = y_user_rsp y, c_rbp = y_rbp y, c_r8 = y_r8 y, c_r9 = y_r9 y,
     c_r10 = y_r10 y, c_r11 = y_rflags y, c_r12 = y_r12 y, c_r13 = y_r13 y, c_r14 = y_r14 y, c_r15 = y_r15 y,
     c_cs = (drop_bit 48 star + 16) OR 3, c_ss = (drop_bit 48 star + 8) OR 3, c_rip = y_user_rip y,
     c_rflags = (y_rflags y AND 0x3C7FD7) OR 2\<rparr>"

definition system_call :: "(u64 \<Rightarrow> 'm \<Rightarrow> bool result) \<Rightarrow> (u64 \<Rightarrow> 'm \<Rightarrow> (handler_description \<times> 'm) result) \<Rightarrow>
    bool \<Rightarrow> nat \<Rightarrow> (u32 \<Rightarrow> u64) \<Rightarrow> ctx \<Rightarrow> 'm \<Rightarrow> machine \<Rightarrow> (ctx \<times> 'm \<times> machine) result" where
  "system_call contains index ready this msr u table s =
     rbind (syscall_handler contains index ready this (enter_syscall u) table s) (\<lambda>(y, table, s).
     Inr (leave_syscall (msr msr_star) y, table, s))"

text \<open>What \<open>iretq\<close> asks of the segments in its frame: both of the same level, and that of the descriptor.\<close>

definition iret_accepts :: "gdt_entry list \<Rightarrow> u64 \<Rightarrow> u64 \<Rightarrow> bool" where
  "iret_accepts es cs ss \<longleftrightarrow> ss AND 3 = cs AND 3 \<and> g_dpl (es ! unat (drop_bit 3 ss)) = ucast (cs AND 3)"

section \<open>Properties\<close>

lemma string_at_append:
  assumes "\<forall>i<length t. mem (a + of_nat i) = Some (t ! i)"
  shows "string_at (length t + k) mem a = t @ string_at k mem (a + of_nat (length t))"
  using assms
proof (induction t arbitrary: a)
  case (Cons ch t)
  have "mem a = Some ch" using Cons.prems [rule_format, of 0] by simp
  moreover have "\<forall>i<length t. mem ((a + 1) + of_nat i) = Some (t ! i)"
  proof (intro allI impI)
    fix i assume "i < length t"
    then show "mem ((a + 1) + of_nat i) = Some (t ! i)" using Cons.prems [rule_format, of "Suc i"] by (simp add: add.assoc)
  qed
  moreover have "a + 1 + of_nat (length t) = a + of_nat (length (ch # t))" by (simp add: add.assoc)
  ultimately show ?case using Cons.IH [of "a + 1"] by (simp add: add.assoc)
qed simp

text \<open>A text without escapes in the memory of the caller is what \<open>print\<close> gets to see.\<close>

lemma print_handler_text:
  assumes "\<forall>i<length t. mc_memory s (y_rsi y + of_nat i) = Some (t ! i)"
    "mc_memory s (y_rsi y + of_nat (length t)) = Some (CHR 0x00)" "length t < k"
    "CHR 0x00 \<notin> set t" "CHR 0x5C \<notin> set t"
  shows "print_handler k c y s = Inr (y, s\<lparr>mc_printed := mc_printed s @ concat (map (emit (mc_console s)) t)\<rparr>)"
proof -
  obtain j where k: "k = length t + Suc j" using assms(3) by (metis less_imp_Suc_add add_Suc_right)
  have "string_at k (mc_memory s) (y_rsi y) = t @ CHR 0x00 # string_at j (mc_memory s) (y_rsi y + of_nat (length t) + 1)"
    unfolding k string_at_append [OF assms(1)] using assms(2) by simp
  with assms(4,5) show ?thesis by (simp add: print_handler_def print_str_plain)
qed

lemma switch_context_same: "running_thread this s = Inr (t, x) \<Longrightarrow> switch_context this t (th_id x) y s = Inr (y, s)"
  by (simp add: switch_context_def)

lemma running_thread_printed [simp]: "running_thread this (s\<lparr>mc_printed := p\<rparr>) = running_thread this s"
  by (cases "ps_running (mc_procs s) this") (simp_all add: running_thread_def)

text \<open>The table after \<open>initialize\<close> holds one handler, reached through the contract of the map.\<close>

definition print_entry :: "nat \<Rightarrow> handler_description" where
  "print_entry k = \<lparr>hd_handler = Some (print_handler k), hd_context = 0, hd_service_only = True\<rparr>"

lemma initialized_table:
  assumes "0 < sz" "sz \<le> asz" "asz \<le> 4096" "4096 div asz < j"
  shows "\<exists>m. syscalls_initialize (hm_insert (alloc_node dflt sz asz base) j syscall_hash syscall_buckets) k entry
      (new_hmap st empty_allocator al) msr = Inr (enable_syscalls entry msr, m) \<and>
    (\<forall>n. hm_contains j syscall_hash syscall_buckets n m = Inr (n = 0)) \<and>
    hm_index (alloc_node dflt sz asz base) j syscall_hash syscall_buckets no_handler 0 m = Inr (print_entry k, m)"
proof -
  have "0 < 4096 div asz" using assms by (simp add: div_greater_zero_iff)
  then obtain r where r: "4096 div asz = Suc r" by (metis gr0_implies_Suc)
  from hmap.put_law [OF new_hmap_view [OF assms, where n = syscall_buckets and hash = syscall_hash and base = base, unfolded r],
      of dflt 0 "print_entry k" st al]
  obtain m where m: "hm_insert (alloc_node dflt sz asz base) j syscall_hash syscall_buckets 0 (print_entry k)
      (new_hmap st empty_allocator al) = Inr m"
    "hm_view sz asz base j syscall_hash syscall_buckets m r (Map.empty(0 \<mapsto> print_entry k))" by blast
  have "hm_contains j syscall_hash syscall_buckets n m = Inr (n = 0)" for n
    using hmap.contains_law [OF m(2)] by simp
  moreover have "hm_index (alloc_node dflt sz asz base) j syscall_hash syscall_buckets no_handler 0 m = Inr (print_entry k, m)"
    by (rule hmap.index_law [OF m(2)]) simp
  ultimately show ?thesis
    using m(1) by (simp add: syscalls_initialize_def register_syscall_def print_entry_def)
qed

lemma enabled_star [simp]: "enable_syscalls entry msr msr_star = 0x0008000800000000"
  by (simp add: enable_syscalls_def Let_def)

text \<open>The segments that \<open>sysret\<close> loads: entry 3 of the descriptors for the code, entry 2 for the stack.\<close>

lemma leave_segments:
  "leave_syscall 0x0008000800000000 y = (leave_syscall 0 y)\<lparr>c_cs := 0x1B, c_ss := 0x13\<rparr>"
  by (simp add: leave_syscall_def)

lemma leave_enter:
  "leave_syscall 0x0008000800000000 (enter_syscall u) =
     u\<lparr>c_rcx := c_rip u, c_rdx := c_rsp u, c_r11 := c_rflags u, c_cs := 0x1B, c_ss := 0x13,
       c_rflags := (c_rflags u AND 0x3C7FD7) OR 2\<rparr>"
  by (cases u) (simp add: leave_syscall_def enter_syscall_def)

lemmas handler_simps = syscall_handler_def refused_def call_handler_def print_entry_def case_prod_beta

lemma initialized_calls:
  assumes "0 < sz" "sz \<le> asz" "asz \<le> 4096" "4096 div asz < j" and run: "running_thread this s = Inr (t, x)"
  shows "\<exists>msr' m. syscalls_initialize (hm_insert (alloc_node dflt sz asz base) j syscall_hash syscall_buckets) k entry
      (new_hmap st empty_allocator al) msr = Inr (msr', m) \<and>
    (\<forall>u. let call = system_call (hm_contains j syscall_hash syscall_buckets)
            (hm_index (alloc_node dflt sz asz base) j syscall_hash syscall_buckets no_handler) True this msr' u m s
      in (c_rax u \<noteq> 0 \<longrightarrow> call = Inl (Panic ''TODO: implement me: a process tried to call a non-existent syscall'')) \<and>
         (c_rax u = 0 \<and> th_parent x = None \<longrightarrow> call = Inl Null_Deref) \<and>
         (\<forall>p. c_rax u = 0 \<and> th_parent x = Some p \<and> mc_service s p = Some False \<longrightarrow>
            call = Inl (Panic ''TODO: implement me: a non-service attempted a call to a service-only syscall'')) \<and>
         (\<forall>p w. c_rax u = 0 \<and> th_parent x = Some p \<and> mc_service s p = Some True \<and> is_canonical (c_rip u) \<and>
            (\<forall>i<length w. mc_memory s (c_rsi u + of_nat i) = Some (w ! i)) \<and>
            mc_memory s (c_rsi u + of_nat (length w)) = Some (CHR 0x00) \<and> length w < k \<and>
            CHR 0x00 \<notin> set w \<and> CHR 0x5C \<notin> set w \<longrightarrow>
            call = Inr (u\<lparr>c_rcx := c_rip u, c_rdx := c_rsp u, c_r11 := c_rflags u, c_cs := 0x1B, c_ss := 0x13,
                c_rflags := (c_rflags u AND 0x3C7FD7) OR 2\<rparr>, m,
              s\<lparr>mc_printed := mc_printed s @ concat (map (emit (mc_console s)) w)\<rparr>)))"
proof -
  obtain m where m: "syscalls_initialize (hm_insert (alloc_node dflt sz asz base) j syscall_hash syscall_buckets) k entry
      (new_hmap st empty_allocator al) msr = Inr (enable_syscalls entry msr, m)"
    "\<And>n. hm_contains j syscall_hash syscall_buckets n m = Inr (n = 0)"
    "hm_index (alloc_node dflt sz asz base) j syscall_hash syscall_buckets no_handler 0 m = Inr (print_entry k, m)"
    using initialized_table [OF assms(1-4)] by blast
  let ?call = "\<lambda>u. system_call (hm_contains j syscall_hash syscall_buckets)
    (hm_index (alloc_node dflt sz asz base) j syscall_hash syscall_buckets no_handler) True this (enable_syscalls entry msr) u m s"
  have number: "y_syscall_number (enter_syscall u) = c_rax u" "y_rsi (enter_syscall u) = c_rsi u"
    "y_user_rip (enter_syscall u) = c_rip u" for u by (simp_all add: enter_syscall_def)
  note simps = system_call_def handler_simps number run m(2,3)
  have "c_rax u \<noteq> 0 \<longrightarrow> ?call u = Inl (Panic ''TODO: implement me: a process tried to call a non-existent syscall'')"
    "c_rax u = 0 \<and> th_parent x = None \<longrightarrow> ?call u = Inl Null_Deref" for u
    by (simp_all add: simps)
  moreover have "c_rax u = 0 \<and> th_parent x = Some p \<and> mc_service s p = Some False \<longrightarrow>
      ?call u = Inl (Panic ''TODO: implement me: a non-service attempted a call to a service-only syscall'')" for u p
    by (simp add: simps)
  moreover have "?call u = Inr (u\<lparr>c_rcx := c_rip u, c_rdx := c_rsp u, c_r11 := c_rflags u, c_cs := 0x1B, c_ss := 0x13,
      c_rflags := (c_rflags u AND 0x3C7FD7) OR 2\<rparr>, m, s\<lparr>mc_printed := mc_printed s @ concat (map (emit (mc_console s)) w)\<rparr>)"
    if "c_rax u = 0" "th_parent x = Some p" "mc_service s p = Some True" "is_canonical (c_rip u)"
      "\<forall>i<length w. mc_memory s (c_rsi u + of_nat i) = Some (w ! i)"
      "mc_memory s (c_rsi u + of_nat (length w)) = Some (CHR 0x00)" "length w < k"
      "CHR 0x00 \<notin> set w" "CHR 0x5C \<notin> set w" for u p w
  proof -
    have "print_handler k 0 (enter_syscall u) s =
        Inr (enter_syscall u, s\<lparr>mc_printed := mc_printed s @ concat (map (emit (mc_console s)) w)\<rparr>)"
      by (rule print_handler_text) (use that in \<open>simp_all add: number\<close>)
    with that(1-4) run show ?thesis by (simp add: simps leave_enter switch_context_same)
  qed
  ultimately show ?thesis using m(1) by (auto simp: Let_def)
qed

text \<open>
  C36. System calls as the kernel initialises them. Every number but 0 panics, although the header declares
  three more; a call from a kernel thread faults; a call from a process that is not a service panics; and a
  call of a service prints the text at \<open>rsi\<close> and returns with every register as it was, but for \<open>rcx\<close>,
  \<open>rdx\<close>, \<open>r11\<close>, the segments and the reserved flags, and changes no thread and no table.
\<close>

theorem initialized_syscalls:
  assumes "0 < sz" "sz \<le> asz" "asz \<le> 4096" "4096 div asz < j" and run: "running_thread this s = Inr (t, x)"
  shows "\<exists>msr' m. syscalls_initialize (hm_insert (alloc_node dflt sz asz base) j syscall_hash syscall_buckets) k entry
      (new_hmap st empty_allocator al) msr = Inr (msr', m) \<and>
    (\<forall>u. let call = system_call (hm_contains j syscall_hash syscall_buckets)
            (hm_index (alloc_node dflt sz asz base) j syscall_hash syscall_buckets no_handler) True this msr' u m s
      in (c_rax u \<noteq> 0 \<longrightarrow> call = Inl (Panic ''TODO: implement me: a process tried to call a non-existent syscall'')) \<and>
         (c_rax u = 0 \<and> th_parent x = None \<longrightarrow> call = Inl Null_Deref) \<and>
         (\<forall>p. c_rax u = 0 \<and> th_parent x = Some p \<and> mc_service s p = Some False \<longrightarrow>
            call = Inl (Panic ''TODO: implement me: a non-service attempted a call to a service-only syscall'')) \<and>
         (\<forall>p w. c_rax u = 0 \<and> th_parent x = Some p \<and> mc_service s p = Some True \<and> is_canonical (c_rip u) \<and>
            (\<forall>i<length w. mc_memory s (c_rsi u + of_nat i) = Some (w ! i)) \<and>
            mc_memory s (c_rsi u + of_nat (length w)) = Some (CHR 0x00) \<and> length w < k \<and>
            CHR 0x00 \<notin> set w \<and> CHR 0x5C \<notin> set w \<longrightarrow>
            call = Inr (u\<lparr>c_rcx := c_rip u, c_rdx := c_rsp u, c_r11 := c_rflags u, c_cs := 0x1B, c_ss := 0x13,
                c_rflags := (c_rflags u AND 0x3C7FD7) OR 2\<rparr>, m,
              s\<lparr>mc_printed := mc_printed s @ concat (map (emit (mc_console s)) w)\<rparr>)))"
  using assms by (rule initialized_calls)

text \<open>A machine with one processor that runs the thread at address 1 of a service.\<close>

definition demo_thread :: "u64 \<Rightarrow> tcb" where
  "demo_thread i = (new_tcb i)\<lparr>th_parent := Some 9, th_status := St_Running, th_current_core := Some 0\<rparr>"

definition demo_machine :: machine where
  "demo_machine = \<lparr>mc_procs = \<lparr>ps_threads = [1 \<mapsto> demo_thread 5, 2 \<mapsto> (demo_thread 6)\<lparr>th_context := Some new_context\<rparr>],
       ps_running = [0 \<mapsto> 1], ps_asid = (\<lambda>_. 0)\<rparr>,
     mc_service = [9 \<mapsto> True], mc_memory = [0x1000 \<mapsto> CHR ''!'', 0x1001 \<mapsto> CHR 0x00],
     mc_console = \<lparr>con_term = True, con_port = - 1\<rparr>, mc_printed = []\<rparr>"

lemma demo_running: "running_thread 0 demo_machine = Inr (1, demo_thread 5)"
  by (simp add: running_thread_def demo_machine_def get_thread_def)

lemma initialized_syscalls_witness:
  "\<exists>msr' m. syscalls_initialize (hm_insert (alloc_node (0, no_handler) 40 64 4096) 100 syscall_hash syscall_buckets) 10 0
      (new_hmap (\<lambda>_. None) empty_allocator empty_allocator) (\<lambda>_. 0) = Inr (msr', m) \<and>
    (\<exists>u. system_call (hm_contains 100 syscall_hash syscall_buckets)
       (hm_index (alloc_node (0, no_handler) 40 64 4096) 100 syscall_hash syscall_buckets no_handler) True 0 msr'
       (new_context\<lparr>c_rsi := 0x1000, c_rip := 0x2000\<rparr>) m demo_machine =
         Inr (u, m, demo_machine\<lparr>mc_printed := [Put_Char (CHR ''!'')]\<rparr>) \<and> c_rip u = 0x2000 \<and> c_ss u = 0x13) \<and>
    system_call (hm_contains 100 syscall_hash syscall_buckets)
       (hm_index (alloc_node (0, no_handler) 40 64 4096) 100 syscall_hash syscall_buckets no_handler) True 0 msr'
       (new_context\<lparr>c_rax := syscall_code Exit_Syscall\<rparr>) m demo_machine =
         Inl (Panic ''TODO: implement me: a process tried to call a non-existent syscall'')"
proof -
  have sizes: "(0 :: nat) < 40" "(40 :: nat) \<le> 64" "(64 :: nat) \<le> 4096" "(4096 :: nat) div 64 < 100" by simp_all
  let ?u = "new_context\<lparr>c_rsi := 0x1000, c_rip := 0x2000\<rparr>" and ?v = "new_context\<lparr>c_rax := syscall_code Exit_Syscall\<rparr>"
  show ?thesis
    using initialized_syscalls [OF sizes demo_running, of "(0, no_handler)" 4096 10 0 "\<lambda>_. None" empty_allocator "\<lambda>_. 0"]
  proof (elim exE conjE, goal_cases)
    case (1 msr' m)
    note call = 1(2) [THEN spec, unfolded Let_def]
    from call [THEN conjunct1, of ?v] have exit: "system_call (hm_contains 100 syscall_hash syscall_buckets)
       (hm_index (alloc_node (0, no_handler) 40 64 4096) 100 syscall_hash syscall_buckets no_handler) True 0 msr' ?v m demo_machine =
         Inl (Panic ''TODO: implement me: a process tried to call a non-existent syscall'')" by simp
    from call [THEN conjunct2, THEN conjunct2, THEN conjunct2, THEN spec, THEN spec, of ?u 9 "''!''"]
    have "\<exists>u. system_call (hm_contains 100 syscall_hash syscall_buckets)
       (hm_index (alloc_node (0, no_handler) 40 64 4096) 100 syscall_hash syscall_buckets no_handler) True 0 msr' ?u m demo_machine =
         Inr (u, m, demo_machine\<lparr>mc_printed := [Put_Char (CHR ''!'')]\<rparr>) \<and> c_rip u = 0x2000 \<and> c_ss u = 0x13"
      by (simp add: demo_machine_def demo_thread_def new_context_def is_canonical_def emit_def)
    with 1(1) exit show ?thesis by blast
  qed
qed

text \<open>One call, from its handler on.\<close>

lemma syscall_handler_run:
  assumes "contains (y_syscall_number y) table = Inr True" "index (y_syscall_number y) table = Inr (e, table)"
    "running_thread this s = Inr (t, x)" "\<not> hd_service_only e" "hd_handler e = Some h" "h (hd_context e) y s = Inr (y1, s1)"
    "switch_context this t (th_id x) y1 s1 = Inr (y2, s2)" "is_canonical (y_user_rip y2)"
  shows "syscall_handler contains index True this y table s = Inr (y2, table, s2)"
  using assms by (simp add: handler_simps)

lemma running_thread_iff:
  "running_thread this s = Inr (t, x) \<longleftrightarrow> ps_running (mc_procs s) this = Some t \<and> get_thread (ps_threads (mc_procs s)) t = Inr x"
  by (cases "ps_running (mc_procs s) this") (auto simp: running_thread_def)

lemma get_thread_other [simp]: "t \<noteq> u \<Longrightarrow> get_thread (th(u \<mapsto> x)) t = get_thread th t"
  by (simp add: get_thread_def)

lemma get_thread_put: "get_thread th t = Inr x \<Longrightarrow> get_thread (th(t \<mapsto> y)) t = Inr y"
  by (auto simp: get_thread_def split: if_splits)

lemma switch_context_other:
  assumes "tid \<noteq> 0" "running_thread this s = Inr (b, xb)" "b \<noteq> t" "th_id xb \<noteq> tid"
    "get_thread (ps_threads (mc_procs s)) t = Inr x" "thread_valid (Some (th_status x))" "th_context xb = Some c"
  shows "\<exists>s2. switch_context this t tid y s = Inr (load_syscall c y, s2) \<and>
    running_thread this s2 = Inr (b, xb) \<and>
    get_thread (ps_threads (mc_procs s2)) t = Inr (x\<lparr>th_context := thread_save save_syscall y (th_context x)\<rparr>)"
proof -
  let ?x = "x\<lparr>th_context := thread_save save_syscall y (th_context x)\<rparr>"
  let ?s = "s\<lparr>mc_procs := mc_procs s\<lparr>ps_threads := (ps_threads (mc_procs s))(t \<mapsto> ?x)\<rparr>\<rparr>"
  have "save_calling t y s = Inr ?s" using assms(5,6) by (simp add: save_calling_def)
  moreover have "running_thread this ?s = Inr (b, xb)" using assms(2,3) by (simp add: running_thread_iff)
  moreover have "get_thread (ps_threads (mc_procs ?s)) t = Inr ?x" using get_thread_put [OF assms(5)] by simp
  ultimately show ?thesis using assms(1,2,4,7) by (simp add: switch_context_def thread_load_def)
qed

text \<open>
  C37. A system call that blocks its thread, and one that wakes it up. When the handler makes another
  thread the running one, the call returns into that thread, from where it had stopped, and the caller is
  saved; when the handler of a later call on any processor makes the caller the running thread again, that
  call returns into it, with the frame just as its own handler had left it.
\<close>

theorem syscall_block_resume:
  fixes dflt :: "u64 \<times> handler_description"
  assumes table: "hm_view sz asz base j syscall_hash syscall_buckets table r M"
    "M (y_syscall_number ya) = Some ea" "M (y_syscall_number yb) = Some eb"
    "\<not> hd_service_only ea" "\<not> hd_service_only eb" "hd_handler ea = Some ha" "hd_handler eb = Some hb"
  and block: "running_thread this s = Inr (a, xa)" "th_id xa \<noteq> 0" "ha (hd_context ea) ya s = Inr (ya1, s1)"
    "running_thread this s1 = Inr (b, xb)" "b \<noteq> a" "th_id xb \<noteq> th_id xa"
    "get_thread (ps_threads (mc_procs s1)) a = Inr xa1" "thread_valid (Some (th_status xa1))"
    "th_context xb = Some cb" "is_canonical (c_rip cb)"
  and wake: "running_thread that s3 = Inr (c, xc)" "th_id xc \<noteq> 0" "hb (hd_context eb) yb s3 = Inr (yb1, s4)"
    "running_thread that s4 = Inr (a, xa4)" "a \<noteq> c" "th_id xa4 \<noteq> th_id xc"
    "get_thread (ps_threads (mc_procs s4)) c = Inr xc4" "thread_valid (Some (th_status xc4))"
    "th_context xa4 = thread_save save_syscall ya1 (th_context xa1)" "is_canonical (y_user_rip ya1)"
  defines "call \<equiv> syscall_handler (hm_contains j syscall_hash syscall_buckets)
    (hm_index (alloc_node dflt sz asz base) j syscall_hash syscall_buckets no_handler) True"
  shows "(\<exists>s2. call this ya table s = Inr (load_syscall cb ya1, table, s2) \<and> running_thread this s2 = Inr (b, xb) \<and>
      get_thread (ps_threads (mc_procs s2)) a = Inr (xa1\<lparr>th_context := thread_save save_syscall ya1 (th_context xa1)\<rparr>)) \<and>
    (\<exists>s5. call that yb table s3 = Inr (ya1, table, s5) \<and> running_thread that s5 = Inr (a, xa4))"
proof -
  have found: "hm_contains j syscall_hash syscall_buckets n table = Inr True"
    "hm_index (alloc_node dflt sz asz base) j syscall_hash syscall_buckets no_handler n table = Inr (e, table)"
    if "M n = Some e" for n e
    using hmap.contains_law [OF table(1), of n] hmap.index_law [OF table(1) that] that by auto
  from switch_context_other [OF block(2,4,5,6,7,8,9), of ya1] obtain s2 where
    s2: "switch_context this a (th_id xa) ya1 s1 = Inr (load_syscall cb ya1, s2)" "running_thread this s2 = Inr (b, xb)"
      "get_thread (ps_threads (mc_procs s2)) a = Inr (xa1\<lparr>th_context := thread_save save_syscall ya1 (th_context xa1)\<rparr>)" by blast
  have "call this ya table s = Inr (load_syscall cb ya1, table, s2)"
    unfolding call_def using found [OF table(2)] block(1) table(4,6) block(3) s2(1)
    by (rule syscall_handler_run) (use block(10) in \<open>simp add: load_syscall_def\<close>)
  moreover obtain c0 where c0: "th_context xa4 = Some (save_syscall ya1 c0)" using wake(9) by (simp add: thread_save_def)
  moreover have "load_syscall (save_syscall ya1 c0) yb1 = ya1" by (cases ya1; cases yb1) (simp add: context_defs)
  moreover from switch_context_other [OF wake(2,4,5,6,7,8) c0, of yb1] calculation(3) obtain s5 where
    s5: "switch_context that c (th_id xc) yb1 s4 = Inr (ya1, s5)" "running_thread that s5 = Inr (a, xa4)" by auto
  moreover have "call that yb table s3 = Inr (ya1, table, s5)"
    unfolding call_def using found [OF table(3)] wake(1) table(5,7) wake(3) s5(1) wake(10) by (rule syscall_handler_run)
  ultimately show ?thesis using s2 by blast
qed

definition set_running :: "pointer \<Rightarrow> machine \<Rightarrow> machine" where
  "set_running t s = s\<lparr>mc_procs := mc_procs s\<lparr>ps_running := (ps_running (mc_procs s))(0 \<mapsto> t)\<rparr>\<rparr>"

definition run_thread :: "pointer \<Rightarrow> handler" where
  "run_thread t context y s = Inr (y, set_running t s)"

definition demo_entry :: "pointer \<Rightarrow> handler_description" where
  "demo_entry t = \<lparr>hd_handler = Some (run_thread t), hd_context = 0, hd_service_only = False\<rparr>"

definition demo_frame :: "u64 \<Rightarrow> syscall_context" where
  "demo_frame n = enter_syscall (new_context\<lparr>c_rax := n, c_rip := 0x2000 + n\<rparr>)"

definition demo_blocked :: machine where
  "demo_blocked = demo_machine\<lparr>mc_procs := mc_procs demo_machine\<lparr>ps_running := [0 \<mapsto> 2],
     ps_threads := (ps_threads (mc_procs demo_machine))(1 \<mapsto>
       (demo_thread 5)\<lparr>th_context := thread_save save_syscall (demo_frame 7) None\<rparr>)\<rparr>\<rparr>"

lemma syscall_block_resume_witness:
  "\<exists>table. let call = syscall_handler (hm_contains 100 syscall_hash syscall_buckets)
      (hm_index (alloc_node (0, no_handler) 40 64 4096) 100 syscall_hash syscall_buckets no_handler) True in
    (\<exists>s2. call 0 (demo_frame 7) table demo_machine = Inr (load_syscall new_context (demo_frame 7), table, s2)) \<and>
    (\<exists>s5. call 0 (demo_frame 8) table demo_blocked = Inr (demo_frame 7, table, s5))"
proof -
  have sizes: "(0 :: nat) < 40" "(40 :: nat) \<le> 64" "(64 :: nat) \<le> 4096" "(4096 :: nat) div 64 < 100" by simp_all
  have room: "4096 div 64 = Suc (Suc 62)" by simp
  note start = new_hmap_view [OF sizes, of 4096 syscall_hash syscall_buckets "\<lambda>_. None" empty_allocator, unfolded room]
  obtain t1 :: "(u64, handler_description, allocator) hmap" where
    t1: "hm_view 40 64 4096 100 syscall_hash syscall_buckets t1 (Suc 62) (Map.empty(7 \<mapsto> demo_entry 2))"
    using hmap.put_law [OF start, of "(0, no_handler)" 7 "demo_entry 2"] by blast
  obtain table where table: "hm_view 40 64 4096 100 syscall_hash syscall_buckets table 62
      (Map.empty(7 \<mapsto> demo_entry 2, 8 \<mapsto> demo_entry 1))"
    using hmap.put_law [OF t1, of "(0, no_handler)" 8 "demo_entry 1"] by blast
  let ?b = "(demo_thread 6)\<lparr>th_context := Some new_context\<rparr>"
  let ?a = "(demo_thread 5)\<lparr>th_context := thread_save save_syscall (demo_frame 7) None\<rparr>"
  note run = running_thread_iff get_thread_def demo_machine_def demo_blocked_def set_running_def
  have r: "running_thread 0 demo_machine = Inr (1, demo_thread 5)" "running_thread 0 (set_running 2 demo_machine) = Inr (2, ?b)"
    "running_thread 0 demo_blocked = Inr (2, ?b)" "running_thread 0 (set_running 1 demo_blocked) = Inr (1, ?a)"
    by (simp_all add: run)
  have g: "get_thread (ps_threads (mc_procs (set_running 2 demo_machine))) 1 = Inr (demo_thread 5)"
    "get_thread (ps_threads (mc_procs (set_running 1 demo_blocked))) 2 = Inr ?b" by (simp_all add: run)
  have n: "y_syscall_number (demo_frame k) = k" "is_canonical (c_rip new_context)" "is_canonical (y_user_rip (demo_frame 7))"
    "\<not> hd_service_only (demo_entry t)" "hd_handler (demo_entry t) = Some (run_thread t)" for k t
    by (simp_all add: demo_frame_def enter_syscall_def new_context_def is_canonical_def demo_entry_def)
  have i: "th_id (demo_thread 5) = 5" "th_id ?b = 6" "th_id ?a = 5" "thread_valid (Some (th_status ?b))"
    "thread_valid (Some (th_status (demo_thread 5)))" by (simp_all add: demo_thread_def new_tcb_def thread_valid_def)
  have h: "run_thread t x y s = Inr (y, set_running t s)" for t x y s by (simp add: run_thread_def)
  show ?thesis
    using syscall_block_resume [where ya = "demo_frame 7" and yb = "demo_frame 8" and cb = new_context and dflt = "(0, no_handler)",
        OF table _ _ n(4) n(4) n(5) n(5) r(1) _ h r(2) _ _ g(1) i(5) _ n(2) r(3) _ h r(4) _ _ g(2) i(4) _ n(3)]
    by (auto simp: n i Let_def demo_thread_def new_tcb_def)
qed

text \<open>
  The segments a system call returns with. \<open>sysret\<close> takes the entry behind the kernel's code for the
  stack, which is the kernel's data with the level of the user written into the selector; the frame of a
  later interrupt then holds a stack segment that \<open>iretq\<close> refuses. The same thread resumed through a saved
  context gets the segments of the user.
\<close>

theorem sysret_stack_segment:
  "c_cs (leave_syscall (enable_syscalls entry msr msr_star) y) = 0x1B \<and>
   c_ss (leave_syscall (enable_syscalls entry msr msr_star) y) = 0x13 \<and>
   \<not> iret_accepts flat_entries 0x1B (c_ss (leave_syscall (enable_syscalls entry msr msr_star) y)) \<and>
   iret_accepts flat_entries (c_cs (save_syscall y c)) (c_ss (save_syscall y c))"
proof -
  have "g_dpl (flat_entries ! 2) = 0" "g_dpl (flat_entries ! 4) = 3"
    by (simp_all add: flat_entries_def setup_gdte_def null_entry_def eval_nat_numeral)
  moreover have "unat (drop_bit 3 0x13 :: u64) = 2" "unat (drop_bit 3 0x23 :: u64) = 4" by simp_all
  ultimately show ?thesis by (simp add: leave_segments iret_accepts_def save_syscall_def)
qed

end
