(* ===== verification/Rose_Syscall.thy ===== *)
theory Rose_Syscall
  imports Syscalls
begin

text \<open>
  The system calls of the user library (\<open>library/rose/utils.cpp\<close>): ten overloads of one function, each a
  piece of inline assembly that moves its operands into the registers the kernel expects. Where the compiler
  puts an operand with the constraint \<open>r\<close> is a parameter, since the code leaves it open.
\<close>

section \<open>Registers\<close>

datatype reg = Rax | Rbx | Rcx | Rdx | Rsi | Rdi | Rbp | R8 | R9 | R10 | R11 | R12 | R13 | R14 | R15

fun get_reg :: "ctx \<Rightarrow> reg \<Rightarrow> u64" where
  "get_reg u Rax = c_rax u" | "get_reg u Rbx = c_rbx u" | "get_reg u Rcx = c_rcx u" | "get_reg u Rdx = c_rdx u"
| "get_reg u Rsi = c_rsi u" | "get_reg u Rdi = c_rdi u" | "get_reg u Rbp = c_rbp u" | "get_reg u R8 = c_r8 u"
| "get_reg u R9 = c_r9 u" | "get_reg u R10 = c_r10 u" | "get_reg u R11 = c_r11 u" | "get_reg u R12 = c_r12 u"
| "get_reg u R13 = c_r13 u" | "get_reg u R14 = c_r14 u" | "get_reg u R15 = c_r15 u"

fun set_reg :: "reg \<Rightarrow> u64 \<Rightarrow> ctx \<Rightarrow> ctx" where
  "set_reg Rax x u = u\<lparr>c_rax := x\<rparr>" | "set_reg Rbx x u = u\<lparr>c_rbx := x\<rparr>" | "set_reg Rcx x u = u\<lparr>c_rcx := x\<rparr>"
| "set_reg Rdx x u = u\<lparr>c_rdx := x\<rparr>" | "set_reg Rsi x u = u\<lparr>c_rsi := x\<rparr>" | "set_reg Rdi x u = u\<lparr>c_rdi := x\<rparr>"
| "set_reg Rbp x u = u\<lparr>c_rbp := x\<rparr>" | "set_reg R8 x u = u\<lparr>c_r8 := x\<rparr>" | "set_reg R9 x u = u\<lparr>c_r9 := x\<rparr>"
| "set_reg R10 x u = u\<lparr>c_r10 := x\<rparr>" | "set_reg R11 x u = u\<lparr>c_r11 := x\<rparr>" | "set_reg R12 x u = u\<lparr>c_r12 := x\<rparr>"
| "set_reg R13 x u = u\<lparr>c_r13 := x\<rparr>" | "set_reg R14 x u = u\<lparr>c_r14 := x\<rparr>" | "set_reg R15 x u = u\<lparr>c_r15 := x\<rparr>"

lemma get_set_reg [simp]: "get_reg (set_reg r x u) q = (if q = r then x else get_reg u q)"
  by (cases r; cases q) simp_all

section \<open>The overloads\<close>

text \<open>
  Argument \<open>j\<close> of the overload with \<open>n\<close> arguments, besides the number, is meant for register
  \<open>arg_reg j\<close>. The first two are bound to their registers; the last ones of the two longest overloads are
  memory operands.
\<close>

definition arg_reg :: "nat \<Rightarrow> reg" where
  "arg_reg j = [Rsi, Rdi, R8, R9, R10, R12, R13, R14, R15] ! j"

definition in_memory :: "nat \<Rightarrow> nat \<Rightarrow> bool" where
  "in_memory n j \<longleftrightarrow> n = 8 \<and> j = 7 \<or> n = 9 \<and> 6 \<le> j"

text \<open>The operands the compiler places, and what it may do: distinct registers, none of the bound ones.\<close>

definition placed :: "nat \<Rightarrow> nat set" where
  "placed n = {j. 2 \<le> j \<and> j < n \<and> \<not> in_memory n j}"

definition may_place :: "nat \<Rightarrow> (nat \<Rightarrow> reg) \<Rightarrow> bool" where
  "may_place n pl \<longleftrightarrow> inj_on pl (placed n) \<and> (\<forall>j\<in>placed n. pl j \<notin> {Rax, Rsi, Rdi})"

text \<open>The registers when the assembly starts, and the moves in front of \<open>syscall\<close>.\<close>

definition operand :: "(nat \<Rightarrow> reg) \<Rightarrow> nat \<Rightarrow> nat \<Rightarrow> reg" where
  "operand pl n j = (if j < 2 then arg_reg j else pl j)"

definition bind_operands :: "nat \<Rightarrow> (nat \<Rightarrow> reg) \<Rightarrow> u64 \<Rightarrow> u64 list \<Rightarrow> ctx \<Rightarrow> ctx" where
  "bind_operands n pl number args u =
     fold (\<lambda>j u. if in_memory n j then u else set_reg (operand pl n j) (args ! j) u) [0..<n] (set_reg Rax number u)"

definition move_operands :: "nat \<Rightarrow> (nat \<Rightarrow> reg) \<Rightarrow> u64 list \<Rightarrow> ctx \<Rightarrow> ctx" where
  "move_operands n pl args u =
     fold (\<lambda>j u. set_reg (arg_reg j) (if in_memory n j then args ! j else get_reg u (pl j)) u) [2..<n] u"

text \<open>
  The whole function: \<open>call\<close> is what \<open>syscall\<close> does, \<open>out\<close> the register that the output constraint \<open>=r\<close>
  stands for.
\<close>

definition rose_syscall :: "(ctx \<Rightarrow> 's \<Rightarrow> (ctx \<times> 's) result) \<Rightarrow> reg \<Rightarrow> (nat \<Rightarrow> reg) \<Rightarrow> u64 \<Rightarrow> u64 list \<Rightarrow> ctx \<Rightarrow> 's \<Rightarrow>
    (u64 \<times> ctx \<times> 's) result" where
  "rose_syscall call out pl number args u s =
     (let n = length args; u = move_operands n pl args (bind_operands n pl number args u) in
      rbind (call u s) (\<lambda>(u, s). Inr (get_reg u out, u, s)))"

definition rose_print :: "(ctx \<Rightarrow> 's \<Rightarrow> (ctx \<times> 's) result) \<Rightarrow> reg \<Rightarrow> u64 \<Rightarrow> ctx \<Rightarrow> 's \<Rightarrow> (ctx \<times> 's) result" where
  "rose_print call out text u s =
     rbind (rose_syscall call out (\<lambda>_. Rax) (syscall_code Service_Kernel_Console_Print) [text] u s) (\<lambda>(_, u, s). Inr (u, s))"

section \<open>Loads of registers\<close>

lemma fold_skip: "fold (\<lambda>j u. if P j then u else g j u) xs u = fold g (filter (\<lambda>j. \<not> P j) xs) u"
  by (induction xs arbitrary: u) simp_all

lemma fold_set_miss: "r \<notin> f ` set js \<Longrightarrow> get_reg (fold (\<lambda>j. set_reg (f j) (v j)) js u) r = get_reg u r"
  by (induction js arbitrary: u) auto

lemma fold_set_hit:
  "inj_on f (set js) \<Longrightarrow> distinct js \<Longrightarrow> j \<in> set js \<Longrightarrow> get_reg (fold (\<lambda>j. set_reg (f j) (v j)) js u) (f j) = v j"
proof (induction js arbitrary: u)
  case (Cons k js)
  show ?case
  proof (cases "j = k")
    case True
    with Cons.prems have "f j \<notin> f ` set js" by (auto simp: inj_on_def)
    with True show ?thesis by (simp add: fold_set_miss)
  next
    case False
    with Cons.prems Cons.IH [of "set_reg (f k) (v k) u"] show ?thesis by simp
  qed
qed simp

lemma arg_reg_inj: "i < 9 \<Longrightarrow> j < 9 \<Longrightarrow> arg_reg i = arg_reg j \<longleftrightarrow> i = j"
proof -
  have "distinct [Rsi, Rdi, R8, R9, R10, R12, R13, R14, R15]" by simp
  then show "i < 9 \<Longrightarrow> j < 9 \<Longrightarrow> arg_reg i = arg_reg j \<longleftrightarrow> i = j"
    unfolding arg_reg_def by (simp add: nth_eq_iff_index_eq del: distinct.simps)
qed

lemma arg_reg_first: "arg_reg 0 = Rsi" "arg_reg (Suc 0) = Rdi"
  by (simp_all add: arg_reg_def)

lemma arg_reg_not_rax:
  assumes "j < 9"
  shows "arg_reg j \<noteq> Rax"
proof -
  have "arg_reg j \<in> set [Rsi, Rdi, R8, R9, R10, R12, R13, R14, R15]"
    unfolding arg_reg_def using assms by (intro nth_mem) simp
  then show ?thesis by auto
qed

lemma operand_inj:
  assumes "n \<le> 9" "may_place n pl"
  shows "inj_on (operand pl n) {j. j < n \<and> \<not> in_memory n j}" "Rax \<notin> operand pl n ` {j. j < n \<and> \<not> in_memory n j}"
proof -
  have split: "{j. j < n \<and> \<not> in_memory n j} \<subseteq> {0, 1} \<union> placed n"
    by (auto simp: placed_def)
  have "inj_on (operand pl n) ({0, 1} \<union> placed n)"
    using assms(2) by (auto simp: inj_on_def may_place_def operand_def arg_reg_first placed_def)
  then show "inj_on (operand pl n) {j. j < n \<and> \<not> in_memory n j}" using split by (rule inj_on_subset)
  have "Rax \<notin> operand pl n ` ({0, 1} \<union> placed n)"
    using assms(2) by (auto simp: may_place_def operand_def arg_reg_first placed_def)
  with split show "Rax \<notin> operand pl n ` {j. j < n \<and> \<not> in_memory n j}" by blast
qed

lemma bind_operands_get:
  assumes "n \<le> 9" "may_place n pl"
  shows "get_reg (bind_operands n pl number args u) Rax = number"
    "j < n \<Longrightarrow> \<not> in_memory n j \<Longrightarrow> get_reg (bind_operands n pl number args u) (operand pl n j) = args ! j"
proof -
  let ?js = "filter (\<lambda>j. \<not> in_memory n j) [0..<n]"
  have set: "set ?js = {j. j < n \<and> \<not> in_memory n j}" by auto
  show "get_reg (bind_operands n pl number args u) Rax = number"
    unfolding bind_operands_def fold_skip using operand_inj(2) [OF assms] by (subst fold_set_miss) (simp_all add: set)
  show "j < n \<Longrightarrow> \<not> in_memory n j \<Longrightarrow> get_reg (bind_operands n pl number args u) (operand pl n j) = args ! j"
    unfolding bind_operands_def fold_skip using operand_inj(1) [OF assms]
    by (intro fold_set_hit) (simp_all add: set)
qed

section \<open>The moves\<close>

text \<open>The moves up to \<open>m\<close>, when none of their operands has been overwritten by an earlier one.\<close>

definition moves_to :: "nat \<Rightarrow> nat \<Rightarrow> (nat \<Rightarrow> reg) \<Rightarrow> u64 list \<Rightarrow> ctx \<Rightarrow> ctx" where
  "moves_to m n pl args u =
     fold (\<lambda>j u. set_reg (arg_reg j) (if in_memory n j then args ! j else get_reg u (pl j)) u) [2..<m] u"

lemma moves_to_Suc:
  "2 \<le> m \<Longrightarrow> moves_to (Suc m) n pl args u =
     set_reg (arg_reg m) (if in_memory n m then args ! m else get_reg (moves_to m n pl args u) (pl m)) (moves_to m n pl args u)"
  by (simp add: moves_to_def)

lemma moves_to_two [simp]: "moves_to 2 n pl args u = u"
  by (simp add: moves_to_def)

definition undisturbed :: "nat \<Rightarrow> nat \<Rightarrow> (nat \<Rightarrow> reg) \<Rightarrow> bool" where
  "undisturbed m n pl \<longleftrightarrow> (\<forall>j\<in>placed n. j < m \<longrightarrow> (\<forall>i. 2 \<le> i \<and> i < j \<longrightarrow> pl j \<noteq> arg_reg i))"

lemma moves_to_get:
  assumes "n \<le> 9" "2 \<le> m" "m \<le> n" "undisturbed m n pl"
    and start: "\<And>j. j \<in> placed n \<Longrightarrow> get_reg u (pl j) = args ! j"
  shows "(\<forall>j. 2 \<le> j \<and> j < m \<longrightarrow> get_reg (moves_to m n pl args u) (arg_reg j) = args ! j) \<and>
    (\<forall>r. (\<forall>j. 2 \<le> j \<and> j < m \<longrightarrow> arg_reg j \<noteq> r) \<longrightarrow> get_reg (moves_to m n pl args u) r = get_reg u r)"
  using assms(2,3,4)
proof (induction m rule: dec_induct)
  case base
  then show ?case by auto
next
  case (step m)
  then have un: "undisturbed m n pl" by (simp add: undisturbed_def)
  let ?u = "moves_to m n pl args u"
  have v: "(if in_memory n m then args ! m else get_reg ?u (pl m)) = args ! m"
  proof (cases "in_memory n m")
    case False
    with step have "m \<in> placed n" by (simp add: placed_def)
    with step.prems(2) have "\<forall>j. 2 \<le> j \<and> j < m \<longrightarrow> arg_reg j \<noteq> pl m" by (metis lessI undisturbed_def)
    with step.IH step.prems(1) un have "get_reg ?u (pl m) = get_reg u (pl m)" by simp
    with start [OF \<open>m \<in> placed n\<close>] False show ?thesis by simp
  qed simp
  have "moves_to (Suc m) n pl args u = set_reg (arg_reg m) (args ! m) ?u"
    using step.hyps(1) v by (simp add: moves_to_Suc)
  moreover have "arg_reg j \<noteq> arg_reg m" if "j < m" for j
    using that step.prems(1) assms(1) by (simp add: arg_reg_inj)
  ultimately show ?case using step.hyps(1) step.IH step.prems(1) un by (auto simp: less_Suc_eq)
qed

lemma moves_to_overwritten:
  assumes "n \<le> 9" "j \<in> placed n" "2 \<le> i" "i < j" "pl j = arg_reg i" "undisturbed j n pl"
    and start: "\<And>j. j \<in> placed n \<Longrightarrow> get_reg u (pl j) = args ! j"
  shows "Suc j \<le> m \<Longrightarrow> m \<le> n \<Longrightarrow> get_reg (moves_to m n pl args u) (arg_reg j) = args ! i"
proof (induction m rule: dec_induct)
  case base
  have j: "2 \<le> j" "j < n" "\<not> in_memory n j" using assms(2) by (simp_all add: placed_def)
  then have "get_reg (moves_to j n pl args u) (arg_reg i) = args ! i"
    using moves_to_get [OF assms(1) _ _ assms(6) start] assms(3,4) by simp
  with j assms(5) show ?case by (simp add: moves_to_Suc)
next
  case (step m)
  then have "arg_reg m \<noteq> arg_reg j" using assms(1) by (simp add: arg_reg_inj)
  with step assms(2) show ?case by (simp add: moves_to_Suc placed_def)
qed

text \<open>
  Which arguments of a system call reach the kernel. The number always does, and all the arguments of
  every call do exactly if the compiler has placed no operand in a register that an earlier move of the same
  piece of assembly writes; nothing in the code keeps it from doing so.
\<close>

theorem rose_syscall_args:
  assumes "n \<le> 9" "may_place n pl"
  shows "(\<forall>number args u. length args = n \<longrightarrow>
      (let u' = move_operands n pl args (bind_operands n pl number args u)
       in get_reg u' Rax = number \<and> (\<forall>j<n. get_reg u' (arg_reg j) = args ! j))) \<longleftrightarrow>
    (\<forall>j\<in>placed n. \<forall>i. 2 \<le> i \<and> i < j \<longrightarrow> pl j \<noteq> arg_reg i)"
  (is "?all \<longleftrightarrow> ?apart")
proof
  assume apart: ?apart
  then have un: "undisturbed n n pl" by (simp add: undisturbed_def)
  show ?all
  proof (intro allI impI, unfold Let_def)
    fix number :: u64 and args :: "u64 list" and u
    assume "length args = n"
    let ?u = "bind_operands n pl number args u"
    have start: "get_reg ?u (pl j) = args ! j" if "j \<in> placed n" for j
      using bind_operands_get(2) [OF assms, of j number args u] that by (simp add: placed_def operand_def)
    have first: "get_reg ?u (arg_reg j) = args ! j" if "j < n" "j < 2" for j
      using bind_operands_get(2) [OF assms, of j number args u] that by (simp add: in_memory_def operand_def)
    show "get_reg (move_operands n pl args ?u) Rax = number \<and> (\<forall>j<n. get_reg (move_operands n pl args ?u) (arg_reg j) = args ! j)"
    proof (cases "2 \<le> n")
      case True
      from moves_to_get [OF assms(1) True _ un start]
      have m: "\<And>j. 2 \<le> j \<Longrightarrow> j < n \<Longrightarrow> get_reg (move_operands n pl args ?u) (arg_reg j) = args ! j"
        "\<And>r. (\<forall>j. 2 \<le> j \<and> j < n \<longrightarrow> arg_reg j \<noteq> r) \<Longrightarrow> get_reg (move_operands n pl args ?u) r = get_reg ?u r"
        by (simp_all add: moves_to_def move_operands_def)
      have "get_reg (move_operands n pl args ?u) Rax = number"
        using m(2) [of Rax] arg_reg_not_rax assms(1) bind_operands_get(1) [OF assms] by simp
      moreover have "get_reg (move_operands n pl args ?u) (arg_reg j) = args ! j" if "j < n" for j
        using m(1) [of j] m(2) [of "arg_reg j"] first that assms(1) by (cases "j < 2") (auto simp: arg_reg_inj)
      ultimately show ?thesis by blast
    next
      case False
      then have "move_operands n pl args ?u = ?u" by (simp add: move_operands_def)
      with False first bind_operands_get(1) [OF assms] show ?thesis by simp
    qed
  qed
next
  assume all: ?all
  show ?apart
  proof (rule ccontr)
    assume "\<not> ?apart"
    define bad where "bad = (\<lambda>j. j \<in> placed n \<and> (\<exists>i. 2 \<le> i \<and> i < j \<and> pl j = arg_reg i))"
    from \<open>\<not> ?apart\<close> have "\<exists>j. bad j" unfolding bad_def by blast
    then have j: "bad (LEAST j. bad j)" and least: "\<And>k. k < (LEAST j. bad j) \<Longrightarrow> \<not> bad k"
      by (rule LeastI_ex) (rule not_less_Least)
    define j where "j = (LEAST j. bad j)"
    note j = j [folded j_def, unfolded bad_def, THEN conjunct1] j [folded j_def, unfolded bad_def, THEN conjunct2]
      and least = least [folded j_def, unfolded bad_def]
    from j(2) obtain i where i: "2 \<le> i" "i < j" "pl j = arg_reg i" by blast
    have un: "undisturbed j n pl" using least by (auto simp: undisturbed_def)
    let ?args = "map of_nat [0..<n] :: u64 list"
    let ?u = "bind_operands n pl 0 ?args new_context"
    have jn: "j < n" using j(1) by (simp add: placed_def)
    have start: "get_reg ?u (pl j) = ?args ! j" if "j \<in> placed n" for j
      using bind_operands_get(2) [OF assms, of j 0 ?args new_context] that by (simp add: placed_def operand_def)
    have "get_reg (move_operands n pl ?args ?u) (arg_reg j) = ?args ! i"
      using moves_to_overwritten [OF assms(1) j(1) i un start] jn by (simp add: moves_to_def move_operands_def)
    moreover have "get_reg (move_operands n pl ?args ?u) (arg_reg j) = ?args ! j"
      using all [rule_format, of ?args 0 new_context] jn by (simp add: Let_def)
    ultimately have "(of_nat i :: u64) = of_nat j" using i jn by simp
    then show False using i(2) jn assms(1) by (simp add: of_nat_u64_inject)
  qed
qed

text \<open>Three arguments behind the first two, and a placement that loses the second of them.\<close>

lemma rose_syscall_args_witness:
  "(\<exists>number args u. length args = 4 \<and>
     (let pl = (\<lambda>j. if j = 2 then Rbx else R8); u' = move_operands 4 pl args (bind_operands 4 pl number args u)
      in get_reg u' Rax = number \<longrightarrow> (\<exists>j<4. get_reg u' (arg_reg j) \<noteq> args ! j)))"
proof -
  let ?pl = "\<lambda>j :: nat. if j = 2 then Rbx else R8"
  have placed: "placed 4 = {2, 3}" by (auto simp: placed_def in_memory_def)
  then have "may_place 4 ?pl" by (simp add: may_place_def)
  moreover have "?pl 3 = arg_reg 2" by (simp add: arg_reg_def)
  then have "\<not> (\<forall>j\<in>placed 4. \<forall>i. 2 \<le> i \<and> i < j \<longrightarrow> ?pl j \<noteq> arg_reg i)" using placed by force
  ultimately show ?thesis using rose_syscall_args [of 4 ?pl] by (auto simp: Let_def)
qed

section \<open>Printing from a service\<close>

definition kernel_call :: "(u64 \<Rightarrow> 'm \<Rightarrow> bool result) \<Rightarrow> (u64 \<Rightarrow> 'm \<Rightarrow> (handler_description \<times> 'm) result) \<Rightarrow> nat \<Rightarrow>
    (u32 \<Rightarrow> u64) \<Rightarrow> ctx \<Rightarrow> 'm \<times> machine \<Rightarrow> (ctx \<times> 'm \<times> machine) result" where
  "kernel_call contains index this msr u s = system_call contains index True this msr u (fst s) (snd s)"

text \<open>
  C38. The whole way of a text from a service to the console: \<open>rose::service::print\<close> on the user's side, the
  entry into the kernel, the table of handlers, and back. The text is printed once, the service continues
  behind the call with its stack, \<open>rbx\<close>, \<open>rbp\<close> and the registers from \<open>r12\<close> on as they were, and no
  thread has changed.
\<close>

theorem service_print:
  assumes "0 < sz" "sz \<le> asz" "asz \<le> 4096" "4096 div asz < j" and run: "running_thread this s = Inr (t, x)"
    and service: "th_parent x = Some p" "mc_service s p = Some True" "is_canonical (c_rip u)"
    and memory: "\<forall>i<length w. mc_memory s (a + of_nat i) = Some (w ! i)" "mc_memory s (a + of_nat (length w)) = Some (CHR 0x00)"
      "length w < k" "CHR 0x00 \<notin> set w" "CHR 0x5C \<notin> set w"
  shows "\<exists>msr' m u'. syscalls_initialize (hm_insert (alloc_node dflt sz asz base) j syscall_hash syscall_buckets) k entry
      (new_hmap st empty_allocator al) msr = Inr (msr', m) \<and>
    rose_print (kernel_call (hm_contains j syscall_hash syscall_buckets)
        (hm_index (alloc_node dflt sz asz base) j syscall_hash syscall_buckets no_handler) this msr') out a u (m, s) =
      Inr (u', m, s\<lparr>mc_printed := mc_printed s @ concat (map (emit (mc_console s)) w)\<rparr>) \<and>
    c_rip u' = c_rip u \<and> c_rsp u' = c_rsp u \<and>
    (\<forall>r\<in>{Rbx, Rbp, Rdi, R8, R9, R10, R12, R13, R14, R15}. get_reg u' r = get_reg u r)"
proof -
  let ?u = "u\<lparr>c_rax := 0, c_rsi := a\<rparr>"
  have pre: "c_rax ?u = 0 \<and> th_parent x = Some p \<and> mc_service s p = Some True \<and> is_canonical (c_rip ?u) \<and>
      (\<forall>i<length w. mc_memory s (c_rsi ?u + of_nat i) = Some (w ! i)) \<and>
      mc_memory s (c_rsi ?u + of_nat (length w)) = Some (CHR 0x00) \<and> length w < k \<and>
      CHR 0x00 \<notin> set w \<and> CHR 0x5C \<notin> set w"
    using service memory by simp
  have start: "move_operands 1 (\<lambda>_. Rax) [a] (bind_operands 1 (\<lambda>_. Rax) 0 [a] u) = ?u"
    by (simp add: move_operands_def bind_operands_def in_memory_def operand_def arg_reg_def)
  show ?thesis
    using initialized_calls [OF assms(1-4) run, of dflt base k entry st al msr]
  proof (elim exE conjE, goal_cases)
    case (1 msr' m)
    note call = 1(2) [THEN spec, of ?u, unfolded Let_def, THEN conjunct2, THEN conjunct2, THEN conjunct2, THEN spec, THEN spec, THEN mp, OF pre]
    let ?v = "?u\<lparr>c_rcx := c_rip u, c_rdx := c_rsp u, c_r11 := c_rflags u, c_cs := 0x1B, c_ss := 0x13,
      c_rflags := (c_rflags u AND 0x3C7FD7) OR 2\<rparr>"
    have "rose_print (kernel_call (hm_contains j syscall_hash syscall_buckets)
        (hm_index (alloc_node dflt sz asz base) j syscall_hash syscall_buckets no_handler) this msr') out a u (m, s) =
      Inr (?v, m, s\<lparr>mc_printed := mc_printed s @ concat (map (emit (mc_console s)) w)\<rparr>)"
      using call start by (simp add: rose_print_def rose_syscall_def kernel_call_def)
    then show ?thesis
      using 1(1) by (intro exI [of _ msr'] exI [of _ m] exI [of _ ?v] conjI) simp_all
  qed
qed

lemma service_print_witness:
  "\<exists>msr' m u'. syscalls_initialize (hm_insert (alloc_node (0, no_handler) 40 64 4096) 100 syscall_hash syscall_buckets) 10 0
      (new_hmap (\<lambda>_. None) empty_allocator empty_allocator) (\<lambda>_. 0) = Inr (msr', m) \<and>
    rose_print (kernel_call (hm_contains 100 syscall_hash syscall_buckets)
        (hm_index (alloc_node (0, no_handler) 40 64 4096) 100 syscall_hash syscall_buckets no_handler) 0 msr') Rax 0x1000 new_context
        (m, demo_machine) =
      Inr (u', m, demo_machine\<lparr>mc_printed := [Put_Char (CHR ''!'')]\<rparr>)"
proof -
  have sizes: "(0 :: nat) < 40" "(40 :: nat) \<le> 64" "(64 :: nat) \<le> 4096" "(4096 :: nat) div 64 < 100" by simp_all
  have "th_parent (demo_thread 5) = Some 9" "mc_service demo_machine 9 = Some True" "is_canonical (c_rip new_context)"
    by (simp_all add: demo_thread_def demo_machine_def new_context_def is_canonical_def)
  from service_print [OF sizes demo_running this, where w = "''!''" and a = "0x1000" and k = 10 and dflt = "(0, no_handler)" and base = 4096 and
      entry = 0 and st = "\<lambda>_. None" and al = empty_allocator and msr = "\<lambda>_. 0" and out = Rax]
  show ?thesis by (simp add: demo_machine_def emit_def) blast
qed

end
