(* ===== verification/Raf.thy ===== *)
theory Raf
  imports Acpi
begin

text \<open>
  The archive of the initial ram disk (\<open>kernel/utils/raf.h\<close>, \<open>raf.cpp\<close>): the test of its header and the
  search for a file. The archive is the list of its bytes, addresses are relative to its beginning.
\<close>

section \<open>Opening and searching\<close>

text \<open>The header has 64 bytes: the size of the archive is at 24, the number of files at 32.\<close>

definition raf_header_size :: nat where
  "raf_header_size = 64"

definition raf_validate :: "table \<Rightarrow> bool result" where
  "raf_validate img =
     (if length img < raf_header_size then Inl Page_Fault
      else if take 4 img \<noteq> [0x72, 0x61, 0x66, 0xAB] \<or> img ! 4 = 0 then Inr False
      else Inr (checksum (take raf_header_size img) = 0))"

definition raf_open :: "u64 \<Rightarrow> u64 \<Rightarrow> table \<Rightarrow> unit result" where
  "raf_open start stop img =
     rbind (raf_validate img) (\<lambda>valid.
     rbind (get_le 8 img 24) (\<lambda>sz :: u64.
     rbind (require (valid \<and> \<not> 512 < stop - start - sz) (Panic ''Provided initial ram disk is not a valid RAF archive.'')) (\<lambda>_.
     rbind (get_le 1 img 4) (\<lambda>version :: u8.
     require (\<not> 1 < version)
       (Panic ''Initial ram disk uses an unsupported version of RAF (versions up to 1 are supported).'')))))"

text \<open>\<open>_compare\<close>: \<open>name\<close> is the list of the bytes from the pointer on, with its terminator.\<close>

fun raf_compare :: "u8 list \<Rightarrow> table \<Rightarrow> nat \<Rightarrow> nat \<Rightarrow> bool result" where
  "raf_compare name img sized 0 = Inr True"
| "raf_compare name img sized (Suc n) =
     (case name of
        [] \<Rightarrow> Inl Out_Of_Bounds
      | c # cs \<Rightarrow>
          if c = 0 then Inr False
          else rbind (get_le 1 img sized) (\<lambda>d. if c \<noteq> d then Inr False else raf_compare cs img (sized + 1) n))"

text \<open>The loop of \<open>operator[]\<close>; \<open>first\<close> stays at the first file header in every round.\<close>

fun raf_scan :: "nat \<Rightarrow> u8 list \<Rightarrow> table \<Rightarrow> nat \<Rightarrow> (u64 \<times> u64) result" where
  "raf_scan 0 name img first = Inl (Panic ''Couldn't find a file in initial ram disk.'')"
| "raf_scan (Suc i) name img first =
     rbind (get_le 8 img (first + 16)) (\<lambda>len :: u64.
     rbind (raf_compare name img (first + 24) (unat len)) (\<lambda>same.
     if same
     then rbind (get_le 8 img first) (\<lambda>offset. rbind (get_le 8 img (first + 8)) (\<lambda>sz. Inr (offset, offset + sz)))
     else raf_scan i name img first))"

definition raf_get :: "u8 list \<Rightarrow> table \<Rightarrow> (u64 \<times> u64) result" where
  "raf_get name img = rbind (get_le 8 img 32) (\<lambda>count :: u64. raf_scan (unat count) name img raf_header_size)"

section \<open>Archives\<close>

text \<open>
  What an archive of files looks like: the header, whose bytes sum up to zero, the headers of the files
  one after the other with their names, and the contents in the same order.
\<close>

type_synonym raf_file = "u8 list \<times> u8 list"

fun raf_file_headers :: "nat \<Rightarrow> raf_file list \<Rightarrow> u8 list" where
  "raf_file_headers off [] = []"
| "raf_file_headers off (f # fs) =
     bytes_of_word 8 (of_nat off :: u64) @ bytes_of_word 8 (of_nat (length (snd f)) :: u64) @
     bytes_of_word 8 (of_nat (length (fst f)) :: u64) @ fst f @ raf_file_headers (off + length (snd f)) fs"

definition raf_data_start :: "raf_file list \<Rightarrow> nat" where
  "raf_data_start fs = raf_header_size + length (raf_file_headers 0 fs)"

definition raf_size :: "raf_file list \<Rightarrow> nat" where
  "raf_size fs = raf_data_start fs + length (concat (map snd fs))"

definition raf_header_rest :: "u64 \<Rightarrow> u64 \<Rightarrow> raf_file list \<Rightarrow> u8 list" where
  "raf_header_rest created modified fs =
     [0, 0] @ bytes_of_word 8 created @ bytes_of_word 8 modified @ bytes_of_word 8 (of_nat (raf_size fs) :: u64) @
     bytes_of_word 8 (of_nat (length fs) :: u64) @ replicate 24 0"

definition raf_image :: "u64 \<Rightarrow> u64 \<Rightarrow> raf_file list \<Rightarrow> u8 list" where
  "raf_image created modified fs =
     [0x72, 0x61, 0x66, 0xAB, 1, - checksum ([0x72, 0x61, 0x66, 0xAB, 1] @ raf_header_rest created modified fs)] @
     raf_header_rest created modified fs @ raf_file_headers (raf_data_start fs) fs @ concat (map snd fs)"

section \<open>Reading the archive\<close>

lemma get_le_at:
  "k = length xs \<Longrightarrow> n = length ys \<Longrightarrow> get_le n (xs @ ys @ zs) k = Inr (word_of_bytes ys)"
  by (simp add: get_le_def)

lemma checksum_Nil [simp]: "checksum [] = 0"
  by (simp add: checksum_def)

lemma fold_plus_word: "fold (+) bs (x :: u8) = x + fold (+) bs 0"
  by (induction bs arbitrary: x) (simp, metis (no_types, lifting) add.assoc add.commute fold_simps(2) add_0)

lemma checksum_Cons [simp]: "checksum (b # bs) = b + checksum bs"
  using fold_plus_word [of bs b] by (simp add: checksum_def)

lemma checksum_append [simp]: "checksum (as @ bs) = checksum as + checksum bs"
  by (induction as) (simp_all add: add.assoc)

lemma length_file_headers [simp]: "length (raf_file_headers a fs) = (\<Sum>f\<leftarrow>fs. 24 + length (fst f))"
  by (induction fs arbitrary: a) simp_all

lemma length_header_rest [simp]: "length (raf_header_rest c m fs) = 58"
  by (simp add: raf_header_rest_def)

lemma length_raf_image: "length (raf_image c m fs) = raf_size fs"
  by (simp add: raf_image_def raf_size_def raf_data_start_def raf_header_size_def)

lemma raf_image_validate: "raf_validate (raf_image c m fs) = Inr True"
  by (simp add: raf_validate_def raf_image_def raf_header_size_def numeral_eq_Suc)

lemma raf_image_fields:
  "get_le 8 (raf_image c m fs) 24 = Inr (of_nat (raf_size fs) :: u64)"
  "get_le 8 (raf_image c m fs) 32 = Inr (of_nat (length fs) :: u64)"
  "get_le 1 (raf_image c m fs) 4 = Inr (1 :: u8)"
proof -
  let ?h = "[0x72, 0x61, 0x66, 0xAB, 1, - checksum ([0x72, 0x61, 0x66, 0xAB, 1] @ raf_header_rest c m fs)]"
  let ?xs = "?h @ [0, 0] @ bytes_of_word 8 c @ bytes_of_word 8 m"
  let ?t = "replicate 24 0 @ raf_file_headers (raf_data_start fs) fs @ concat (map snd fs)"
  have img: "raf_image c m fs = ?xs @ bytes_of_word 8 (of_nat (raf_size fs) :: u64) @ bytes_of_word 8 (of_nat (length fs) :: u64) @ ?t"
    by (simp add: raf_image_def raf_header_rest_def)
  show "get_le 8 (raf_image c m fs) 24 = Inr (of_nat (raf_size fs) :: u64)"
    unfolding img by (subst get_le_at) simp_all
  show "get_le 8 (raf_image c m fs) 32 = Inr (of_nat (length fs) :: u64)"
    unfolding img append_assoc [of ?xs, symmetric] by (subst get_le_at) simp_all
  have "raf_image c m fs = [0x72, 0x61, 0x66, 0xAB] @ [1] @ tl (drop 4 (raf_image c m fs))"
    by (simp add: raf_image_def)
  then show "get_le 1 (raf_image c m fs) 4 = Inr (1 :: u8)"
    using get_le_at [of 4 "[0x72, 0x61, 0x66, 0xAB]" 1 "[1]" "tl (drop 4 (raf_image c m fs))", where 'a = 8] by simp
qed

text \<open>The header of the first file stands right behind the header of the archive.\<close>

lemma raf_first_header:
  obtains xs ys where "length xs = raf_header_size"
    "raf_image c m (f # fs) = xs @ bytes_of_word 8 (of_nat (raf_data_start (f # fs)) :: u64) @
       bytes_of_word 8 (of_nat (length (snd f)) :: u64) @ bytes_of_word 8 (of_nat (length (fst f)) :: u64) @ fst f @ ys"
proof -
  let ?xs = "[0x72, 0x61, 0x66, 0xAB, 1, - checksum ([0x72, 0x61, 0x66, 0xAB, 1] @ raf_header_rest c m (f # fs))] @ raf_header_rest c m (f # fs)"
  show thesis
    by (rule that [of ?xs "raf_file_headers (raf_data_start (f # fs) + length (snd f)) fs @ concat (map snd (f # fs))"])
      (simp_all add: raf_header_size_def raf_image_def)
qed

lemma raf_compare_prefix:
  assumes "0 \<notin> set w" "0 \<notin> set n" "drop off img = n @ zs"
  shows "raf_compare (w @ [0]) img off (length n) = Inr (take (length n) w = n)"
  using assms
proof (induction n arbitrary: w off)
  case (Cons d n)
  have off: "off < length img" using Cons.prems(3) by (metis append_Cons drop_eq_Nil2 list.distinct(1) not_le)
  have d: "get_le 1 img off = Inr (d :: u8)"
    using Cons.prems(3) off by (simp add: get_le_def)
  have rest: "drop (Suc off) img = n @ zs" using Cons.prems(3) by (metis append_Cons drop_Suc list.sel(3) tl_drop)
  show ?case
  proof (cases w)
    case (Cons c cs)
    with Cons.prems have "c \<noteq> 0" "0 \<notin> set cs" by auto
    with Cons Cons.IH [of cs "Suc off"] Cons.prems rest d show ?thesis by simp
  qed simp
qed simp

lemma raf_contents: "drop (raf_data_start fs) (raf_image c m fs) = concat (map snd fs)"
proof -
  let ?h = "[0x72, 0x61, 0x66, 0xAB, 1, - checksum ([0x72, 0x61, 0x66, 0xAB, 1] @ raf_header_rest c m fs)]"
  let ?pre = "?h @ raf_header_rest c m fs @ raf_file_headers (raf_data_start fs) fs"
  have "length ?pre = raf_data_start fs" by (simp add: raf_data_start_def raf_header_size_def)
  then have "drop (raf_data_start fs) (?pre @ concat (map snd fs)) = concat (map snd fs)" by (metis append_eq_conv_conj)
  then show ?thesis by (simp only: raf_image_def append_assoc)
qed

lemma headers_le: "length fs \<le> (\<Sum>f\<leftarrow>fs. 24 + length (fst f))"
  by (induction fs) simp_all

lemma raf_scan_repeat:
  assumes "get_le 8 img (first + 16) = Inr (len :: u64)" "raf_compare name img (first + 24) (unat len) = Inr False"
  shows "raf_scan i name img first = Inl (Panic ''Couldn't find a file in initial ram disk.'')"
  using assms by (induction i) simp_all

section \<open>Properties\<close>

text \<open>
  C39. The kernel accepts a well-formed archive, but of its files it only ever finds the first: a name is
  found exactly if the name of the first file is a prefix of it, and is answered with the contents of the
  first file; for any other name, those of the later files among them, the kernel panics.
\<close>

theorem raf_first_file:
  assumes "raf_size ((n, d) # fs) < 2 ^ 64" "0 \<notin> set n" "0 \<notin> set w"
  shows "raf_open a (a + of_nat (length (raf_image c m ((n, d) # fs)))) (raf_image c m ((n, d) # fs)) = Inr () \<and>
    raf_get (w @ [0]) (raf_image c m ((n, d) # fs)) =
      (if take (length n) w = n
       then Inr (of_nat (raf_data_start ((n, d) # fs)), of_nat (raf_data_start ((n, d) # fs) + length d))
       else Inl (Panic ''Couldn't find a file in initial ram disk.'')) \<and>
    take (length d) (drop (raf_data_start ((n, d) # fs)) (raf_image c m ((n, d) # fs))) = d"
proof -
  let ?img = "raf_image c m ((n, d) # fs)" and ?s = "raf_data_start ((n, d) # fs)"
  have accept: "raf_open a (a + of_nat (length ?img)) ?img = Inr ()"
    by (simp add: raf_open_def raf_image_validate raf_image_fields length_raf_image del: One_nat_def)
  obtain xs ys where xs: "length xs = 64" "?img = xs @ bytes_of_word 8 (of_nat ?s :: u64) @
      bytes_of_word 8 (of_nat (length d) :: u64) @ bytes_of_word 8 (of_nat (length n) :: u64) @ n @ ys"
    by (rule raf_first_header [of c m "(n, d)" fs]) (simp add: raf_header_size_def)
  have off: "get_le 8 ?img 64 = Inr (of_nat ?s :: u64)" unfolding xs(2) by (subst get_le_at) (simp_all add: xs(1))
  have sz: "get_le 8 ?img 72 = Inr (of_nat (length d) :: u64)"
    unfolding xs(2) append_assoc [of xs, symmetric] by (subst get_le_at) (simp_all add: xs(1))
  have len: "get_le 8 ?img 80 = Inr (of_nat (length n) :: u64)"
    unfolding xs(2) append_assoc [of xs, symmetric]
    unfolding append_assoc [of "xs @ bytes_of_word 8 (of_nat ?s :: u64)", symmetric]
    by (subst get_le_at) (simp_all add: xs(1))
  have "length n < 2 ^ 64" using assms(1) by (simp add: raf_size_def raf_data_start_def)
  then have u: "unat (of_nat (length n) :: u64) = length n" by (rule unat_of_nat_u64)
  have "drop 88 ?img = n @ ys" unfolding xs(2) by (simp add: xs(1))
  from raf_compare_prefix [OF assms(3,2) this] u
  have same: "raf_compare (w @ [0]) ?img 88 (unat (of_nat (length n) :: u64)) = Inr (take (length n) w = n)" by simp
  have "Suc (length fs) < 2 ^ 64" using assms(1) headers_le [of fs] by (simp add: raf_size_def raf_data_start_def)
  then have "unat (of_nat (length ((n, d) # fs)) :: u64) = Suc (length fs)"
    using unat_of_nat_u64 [of "length ((n, d) # fs)"] by simp
  then have "raf_get (w @ [0]) ?img = raf_scan (Suc (length fs)) (w @ [0]) ?img 64"
    unfolding raf_get_def raf_image_fields by (simp only: rbind.simps raf_header_size_def)
  moreover have "raf_scan (Suc (length fs)) (w @ [0]) ?img 64 =
      (if take (length n) w = n then Inr (of_nat ?s, of_nat (?s + length d))
       else Inl (Panic ''Couldn't find a file in initial ram disk.''))"
  proof (cases "take (length n) w = n")
    case True
    with off sz len same show ?thesis by simp
  next
    case False
    with same have "raf_compare (w @ [0]) ?img (64 + 24) (unat (of_nat (length n) :: u64)) = Inr False" by simp
    from raf_scan_repeat [OF _ this, of "Suc (length fs)"] len False show ?thesis by simp
  qed
  moreover from raf_contents [of "(n, d) # fs" c m] have "take (length d) (drop ?s ?img) = d" by simp
  ultimately show ?thesis using accept by simp
qed

text \<open>Two files: the second is not found, and a longer name is taken for the first.\<close>

lemma raf_first_file_witness:
  "raf_get [0x62, 0] (raf_image 0 0 [([0x61], [1, 2]), ([0x62], [3])]) = Inl (Panic ''Couldn't find a file in initial ram disk.'') \<and>
   raf_get [0x61, 0x62, 0] (raf_image 0 0 [([0x61], [1, 2]), ([0x62], [3])]) = Inr (114, 116)"
  using raf_first_file [of "[0x61]" "[1, 2]" "[([0x62], [3])]" "[0x62]" 0 0 0]
    raf_first_file [of "[0x61]" "[1, 2]" "[([0x62], [3])]" "[0x61, 0x62]" 0 0 0]
  by (simp add: raf_size_def raf_data_start_def raf_header_size_def)

end
