(* ===== verification/Floppy.thy ===== *)
theory Floppy
  imports Acpi
begin

text \<open>
  The program that builds the boot floppy (\<open>utils/mkrfloppy/main.cpp\<close>): the two stages, the boot loader, the
  kernel and the initial ram disk one after the other in sectors of 512 bytes, with their sizes written into
  the headers of the stages. A file is the list of its bytes, or \<open>None\<close> when it cannot be opened.
\<close>

section \<open>The program\<close>

text \<open>
  A read puts as many bytes as are left, 512 at most, into the zeroed buffer; the end of the file is noticed
  only by a read that gets fewer.
\<close>

definition sector :: "u8 list \<Rightarrow> u8 list" where
  "sector f = take 512 f @ replicate (512 - length f) 0"

function copy_file :: "u8 list \<Rightarrow> u16 \<Rightarrow> u8 list \<times> u16" where
  "copy_file f counter =
     (if length f < 512 then (sector f, counter + 1)
      else let (out, c) = copy_file (drop 512 f) (counter + 1) in (sector f @ out, c))"
  by pat_completeness auto
termination
  by (relation "measure (\<lambda>(f, c). length f)") auto

declare copy_file.simps [simp del]

text \<open>\<open>seekp\<close> and \<open>write\<close> inside the file; a \<open>uint16_t\<close> is written with its low byte first.\<close>

definition write_at :: "nat \<Rightarrow> u8 list \<Rightarrow> u8 list \<Rightarrow> u8 list" where
  "write_at pos bs out = take pos out @ bs @ drop (pos + length bs) out"

definition put_counter :: "nat \<Rightarrow> u16 \<Rightarrow> u8 list \<Rightarrow> u8 list" where
  "put_counter pos counter out = write_at pos (bytes_of_word 2 counter) out"

definition make_image :: "u8 list \<Rightarrow> u8 list \<Rightarrow> u8 list \<Rightarrow> u8 list \<Rightarrow> u8 list \<Rightarrow> u8 list" where
  "make_image stage1 stage2 booter krn initrd =
     (let out = sector stage1;
          (bs, counter) = copy_file stage2 0; out = out @ bs;
          out = put_counter 22 counter out;
          out = put_counter (512 + 8) counter out;
          (bs, booter_counter) = copy_file booter 0; out = out @ bs;
          out = put_counter (512 + 10) booter_counter out;
          (bs, kernel_counter) = copy_file krn 0; out = out @ bs;
          out = put_counter (512 + 12) kernel_counter out;
          (bs, initrd_counter) = copy_file initrd 0; out = out @ bs;
          out = put_counter (512 + 14) initrd_counter out
      in put_counter 20 (initrd_counter + kernel_counter + booter_counter + counter + 1) out)"

text \<open>
  The exit code and what the output file holds afterwards, if it was touched: it is emptied before the
  input files are opened.
\<close>

definition mkrfloppy :: "nat \<Rightarrow> bool \<Rightarrow> u8 list option \<Rightarrow> u8 list option \<Rightarrow> u8 list option \<Rightarrow> u8 list option \<Rightarrow> u8 list option \<Rightarrow>
    nat \<times> u8 list option" where
  "mkrfloppy argc output stage1 stage2 booter krn initrd =
     (if argc \<noteq> 7 then (1, None)
      else if \<not> output then (2, None)
      else case stage1 of None \<Rightarrow> (3, Some []) | Some s1 \<Rightarrow>
        (case stage2 of None \<Rightarrow> (4, Some []) | Some s2 \<Rightarrow>
        (case booter of None \<Rightarrow> (5, Some []) | Some b \<Rightarrow>
        (case krn of None \<Rightarrow> (6, Some []) | Some k \<Rightarrow>
        (case initrd of None \<Rightarrow> (7, Some []) | Some i \<Rightarrow> (0, Some (make_image s1 s2 b k i)))))))"

section \<open>What the image holds\<close>

text \<open>The sectors of a file; a file of whole sectors gets one more.\<close>

definition sectors :: "u8 list \<Rightarrow> nat" where
  "sectors f = length f div 512 + 1"

definition padded :: "u8 list \<Rightarrow> u8 list" where
  "padded f = f @ replicate (512 * sectors f - length f) 0"

lemma length_sector [simp]: "length (sector f) = 512"
  by (simp add: sector_def)

lemma length_padded [simp]: "length (padded f) = 512 * sectors f"
proof -
  have "length f < 512 * sectors f" using div_less_iff_less_mult [of 512 "length f" "sectors f"]
    by (simp add: sectors_def mult.commute)
  then show ?thesis by (simp add: padded_def)
qed

lemma copy_file_padded: "copy_file f counter = (padded f, counter + of_nat (sectors f))"
proof (induction f counter rule: copy_file.induct)
  case (1 f counter)
  show ?case
  proof (cases "length f < 512")
    case True
    then show ?thesis by (simp add: copy_file.simps padded_def sectors_def sector_def)
  next
    case False
    then have s: "sectors f = Suc (sectors (drop 512 f))" by (simp add: sectors_def le_div_geq)
    have "512 * Suc m - l = 512 * m - (l - 512)" if "512 \<le> l" for m l :: nat using that by simp
    with False have "512 * sectors f - length f = 512 * sectors (drop 512 f) - length (drop 512 f)"
      unfolding s by (simp only: not_less length_drop)
    then have "padded f = sector f @ padded (drop 512 f)"
      using False by (simp only: padded_def sector_def) (simp add: append_assoc [symmetric] del: append_assoc)
    with 1 False s show ?thesis by (simp add: copy_file.simps [of f] add.assoc)
  qed
qed

lemma length_write_at [simp]: "pos + length bs \<le> length out \<Longrightarrow> length (write_at pos bs out) = length out"
  by (simp add: write_at_def)

lemma write_at_append: "pos + length bs \<le> length out \<Longrightarrow> write_at pos bs (out @ xs) = write_at pos bs out @ xs"
  by (simp add: write_at_def)

lemma take_write_at: "n \<le> pos \<Longrightarrow> pos \<le> length out \<Longrightarrow> take n (write_at pos bs out) = take n out"
  by (simp add: write_at_def min_def)

lemma drop_write_at:
  assumes "pos + length bs \<le> n" "pos + length bs \<le> length out"
  shows "drop n (write_at pos bs out) = drop n out"
proof -
  have "min (length out) pos = pos" using assms(2) by simp
  moreover have "n - pos - length bs + (pos + length bs) = n" using assms(1) by simp
  ultimately show ?thesis using assms by (simp add: write_at_def)
qed

lemma get_le_write_at:
  "pos + length bs \<le> length out \<Longrightarrow> n = length bs \<Longrightarrow> get_le n (write_at pos bs out) pos = Inr (word_of_bytes bs)"
  by (simp add: get_le_def write_at_def)

lemma get_le_write_other:
  assumes "pos + length bs \<le> length out" "off + n \<le> pos \<or> pos + length bs \<le> off"
  shows "get_le n (write_at pos bs out) off = get_le n out off"
proof (cases "off + n \<le> pos")
  case True
  then have "take n (drop off (write_at pos bs out)) = take n (drop off out)"
    using take_write_at [of "off + n" pos out bs] assms(1) by (simp add: take_drop add.commute)
  with assms(1) show ?thesis by (simp add: get_le_def)
next
  case False
  with assms show ?thesis by (simp add: get_le_def drop_write_at)
qed

text \<open>The two stages with the six numbers written into them; all writes end below 1024.\<close>

definition headers :: "u8 list \<Rightarrow> u16 \<Rightarrow> u16 \<Rightarrow> u16 \<Rightarrow> u16 \<Rightarrow> u8 list" where
  "headers out n2 nb nk ni =
     put_counter 20 (ni + nk + nb + n2 + 1) (put_counter 526 ni (put_counter 524 nk (put_counter 522 nb
       (put_counter 520 n2 (put_counter 22 n2 out)))))"

lemma put_counter_length [simp]: "pos + 2 \<le> length out \<Longrightarrow> length (put_counter pos c out) = length out"
  by (simp add: put_counter_def)

lemma put_counter_append: "pos + 2 \<le> length out \<Longrightarrow> put_counter pos c (out @ xs) = put_counter pos c out @ xs"
  by (simp add: put_counter_def write_at_append)

lemma get_put_counter: "pos + 2 \<le> length out \<Longrightarrow> get_le 2 (put_counter pos c out) pos = Inr c"
  by (simp add: put_counter_def get_le_write_at)

lemma get_put_counter_other:
  "pos + 2 \<le> length out \<Longrightarrow> off + 2 \<le> pos \<or> pos + 2 \<le> off \<Longrightarrow> get_le 2 (put_counter pos c out) off = get_le 2 out off"
  by (simp add: put_counter_def get_le_write_other)

lemma drop_put_counter: "pos + 2 \<le> n \<Longrightarrow> pos + 2 \<le> length out \<Longrightarrow> drop n (put_counter pos c out) = drop n out"
  by (simp add: put_counter_def drop_write_at)

lemma take_put_counter: "n \<le> pos \<Longrightarrow> pos + 2 \<le> length out \<Longrightarrow> take n (put_counter pos c out) = take n out"
  by (simp add: put_counter_def take_write_at)

lemma take_drop_put_counter:
  assumes "pos + 2 \<le> length out" "off + n \<le> pos \<or> pos + 2 \<le> off"
  shows "take n (drop off (put_counter pos c out)) = take n (drop off out)"
proof (cases "off + n \<le> pos")
  case True
  with take_put_counter [of "off + n" pos out c] assms(1) show ?thesis by (simp add: take_drop add.commute)
next
  case False
  with assms show ?thesis by (simp add: drop_put_counter)
qed

lemma headers_append:
  assumes "1024 \<le> length out"
  shows "put_counter 20 (ni + nk + nb + n2 + 1) (put_counter 526 ni (put_counter 524 nk (put_counter 522 nb
      (put_counter 520 n2 (put_counter 22 n2 out) @ bs) @ ks) @ is)) = headers out n2 nb nk ni @ bs @ ks @ is"
  using assms by (simp add: headers_def put_counter_append)

lemma make_image_headers:
  "make_image s1 s2 b k i =
     headers (sector s1 @ padded s2) (of_nat (sectors s2)) (of_nat (sectors b)) (of_nat (sectors k)) (of_nat (sectors i)) @
     padded b @ padded k @ padded i"
proof -
  have "1024 \<le> length (sector s1 @ padded s2)" by (simp add: sectors_def)
  from headers_append [OF this] show ?thesis
    by (simp only: make_image_def copy_file_padded Let_def case_prod_conv add_0 numeral_plus_numeral semiring_norm)
qed

lemma get_headers:
  assumes "1024 \<le> length out"
  shows "map (get_le 2 (headers out n2 nb nk ni)) [20, 22, 520, 522, 524, 526] = map Inr [ni + nk + nb + n2 + 1, n2, n2, nb, nk, ni]"
  using assms by (simp add: headers_def get_put_counter get_put_counter_other)

lemma headers_keeps:
  assumes "1024 \<le> length out" "off + n \<le> 20 \<or> 24 \<le> off \<and> off + n \<le> 520 \<or> 528 \<le> off"
  shows "take n (drop off (headers out n2 nb nk ni)) = take n (drop off out)"
  unfolding headers_def
  by (subst take_drop_put_counter, use assms in simp, use assms in linarith)+ simp

lemma get_le_append: "off + n \<le> length xs \<Longrightarrow> get_le n (xs @ ys) off = get_le n xs off"
  by (simp add: get_le_def)

lemma take_padded: "take (length f) (padded f @ xs) = f"
  by (simp add: padded_def)


end
